(* ===== verification/Prelude.thy ===== *)
theory Prelude
  imports Main "HOL-Library.Word"
begin

text \<open>
  Prelude of the development: the machine integer types of the SDK, the outcome type in
  which every early return, exception and undefined access of the C++ is a value, the
  collections of simplification rules the component theories fill, and the two interfaces
  that several components share (cutting an index range into consecutive blocks, and
  invariants of step relations).

  Sizes and indices (\<open>size_t\<close>, \<open>uint32_t\<close>, \<open>int\<close> loop counters) are natural numbers, with
  the wrap-around written out where the code can reach it; coefficients and vector entries
  (\<open>uint64_t\<close>) are 64-bit words.
\<close>

unbundle bit_operations_syntax

type_synonym u8 = "8 word"
type_synonym u32 = "32 word"
type_synonym u64 = "64 word"
type_synonym u128 = "128 word"

lemma unat64_less: "unat (x :: u64) < 2 ^ 64"
  using unsigned_less [of x] by simp

lemma unat_two_power: "k < LENGTH('a) \<Longrightarrow> unat ((2 :: 'a :: len word) ^ k) = 2 ^ k"
  using unat_of_nat [of "2 ^ k", where 'a = 'a] by simp

named_theorems outcome_simps "unfolding of guards and of the propagation of failures"
named_theorems shape_simps "facts on block shapes and powers of two"

section \<open>Outcomes\<close>

text \<open>The enumeration \<open>gemini::error::Code\<close> of \<open>status.h\<close>, in the order of the source.\<close>

datatype error_code =
    OK | INTERNAL | INVALID_ARGUMENT | OUT_OF_RANGE | UNIMPLEMENTED
  | UNAVAILABLE | FAILED_PRECONDITION | DATA_LOSS | UNKNOWN

text \<open>
  The exceptions of the standard library that the code throws or catches.
  \<open>std::invalid_argument\<close> and \<open>std::out_of_range\<close> are logic errors,
  \<open>std::runtime_error\<close> is not.
\<close>

datatype exn = Logic_error string | Invalid_argument string | Out_of_range string
  | Runtime_error string

fun what :: "exn \<Rightarrow> string" where
  "what (Logic_error m) = m"
| "what (Invalid_argument m) = m"
| "what (Out_of_range m) = m"
| "what (Runtime_error m) = m"

fun is_logic_error :: "exn \<Rightarrow> bool" where
  "is_logic_error (Runtime_error _) = False"
| "is_logic_error _ = True"

text \<open>
  A computation that does not deliver its result ended in a returned error status, in an
  exception that left the function, or in an access C++ leaves undefined.
\<close>

datatype failure = Failed error_code string | Throws exn | Undefined string

type_synonym 'a outcome = "failure + 'a"

definition obind :: "'a outcome \<Rightarrow> ('a \<Rightarrow> 'b outcome) \<Rightarrow> 'b outcome" where
  "obind m f = (case m of Inl e \<Rightarrow> Inl e | Inr x \<Rightarrow> f x)"

text \<open>\<open>requires c e k\<close>: go on with \<open>k\<close> if the condition holds, stop with the failure otherwise.\<close>

definition requires :: "bool \<Rightarrow> failure \<Rightarrow> 'a outcome \<Rightarrow> 'a outcome" where
  "requires c e k = (if c then k else Inl e)"

lemma obind_Inl [simp, outcome_simps]: "obind (Inl e) f = Inl e"
  by (simp add: obind_def)

lemma obind_Inr [simp, outcome_simps]: "obind (Inr x) f = f x"
  by (simp add: obind_def)

lemma obind_eq_Inr_iff [outcome_simps]: "obind m f = Inr y \<longleftrightarrow> (\<exists>x. m = Inr x \<and> f x = Inr y)"
  by (auto simp: obind_def split: sum.splits)

lemma obind_assoc: "obind (obind m f) g = obind m (\<lambda>x. obind (f x) g)"
  by (auto simp: obind_def split: sum.splits)

lemma requires_True [simp, outcome_simps]: "requires True e k = k"
  by (simp add: requires_def)

lemma requires_False [simp, outcome_simps]: "requires False e k = Inl e"
  by (simp add: requires_def)

lemma requires_eq_Inr_iff [outcome_simps]: "requires c e k = Inr y \<longleftrightarrow> c \<and> k = Inr y"
  by (simp add: requires_def)

text \<open>A loop whose body can fail stops at the first failure.\<close>

fun omap :: "('a \<Rightarrow> 'b outcome) \<Rightarrow> 'a list \<Rightarrow> 'b list outcome" where
  "omap f [] = Inr []"
| "omap f (x # xs) = obind (f x) (\<lambda>y. obind (omap f xs) (\<lambda>ys. Inr (y # ys)))"

lemma omap_Inr_iff:
  "omap f xs = Inr ys \<longleftrightarrow> length ys = length xs \<and> (\<forall>i<length xs. f (xs ! i) = Inr (ys ! i))"
proof (induction xs arbitrary: ys)
  case Nil
  then show ?case by auto
next
  case (Cons x xs)
  show ?case
  proof (cases ys)
    case Nil
    then show ?thesis by (auto simp: obind_eq_Inr_iff)
  next
    case (Cons y ys')
    then show ?thesis
      by (auto simp: obind_eq_Inr_iff Cons.IH All_less_Suc2)
  qed
qed

lemma omap_length: "omap f xs = Inr ys \<Longrightarrow> length ys = length xs"
  by (simp add: omap_Inr_iff)

lemma omap_cong: "(\<And>x. x \<in> set xs \<Longrightarrow> f x = g x) \<Longrightarrow> omap f xs = omap g xs"
  by (induction xs) simp_all

lemma omap_map: "omap f (map g xs) = omap (f \<circ> g) xs"
  by (induction xs) simp_all

lemma omap_first_Inl:
  "omap f xs = Inl e \<Longrightarrow> \<exists>i < length xs. f (xs ! i) = Inl e \<and> (\<forall>j < i. \<exists>y. f (xs ! j) = Inr y)"
proof (induction xs)
  case (Cons x xs)
  show ?case
  proof (cases "f x")
    case (Inr y)
    then have "omap f xs = Inl e" using Cons.prems by (cases "omap f xs") simp_all
    with Cons.IH obtain i where "i < length xs" "f (xs ! i) = Inl e" "\<forall>j < i. \<exists>y. f (xs ! j) = Inr y" by blast
    then show ?thesis using Inr by (intro exI [of _ "Suc i"]) (auto simp: less_Suc_eq_0_disj)
  qed (use Cons.prems in auto)
qed simp

lemma omap_all_Inr: "(\<And>x. x \<in> set xs \<Longrightarrow> f x = Inr (g x)) \<Longrightarrow> omap f xs = Inr (map g xs)"
  by (induction xs) auto


section \<open>Cutting an index range into consecutive blocks\<close>

text \<open>
  The loop \<open>for (i = 0; i < n; i += len(i))\<close>, as the list of the (offset, length) pairs it
  visits. Every step function of the model is positive below \<open>n\<close>, so the test for a zero
  step, which makes the recursion well founded, never stops a loop of the code.
\<close>

function blocks_from :: "(nat \<Rightarrow> nat \<Rightarrow> nat) \<Rightarrow> nat \<Rightarrow> nat \<Rightarrow> (nat \<times> nat) list" where
  "blocks_from len n i =
     (if i < n \<and> 0 < len n i then (i, len n i) # blocks_from len n (i + len n i) else [])"
  by pat_completeness auto
termination
  by (relation "measure (\<lambda>(len, n, i). n - i)") auto

declare blocks_from.simps [simp del]

definition blocks :: "(nat \<Rightarrow> nat \<Rightarrow> nat) \<Rightarrow> nat \<Rightarrow> (nat \<times> nat) list" where
  "blocks len n = blocks_from len n 0"

definition slice :: "'a list \<Rightarrow> nat \<times> nat \<Rightarrow> 'a list" where
  "slice xs b = take (snd b) (drop (fst b) xs)"

lemma blocks_from_done: "n \<le> i \<Longrightarrow> blocks_from len n i = []"
  by (subst blocks_from.simps) simp

locale chunking =
  fixes len :: "nat \<Rightarrow> nat \<Rightarrow> nat"
  assumes len_pos: "i < n \<Longrightarrow> 0 < len n i"
    and len_fits: "i < n \<Longrightarrow> i + len n i \<le> n"
begin

lemma blocks_from_step:
  "i < n \<Longrightarrow> blocks_from len n i = (i, len n i) # blocks_from len n (i + len n i)"
  by (subst blocks_from.simps) (simp add: len_pos)

lemma block_induct [case_names past within]:
  assumes "\<And>i. n \<le> i \<Longrightarrow> P i"
    and "\<And>i. i < n \<Longrightarrow> P (i + len n i) \<Longrightarrow> P i"
  shows "P i"
proof (induction "n - i" arbitrary: i rule: less_induct)
  case less
  show ?case
  proof (cases "i < n")
    case True
    then have "n - (i + len n i) < n - i"
      using len_pos [of i n] by simp
    then have "P (i + len n i)" by (rule less)
    with True show ?thesis by (rule assms(2))
  next
    case False
    then show ?thesis by (simp add: assms(1))
  qed
qed

lemma blocks_from_slices:
  "i \<le> length xs \<Longrightarrow> concat (map (slice xs) (blocks_from len (length xs) i)) = drop i xs"
proof (induction i rule: block_induct [where n = "length xs"])
  case (past i)
  then show ?case by (simp add: blocks_from_done)
next
  case (within i)
  let ?l = "len (length xs) i"
  have "take ?l (drop i xs) @ drop (i + ?l) xs = drop i xs"
    by (metis append_take_drop_id drop_drop add.commute)
  with within len_fits [of i "length xs"] show ?case
    by (simp add: blocks_from_step slice_def)
qed

lemma blocks_slices: "concat (map (slice xs) (blocks len (length xs))) = xs"
  using blocks_from_slices [of 0 xs] by (simp add: blocks_def)

lemma blocks_from_bounds:
  "(b, l) \<in> set (blocks_from len n i) \<Longrightarrow> i \<le> b \<and> 0 < l \<and> b + l \<le> n \<and> l = len n b"
proof (induction i rule: block_induct [where n = n])
  case (past i)
  then show ?case by (simp add: blocks_from_done)
next
  case (within i)
  then show ?case
    using len_pos [of i n] len_fits [of i n] by (auto simp: blocks_from_step)
qed

lemma blocks_bounds: "(b, l) \<in> set (blocks len n) \<Longrightarrow> 0 < l \<and> b + l \<le> n \<and> l = len n b"
  unfolding blocks_def using blocks_from_bounds [of b l n 0] by simp

lemma blocks_cover: "concat (map (\<lambda>(b, l). [b..<b + l]) (blocks len n)) = [0..<n]"
proof -
  have "slice [0..<n] x = (case x of (b, l) \<Rightarrow> [b..<b + l])" if "x \<in> set (blocks len n)" for x
  proof -
    obtain b l where x: "x = (b, l)" by (cases x)
    with that blocks_bounds [of b l n] have "b + l \<le> n" by simp
    then show ?thesis by (simp add: x slice_def)
  qed
  then have eq: "map (\<lambda>(b, l). [b..<b + l]) (blocks len n) = map (slice [0..<n]) (blocks len n)"
    by (intro map_cong) simp_all
  have "concat (map (slice [0..<n]) (blocks len n)) = [0..<n]"
    using blocks_slices [of "[0..<n]"] by simp
  then show ?thesis unfolding eq .
qed

end

text \<open>Blocks of one fixed size, the last one possibly shorter.\<close>

locale uniform_chunking = chunking +
  fixes k :: nat
  assumes size_pos: "0 < k"
    and len_uniform: "i < n \<Longrightarrow> len n i = min k (n - i)"
begin

lemma blocks_from_uniform:
  "blocks_from len n (j * k) = map (\<lambda>m. (m * k, min k (n - m * k))) [j..<(n + k - 1) div k]"
proof (induction "n - j * k" arbitrary: j rule: less_induct)
  case less
  show ?case
  proof (cases "j * k < n")
    case True
    have j: "j < (n + k - 1) div k"
    proof -
      have "(j + 1) * k \<le> n + k - 1" using True size_pos by simp
      then have "(j + 1) * k div k \<le> (n + k - 1) div k" by (rule div_le_mono)
      then show ?thesis using size_pos by simp
    qed
    have rest: "blocks_from len n (j * k + len n (j * k)) = blocks_from len n (Suc j * k)"
    proof (cases "k \<le> n - j * k")
      case True
      then show ?thesis using \<open>j * k < n\<close> by (simp add: len_uniform add.commute)
    next
      case False
      then show ?thesis using \<open>j * k < n\<close> by (simp add: len_uniform blocks_from_done)
    qed
    have "n - Suc j * k < n - j * k" using True size_pos by simp
    from less [OF this] rest True j show ?thesis
      by (simp add: blocks_from_step upt_conv_Cons len_uniform)
  next
    case False
    with size_pos have "n + k - 1 < Suc j * k" by (simp add: algebra_simps)
    then have "(n + k - 1) div k \<le> j"
      using less_mult_imp_div_less [of "n + k - 1" "Suc j" k] by simp
    with False show ?thesis by (simp add: blocks_from_done)
  qed
qed

lemma blocks_uniform:
  "blocks len n = map (\<lambda>m. (m * k, min k (n - m * k))) [0..<(n + k - 1) div k]"
  using blocks_from_uniform [of n 0] by (simp add: blocks_def)

lemma length_blocks_uniform: "length (blocks len n) = (n + k - 1) div k"
  by (simp add: blocks_uniform)

end

section \<open>Invariants of step relations\<close>

locale invariant_system =
  fixes init :: "'s \<Rightarrow> bool"
    and step :: "'s \<Rightarrow> 's \<Rightarrow> bool"
    and inv :: "'s \<Rightarrow> bool"
  assumes inv_init: "init s \<Longrightarrow> inv s"
    and inv_step: "inv s \<Longrightarrow> step s t \<Longrightarrow> inv t"
begin

lemma inv_reachable: "init s \<Longrightarrow> step\<^sup>*\<^sup>* s t \<Longrightarrow> inv t"
  by (rotate_tac 1, induction rule: rtranclp_induct) (auto intro: inv_init inv_step)

end

end
