(* ===== verification/MathUtil.thy ===== *)
theory MathUtil
  imports Prelude
begin

text \<open>
  \<open>util/math.h\<close>: the integer helpers of the SDK, at the type \<open>uint64_t\<close>. Arguments are natural
  numbers below \<open>2 ^ 64\<close>; the one sum that can wrap has its wrap-around written out. The
  floating-point helpers of the header (\<open>FloorSqrt\<close>, \<open>CeilSqrt\<close>, \<open>RInt\<close>) are not modelled.
\<close>

definition CeilDiv :: "nat \<Rightarrow> nat \<Rightarrow> nat" where
  "CeilDiv a b = ((a + b + (2 ^ 64 - 1)) mod 2 ^ 64) div b"

definition IsTwoPower :: "nat \<Rightarrow> bool" where
  "IsTwoPower v \<longleftrightarrow> v \<noteq> 0 \<and> \<not> (v AND (v - 1)) \<noteq> 0"

fun Log2 :: "nat \<Rightarrow> nat outcome" where
  "Log2 x = (if x = 0 then Inl (Throws (Invalid_argument ''Log2(0)''))
             else if x = 1 then Inr 0
             else obind (Log2 (x div 2)) (\<lambda>l. Inr (1 + l)))"

declare Log2.simps [simp del]

text \<open>
  The call of \<open>Log2\<close> is reached with an argument above 2 only, so its exception cannot occur; that
  branch of the case distinction is never taken.
\<close>

definition NextPow2 :: "nat \<Rightarrow> nat" where
  "NextPow2 a = (if a \<le> 2 \<or> IsTwoPower a then a
                 else (case Log2 a of Inr l \<Rightarrow> 2 ^ (l + 1) | Inl _ \<Rightarrow> 0))"

text \<open>
  The loop of \<open>GCD\<close>: \<open>r = b % a; a = b; a = r;\<close>. The second assignment is overwritten by the
  third, and \<open>b\<close> never changes.
\<close>

function gcd_loop :: "nat \<Rightarrow> nat \<Rightarrow> nat" where
  "gcd_loop a b = (if 1 < a then let r = b mod a in gcd_loop r b else b)"
  by pat_completeness auto
termination
  by (relation "measure fst") auto

declare gcd_loop.simps [simp del]

definition GCD_mvp :: "nat \<Rightarrow> nat \<Rightarrow> nat" where
  "GCD_mvp a b = (if b < a then gcd_loop b a else gcd_loop a b)"

definition LCM_mvp :: "nat \<Rightarrow> nat \<Rightarrow> nat" where
  "LCM_mvp a b = (let g = GCD_mvp a b in (a * b) mod 2 ^ 64 div g)"

section \<open>Rounded-up division\<close>

lemma CeilDiv_eq: "0 < a + b \<Longrightarrow> a + b \<le> 2 ^ 64 \<Longrightarrow> CeilDiv a b = (a + b - 1) div b"
proof -
  assume "0 < a + b" "a + b \<le> 2 ^ 64"
  then have "a + b + (2 ^ 64 - 1) = (a + b - 1) + 2 ^ 64" "a + b - 1 < 2 ^ 64"
    by simp_all
  then have "(a + b + (2 ^ 64 - 1)) mod 2 ^ 64 = a + b - 1"
    by (metis mod_add_self2 mod_less)
  then show ?thesis by (simp add: CeilDiv_def)
qed

lemma CeilDiv_bounds:
  assumes "0 < b" "a + b \<le> 2 ^ 64"
  shows "a \<le> CeilDiv a b * b" and "CeilDiv a b * b < a + b"
proof -
  define q r where "q = (a + b - 1) div b" and "r = (a + b - 1) mod b"
  have "q * b + r = a + b - 1" "r < b" using assms by (simp_all add: q_def r_def)
  moreover have "CeilDiv a b = q" using assms by (simp add: CeilDiv_eq q_def)
  ultimately show "a \<le> CeilDiv a b * b" "CeilDiv a b * b < a + b" using assms by simp_all
qed

lemma CeilDiv_mult: "0 < b \<Longrightarrow> a * b + b \<le> 2 ^ 64 \<Longrightarrow> CeilDiv (a * b) b = a"
  using CeilDiv_bounds [of b "a * b"]
  by (metis add.commute le_antisym less_Suc_eq_le mult_Suc mult_le_cancel2 mult_less_cancel2)

lemma CeilDiv_pos: "0 < a \<Longrightarrow> 0 < b \<Longrightarrow> a + b \<le> 2 ^ 64 \<Longrightarrow> 0 < CeilDiv a b"
  using CeilDiv_bounds [of b a] by (cases "CeilDiv a b") auto

section \<open>Powers of two\<close>

lemma Log2_power: "0 < x \<Longrightarrow> \<exists>l. Log2 x = Inr l \<and> 2 ^ l \<le> x \<and> x < 2 ^ (l + 1)"
proof (induction x rule: Log2.induct)
  case (1 x)
  show ?case
  proof (cases "x = 1")
    case True
    then show ?thesis by (auto simp: Log2.simps [of "Suc 0"])
  next
    case False
    with "1" obtain l where l: "Log2 (x div 2) = Inr l" "2 ^ l \<le> x div 2" "x div 2 < 2 ^ (l + 1)"
      by fastforce
    then have "Log2 x = Inr (1 + l)" "2 ^ (1 + l) \<le> x" "x < 2 ^ (1 + l + 1)"
      using False "1.prems" by (simp_all add: Log2.simps [of x])
    then show ?thesis by blast
  qed
qed

lemma power_interval_unique:
  assumes "2 ^ l \<le> x" "x < 2 ^ (l + 1)" "2 ^ m \<le> x" "x < (2 :: nat) ^ (m + 1)"
  shows "l = m"
proof -
  have "(2 :: nat) ^ l < 2 ^ (m + 1)" "(2 :: nat) ^ m < 2 ^ (l + 1)" using assms by linarith+
  then have "l < m + 1" "m < l + 1" by (metis one_less_numeral_iff power_strict_increasing_iff semiring_norm(76))+
  then show ?thesis by simp
qed

lemma Log2_eqI: "2 ^ l \<le> x \<Longrightarrow> x < 2 ^ (l + 1) \<Longrightarrow> Log2 x = Inr l"
proof -
  assume l: "2 ^ l \<le> x" "x < 2 ^ (l + 1)"
  then have "0 < x" by (metis gr0I not_le power_eq_0_iff zero_neq_numeral less_numeral_extra(3) le_zero_eq)
  with Log2_power obtain m where "Log2 x = Inr m" "2 ^ m \<le> x" "x < 2 ^ (m + 1)" by blast
  with l power_interval_unique show ?thesis by metis
qed

lemma Log2_pow2 [shape_simps]: "Log2 (2 ^ k) = Inr k"
  by (rule Log2_eqI) simp_all

lemma Log2_pow2_minus_1 [shape_simps]: "0 < k \<Longrightarrow> Log2 (2 ^ k - 1) = Inr (k - 1)"
proof (rule Log2_eqI)
  assume "0 < k"
  then obtain j where k: "k = Suc j" by (cases k) auto
  have "(1 :: nat) \<le> 2 ^ j" by simp
  then show "2 ^ (k - 1) \<le> (2 :: nat) ^ k - 1" by (simp add: k)
  show "(2 :: nat) ^ k - 1 < 2 ^ (k - 1 + 1)" by (simp add: k)
qed

lemma and_pred_eq_0_iff: "v \<noteq> 0 \<Longrightarrow> v AND (v - 1) = 0 \<longleftrightarrow> (\<exists>k. v = 2 ^ k)" for v :: nat
proof (induction v rule: less_induct)
  case (less v)
  show ?case
  proof (cases "even v")
    case True
    then obtain w where w: "v = 2 * w" by blast
    with less.prems have "w \<noteq> 0" "w < v" by auto
    have "v - 1 = 2 * (w - 1) + 1" using w \<open>w \<noteq> 0\<close> by simp
    then have "v AND (v - 1) = 2 * (w AND (w - 1))"
      by (simp add: w and_rec [of "2 * w"])
    moreover have "(\<exists>k. v = 2 ^ k) \<longleftrightarrow> (\<exists>k. w = 2 ^ k)"
    proof
      assume "\<exists>k. v = 2 ^ k"
      then obtain k where k: "v = 2 ^ k" by blast
      then show "\<exists>k. w = 2 ^ k" using w by (cases k) auto
    qed (auto simp: w intro: exI [of _ "Suc _"])
    ultimately show ?thesis using less.IH [OF \<open>w < v\<close> \<open>w \<noteq> 0\<close>] by simp
  next
    case False
    then obtain w where w: "v = 2 * w + 1" by (auto elim: oddE)
    then have "v AND (v - 1) = 2 * w"
      by (simp add: and_rec [of "Suc (2 * w)"])
    moreover have "(\<exists>k. v = 2 ^ k) \<longleftrightarrow> w = 0"
    proof
      assume "\<exists>k. v = 2 ^ k"
      then obtain k where k: "v = 2 ^ k" by blast
      with w have "k = 0" by (metis dvd_power even_plus_one_iff even_mult_iff dvd_triv_left neq0_conv)
      then show "w = 0" using w k by simp
    qed (auto simp: w intro: exI [of _ 0])
    ultimately show ?thesis by simp
  qed
qed

lemma IsTwoPower_iff: "IsTwoPower v \<longleftrightarrow> (\<exists>k. v = 2 ^ k)"
  using and_pred_eq_0_iff [of v] by (auto simp: IsTwoPower_def)

lemma IsTwoPower_pow2 [simp, shape_simps]: "IsTwoPower (2 ^ k)"
  by (auto simp: IsTwoPower_iff)

lemma NextPow2_pow2 [simp, shape_simps]: "NextPow2 (2 ^ k) = 2 ^ k"
  by (simp add: NextPow2_def)

lemma NextPow2_power:
  assumes "0 < a"
  obtains k where "NextPow2 a = 2 ^ k" "a \<le> 2 ^ k" "2 ^ k < 2 * a"
proof (cases "a \<le> 2 \<or> IsTwoPower a")
  case True
  then have "IsTwoPower a" using assms
    by (auto simp: IsTwoPower_iff le_Suc_eq numeral_2_eq_2 intro: exI [of _ 0] exI [of _ 1])
  then obtain k where "a = 2 ^ k" by (auto simp: IsTwoPower_iff)
  then show ?thesis using True assms that [of k] by (simp add: NextPow2_def)
next
  case False
  with Log2_power [of a] assms obtain l where
    l: "Log2 a = Inr l" "2 ^ l \<le> a" "a < 2 ^ (l + 1)" by blast
  with False have "2 ^ l \<noteq> a" by auto
  with l False show ?thesis using that [of "l + 1"] by (simp add: NextPow2_def)
qed

lemma NextPow2_pos: "0 < a \<Longrightarrow> 0 < NextPow2 a"
  by (metis NextPow2_power zero_less_numeral zero_less_power)

lemma NextPow2_mono_pow2: "0 < a \<Longrightarrow> a \<le> 2 ^ k \<Longrightarrow> NextPow2 a \<le> 2 ^ k"
proof -
  assume "0 < a" "a \<le> 2 ^ k"
  from \<open>0 < a\<close> obtain j where j: "NextPow2 a = 2 ^ j" "2 ^ j < 2 * a" by (rule NextPow2_power)
  with \<open>a \<le> 2 ^ k\<close> have "(2 :: nat) ^ j < 2 ^ Suc k" by simp
  then have "j \<le> k" by (metis less_Suc_eq_le one_less_numeral_iff power_strict_increasing_iff semiring_norm(76))
  then show ?thesis using j by simp
qed

section \<open>Greatest common divisor as written\<close>

lemma gcd_loop_const: "gcd_loop a b = b"
  by (induction a b rule: gcd_loop.induct) (subst gcd_loop.simps, simp)

text \<open>
  \<open>GCD\<close> as written does not compute the greatest common divisor: for all arguments it returns the
  larger one, and \<open>LCM\<close> of positive arguments whose product fits in 64 bits returns the smaller one.
\<close>

theorem GCD_mvp_max:
  "GCD_mvp a b = max a b \<and> (a * b mod 2 ^ 64 = a * b \<and> 0 < a \<and> 0 < b \<longrightarrow> LCM_mvp a b = min a b)"
proof -
  have g: "GCD_mvp a b = max a b" by (auto simp: GCD_mvp_def gcd_loop_const max_def)
  have "a * b div max a b = min a b" if "0 < a" "0 < b"
    using that by (cases "a \<le> b") (simp_all add: max_def min_def)
  then show ?thesis by (simp add: g LCM_mvp_def Let_def)
qed

theorem GCD_mvp_max_witness: "GCD_mvp 12 18 = 18 \<and> LCM_mvp 12 18 = 12"
  using GCD_mvp_max [of 12 18] by simp

text \<open>
  \<open>NextPow2\<close> of a positive number is the least power of two that is not below it.
\<close>

theorem NextPow2_least:
  assumes "0 < a"
  shows "\<exists>k. NextPow2 a = 2 ^ k \<and> a \<le> 2 ^ k \<and> (\<forall>j. a \<le> 2 ^ j \<longrightarrow> NextPow2 a \<le> 2 ^ j)"
  using NextPow2_power [OF assms] NextPow2_mono_pow2 [OF assms] by metis

theorem NextPow2_least_witness:
  "\<exists>k. NextPow2 1000 = 2 ^ k \<and> (1000 :: nat) \<le> 2 ^ k \<and> (\<forall>j. (1000 :: nat) \<le> 2 ^ j \<longrightarrow> NextPow2 1000 \<le> 2 ^ j)"
  using NextPow2_least [of 1000] by simp

end
