(* ===== verification/Shapes.thy ===== *)
theory Shapes
  imports MathUtil
begin

text \<open>
  \<open>util/defines.h\<close>, the meta information of \<open>types.h\<close> and \<open>util/common.cc\<close>: how a matrix is cut
  into submatrices that fill one polynomial each, and how many ciphertexts a vector needs.
\<close>

definition kLogPolyDegree :: nat where "kLogPolyDegree = 12"
definition kPolyDegree :: nat where "kPolyDegree = 4096"
definition kMaxNumRows :: nat where "kMaxNumRows = kPolyDegree"
definition kMaxNumCols :: nat where "kMaxNumCols = 16384"
definition kNumModulus :: nat where "kNumModulus = 3"
definition kSecretShareBitLen :: nat where "kSecretShareBitLen = 64"

definition kModulus :: "u64 list" where
  "kModulus = [push_bit 34 1 OR push_bit 27 1 OR 1,
               push_bit 34 1 OR push_bit 19 1 OR 1,
               push_bit 38 1 OR push_bit 23 1 OR 1]"

definition MVP_VERSION :: string where "MVP_VERSION = ''1.2.0''"

record MVPMetaInfo =
  mi_is_transposed :: bool
  mi_base_mod_nbits :: nat
  mi_nrows :: nat
  mi_ncols :: nat

text \<open>A transposed matrix exchanges the roles of rows and columns.\<close>

definition ExpectMatVecInputLen :: "MVPMetaInfo \<Rightarrow> nat" where
  "ExpectMatVecInputLen meta = (if mi_is_transposed meta then mi_nrows meta else mi_ncols meta)"

definition ExpectMatVecOutputLen :: "MVPMetaInfo \<Rightarrow> nat" where
  "ExpectMatVecOutputLen meta = (if mi_is_transposed meta then mi_ncols meta else mi_nrows meta)"

definition GetSubmatrixShape :: "MVPMetaInfo \<Rightarrow> nat \<Rightarrow> (nat \<times> nat) outcome" where
  "GetSubmatrixShape meta N =
     (let ncols = (if mi_is_transposed meta then mi_nrows meta else mi_ncols meta);
          nrows = (if mi_is_transposed meta then mi_ncols meta else mi_nrows meta)
      in if ncols < 1 then Inl (Throws (Invalid_argument ''GetSubmatrixShape: invalid ncols''))
      else if nrows < 1 \<or> N < nrows
        then Inl (Throws (Invalid_argument ''GetSubmatrixShape: invalid nrows''))
      else let ncols = min N ncols; nrows = NextPow2 nrows
      in obind (Log2 (N div ncols)) (\<lambda>l.
         let subnrows = min nrows (2 ^ l)
         in if subnrows * ncols \<le> N
            then let subnrows = max 1 (subnrows div 2)
                 in Inr (subnrows, N div NextPow2 subnrows)
            else Inr (subnrows, ncols)))"

lemma kModulus_values: "kModulus = [17314086913, 17180393473, 274886295553]"
  by (simp add: kModulus_def)

lemma kPolyDegree_pow2: "kPolyDegree = 2 ^ kLogPolyDegree"
  by (simp add: kPolyDegree_def kLogPolyDegree_def)

section \<open>The shape in closed form\<close>

text \<open>
  The halving branch is always taken, so the first component is a power of two that is at most
  half the (padded) number of rows, and the submatrix fills the polynomial exactly.
\<close>

definition shape_exponent :: "nat \<Rightarrow> nat \<Rightarrow> nat \<Rightarrow> nat" where
  "shape_exponent N nrows ncols =
     (case (Log2 (NextPow2 nrows), Log2 (N div min N ncols)) of
        (Inr k, Inr l) \<Rightarrow> min k l - 1 | _ \<Rightarrow> 0)"

lemma shape_exponent_eq:
  assumes "NextPow2 nrows = 2 ^ k" "Log2 (N div min N ncols) = Inr l"
  shows "shape_exponent N nrows ncols = min k l - 1"
  using assms by (simp add: shape_exponent_def Log2_pow2)

lemma shape_core:
  fixes K nrows ncols :: nat
  defines "N \<equiv> 2 ^ K"
  assumes nrows: "0 < nrows" "nrows \<le> N" and ncols: "0 < ncols"
  obtains k l where "NextPow2 nrows = 2 ^ k" "k \<le> K" "Log2 (N div min N ncols) = Inr l" "l \<le> K"
    "2 ^ l * min N ncols \<le> N" "N < 2 ^ (l + 1) * min N ncols"
proof -
  obtain k where k: "NextPow2 nrows = 2 ^ k" using nrows(1) by (rule NextPow2_power)
  have "(2 :: nat) ^ k \<le> 2 ^ K"
    using NextPow2_mono_pow2 [of nrows K] nrows k by (simp add: N_def)
  then have kK: "k \<le> K" by simp
  let ?c = "min N ncols"
  have c: "0 < ?c" "?c \<le> N" using ncols by (simp_all add: N_def)
  then have "0 < N div ?c" by (simp add: div_greater_zero_iff)
  then obtain l where l: "Log2 (N div ?c) = Inr l" "2 ^ l \<le> N div ?c" "N div ?c < 2 ^ (l + 1)"
    using Log2_power by blast
  have "2 ^ l * ?c \<le> N div ?c * ?c" using l(2) by (rule mult_le_mono1)
  also have "\<dots> \<le> N" by simp
  finally have le: "2 ^ l * ?c \<le> N" .
  have lt: "N < 2 ^ (l + 1) * ?c" using l(3) c(1) by (simp add: div_less_iff_less_mult)
  have "(2 :: nat) ^ l \<le> 2 ^ K" using le c(1) by (metis N_def le_trans mult_le_mono2 Suc_leI mult.right_neutral One_nat_def)
  then have "l \<le> K" by simp
  with k kK l(1) le lt that show ?thesis by blast
qed

lemma GetSubmatrixShape_closed:
  fixes K :: nat
  assumes rows: "0 < ExpectMatVecOutputLen meta" "ExpectMatVecOutputLen meta \<le> 2 ^ K"
    and cols: "0 < ExpectMatVecInputLen meta"
  defines "e \<equiv> shape_exponent (2 ^ K) (ExpectMatVecOutputLen meta) (ExpectMatVecInputLen meta)"
  shows "GetSubmatrixShape meta (2 ^ K) = Inr (2 ^ e, 2 ^ (K - e))" and "e \<le> K"
proof -
  let ?r = "ExpectMatVecOutputLen meta" and ?c = "ExpectMatVecInputLen meta" and ?N = "2 ^ K :: nat"
  obtain k l where kl: "NextPow2 ?r = 2 ^ k" "k \<le> K" "Log2 (?N div min ?N ?c) = Inr l" "l \<le> K"
    "2 ^ l * min ?N ?c \<le> ?N"
    using shape_core [of ?r K ?c] rows cols by metis
  have e: "e = min k l - 1" unfolding e_def using kl by (intro shape_exponent_eq) auto
  then show "e \<le> K" using kl by simp
  have m: "min (2 ^ k) (2 ^ l) = (2 :: nat) ^ min k l" by (simp add: min_def)
  have "2 ^ min k l * min ?N ?c \<le> 2 ^ l * min ?N ?c" by (intro mult_le_mono1) simp
  with kl have fits: "2 ^ min k l * min ?N ?c \<le> ?N" by linarith
  have half: "max 1 (2 ^ min k l div 2) = (2 :: nat) ^ e"
    unfolding e by (cases "min k l") simp_all
  have "?N div NextPow2 (2 ^ e) = 2 ^ (K - e)"
    using \<open>e \<le> K\<close> by (simp add: power_diff)
  then show "GetSubmatrixShape meta (2 ^ K) = Inr (2 ^ e, 2 ^ (K - e))"
    using rows cols kl m fits half
    by (simp add: GetSubmatrixShape_def ExpectMatVecOutputLen_def ExpectMatVecInputLen_def Let_def)
qed

text \<open>At least the used columns fit in a row of the submatrix.\<close>

lemma shape_exponent_cols:
  fixes K :: nat
  assumes "0 < nrows" "nrows \<le> 2 ^ K" "0 < ncols"
  shows "min (2 ^ K) ncols \<le> 2 ^ (K - shape_exponent (2 ^ K) nrows ncols)"
proof -
  let ?N = "2 ^ K :: nat"
  obtain k l where kl: "NextPow2 nrows = 2 ^ k" "k \<le> K" "Log2 (?N div min ?N ncols) = Inr l" "l \<le> K"
    "2 ^ l * min ?N ncols \<le> ?N"
    using shape_core [of nrows K ncols] assms by metis
  let ?e = "shape_exponent ?N nrows ncols"
  have e: "?e = min k l - 1" using kl by (intro shape_exponent_eq) auto
  have "2 ^ ?e * min ?N ncols \<le> 2 ^ l * min ?N ncols" by (intro mult_le_mono1) (simp add: e)
  also have "\<dots> \<le> ?N" by fact
  also have "?N = 2 ^ ?e * 2 ^ (K - ?e)"
    using e kl by (simp flip: power_add)
  finally show ?thesis by simp
qed

lemma shape_exponent_rows:
  fixes K :: nat
  assumes "2 \<le> nrows" "nrows \<le> 2 ^ K" "0 < ncols" "NextPow2 nrows = 2 ^ k"
  shows "shape_exponent (2 ^ K) nrows ncols < k"
proof -
  let ?N = "2 ^ K :: nat"
  have "0 < nrows" using assms by simp
  then obtain k' l where kl: "NextPow2 nrows = 2 ^ k'" "Log2 (?N div min ?N ncols) = Inr l"
    using shape_core [of nrows K ncols] assms by metis
  have "k' = k" using kl assms by simp
  obtain j where "NextPow2 nrows = 2 ^ j" "nrows \<le> 2 ^ j" using NextPow2_power \<open>0 < nrows\<close> by metis
  with assms have "k \<noteq> 0" by (metis One_nat_def Suc_1 not_less_eq_eq power_0)
  moreover have "shape_exponent ?N nrows ncols = min k l - 1"
    using kl \<open>k' = k\<close> by (intro shape_exponent_eq) auto
  ultimately show ?thesis by simp
qed

text \<open>For a vector longer than the polynomial the submatrix is a single row.\<close>

lemma shape_exponent_wide:
  fixes K :: nat
  assumes "0 < nrows" "nrows \<le> 2 ^ K" "2 ^ K \<le> ncols"
  shows "shape_exponent (2 ^ K) nrows ncols = 0"
proof -
  have "Log2 ((2 ^ K) div min (2 ^ K) ncols) = Inr 0"
    using assms Log2_pow2 [of 0] by (simp add: min_absorb1)
  then show ?thesis
    by (auto simp: shape_exponent_def split: sum.splits)
qed

text \<open>
  The number of ciphertexts of a vector depends on its length only: the encryptor, which may not
  know the number of rows, and the matrix holder cut the vector at the same places.
\<close>

lemma CeilDiv_le_1: "0 < a \<Longrightarrow> a \<le> b \<Longrightarrow> a + b \<le> 2 ^ 64 \<Longrightarrow> CeilDiv a b = 1"
proof -
  assume a: "0 < a" "a \<le> b" "a + b \<le> 2 ^ 64"
  then have "CeilDiv a b * b < 2 * b" using CeilDiv_bounds(2) [of b a] by linarith
  then have "CeilDiv a b < 2" by (simp only: mult_less_cancel2)
  with a CeilDiv_pos [of a b] show ?thesis by simp
qed

lemma num_ciphertexts:
  fixes K :: nat
  assumes "0 < nrows" "nrows \<le> 2 ^ K" "0 < ncols" "ncols + 2 ^ K \<le> 2 ^ 64"
  shows "CeilDiv ncols (2 ^ (K - shape_exponent (2 ^ K) nrows ncols)) = CeilDiv ncols (2 ^ K)"
proof (cases "ncols < 2 ^ K")
  case True
  let ?w = "2 ^ (K - shape_exponent (2 ^ K) nrows ncols) :: nat"
  have "ncols \<le> ?w" using shape_exponent_cols [of nrows K ncols] assms True by simp
  moreover have "?w \<le> 2 ^ K" by simp
  ultimately have "CeilDiv ncols ?w = 1" "CeilDiv ncols (2 ^ K) = 1"
    using assms True by (intro CeilDiv_le_1; linarith)+
  then show ?thesis by simp
next
  case False
  then show ?thesis using assms shape_exponent_wide [of nrows K ncols] by simp
qed


section \<open>Cutting a vector into subvectors\<close>

text \<open>
  The loop of \<open>EncodeVector\<close> (in both implementations): subvector \<open>sv\<close> is the range from
  \<open>sv * subvec_len\<close> to \<open>min (bgn + subvec_len) vector_len\<close>.
\<close>

definition subvec_range :: "nat \<Rightarrow> nat \<Rightarrow> nat \<Rightarrow> nat \<times> nat" where
  "subvec_range subvec_len vector_len sv =
     (let bgn = sv * subvec_len; end = min (bgn + subvec_len) vector_len in (bgn, end - bgn))"

definition subvectors :: "nat \<Rightarrow> 'a list \<Rightarrow> 'a list list" where
  "subvectors subvec_len input =
     map (\<lambda>sv. slice input (subvec_range subvec_len (length input) sv))
       [0..<CeilDiv (length input) subvec_len]"

definition subvec_step :: "nat \<Rightarrow> nat \<Rightarrow> nat \<Rightarrow> nat" where
  "subvec_step k n i = min (Suc k) (n - i)"

interpretation subvec: uniform_chunking "subvec_step k" "Suc k" for k
  by unfold_locales (auto simp: subvec_step_def)

lemma subvec_blocks:
  assumes "0 < k" "n + k \<le> 2 ^ 64"
  shows "map (subvec_range k n) [0..<CeilDiv n k] = blocks (subvec_step (k - 1)) n"
proof -
  have "CeilDiv n k = (n + Suc (k - 1) - 1) div Suc (k - 1)"
    using assms by (simp add: CeilDiv_eq)
  moreover have "min (x + k) n - x = min k (n - x)" for x by linarith
  ultimately show ?thesis
    using assms(1) by (simp add: subvec.blocks_uniform subvec_range_def Let_def)
qed

lemma subvectors_blocks:
  assumes "0 < k" "length xs + k \<le> 2 ^ 64"
  shows "subvectors k xs = map (slice xs) (blocks (subvec_step (k - 1)) (length xs))"
proof -
  have "subvectors k xs =
      map (slice xs) (map (subvec_range k (length xs)) [0..<CeilDiv (length xs) k])"
    by (simp add: subvectors_def)
  then show ?thesis by (simp only: subvec_blocks [OF assms])
qed

lemma concat_subvectors:
  assumes "0 < k" "length xs + k \<le> 2 ^ 64"
  shows "concat (subvectors k xs) = xs"
  using assms by (simp add: subvectors_blocks subvec.blocks_slices)

lemma subvectors_length: "length (subvectors k xs) = CeilDiv (length xs) k"
  by (simp add: subvectors_def)

lemma subvectors_bounds:
  assumes "0 < k" "length xs + k \<le> 2 ^ 64" "v \<in> set (subvectors k xs)"
  shows "0 < length v \<and> length v \<le> k"
proof -
  obtain b l where bl: "(b, l) \<in> set (blocks (subvec_step (k - 1)) (length xs))" "v = slice xs (b, l)"
    using assms by (auto simp: subvectors_blocks)
  with subvec.blocks_bounds [of b l "k - 1" "length xs"] assms(1) show ?thesis
    by (auto simp: slice_def subvec_step_def)
qed

section \<open>Properties\<close>

text \<open>
  The submatrix shape: for every matrix whose output length fits in the polynomial degree \<open>2 ^ K\<close>,
  \<open>GetSubmatrixShape\<close> returns powers of two that fill the polynomial exactly, with at most as many
  rows as the padded matrix and at least as many columns as are used; every other shape with a
  positive input length is rejected with \<open>std::invalid_argument\<close>.
\<close>

theorem submatrix_shape:
  assumes "0 < ExpectMatVecInputLen meta"
  shows "if 0 < ExpectMatVecOutputLen meta \<and> ExpectMatVecOutputLen meta \<le> 2 ^ K
    then \<exists>e \<le> K. GetSubmatrixShape meta (2 ^ K) = Inr (2 ^ e, 2 ^ (K - e)) \<and>
        2 ^ e \<le> NextPow2 (ExpectMatVecOutputLen meta) \<and>
        min (2 ^ K) (ExpectMatVecInputLen meta) \<le> 2 ^ (K - e)
    else GetSubmatrixShape meta (2 ^ K) = Inl (Throws (Invalid_argument ''GetSubmatrixShape: invalid nrows''))"
proof (cases "0 < ExpectMatVecOutputLen meta \<and> ExpectMatVecOutputLen meta \<le> 2 ^ K")
  case True
  let ?r = "ExpectMatVecOutputLen meta" and ?c = "ExpectMatVecInputLen meta"
  define e where "e = shape_exponent (2 ^ K) ?r ?c"
  have "GetSubmatrixShape meta (2 ^ K) = Inr (2 ^ e, 2 ^ (K - e))" "e \<le> K"
    using GetSubmatrixShape_closed [of meta K] True assms by (simp_all add: e_def)
  moreover have "min (2 ^ K) ?c \<le> 2 ^ (K - e)"
    using shape_exponent_cols [of ?r K ?c] True assms by (simp add: e_def)
  moreover have "2 ^ e \<le> NextPow2 ?r"
  proof (cases "?r = 1")
    case True
    obtain k l where kl: "NextPow2 ?r = 2 ^ k" "Log2 (2 ^ K div min (2 ^ K) ?c) = Inr l"
      using shape_core [of ?r K ?c] assms \<open>0 < ?r \<and> ?r \<le> 2 ^ K\<close> by metis
    moreover have "NextPow2 ?r = 1" using True by (simp add: NextPow2_def)
    ultimately have "(2 :: nat) ^ k = 1" by simp
    then have "k = 0" by (cases k) simp_all
    then have "e = 0" using shape_exponent_eq [OF kl] by (simp add: e_def)
    then show ?thesis using kl by simp
  next
    case False
    obtain k where "NextPow2 ?r = 2 ^ k" using True NextPow2_power by metis
    then show ?thesis
      using shape_exponent_rows [of ?r K ?c k] True False assms by (simp add: e_def)
  qed
  ultimately show ?thesis using True by auto
next
  case False
  then show ?thesis using assms
    by (auto simp: GetSubmatrixShape_def ExpectMatVecOutputLen_def ExpectMatVecInputLen_def Let_def)
qed

theorem submatrix_shape_witness:
  "\<exists>e \<le> 12. GetSubmatrixShape \<lparr>mi_is_transposed = False, mi_base_mod_nbits = 64, mi_nrows = 100, mi_ncols = 300\<rparr> (2 ^ 12)
      = Inr (2 ^ e, 2 ^ (12 - e)) \<and> 2 ^ e \<le> NextPow2 100 \<and> min (2 ^ 12) 300 \<le> (2 :: nat) ^ (12 - e)"
  using submatrix_shape [of "\<lparr>mi_is_transposed = False, mi_base_mod_nbits = 64, mi_nrows = 100, mi_ncols = 300\<rparr>" 12]
  by (simp add: ExpectMatVecOutputLen_def ExpectMatVecInputLen_def)

text \<open>
  The number of ciphertexts of a vector: cut into subvectors of the submatrix width, a vector gives
  the same number of ciphertexts, and the same subvectors, for every number of rows. The encryptor, who
  knows the vector, and the matrix holder therefore agree.
\<close>

theorem ciphertexts_of_vector:
  assumes "0 < nrows" "nrows \<le> 2 ^ K" "0 < length xs" "length xs + 2 ^ K \<le> 2 ^ 64"
    and "GetSubmatrixShape \<lparr>mi_is_transposed = False, mi_base_mod_nbits = nb, mi_nrows = nrows, mi_ncols = length xs\<rparr>
        (2 ^ K) = Inr (r, w)"
  shows "subvectors w xs = subvectors (2 ^ K) xs \<and> concat (subvectors w xs) = xs \<and>
    length (subvectors w xs) = CeilDiv (length xs) (2 ^ K)"
proof (intro conjI)
  let ?meta = "\<lparr>mi_is_transposed = False, mi_base_mod_nbits = nb, mi_nrows = nrows, mi_ncols = length xs\<rparr>"
  let ?e = "shape_exponent (2 ^ K) nrows (length xs)"
  have w: "w = 2 ^ (K - ?e)"
    using GetSubmatrixShape_closed [of ?meta K] assms
    by (simp add: ExpectMatVecOutputLen_def ExpectMatVecInputLen_def)
  have "w \<le> 2 ^ K" by (simp add: w)
  then have "length xs + w \<le> 2 ^ 64" using assms(4) by linarith
  then show "concat (subvectors w xs) = xs" by (intro concat_subvectors) (simp_all add: w)
  show len: "length (subvectors w xs) = CeilDiv (length xs) (2 ^ K)"
    using num_ciphertexts [of nrows K "length xs"] assms by (simp add: subvectors_length w)
  show "subvectors w xs = subvectors (2 ^ K) xs"
  proof (cases "length xs < 2 ^ K")
    case True
    have "length xs \<le> w" using shape_exponent_cols [of nrows K "length xs"] assms True by (simp add: w)
    moreover have "CeilDiv (length xs) (2 ^ K) = 1"
      using assms True by (intro CeilDiv_le_1) simp_all
    ultimately show ?thesis
      using len True by (simp add: subvectors_def subvec_range_def slice_def Let_def)
  next
    case False
    then show ?thesis using shape_exponent_wide [of nrows K "length xs"] assms by (simp add: w)
  qed
qed

theorem ciphertexts_of_vector_witness:
  "\<exists>r w. GetSubmatrixShape \<lparr>mi_is_transposed = False, mi_base_mod_nbits = 64, mi_nrows = 3, mi_ncols = length [5, 6, 7, 8, 9 :: u64]\<rparr> (2 ^ 2)
      = Inr (r, w) \<and> subvectors w [5, 6, 7, 8, 9 :: u64] = subvectors (2 ^ 2) [5, 6, 7, 8, 9] \<and>
      concat (subvectors w [5, 6, 7, 8, 9 :: u64]) = [5, 6, 7, 8, 9] \<and>
      length (subvectors w [5, 6, 7, 8, 9 :: u64]) = CeilDiv (length [5, 6, 7, 8, 9 :: u64]) (2 ^ 2)"
proof -
  let ?xs = "[5, 6, 7, 8, 9 :: u64]"
  let ?meta = "\<lparr>mi_is_transposed = False, mi_base_mod_nbits = 64, mi_nrows = 3, mi_ncols = length ?xs\<rparr>"
  have "GetSubmatrixShape ?meta (2 ^ 2) = Inr (2 ^ shape_exponent (2 ^ 2) 3 (length ?xs), 2 ^ (2 - shape_exponent (2 ^ 2) 3 (length ?xs)))"
    using GetSubmatrixShape_closed [of ?meta 2] by (simp add: ExpectMatVecOutputLen_def ExpectMatVecInputLen_def)
  then obtain r w where rw: "GetSubmatrixShape ?meta (2 ^ 2) = Inr (r, w)" by blast
  have "0 < (3 :: nat)" "(3 :: nat) \<le> 2 ^ 2" "0 < length ?xs" "length ?xs + 2 ^ 2 \<le> 2 ^ 64" by simp_all
  from ciphertexts_of_vector [OF this rw] rw show ?thesis by blast
qed

end
