(* ===== verification/SealApi.thy ===== *)
theory SealApi
  imports Shapes "HOL-Library.Word"
begin

text \<open>
  The interface to SEAL. The library is not part of the repository, so the routines the SDK calls are
  parameters, collected in records of functions that the models take as arguments. Each predicate
  \<open>..._ok\<close> states the documented behaviour of the routines the properties rely on. The records
  \<open>seal_ref\<close> and \<open>mvp_ctx\<close> are concrete functions with that behaviour, at which the properties
  are instantiated.
\<close>

section \<open>Modular and multi-word arithmetic\<close>

text \<open>
  Multi-word integers (\<open>uint64_t*\<close> with a word count) are natural numbers; the word count is the
  first argument of the routines on them.
\<close>

record seal_arith =
  barrett_reduce_64 :: "u64 \<Rightarrow> u64 \<Rightarrow> u64"
  barrett_reduce_128 :: "u128 \<Rightarrow> u64 \<Rightarrow> u64"
  multiply_uint_mod :: "u64 \<Rightarrow> u64 \<Rightarrow> u64 \<Rightarrow> u64"
  negate_uint_mod :: "u64 \<Rightarrow> u64 \<Rightarrow> u64"
  add_uint_mod :: "u64 \<Rightarrow> u64 \<Rightarrow> u64 \<Rightarrow> u64"
  multiply_uint :: "nat \<Rightarrow> nat \<Rightarrow> nat \<Rightarrow> nat"
  add_uint :: "nat \<Rightarrow> nat \<Rightarrow> nat \<Rightarrow> nat"
  divide_uint :: "nat \<Rightarrow> nat \<Rightarrow> nat \<Rightarrow> nat \<times> nat"
  rns_decompose :: "u64 list \<Rightarrow> nat \<Rightarrow> u64 list"
  rns_compose :: "u64 list \<Rightarrow> u64 list \<Rightarrow> nat"
  reverse_bits :: "nat \<Rightarrow> nat \<Rightarrow> nat"

text \<open>A modulus SEAL accepts: at least 2 and at most 61 bits.\<close>

definition valid_modulus :: "u64 \<Rightarrow> bool" where
  "valid_modulus q \<longleftrightarrow> 1 < unat q \<and> unat q < 2 ^ 61"

definition seal_mod_ok :: "'a seal_arith_scheme \<Rightarrow> bool" where
  "seal_mod_ok S \<longleftrightarrow>
     (\<forall>q. valid_modulus q \<longrightarrow>
        (\<forall>x. unat (barrett_reduce_64 S x q) = unat x mod unat q) \<and>
        (\<forall>x. unat (barrett_reduce_128 S x q) = unat x mod unat q) \<and>
        (\<forall>x y. unat (multiply_uint_mod S x y q) = unat x * unat y mod unat q) \<and>
        (\<forall>x y. x < q \<longrightarrow> y < q \<longrightarrow> unat (add_uint_mod S x y q) = (unat x + unat y) mod unat q) \<and>
        (\<forall>x. x < q \<longrightarrow> unat (negate_uint_mod S x q) = (unat q - unat x) mod unat q))"

definition seal_uint_ok :: "'a seal_arith_scheme \<Rightarrow> bool" where
  "seal_uint_ok S \<longleftrightarrow>
     (\<forall>w a b. multiply_uint S w a b = a * b mod 2 ^ (64 * w)) \<and>
     (\<forall>w a b. add_uint S w a b = (a + b) mod 2 ^ (64 * w)) \<and>
     (\<forall>w a b. a < 2 ^ (64 * w) \<longrightarrow> 0 < b \<longrightarrow> divide_uint S w a b = (a div b, a mod b))"

text \<open>
  The residue number system of a list of moduli: \<open>rns_compose\<close> is the inverse of taking residues,
  for pairwise coprime moduli.
\<close>

definition residues :: "u64 list \<Rightarrow> nat \<Rightarrow> u64 list" where
  "residues qs x = map (\<lambda>q. of_nat (x mod unat q)) qs"

definition seal_rns_ok :: "'a seal_arith_scheme \<Rightarrow> bool" where
  "seal_rns_ok S \<longleftrightarrow>
     (\<forall>qs x. (\<forall>q \<in> set qs. valid_modulus q) \<longrightarrow> rns_decompose S qs x = residues qs x) \<and>
     (\<forall>qs x. (\<forall>q \<in> set qs. valid_modulus q) \<longrightarrow>
        (\<forall>i j. i < length qs \<longrightarrow> j < length qs \<longrightarrow> i \<noteq> j \<longrightarrow> coprime (unat (qs ! i)) (unat (qs ! j))) \<longrightarrow>
        x < prod_list (map unat qs) \<longrightarrow> rns_compose S qs (residues qs x) = x)"

text \<open>\<open>reverse_bits i k\<close> mirrors the \<open>k\<close> low bits of \<open>i\<close>.\<close>

fun rev_bits :: "nat \<Rightarrow> nat \<Rightarrow> nat" where
  "rev_bits 0 i = 0"
| "rev_bits (Suc k) i = (i mod 2) * 2 ^ k + rev_bits k (i div 2)"

definition seal_bits_ok :: "'a seal_arith_scheme \<Rightarrow> bool" where
  "seal_bits_ok S \<longleftrightarrow> (\<forall>i k. i < 2 ^ k \<longrightarrow> reverse_bits S i k = rev_bits k i)"

definition seal_arith_ok :: "'a seal_arith_scheme \<Rightarrow> bool" where
  "seal_arith_ok S \<longleftrightarrow> seal_mod_ok S \<and> seal_uint_ok S \<and> seal_rns_ok S \<and> seal_bits_ok S"

section \<open>Encryption parameters\<close>

text \<open>
  What the SDK reads from a \<open>SEALContext\<close>: whether the parameters are set, the scheme, the degree,
  the moduli of the key level and of the first data level, the product of the latter and its
  rounded-up half.
\<close>

datatype scheme_type = none_scheme | bfv | ckks | bgv

record seal_context =
  sc_parameters_set :: bool
  sc_scheme :: scheme_type
  sc_degree :: nat
  sc_key_moduli :: "u64 list"
  sc_first_moduli :: "u64 list"
  sc_total_modulus :: nat
  sc_upper_half :: nat

definition seal_context_ok :: "seal_context \<Rightarrow> bool" where
  "seal_context_ok C \<longleftrightarrow>
     sc_parameters_set C \<and> sc_first_moduli C = butlast (sc_key_moduli C) \<and>
     2 \<le> length (sc_first_moduli C) \<and> (\<forall>q \<in> set (sc_key_moduli C). valid_modulus q) \<and>
     (\<forall>i j. i < length (sc_first_moduli C) \<longrightarrow> j < length (sc_first_moduli C) \<longrightarrow> i \<noteq> j \<longrightarrow>
        coprime (unat (sc_first_moduli C ! i)) (unat (sc_first_moduli C ! j))) \<and>
     sc_total_modulus C = prod_list (map unat (sc_first_moduli C)) \<and>
     sc_upper_half C = (sc_total_modulus C + 1) div 2"

text \<open>The context \<open>MVPContext::Create\<close> asks SEAL for.\<close>

definition mvp_ctx :: seal_context where
  "mvp_ctx = \<lparr>sc_parameters_set = True, sc_scheme = ckks, sc_degree = kPolyDegree,
     sc_key_moduli = kModulus, sc_first_moduli = butlast kModulus,
     sc_total_modulus = 17314086913 * 17180393473,
     sc_upper_half = (17314086913 * 17180393473 + 1) div 2\<rparr>"

section \<open>A concrete instance\<close>

text \<open>Chinese remaindering: the inverse modulo the next modulus comes from the extended Euclid.\<close>

fun crt_compose :: "nat list \<Rightarrow> nat list \<Rightarrow> nat" where
  "crt_compose [] rs = 0"
| "crt_compose (q # qs) [] = 0"
| "crt_compose (q # qs) (r # rs) =
     (let P = prod_list qs; y = crt_compose qs rs
      in y + P * nat ((int r - int y) * fst (bezw P q) mod int q))"

definition seal_ref :: seal_arith where
  "seal_ref = \<lparr>
     barrett_reduce_64 = (\<lambda>x q. x mod q),
     barrett_reduce_128 = (\<lambda>x q. of_nat (unat x mod unat q)),
     multiply_uint_mod = (\<lambda>x y q. of_nat (unat x * unat y mod unat q)),
     negate_uint_mod = (\<lambda>x q. (q - x) mod q),
     add_uint_mod = (\<lambda>x y q. of_nat ((unat x + unat y) mod unat q)),
     multiply_uint = (\<lambda>w a b. a * b mod 2 ^ (64 * w)),
     add_uint = (\<lambda>w a b. (a + b) mod 2 ^ (64 * w)),
     divide_uint = (\<lambda>w a b. (a div b, a mod b)),
     rns_decompose = residues,
     rns_compose = (\<lambda>qs rs. crt_compose (map unat qs) (map unat rs)),
     reverse_bits = (\<lambda>i k. rev_bits k i)\<rparr>"


lemma coprime_prod_list:
  "(\<forall>i < length qs. coprime (qs ! i) (q :: nat)) \<Longrightarrow> coprime (prod_list qs) q"
  by (induction qs) (auto simp: All_less_Suc2 coprime_mult_left_iff)

lemma mod_eq_coprime_nat:
  fixes x y :: nat
  assumes "x mod a = y mod a" "x mod b = y mod b" "coprime a b"
  shows "x mod (a * b) = y mod (a * b)"
proof -
  have "int a dvd int x - int y" "int b dvd int x - int y"
    using assms(1,2) by (simp_all add: mod_eq_dvd_iff [symmetric] flip: of_nat_mod)
  then have "int a * int b dvd int x - int y"
    using assms(3) by (intro divides_mult) simp_all
  then have "int (x mod (a * b)) = int (y mod (a * b))"
    by (simp add: mod_eq_dvd_iff [symmetric] zmod_int)
  then show ?thesis by simp
qed

lemma crt_step_mod:
  assumes "0 < q" "coprime P q"
  shows "(y + P * nat ((int r - int y) * fst (bezw P q) mod int q)) mod q = r mod q"
proof -
  let ?b = "fst (bezw P q)"
  have "?b * int P + snd (bezw P q) * int q = 1"
    using bezw_aux [of P q] assms(2) by simp
  then have b: "int P * ?b mod int q = 1 mod int q"
    by (metis mod_mult_self2 mult.commute)
  have "int (y + P * nat ((int r - int y) * ?b mod int q)) mod int q
      = (int y + int P * ((int r - int y) * ?b mod int q)) mod int q"
    using assms(1) by simp
  also have "\<dots> = (int y + (int r - int y) * (int P * ?b)) mod int q"
    by (metis (no_types, opaque_lifting) mod_add_right_eq mod_mult_right_eq mult.left_commute)
  also have "\<dots> = (int y + (int r - int y) * 1) mod int q"
    by (metis b mod_add_right_eq mod_mult_right_eq)
  finally have "int ((y + P * nat ((int r - int y) * ?b mod int q)) mod q) = int (r mod q)"
    by (simp only: of_nat_mod) simp
  then show ?thesis by (simp only: of_nat_eq_iff)
qed

lemma crt_compose_residues:
  assumes "\<forall>q \<in> set qs. 0 < q"
    and "\<forall>i j. i < length qs \<longrightarrow> j < length qs \<longrightarrow> i \<noteq> j \<longrightarrow> coprime (qs ! i) (qs ! j)"
  shows "crt_compose qs (map (\<lambda>q. x mod q) qs) = x mod prod_list qs"
  using assms
proof (induction qs)
  case Nil
  then show ?case by simp
next
  case (Cons q qs)
  let ?P = "prod_list qs" and ?y = "x mod prod_list qs"
  have IH: "crt_compose qs (map (\<lambda>q. x mod q) qs) = ?y"
  proof (rule Cons.IH)
    show "\<forall>i j. i < length qs \<longrightarrow> j < length qs \<longrightarrow> i \<noteq> j \<longrightarrow> coprime (qs ! i) (qs ! j)"
    proof (intro allI impI)
      fix i j
      assume "i < length qs" "j < length qs" "i \<noteq> j"
      then show "coprime (qs ! i) (qs ! j)"
        using Cons.prems(2) [rule_format, of "Suc i" "Suc j"] by simp
    qed
  qed (use Cons.prems in simp)
  have "coprime (qs ! i) q" if "i < length qs" for i
    using Cons.prems(2) [rule_format, of "Suc i" 0] that by simp
  then have cop: "coprime ?P q" by (intro coprime_prod_list) simp
  have q: "0 < q" using Cons.prems by simp
  let ?z = "?y + ?P * nat ((int (x mod q) - int ?y) * fst (bezw ?P q) mod int q)"
  have "?z mod ?P = x mod ?P" by simp
  moreover have "?z mod q = x mod q" using crt_step_mod [OF q cop] by simp
  ultimately have "?z mod (?P * q) = x mod (?P * q)"
    using cop by (intro mod_eq_coprime_nat) auto
  moreover have "?z < ?P * q"
  proof -
    have P: "0 < ?P" using Cons.prems(1) by (induction qs) auto
    have "nat ((int (x mod q) - int ?y) * fst (bezw ?P q) mod int q) \<le> q - 1"
      using q by (simp add: nat_le_iff of_nat_diff zle_diff1_eq)
    then have "?z < ?P + ?P * (q - 1)"
      using P by (meson add_less_le_mono mod_less_divisor mult_le_mono2)
    also have "\<dots> = ?P * q" using q by (cases q) simp_all
    finally show ?thesis .
  qed
  ultimately show ?case by (simp add: IH Let_def mult.commute)
qed

lemma seal_mod_ok_ref: "seal_mod_ok seal_ref"
proof -
  have small: "n mod unat q < 2 ^ 64" if "valid_modulus q" for n and q :: u64
    using that unsigned_less [of q] by (auto simp: valid_modulus_def intro: less_trans [OF mod_less_divisor])
  show ?thesis
    unfolding seal_mod_ok_def
    using small
    by (auto simp: seal_ref_def unat_of_nat unat_mod unat_sub_if' word_less_nat_alt)
qed

lemma seal_uint_ok_ref: "seal_uint_ok seal_ref"
  by (simp add: seal_uint_ok_def seal_ref_def)

lemma unat_residues:
  "\<forall>q \<in> set qs. valid_modulus q \<Longrightarrow> map unat (residues qs x) = map (\<lambda>q. x mod q) (map unat qs)"
proof -
  assume q: "\<forall>q \<in> set qs. valid_modulus q"
  have "unat (of_nat (x mod unat q) :: u64) = x mod unat q" if "q \<in> set qs" for q
  proof -
    have "0 < unat q" using q that by (auto simp: valid_modulus_def)
    then have "x mod unat q < unat q" by simp
    also have "unat q < 2 ^ 64" using unsigned_less [of q] by simp
    finally show ?thesis by (simp add: unat_of_nat)
  qed
  then show ?thesis by (simp add: residues_def)
qed

lemma seal_rns_ok_ref: "seal_rns_ok seal_ref"
  unfolding seal_rns_ok_def
proof (intro conjI allI impI)
  fix qs :: "u64 list" and x
  show "rns_decompose seal_ref qs x = residues qs x" by (simp add: seal_ref_def)
next
  fix qs :: "u64 list" and x
  assume q: "\<forall>q \<in> set qs. valid_modulus q"
    and cop: "\<forall>i j. i < length qs \<longrightarrow> j < length qs \<longrightarrow> i \<noteq> j \<longrightarrow>
        coprime (unat (qs ! i)) (unat (qs ! j))"
    and x: "x < prod_list (map unat qs)"
  have "crt_compose (map unat qs) (map (\<lambda>q. x mod q) (map unat qs)) = x mod prod_list (map unat qs)"
    using q cop by (intro crt_compose_residues) (auto simp: valid_modulus_def)
  then show "rns_compose seal_ref qs (residues qs x) = x"
    using x unat_residues [OF q, of x] by (simp add: seal_ref_def del: map_map)
qed

lemma seal_arith_ok_ref: "seal_arith_ok seal_ref"
  by (simp add: seal_arith_ok_def seal_mod_ok_ref seal_uint_ok_ref seal_rns_ok_ref)
    (simp add: seal_bits_ok_def seal_ref_def)

lemma coprime_by_certificate:
  fixes a b u v :: nat
  assumes cert: "a * u = b * v + 1"
  shows "coprime a b"
proof (rule coprimeI)
  fix l
  assume "l dvd a" "l dvd b"
  then have "l dvd a * u - b * v" by (intro dvd_diff_nat) simp_all
  then show "is_unit l" by (simp add: cert)
qed

lemma kModulus_coprime: "coprime (17314086913 :: nat) 17180393473"
  by (rule coprime_by_certificate [where u = 7276401813 and v = 7333024916]) simp

lemma seal_context_ok_mvp: "seal_context_ok mvp_ctx"
  using kModulus_coprime coprime_commute [of "17314086913 :: nat"]
  by (auto simp: seal_context_ok_def mvp_ctx_def kModulus_values valid_modulus_def less_Suc_eq)

end
