(* ===== verification/Views.thy ===== *)
theory Views
  imports Prelude
begin

text \<open>
  The views and buffers of \<open>types.h\<close> and the wiping guard of \<open>util/mem_guard.h\<close>. A pointer with a
  length is the list of the elements it reaches; a pointer that may be null is an option. The
  constructors that reject null pointers and empty shapes are outcomes.
\<close>

section \<open>Views\<close>

type_synonym VecView = "u64 list"
type_synonym StrBufView = "string list"

definition VecView_new :: "u64 list option \<Rightarrow> nat \<Rightarrow> VecView outcome" where
  "VecView_new data len =
     (case data of
        None \<Rightarrow> Inl (Throws (Invalid_argument ''nullptr''))
      | Some xs \<Rightarrow>
          if len = 0 then Inl (Throws (Invalid_argument ''nullptr''))
          else if length xs < len then Inl (Undefined ''VecView: span past the end'')
          else Inr (take len xs))"

record MatView =
  mv_data :: "u64 list"
  mv_nrows :: nat
  mv_ncols :: nat

definition MatView_new :: "u64 list option \<Rightarrow> nat \<Rightarrow> nat \<Rightarrow> MatView outcome" where
  "MatView_new data nrows ncols =
     (case data of
        None \<Rightarrow> Inl (Throws (Invalid_argument ''nullptr''))
      | Some xs \<Rightarrow>
          if nrows = 0 \<or> ncols = 0 then Inl (Throws (Invalid_argument ''MatView''))
          else if length xs < nrows * ncols then Inl (Undefined ''MatView: span past the end'')
          else Inr \<lparr>mv_data = take (nrows * ncols) xs, mv_nrows = nrows, mv_ncols = ncols\<rparr>)"

text \<open>The pointer to a row: what is reachable from it in the view.\<close>

definition MatView_row_at :: "MatView \<Rightarrow> nat \<Rightarrow> u64 list outcome" where
  "MatView_row_at m r =
     (if mv_nrows m \<le> r then Inl (Throws (Runtime_error ''MatView::row_at''))
      else Inr (drop (r * mv_ncols m) (mv_data m)))"

definition StrBufView_at :: "StrBufView \<Rightarrow> nat \<Rightarrow> string outcome" where
  "StrBufView_at v i = (if i < length v then Inr (v ! i) else Inl (Undefined ''span index''))"

definition mat_entry :: "MatView \<Rightarrow> nat \<Rightarrow> nat \<Rightarrow> u64" where
  "mat_entry m r c = mv_data m ! (r * mv_ncols m + c)"

definition mat_wf :: "MatView \<Rightarrow> bool" where
  "mat_wf m \<longleftrightarrow> 0 < mv_nrows m \<and> 0 < mv_ncols m \<and> length (mv_data m) = mv_nrows m * mv_ncols m"

lemma MatView_new_wf: "MatView_new data nrows ncols = Inr m \<Longrightarrow> mat_wf m"
  by (auto simp: MatView_new_def mat_wf_def split: option.splits if_splits)

lemma row_in_view: "mat_wf m \<Longrightarrow> r < mv_nrows m \<Longrightarrow> r * mv_ncols m + mv_ncols m \<le> length (mv_data m)"
proof -
  assume m: "mat_wf m" "r < mv_nrows m"
  then have "Suc r * mv_ncols m \<le> mv_nrows m * mv_ncols m" by (intro mult_le_mono1) simp
  with m show ?thesis by (simp add: mat_wf_def add.commute)
qed

lemma MatView_row_at_wf:
  assumes "mat_wf m" "r < mv_nrows m"
  shows "\<exists>row. MatView_row_at m r = Inr row \<and> mv_ncols m \<le> length row
      \<and> (\<forall>c < mv_ncols m. row ! c = mat_entry m r c)"
  using assms row_in_view [OF assms] by (simp add: MatView_row_at_def mat_entry_def)

section \<open>VecBuffer\<close>

record VecBuffer =
  vb_data :: "u64 list"
  vb_len :: nat

text \<open>\<open>std::vector::resize\<close>: truncate or append zeros.\<close>

definition vec_resize :: "nat \<Rightarrow> u64 list \<Rightarrow> u64 list" where
  "vec_resize n xs = take n xs @ replicate (n - length xs) 0"

definition VecBuffer_resize :: "VecBuffer \<Rightarrow> nat \<Rightarrow> VecBuffer" where
  "VecBuffer_resize b len =
     (if 0 < len \<or> len \<noteq> vb_len b
      then b\<lparr>vb_data := vec_resize len (vb_data b), vb_len := len\<rparr> else b)"

definition VecBuffer_new :: "nat \<Rightarrow> VecBuffer" where
  "VecBuffer_new len = VecBuffer_resize \<lparr>vb_data = [], vb_len = 0\<rparr> len"

text \<open>The constructor that adopts a vector does not touch the length, which is zero initially.\<close>

definition VecBuffer_of_vector :: "u64 list \<Rightarrow> VecBuffer" where
  "VecBuffer_of_vector stl = \<lparr>vb_data = stl, vb_len = 0\<rparr>"

definition VecBuffer_at :: "VecBuffer \<Rightarrow> nat \<Rightarrow> u64 outcome" where
  "VecBuffer_at b i =
     (if vb_data b = [] \<or> vb_len b \<le> i then Inl (Throws (Runtime_error ''VecBuffer::at''))
      else if i < length (vb_data b) then Inr (vb_data b ! i)
      else Inl (Undefined ''VecBuffer::at''))"

definition vb_wf :: "VecBuffer \<Rightarrow> bool" where
  "vb_wf b \<longleftrightarrow> length (vb_data b) = vb_len b"

lemma length_vec_resize [simp]: "length (vec_resize n xs) = n"
  by (simp add: vec_resize_def)

lemma VecBuffer_resize_wf: "vb_wf b \<Longrightarrow> vb_wf (VecBuffer_resize b n) \<and> vb_len (VecBuffer_resize b n) = n"
  by (auto simp: VecBuffer_resize_def vb_wf_def)

lemma VecBuffer_new_wf: "vb_wf (VecBuffer_new n) \<and> vb_len (VecBuffer_new n) = n"
  unfolding VecBuffer_new_def by (rule VecBuffer_resize_wf) (simp add: vb_wf_def)

section \<open>Wiping\<close>

text \<open>
  \<open>MemGuard\<close>: when its scope is left, the span is overwritten with zero bytes; a null or empty span
  is left alone.
\<close>

definition MemGuard_release :: "u64 list \<Rightarrow> u64 list" where
  "MemGuard_release mem = (if mem \<noteq> [] then replicate (length mem) 0 else mem)"

section \<open>Writing through a pointer\<close>

text \<open>\<open>overwrite buf pos xs\<close> stores the elements of \<open>xs\<close> from position \<open>pos\<close> on.\<close>

definition overwrite :: "'a list \<Rightarrow> nat \<Rightarrow> 'a list \<Rightarrow> 'a list" where
  "overwrite buf pos xs = take pos buf @ xs @ drop (pos + length xs) buf"

lemma length_overwrite [simp]:
  "pos + length xs \<le> length buf \<Longrightarrow> length (overwrite buf pos xs) = length buf"
  by (simp add: overwrite_def)

lemma nth_overwrite:
  assumes "pos + length xs \<le> length buf" "i < length buf"
  shows "overwrite buf pos xs ! i
    = (if pos \<le> i \<and> i < pos + length xs then xs ! (i - pos) else buf ! i)"
  using assms by (auto simp: overwrite_def nth_append min_def)

text \<open>
  A \<open>VecBuffer\<close> keeps its recorded length and its storage in step: the constructor from a length
  and every \<open>resize\<close> leave a buffer of the requested length, the elements that remain are kept and
  the new ones are zero, and \<open>at\<close> then answers inside the length and raises outside.
\<close>

theorem VecBuffer_resize_at:
  assumes "vb_wf b"
  shows "VecBuffer_at (VecBuffer_resize b n) i =
     (if n \<le> i then Inl (Throws (Runtime_error ''VecBuffer::at''))
      else Inr (if i < vb_len b then vb_data b ! i else 0))"
proof (cases "i < n")
  case True
  with assms show ?thesis
    by (auto simp: VecBuffer_at_def VecBuffer_resize_def vb_wf_def vec_resize_def nth_append)
next
  case False
  with assms show ?thesis
    by (auto simp: VecBuffer_at_def VecBuffer_resize_def vb_wf_def)
qed

theorem VecBuffer_resize_at_witness:
  "VecBuffer_at (VecBuffer_resize (VecBuffer_new 2) 4) 3 = Inr 0 \<and>
   VecBuffer_at (VecBuffer_resize (VecBuffer_new 2) 4) 4 = Inl (Throws (Runtime_error ''VecBuffer::at''))"
  using VecBuffer_resize_at [of "VecBuffer_new 2" 4] VecBuffer_new_wf [of 2] by simp

end
