(* ===== verification/Status.thy ===== *)
theory Status
  imports Prelude
begin

text \<open>
  \<open>status.h\<close>, \<open>status.cc\<close> and \<open>errors.h\<close>: the result type of the API, its printed form, and the
  macro that turns an exception of SEAL into an error status.

  \<open>Status\<close> holds an optional heap state: an absent state is success. A status built from a code
  and a message therefore counts as an error even when its code is \<open>OK\<close>.
\<close>

record status_state =
  st_code :: error_code
  st_msg :: string

type_synonym status = "status_state option"

definition status_OK :: status where
  "status_OK = None"

definition mk_status :: "error_code \<Rightarrow> string \<Rightarrow> status" where
  "mk_status c m = Some \<lparr>st_code = c, st_msg = m\<rparr>"

definition status_ok :: "status \<Rightarrow> bool" where
  "status_ok s \<longleftrightarrow> s = None"

definition status_code :: "status \<Rightarrow> error_code" where
  "status_code s = (case s of None \<Rightarrow> OK | Some st \<Rightarrow> st_code st)"

fun error_name :: "error_code \<Rightarrow> string" where
  "error_name OK = ''OK''"
| "error_name UNKNOWN = ''UNKNOWN''"
| "error_name INVALID_ARGUMENT = ''INVALID_ARGUMENT''"
| "error_name FAILED_PRECONDITION = ''FAILED_PRECONDITION''"
| "error_name OUT_OF_RANGE = ''OUT_OF_RANGE''"
| "error_name UNIMPLEMENTED = ''UNIMPLEMENTED''"
| "error_name INTERNAL = ''INTERNAL''"
| "error_name UNAVAILABLE = ''UNAVAILABLE''"
| "error_name DATA_LOSS = ''DATA_LOSS''"

definition status_ToString :: "status \<Rightarrow> string" where
  "status_ToString s =
     (case s of None \<Rightarrow> ''OK''
      | Some st \<Rightarrow> error_name (status_code s) @ '': '' @ st_msg st)"

text \<open>
  The order of the enumerators is the order of their underlying values, which the built-in
  comparison of a scoped enumeration uses.
\<close>

fun code_value :: "error_code \<Rightarrow> nat" where
  "code_value OK = 0"
| "code_value INTERNAL = 1"
| "code_value INVALID_ARGUMENT = 2"
| "code_value OUT_OF_RANGE = 3"
| "code_value UNIMPLEMENTED = 4"
| "code_value UNAVAILABLE = 5"
| "code_value FAILED_PRECONDITION = 6"
| "code_value DATA_LOSS = 7"
| "code_value UNKNOWN = 8"

lemma code_value_inject: "code_value c = code_value d \<longleftrightarrow> c = d"
  by (cases c; cases d) simp_all

instantiation error_code :: linorder
begin

definition less_eq_error_code :: "error_code \<Rightarrow> error_code \<Rightarrow> bool" where
  "less_eq_error_code c d \<longleftrightarrow> code_value c \<le> code_value d"

definition less_error_code :: "error_code \<Rightarrow> error_code \<Rightarrow> bool" where
  "less_error_code c d \<longleftrightarrow> code_value c < code_value d"

instance
  by standard (auto simp: less_eq_error_code_def less_error_code_def code_value_inject)

end

lemma OK_least: "OK \<le> (c :: error_code)"
  by (simp add: less_eq_error_code_def)

text \<open>\<open>GM_CATCH_SEAL_ERROR\<close>: only logic errors are caught, any other exception passes through.\<close>

fun catch_seal :: "'a outcome \<Rightarrow> 'a outcome" where
  "catch_seal (Inl (Throws e)) =
     (if is_logic_error e then Inl (Failed INTERNAL (''SEAL error: '' @ what e))
      else Inl (Throws e))"
| "catch_seal r = r"

text \<open>
  \<open>GM_REQUIRES_OK\<close>: an error status of the expression is replaced by the given one; exceptions
  are not statuses and pass through.
\<close>

fun requires_ok :: "'a outcome \<Rightarrow> failure \<Rightarrow> 'a outcome" where
  "requires_ok (Inl (Failed c m)) e = Inl e"
| "requires_ok r e = r"

text \<open>The status an API call returns to its caller, where no exception leaves it.\<close>

fun status_of :: "'a outcome \<Rightarrow> status option" where
  "status_of (Inr x) = Some status_OK"
| "status_of (Inl (Failed c m)) = Some (mk_status c m)"
| "status_of (Inl (Throws e)) = None"
| "status_of (Inl (Undefined u)) = None"

lemma catch_seal_Inr_iff [outcome_simps]: "catch_seal r = Inr x \<longleftrightarrow> r = Inr x"
  by (cases r rule: catch_seal.cases) auto

lemma requires_ok_Inr_iff [outcome_simps]: "requires_ok r e = Inr x \<longleftrightarrow> r = Inr x"
  by (cases "(r, e)" rule: requires_ok.cases) auto

lemma error_name_no_colon: "CHR '':'' \<notin> set (error_name c)"
  by (cases c) simp_all

lemma error_name_inject: "error_name c = error_name d \<longleftrightarrow> c = d"
  by (cases c; cases d) simp_all

text \<open>
  The printed form of a status determines it: the name of the code ends at the first colon.
\<close>

lemma split_at_first:
  assumes "c \<notin> set xs" "c \<notin> set us" "xs @ c # ys = us @ c # vs"
  shows "xs = us \<and> ys = vs"
  using assms
proof (induction xs arbitrary: us)
  case Nil
  then show ?case by (cases us) auto
next
  case (Cons x xs)
  then show ?case by (cases us) auto
qed

lemma status_ToString_error:
  "status_ToString (mk_status c m) = error_name c @ '': '' @ m"
  by (simp add: status_ToString_def mk_status_def status_code_def)

lemma status_ToString_inject_lemma:
  "status_ToString s = status_ToString t \<longleftrightarrow> s = t"
proof (cases s; cases t)
  fix a b
  assume s: "s = Some a" and t: "t = Some b"
  show ?thesis
    using split_at_first [of "CHR '':''" "error_name (st_code a)" "error_name (st_code b)"
        "CHR '' '' # st_msg a" "CHR '' '' # st_msg b"]
    by (cases a; cases b)
      (auto simp: s t status_ToString_def status_code_def error_name_no_colon error_name_inject)
next
  fix b
  assume "s = None" "t = Some b"
  then show ?thesis
    by (cases "st_code b") (simp_all add: status_ToString_def status_code_def)
next
  fix a
  assume "s = Some a" "t = None"
  then show ?thesis
    by (cases "st_code a") (simp_all add: status_ToString_def status_code_def)
qed (simp add: status_ToString_def)

text \<open>
  The printed form of a status determines it: two statuses print alike only when both are success or
  both carry the same code and message. In particular an error built with the code \<open>OK\<close> is told apart
  from success.
\<close>

theorem status_ToString_inject: "status_ToString s = status_ToString t \<longleftrightarrow> s = t"
  by (rule status_ToString_inject_lemma)

end
