(* ===== verification/Ring.thy ===== *)
theory Ring
  imports SealApi Views Status
begin

text \<open>
  \<open>internal.cc\<close> and the reductions of \<open>util/slotful_ntt.h\<close>: arithmetic on ciphertexts and plaintexts in
  residue form. A polynomial is the flat array the code walks with a pointer: the \<open>N\<close> coefficients for
  the first modulus, then those for the next one. SEAL's objects are records of what the code reads
  and writes; SEAL's transforms, validity checks and keys are parameters.
\<close>

section \<open>SEAL objects\<close>

datatype parms_id = parms_id_zero | parms_id nat

text \<open>A scale is a double the code only copies; the model carries its bits.\<close>

record rlwe_pt =
  pt_parms_id :: parms_id
  pt_data :: "u64 list"
  pt_scale :: u64

record rlwe_ct =
  ct_parms_id :: parms_id
  ct_is_ntt_form :: bool
  ct_degree :: nat
  ct_coeff_modulus_size :: nat
  ct_polys :: "u64 list list"
  ct_scale :: u64

definition pt_is_ntt_form :: "rlwe_pt \<Rightarrow> bool" where
  "pt_is_ntt_form pt \<longleftrightarrow> pt_parms_id pt \<noteq> parms_id_zero"

text \<open>A secret key holds a plaintext, a public key a ciphertext.\<close>

type_synonym secret_key = rlwe_pt
type_synonym public_key = rlwe_ct

record seal_runtime =
  sr_arith :: seal_arith
  sr_ctx :: seal_context
  sr_key_parms_id :: parms_id
  sr_first_parms_id :: parms_id
  sr_context_moduli :: "parms_id \<Rightarrow> u64 list option"
  sr_ntt_lazy :: "u64 \<Rightarrow> u64 list \<Rightarrow> u64 list"
  sr_ntt :: "u64 \<Rightarrow> u64 list \<Rightarrow> u64 list"
  sr_intt :: "u64 \<Rightarrow> u64 list \<Rightarrow> u64 list"
  sr_ct_metadata_valid :: "rlwe_ct \<Rightarrow> bool"
  sr_sk_valid :: "secret_key \<Rightarrow> bool"

section \<open>Transforms\<close>

text \<open>\<open>[0, 2p) \<rightarrow> [0, p)\<close>, on unsigned words.\<close>

definition reduce_once :: "u64 \<Rightarrow> u64 \<Rightarrow> u64" where
  "reduce_once p v = v - (if v < p then 0 else p)"

definition ntt_forward :: "seal_runtime \<Rightarrow> u64 \<Rightarrow> u64 list \<Rightarrow> u64 list" where
  "ntt_forward R p operand =
     (let operand = sr_ntt_lazy R p operand;
          Lp = p * 2;
          operand = map (reduce_once Lp) operand
      in map (reduce_once p) operand)"

definition ntt_backward :: "seal_runtime \<Rightarrow> u64 \<Rightarrow> u64 list \<Rightarrow> u64 list" where
  "ntt_backward R p operand =
     (let operand = sr_intt R p operand in map (reduce_once p) operand)"

text \<open>A loop over the moduli with the pointer advancing by \<open>n\<close>.\<close>

definition map_limbs :: "(u64 \<Rightarrow> u64 list \<Rightarrow> u64 list) \<Rightarrow> nat \<Rightarrow> u64 list \<Rightarrow> u64 list \<Rightarrow> u64 list" where
  "map_limbs f n moduli poly =
     concat (map (\<lambda>l. f (moduli ! l) (slice poly (l * n, n))) [0..<length moduli])
     @ drop (length moduli * n) poly"

definition map2_limbs ::
    "(u64 \<Rightarrow> u64 list \<Rightarrow> u64 list \<Rightarrow> u64 list) \<Rightarrow> nat \<Rightarrow> u64 list \<Rightarrow> u64 list \<Rightarrow> u64 list \<Rightarrow> u64 list" where
  "map2_limbs f n moduli a b =
     concat (map (\<lambda>l. f (moduli ! l) (slice a (l * n, n)) (slice b (l * n, n))) [0..<length moduli])
     @ drop (length moduli * n) a"

definition transform_to_ntt_inplace :: "seal_runtime \<Rightarrow> rlwe_ct \<Rightarrow> rlwe_ct outcome" where
  "transform_to_ntt_inplace R ct =
     (if ct_is_ntt_form ct then Inr ct
      else case sr_context_moduli R (ct_parms_id ct) of
        None \<Rightarrow> Inl (Throws (Invalid_argument ''transform_to_ntt_inplace: invalid ct.parms_id''))
      | Some moduli \<Rightarrow>
          if length moduli < ct_coeff_modulus_size ct then Inl (Undefined ''ntt_tables[l]'')
          else Inr (ct\<lparr>ct_polys := map (map_limbs (ntt_forward R) (ct_degree ct)
                                          (take (ct_coeff_modulus_size ct) moduli)) (ct_polys ct),
                       ct_is_ntt_form := True\<rparr>))"

definition transfom_from_ntt_inplace :: "seal_runtime \<Rightarrow> rlwe_pt \<Rightarrow> rlwe_pt outcome" where
  "transfom_from_ntt_inplace R pt =
     (if \<not> pt_is_ntt_form pt then Inr pt
      else case sr_context_moduli R (pt_parms_id pt) of
        None \<Rightarrow> Inl (Throws (Invalid_argument ''transform_from_ntt_lazy: invalid ct.parms_id''))
      | Some moduli \<Rightarrow>
          Inr (pt\<lparr>pt_data := map_limbs (ntt_backward R) (sc_degree (sr_ctx R)) moduli (pt_data pt)\<rparr>))"

section \<open>Addition\<close>

text \<open>\<open>add_poly_coeffmod\<close> and \<open>dyadic_product_coeffmod\<close> on one residue polynomial.\<close>

definition add_poly_coeffmod :: "seal_arith \<Rightarrow> u64 \<Rightarrow> u64 list \<Rightarrow> u64 list \<Rightarrow> u64 list" where
  "add_poly_coeffmod S q a b = map2 (\<lambda>x y. add_uint_mod S x y q) a b"

definition dyadic_product_coeffmod :: "seal_arith \<Rightarrow> u64 \<Rightarrow> u64 list \<Rightarrow> u64 list \<Rightarrow> u64 list" where
  "dyadic_product_coeffmod S q a b = map2 (\<lambda>x y. multiply_uint_mod S x y q) a b"

definition add_inplace :: "seal_runtime \<Rightarrow> rlwe_ct \<Rightarrow> rlwe_ct \<Rightarrow> rlwe_ct outcome" where
  "add_inplace R ct0 ct1 =
     (if length (ct_polys ct0) = 0 then Inr ct1
      else if ct_parms_id ct0 \<noteq> ct_parms_id ct1
        then Inl (Throws (Invalid_argument ''internal::add_inplace: ct.parms_id mismatch''))
      else if ct_is_ntt_form ct0 \<noteq> ct_is_ntt_form ct1
        then Inl (Throws (Invalid_argument ''internal::add_inplace: ct.is_ntt_form mismatch''))
      else if length (ct_polys ct0) \<noteq> length (ct_polys ct1)
        then Inl (Throws (Invalid_argument ''internal::add_inplace: ct.size mismatch''))
      else let N = ct_degree ct0; L = ct_coeff_modulus_size ct0; modulus = sc_key_moduli (sr_ctx R)
        in if length modulus < L then Inl (Undefined ''modulus[l]'')
           else Inr (ct0\<lparr>ct_polys := map2 (map2_limbs (add_poly_coeffmod (sr_arith R)) N (take L modulus))
                                        (ct_polys ct0) (ct_polys ct1)\<rparr>))"

text \<open>A plaintext is added to the first polynomial.\<close>

definition add_plain_inplace :: "seal_runtime \<Rightarrow> rlwe_ct \<Rightarrow> rlwe_pt \<Rightarrow> rlwe_ct outcome" where
  "add_plain_inplace R ct pt =
     (let N = ct_degree ct; L = ct_coeff_modulus_size ct; modulus = sc_key_moduli (sr_ctx R)
      in if length (pt_data pt) \<noteq> N * L
         then Inl (Throws (Invalid_argument ''internal::add_plain_inplace: pt.coeff_count mismatch''))
         else if length modulus < L \<or> ct_polys ct = [] then Inl (Undefined ''RNSIter'')
         else Inr (ct\<lparr>ct_polys := (ct_polys ct)
             [0 := map2_limbs (add_poly_coeffmod (sr_arith R)) N (take L modulus) (ct_polys ct ! 0) (pt_data pt)]\<rparr>))"

section \<open>Decryption\<close>

definition ckks_decrypt :: "seal_runtime \<Rightarrow> rlwe_ct \<Rightarrow> secret_key \<Rightarrow> rlwe_pt outcome" where
  "ckks_decrypt R ct sk =
     (if \<not> ct_is_ntt_form ct \<or> length (ct_polys ct) \<noteq> 2
        then Inl (Throws (Invalid_argument ''internal::ckks_decrypt: requires ntt-form ct of sized-2''))
      else if \<not> sr_ct_metadata_valid R ct
        then Inl (Throws (Invalid_argument ''internal::ckks_decrypt: invalid ct''))
      else if \<not> sr_sk_valid R sk
        then Inl (Throws (Invalid_argument ''internal::ckks_decrypt: invalid secret key''))
      else case sr_context_moduli R (ct_parms_id ct) of
        None \<Rightarrow> Inl (Throws (Invalid_argument ''internal::ckks_decrypt: invalid ct.parms_id''))
      | Some coeff_modulus \<Rightarrow>
          let S = sr_arith R; N = sc_degree (sr_ctx R);
              c0 = ct_polys ct ! 0; c1 = ct_polys ct ! 1;
              prod = map2_limbs (dyadic_product_coeffmod S) N coeff_modulus c1 (pt_data sk);
              sum = map2_limbs (add_poly_coeffmod S) N coeff_modulus prod c0
          in Inr \<lparr>pt_parms_id = ct_parms_id ct, pt_data = sum, pt_scale = ct_scale ct\<rparr>)"

text \<open>The sequence of calls by which \<open>Decrypt\<close> recovers the coefficients of the plaintext.\<close>

definition decrypt_coeffs :: "seal_runtime \<Rightarrow> rlwe_ct \<Rightarrow> secret_key \<Rightarrow> rlwe_pt outcome" where
  "decrypt_coeffs R ct sk =
     obind (transform_to_ntt_inplace R ct) (\<lambda>ct.
     obind (ckks_decrypt R ct sk) (transfom_from_ntt_inplace R))"

section \<open>Reductions\<close>

lemma reduce_once_unat:
  "unat v < 2 * unat p \<Longrightarrow> unat (reduce_once p v) = unat v mod unat p"
proof (cases "v < p")
  case True
  then show ?thesis by (simp add: reduce_once_def word_less_nat_alt)
next
  case False
  assume "unat v < 2 * unat p"
  moreover from False have "unat p \<le> unat v" by (simp add: word_less_nat_alt)
  ultimately have "unat v mod unat p = unat v - unat p" by (simp add: le_mod_geq)
  moreover from False have "unat (v - p) = unat v - unat p" by (simp add: unat_sub word_less_nat_alt word_le_nat_alt)
  ultimately show ?thesis using False by (simp add: reduce_once_def)
qed

lemma reduce_twice_unat:
  assumes "valid_modulus p" "unat v < 4 * unat p"
  shows "unat (reduce_once p (reduce_once (p * 2) v)) = unat v mod unat p"
proof -
  have two: "unat (p * 2) = 2 * unat p"
    using assms(1) by (simp add: valid_modulus_def unat_word_ariths)
  have "unat (reduce_once (p * 2) v) = unat v mod (2 * unat p)"
    using assms(2) by (simp add: reduce_once_unat two)
  moreover have "unat v mod (2 * unat p) < 2 * unat p" using assms(1) by (simp add: valid_modulus_def)
  ultimately show ?thesis
    by (simp add: reduce_once_unat mod_mod_cancel)
qed

section \<open>Residue polynomials\<close>

definition reduced :: "u64 \<Rightarrow> u64 list \<Rightarrow> bool" where
  "reduced q xs \<longleftrightarrow> (\<forall>x \<in> set xs. x < q)"

definition rns_ok :: "nat \<Rightarrow> u64 list \<Rightarrow> u64 list \<Rightarrow> bool" where
  "rns_ok N ms a \<longleftrightarrow> length a = length ms * N \<and> (\<forall>l < length ms. reduced (ms ! l) (slice a (l * N, N)))"

definition rns_add :: "seal_runtime \<Rightarrow> nat \<Rightarrow> u64 list \<Rightarrow> u64 list \<Rightarrow> u64 list \<Rightarrow> u64 list" where
  "rns_add R N ms = map2_limbs (add_poly_coeffmod (sr_arith R)) N ms"

text \<open>What the documentation of SEAL promises of the transforms for one modulus and degree.\<close>

definition ntt_ok :: "seal_runtime \<Rightarrow> nat \<Rightarrow> u64 \<Rightarrow> bool" where
  "ntt_ok R N q \<longleftrightarrow> valid_modulus q \<and>
     (\<forall>xs. length xs = N \<and> reduced q xs \<longrightarrow>
        length (sr_ntt R q xs) = N \<and> reduced q (sr_ntt R q xs) \<and>
        length (sr_intt R q xs) = N \<and> reduced q (sr_intt R q xs) \<and>
        sr_intt R q (sr_ntt R q xs) = xs \<and>
        length (sr_ntt_lazy R q xs) = N \<and>
        (\<forall>i < N. unat (sr_ntt_lazy R q xs ! i) < 4 * unat q \<and>
                 unat (sr_ntt_lazy R q xs ! i) mod unat q = unat (sr_ntt R q xs ! i)) \<and>
        (\<forall>ys. length ys = N \<and> reduced q ys \<longrightarrow>
           sr_ntt R q (add_poly_coeffmod (sr_arith R) q xs ys)
             = add_poly_coeffmod (sr_arith R) q (sr_ntt R q xs) (sr_ntt R q ys) \<and>
           sr_intt R q (add_poly_coeffmod (sr_arith R) q xs ys)
             = add_poly_coeffmod (sr_arith R) q (sr_intt R q xs) (sr_intt R q ys)))"

lemma reduced_nth: "reduced q xs \<Longrightarrow> i < length xs \<Longrightarrow> xs ! i < q"
  by (simp add: reduced_def)

lemma length_add_poly [simp]: "length (add_poly_coeffmod S q a b) = min (length a) (length b)"
  by (simp add: add_poly_coeffmod_def)

lemma add_poly_nth:
  assumes "seal_arith_ok S" "valid_modulus q" "reduced q a" "reduced q b" "i < length a" "length b = length a"
  shows "unat (add_poly_coeffmod S q a b ! i) = (unat (a ! i) + unat (b ! i)) mod unat q"
  using assms reduced_nth [of q a i] reduced_nth [of q b i]
  by (simp add: add_poly_coeffmod_def seal_arith_ok_def seal_mod_ok_def)

lemma reduced_by_mod: "valid_modulus q \<Longrightarrow> (\<And>i. i < length xs \<Longrightarrow> \<exists>n. unat (xs ! i) = n mod unat q) \<Longrightarrow> reduced q xs"
  unfolding reduced_def
proof
  fix x
  assume "valid_modulus q" "\<And>i. i < length xs \<Longrightarrow> \<exists>n. unat (xs ! i) = n mod unat q" "x \<in> set xs"
  moreover from this obtain i n where "i < length xs" "x = xs ! i" "unat (xs ! i) = n mod unat q"
    by (metis in_set_conv_nth)
  moreover have "n mod unat q < unat q" using \<open>valid_modulus q\<close> by (simp add: valid_modulus_def)
  ultimately show "x < q" by (simp add: word_less_nat_alt)
qed

lemma reduced_add_poly:
  assumes "seal_arith_ok S" "valid_modulus q" "reduced q a" "reduced q b" "length b = length a"
  shows "reduced q (add_poly_coeffmod S q a b)"
  using assms by (intro reduced_by_mod) (auto intro!: exI dest: add_poly_nth)

lemma add_poly_assoc:
  assumes S: "seal_arith_ok S" and q: "valid_modulus q"
    and abc: "reduced q a" "reduced q b" "reduced q c" "length b = length a" "length c = length a"
  shows "add_poly_coeffmod S q a (add_poly_coeffmod S q b c) = add_poly_coeffmod S q (add_poly_coeffmod S q a b) c"
proof (rule nth_equalityI)
  show "length (add_poly_coeffmod S q a (add_poly_coeffmod S q b c))
      = length (add_poly_coeffmod S q (add_poly_coeffmod S q a b) c)"
    using abc by simp
next
  fix i
  assume "i < length (add_poly_coeffmod S q a (add_poly_coeffmod S q b c))"
  then have i: "i < length a" by simp
  have "unat (add_poly_coeffmod S q a (add_poly_coeffmod S q b c) ! i)
      = (unat (a ! i) + (unat (b ! i) + unat (c ! i)) mod unat q) mod unat q"
    using add_poly_nth [OF S q abc(1) reduced_add_poly [OF S q abc(2,3)]] add_poly_nth [OF S q abc(2,3)] abc i
    by simp
  also have "\<dots> = ((unat (a ! i) + unat (b ! i)) mod unat q + unat (c ! i)) mod unat q"
    by (simp add: mod_simps add.assoc)
  also have "\<dots> = unat (add_poly_coeffmod S q (add_poly_coeffmod S q a b) c ! i)"
    using add_poly_nth [OF S q reduced_add_poly [OF S q abc(1,2)] abc(3)] add_poly_nth [OF S q abc(1,2)] abc i
    by simp
  finally show "add_poly_coeffmod S q a (add_poly_coeffmod S q b c) ! i
      = add_poly_coeffmod S q (add_poly_coeffmod S q a b) c ! i" by (simp only: word_unat_eq_iff)
qed

lemma ntt_forward_eq:
  assumes "ntt_ok R N q" "length xs = N" "reduced q xs"
  shows "ntt_forward R q xs = sr_ntt R q xs"
proof -
  have ok: "valid_modulus q" "length (sr_ntt_lazy R q xs) = N" "length (sr_ntt R q xs) = N"
    "\<forall>i < N. unat (sr_ntt_lazy R q xs ! i) < 4 * unat q \<and>
        unat (sr_ntt_lazy R q xs ! i) mod unat q = unat (sr_ntt R q xs ! i)"
    using assms unfolding ntt_ok_def by blast+
  have "reduce_once q (reduce_once (q * 2) (sr_ntt_lazy R q xs ! i)) = sr_ntt R q xs ! i" if "i < N" for i
    using reduce_twice_unat [OF ok(1)] ok(4) that by (simp add: word_unat_eq_iff)
  then show ?thesis using ok(2,3) by (simp add: ntt_forward_def Let_def list_eq_iff_nth_eq)
qed

lemma ntt_backward_eq:
  assumes "ntt_ok R N q" "length xs = N" "reduced q xs"
  shows "ntt_backward R q xs = sr_intt R q xs"
proof -
  have ok: "reduced q (sr_intt R q xs)" "valid_modulus q" using assms unfolding ntt_ok_def by blast+
  have "reduce_once q x = x" if "x \<in> set (sr_intt R q xs)" for x
    using ok that by (simp add: reduced_def reduce_once_def)
  then show ?thesis by (simp add: ntt_backward_def map_idI)
qed

section \<open>Limb by limb\<close>

abbreviation limb :: "nat \<Rightarrow> u64 list \<Rightarrow> nat \<Rightarrow> u64 list" where
  "limb N a l \<equiv> slice a (l * N, N)"

lemma limb_concat:
  "l < length rows \<Longrightarrow> \<forall>r \<in> set rows. length r = N \<Longrightarrow> limb N (concat rows @ zs) l = rows ! l"
proof (induction rows arbitrary: l)
  case Nil
  then show ?case by simp
next
  case (Cons r rows)
  then show ?case by (cases l) (simp_all add: slice_def)
qed

lemma length_concat_rows: "\<forall>r \<in> set rows. length r = N \<Longrightarrow> length (concat rows) = length rows * N"
  by (induction rows) simp_all

lemma length_limb: "length a = L * N \<Longrightarrow> l < L \<Longrightarrow> length (limb N a l) = N"
proof -
  assume "length a = L * N" "l < L"
  then have "Suc l * N \<le> length a" by (metis Suc_leI mult_le_mono1)
  then show ?thesis by (simp add: slice_def)
qed

lemma limbs_eqI:
  assumes "length a = L * N" "length b = L * N" "\<And>l. l < L \<Longrightarrow> limb N a l = limb N b l"
  shows "a = b"
  using assms
proof (induction L arbitrary: a b)
  case 0
  then show ?case by simp
next
  case (Suc L)
  have "limb N (drop N a) l = limb N (drop N b) l" if "l < L" for l
    using Suc.prems(3) [of "Suc l"] that by (simp add: slice_def add.commute)
  moreover have "length (drop N a) = L * N" "length (drop N b) = L * N" using Suc.prems by simp_all
  ultimately have "drop N a = drop N b" using Suc.IH by blast
  moreover have "take N a = take N b" using Suc.prems(3) [of 0] by (simp add: slice_def)
  ultimately have "take N a @ drop N a = take N b @ drop N b" by (simp only:)
  then show ?case by (simp only: append_take_drop_id)
qed

lemma limb_map_limbs:
  assumes "l < length ms" "\<And>k. k < length ms \<Longrightarrow> length (f (ms ! k) (limb N a k)) = N"
  shows "limb N (map_limbs f N ms a) l = f (ms ! l) (limb N a l)"
  unfolding map_limbs_def using assms by (subst limb_concat) auto

lemma length_map_limbs:
  assumes "length a = length ms * N" "\<And>k. k < length ms \<Longrightarrow> length (f (ms ! k) (limb N a k)) = N"
  shows "length (map_limbs f N ms a) = length ms * N"
  unfolding map_limbs_def using assms by (subst length_append, subst length_concat_rows [where N = N]) auto

lemma limb_map2_limbs:
  assumes "l < length ms" "\<And>k. k < length ms \<Longrightarrow> length (f (ms ! k) (limb N a k) (limb N b k)) = N"
  shows "limb N (map2_limbs f N ms a b) l = f (ms ! l) (limb N a l) (limb N b l)"
  unfolding map2_limbs_def using assms by (subst limb_concat) auto

lemma length_map2_limbs:
  assumes "length a = length ms * N"
    "\<And>k. k < length ms \<Longrightarrow> length (f (ms ! k) (limb N a k) (limb N b k)) = N"
  shows "length (map2_limbs f N ms a b) = length ms * N"
  unfolding map2_limbs_def using assms by (subst length_append, subst length_concat_rows [where N = N]) auto

lemma length_dyadic [simp]: "length (dyadic_product_coeffmod S q a b) = min (length a) (length b)"
  by (simp add: dyadic_product_coeffmod_def)

lemma rns_okD: "rns_ok N ms a \<Longrightarrow> l < length ms \<Longrightarrow> length (limb N a l) = N \<and> reduced (ms ! l) (limb N a l)"
  unfolding rns_ok_def using length_limb by blast

lemma limb_rns_add:
  assumes "rns_ok N ms a" "rns_ok N ms b" "l < length ms"
  shows "limb N (rns_add R N ms a b) l = add_poly_coeffmod (sr_arith R) (ms ! l) (limb N a l) (limb N b l)"
  unfolding rns_add_def using assms by (intro limb_map2_limbs) (simp_all add: rns_okD)

lemma rns_ok_add:
  assumes "seal_arith_ok (sr_arith R)" "\<forall>q \<in> set ms. valid_modulus q" "rns_ok N ms a" "rns_ok N ms b"
  shows "rns_ok N ms (rns_add R N ms a b)"
proof -
  have "length (rns_add R N ms a b) = length ms * N"
    unfolding rns_add_def using assms by (intro length_map2_limbs) (simp_all add: rns_okD, simp add: rns_ok_def)
  moreover have "reduced (ms ! l) (limb N (rns_add R N ms a b) l)" if "l < length ms" for l
    using rns_okD [OF assms(3) that] rns_okD [OF assms(4) that] assms(1,2) that
    by (simp add: limb_rns_add [OF assms(3,4) that] reduced_add_poly)
  ultimately show ?thesis by (simp add: rns_ok_def)
qed

section \<open>Decryption of sums\<close>

text \<open>A ciphertext in coefficient form, at a level with the moduli \<open>ms\<close>.\<close>

definition ct_coeff_ok :: "seal_runtime \<Rightarrow> u64 list \<Rightarrow> rlwe_ct \<Rightarrow> bool" where
  "ct_coeff_ok R ms ct \<longleftrightarrow>
     ct_degree ct = sc_degree (sr_ctx R) \<and> sr_context_moduli R (ct_parms_id ct) = Some ms \<and>
     ct_parms_id ct \<noteq> parms_id_zero \<and>
     ct_coeff_modulus_size ct = length ms \<and> (\<exists>rest. sc_key_moduli (sr_ctx R) = ms @ rest) \<and>
     \<not> ct_is_ntt_form ct \<and> length (ct_polys ct) = 2 \<and>
     rns_ok (sc_degree (sr_ctx R)) ms (ct_polys ct ! 0) \<and> rns_ok (sc_degree (sr_ctx R)) ms (ct_polys ct ! 1)"

text \<open>The validity check of SEAL reads the header of a ciphertext, not its coefficients.\<close>

definition metadata_ok :: "seal_runtime \<Rightarrow> bool" where
  "metadata_ok R \<longleftrightarrow> (\<forall>ct ps. length ps = length (ct_polys ct) \<longrightarrow>
     sr_ct_metadata_valid R (ct\<lparr>ct_polys := ps\<rparr>) = sr_ct_metadata_valid R ct)"

text \<open>What decryption computes for one modulus.\<close>

definition phase_limb :: "seal_runtime \<Rightarrow> u64 \<Rightarrow> u64 list \<Rightarrow> u64 list \<Rightarrow> u64 list \<Rightarrow> u64 list" where
  "phase_limb R q c0 c1 s = sr_intt R q (add_poly_coeffmod (sr_arith R) q
     (dyadic_product_coeffmod (sr_arith R) q (sr_ntt R q c1) s) (sr_ntt R q c0))"

lemma reduced_dyadic:
  assumes "seal_arith_ok S" "valid_modulus q"
  shows "reduced q (dyadic_product_coeffmod S q a b)"
  using assms by (intro reduced_by_mod) (auto simp: dyadic_product_coeffmod_def seal_arith_ok_def seal_mod_ok_def)

lemma dyadic_add:
  assumes S: "seal_arith_ok S" "valid_modulus q" and ab: "reduced q a" "reduced q b" "length b = length a" "length a \<le> length s"
  shows "dyadic_product_coeffmod S q (add_poly_coeffmod S q a b) s
    = add_poly_coeffmod S q (dyadic_product_coeffmod S q a s) (dyadic_product_coeffmod S q b s)"
proof (rule nth_equalityI)
  show "length (dyadic_product_coeffmod S q (add_poly_coeffmod S q a b) s)
    = length (add_poly_coeffmod S q (dyadic_product_coeffmod S q a s) (dyadic_product_coeffmod S q b s))"
    using ab by simp
next
  fix i
  assume "i < length (dyadic_product_coeffmod S q (add_poly_coeffmod S q a b) s)"
  then have i: "i < length a" "i < length b" "i < length s" using ab by simp_all
  have mul: "unat (dyadic_product_coeffmod S q x s ! i) = unat (x ! i) * unat (s ! i) mod unat q"
    if "i < length x" for x
    using S i that by (simp add: dyadic_product_coeffmod_def seal_arith_ok_def seal_mod_ok_def)
  have "unat (add_poly_coeffmod S q (dyadic_product_coeffmod S q a s) (dyadic_product_coeffmod S q b s) ! i)
      = (unat (dyadic_product_coeffmod S q a s ! i) + unat (dyadic_product_coeffmod S q b s ! i)) mod unat q"
    using i ab by (intro add_poly_nth [OF S] reduced_dyadic [OF S]) simp_all
  also have "\<dots> = (unat (a ! i) + unat (b ! i)) mod unat q * unat (s ! i) mod unat q"
    using i by (simp add: mul mod_simps algebra_simps)
  also have "\<dots> = unat (dyadic_product_coeffmod S q (add_poly_coeffmod S q a b) s ! i)"
    using i ab add_poly_nth [OF S ab(1,2) i(1) ab(3)] by (simp add: mul)
  finally show "dyadic_product_coeffmod S q (add_poly_coeffmod S q a b) s ! i
    = add_poly_coeffmod S q (dyadic_product_coeffmod S q a s) (dyadic_product_coeffmod S q b s) ! i"
    by (simp only: word_unat_eq_iff)
qed

lemma ntt_okD:
  assumes "ntt_ok R N q" "length xs = N" "reduced q xs"
  shows "length (sr_ntt R q xs) = N" "reduced q (sr_ntt R q xs)"
    "length (sr_intt R q xs) = N" "reduced q (sr_intt R q xs)" "sr_intt R q (sr_ntt R q xs) = xs"
    "valid_modulus q"
  using assms unfolding ntt_ok_def by blast+

lemma ntt_ok_add:
  assumes "ntt_ok R N q" "length xs = N" "reduced q xs" "length ys = N" "reduced q ys"
  shows "sr_ntt R q (add_poly_coeffmod (sr_arith R) q xs ys)
      = add_poly_coeffmod (sr_arith R) q (sr_ntt R q xs) (sr_ntt R q ys)"
    "sr_intt R q (add_poly_coeffmod (sr_arith R) q xs ys)
      = add_poly_coeffmod (sr_arith R) q (sr_intt R q xs) (sr_intt R q ys)"
  using assms unfolding ntt_ok_def by blast+

lemma decrypt_coeffs_limbs:
  assumes S: "seal_arith_ok (sr_arith R)" and ntt: "\<forall>q \<in> set ms. ntt_ok R N q"
    and ct: "ct_coeff_ok R ms ct" "N = sc_degree (sr_ctx R)" and sk: "length ms * N \<le> length (pt_data sk)"
  shows "decrypt_coeffs R ct sk =
      (if \<not> sr_ct_metadata_valid R (ct\<lparr>ct_polys := map (map_limbs (ntt_forward R) N ms) (ct_polys ct), ct_is_ntt_form := True\<rparr>)
         then Inl (Throws (Invalid_argument ''internal::ckks_decrypt: invalid ct''))
       else if \<not> sr_sk_valid R sk
         then Inl (Throws (Invalid_argument ''internal::ckks_decrypt: invalid secret key''))
       else Inr \<lparr>pt_parms_id = ct_parms_id ct,
         pt_data = concat (map (\<lambda>l. phase_limb R (ms ! l) (limb N (ct_polys ct ! 0) l) (limb N (ct_polys ct ! 1) l)
                                  (limb N (pt_data sk) l)) [0..<length ms]),
         pt_scale = ct_scale ct\<rparr>)"
proof -
  let ?s = "pt_data sk" and ?S = "sr_arith R"
  obtain c0 c1 where cc: "ct_polys ct = [c0, c1]"
    using ct(1) by (auto simp: ct_coeff_ok_def length_Suc_conv numeral_2_eq_2)
  let ?ct = "ct\<lparr>ct_polys := map (map_limbs (ntt_forward R) N ms) (ct_polys ct), ct_is_ntt_form := True\<rparr>"
  obtain rest where key: "sc_key_moduli (sr_ctx R) = ms @ rest" using ct(1) by (auto simp: ct_coeff_ok_def)
  have polys: "rns_ok N ms c0" "rns_ok N ms c1"
    using ct by (simp_all add: ct_coeff_ok_def cc)
  have trans: "transform_to_ntt_inplace R ct = Inr ?ct"
    using ct by (simp add: transform_to_ntt_inplace_def ct_coeff_ok_def)
  have fwd: "ntt_forward R (ms ! l) (limb N p l) = sr_ntt R (ms ! l) (limb N p l)"
    "length (ntt_forward R (ms ! l) (limb N p l)) = N"
    if "rns_ok N ms p" "l < length ms" for p l
    using ntt_forward_eq [of R N "ms ! l" "limb N p l"] ntt_okD(1) [of R N "ms ! l" "limb N p l"]
      rns_okD [OF that] ntt that(2) by simp_all
  have ntt_limb: "limb N (map_limbs (ntt_forward R) N ms p) l = sr_ntt R (ms ! l) (limb N p l)"
    if "rns_ok N ms p" "l < length ms" for p l
    using limb_map_limbs [where f = "ntt_forward R" and N = N and a = p and l = l and ms = ms] fwd that by simp
  have ntt_len: "length (sr_ntt R (ms ! l) (limb N p l)) = N"
    if "rns_ok N ms p" "l < length ms" for p l
    using ntt_limb [OF that] fwd [OF that] by simp
  have sk_limb: "length (limb N ?s l) = N" if "l < length ms" for l
  proof -
    have "Suc l * N \<le> length ms * N" using that by (intro mult_le_mono1) simp
    then show ?thesis using sk by (simp add: slice_def)
  qed
  define prod where "prod = map2_limbs (dyadic_product_coeffmod ?S) N ms (map_limbs (ntt_forward R) N ms c1) ?s"
  have prod_limb: "limb N prod l = dyadic_product_coeffmod ?S (ms ! l) (sr_ntt R (ms ! l) (limb N c1 l)) (limb N ?s l)"
    if "l < length ms" for l
    unfolding prod_def using that
    by (subst limb_map2_limbs) (simp_all add: ntt_len polys sk_limb ntt_limb)
  have prod_len: "length (limb N prod l) = N" if "l < length ms" for l
    using prod_limb [OF that] ntt_len [OF polys(2) that] ntt_limb [OF polys(2) that] sk_limb [OF that] by simp
  define sm where "sm = map2_limbs (add_poly_coeffmod ?S) N ms prod (map_limbs (ntt_forward R) N ms c0)"
  have sm_limb: "limb N sm l = add_poly_coeffmod ?S (ms ! l) (limb N prod l) (sr_ntt R (ms ! l) (limb N c0 l))"
    if "l < length ms" for l
    unfolding sm_def using that
    by (subst limb_map2_limbs) (simp_all add: ntt_len polys prod_len ntt_limb)
  have lens: "length (map_limbs (ntt_forward R) N ms c1) = length ms * N"
    using polys(2) fwd(2) by (intro length_map_limbs) (simp_all add: rns_ok_def)
  have "length prod = length ms * N"
    unfolding prod_def using lens by (intro length_map2_limbs) (simp_all add: ntt_len polys sk_limb ntt_limb)
  then have sm_len: "length sm = length ms * N"
    unfolding sm_def by (intro length_map2_limbs) (simp_all add: ntt_len polys prod_len ntt_limb)
  have bwd: "ntt_backward R (ms ! l) (limb N sm l) = phase_limb R (ms ! l) (limb N c0 l) (limb N c1 l) (limb N ?s l)"
    if l: "l < length ms" for l
  proof -
    have q: "ntt_ok R N (ms ! l)" "valid_modulus (ms ! l)" using ntt l ntt_okD(6) by (auto simp: ntt_ok_def)
    have len0: "length (limb N c0 l) = N" "reduced (ms ! l) (limb N c0 l)" using rns_okD [OF polys(1) l] by simp_all
    have "reduced (ms ! l) (limb N sm l)" "length (limb N sm l) = N"
      using sm_limb [OF l] prod_limb [OF l] prod_len [OF l] S q(2) ntt_okD(1,2) [OF q(1) len0]
      by (simp_all add: reduced_add_poly reduced_dyadic)
    then show ?thesis
      using ntt_backward_eq [OF q(1)] by (simp add: phase_limb_def sm_limb [OF l] prod_limb [OF l])
  qed
  have final: "map_limbs (ntt_backward R) N ms sm
    = concat (map (\<lambda>l. phase_limb R (ms ! l) (limb N c0 l) (limb N c1 l) (limb N ?s l)) [0..<length ms])"
    using sm_len bwd by (simp add: map_limbs_def) (intro arg_cong [where f = concat] map_cong refl, simp)
  have nth: "ct_polys ?ct ! 0 = map_limbs (ntt_forward R) N ms c0" "ct_polys ?ct ! 1 = map_limbs (ntt_forward R) N ms c1"
    "length (ct_polys ?ct) = 2"
    by (simp_all add: cc)
  have "ckks_decrypt R ?ct sk =
      (if \<not> sr_ct_metadata_valid R ?ct then Inl (Throws (Invalid_argument ''internal::ckks_decrypt: invalid ct''))
       else if \<not> sr_sk_valid R sk then Inl (Throws (Invalid_argument ''internal::ckks_decrypt: invalid secret key''))
       else Inr \<lparr>pt_parms_id = ct_parms_id ct, pt_data = sm, pt_scale = ct_scale ct\<rparr>)"
    using ct nth by (simp add: ckks_decrypt_def Let_def ct_coeff_ok_def sm_def prod_def)
  moreover have "transfom_from_ntt_inplace R \<lparr>pt_parms_id = ct_parms_id ct, pt_data = sm, pt_scale = ct_scale ct\<rparr>
      = Inr \<lparr>pt_parms_id = ct_parms_id ct, pt_data = map_limbs (ntt_backward R) N ms sm, pt_scale = ct_scale ct\<rparr>"
    using ct by (simp add: transfom_from_ntt_inplace_def ct_coeff_ok_def pt_is_ntt_form_def)
  ultimately show ?thesis
    unfolding decrypt_coeffs_def trans by (simp add: final cc)
qed

text \<open>Success of decryption depends on the header of the ciphertext only.\<close>

lemma decrypt_coeffs_Inr:
  assumes S: "seal_arith_ok (sr_arith R)" and ntt: "\<forall>q \<in> set ms. ntt_ok R N q" and meta: "metadata_ok R"
    and ct: "ct_coeff_ok R ms ct" "N = sc_degree (sr_ctx R)" and sk: "length ms * N \<le> length (pt_data sk)"
  shows "decrypt_coeffs R ct sk = Inr d \<longleftrightarrow>
      sr_ct_metadata_valid R (ct\<lparr>ct_is_ntt_form := True, ct_polys := [[], []]\<rparr>) \<and> sr_sk_valid R sk \<and>
      d = \<lparr>pt_parms_id = ct_parms_id ct,
         pt_data = concat (map (\<lambda>l. phase_limb R (ms ! l) (limb N (ct_polys ct ! 0) l) (limb N (ct_polys ct ! 1) l)
                                  (limb N (pt_data sk) l)) [0..<length ms]),
         pt_scale = ct_scale ct\<rparr>"
proof -
  let ?ct = "ct\<lparr>ct_polys := map (map_limbs (ntt_forward R) N ms) (ct_polys ct), ct_is_ntt_form := True\<rparr>"
  have "length [[], [] :: u64 list] = length (ct_polys ?ct)" using ct(1) by (simp add: ct_coeff_ok_def)
  then have "sr_ct_metadata_valid R (?ct\<lparr>ct_polys := [[], []]\<rparr>) = sr_ct_metadata_valid R ?ct"
    using meta unfolding metadata_ok_def by blast
  then show ?thesis using decrypt_coeffs_limbs [OF S ntt ct sk] by auto
qed

lemma phase_limb_ok:
  assumes S: "seal_arith_ok (sr_arith R)" and q: "ntt_ok R N q"
    and c: "length c0 = N" "reduced q c0" "length c1 = N" "reduced q c1" "length s = N"
  shows "length (phase_limb R q c0 c1 s) = N \<and> reduced q (phase_limb R q c0 c1 s)"
proof -
  let ?m = "add_poly_coeffmod (sr_arith R) q (dyadic_product_coeffmod (sr_arith R) q (sr_ntt R q c1) s) (sr_ntt R q c0)"
  note n0 = ntt_okD [OF q c(1,2)] and n1 = ntt_okD [OF q c(3,4)]
  have "length ?m = N" "reduced q ?m"
    using S c n0 n1 by (simp_all add: reduced_add_poly reduced_dyadic)
  then show ?thesis using ntt_okD(3,4) [OF q] by (simp add: phase_limb_def)
qed

lemma phase_limb_add_plain:
  assumes S: "seal_arith_ok (sr_arith R)" and q: "ntt_ok R N q"
    and c: "length c0 = N" "reduced q c0" "length c1 = N" "reduced q c1" "length s = N"
    and p: "length p = N" "reduced q p"
  shows "phase_limb R q (add_poly_coeffmod (sr_arith R) q c0 p) c1 s
    = add_poly_coeffmod (sr_arith R) q (phase_limb R q c0 c1 s) p"
proof -
  let ?S = "sr_arith R" and ?add = "add_poly_coeffmod (sr_arith R) q"
  let ?m = "dyadic_product_coeffmod ?S q (sr_ntt R q c1) s"
  note n0 = ntt_okD [OF q c(1,2)] and n1 = ntt_okD [OF q c(3,4)] and np = ntt_okD [OF q p]
  have m: "length ?m = N" "reduced q ?m" using S c n1 by (simp_all add: reduced_dyadic)
  have sum: "length (?add ?m (sr_ntt R q c0)) = N" "reduced q (?add ?m (sr_ntt R q c0))"
    using S m n0 by (simp_all add: reduced_add_poly)
  have "?add ?m (sr_ntt R q (?add c0 p)) = ?add ?m (?add (sr_ntt R q c0) (sr_ntt R q p))"
    using ntt_ok_add(1) [OF q c(1,2) p] by simp
  also have "\<dots> = ?add (?add ?m (sr_ntt R q c0)) (sr_ntt R q p)"
    using S m n0 np by (intro add_poly_assoc) simp_all
  finally show ?thesis
    using ntt_ok_add(2) [OF q sum np(1,2)] np(5) by (simp add: phase_limb_def)
qed

lemma sk_limb:
  assumes "length (ms :: u64 list) * N \<le> length s" "l < length ms"
  shows "length (limb N s l) = N"
proof -
  have "Suc l * N \<le> length ms * N" using assms(2) by (intro mult_le_mono1) simp
  then show ?thesis using assms(1) by (simp add: slice_def)
qed

lemma decrypt_coeffs_data:
  assumes S: "seal_arith_ok (sr_arith R)" and ntt: "\<forall>q \<in> set ms. ntt_ok R N q" and meta: "metadata_ok R"
    and ct: "ct_coeff_ok R ms ct" "N = sc_degree (sr_ctx R)" and sk: "length ms * N \<le> length (pt_data sk)"
    and dec: "decrypt_coeffs R ct sk = Inr d"
  shows "rns_ok N ms (pt_data d)"
    and "l < length ms \<Longrightarrow> limb N (pt_data d) l
      = phase_limb R (ms ! l) (limb N (ct_polys ct ! 0) l) (limb N (ct_polys ct ! 1) l) (limb N (pt_data sk) l)"
proof -
  let ?ph = "\<lambda>l. phase_limb R (ms ! l) (limb N (ct_polys ct ! 0) l) (limb N (ct_polys ct ! 1) l) (limb N (pt_data sk) l)"
  have c: "rns_ok N ms (ct_polys ct ! 0)" "rns_ok N ms (ct_polys ct ! 1)"
    using ct by (simp_all add: ct_coeff_ok_def)
  have data: "pt_data d = concat (map ?ph [0..<length ms]) @ []"
    using iffD1 [OF decrypt_coeffs_Inr [OF S ntt meta ct sk] dec] by simp
  have ph: "length (?ph l) = N \<and> reduced (ms ! l) (?ph l)" if "l < length ms" for l
    using rns_okD [OF c(1) that] rns_okD [OF c(2) that] sk_limb [OF sk that] ntt that
    by (intro phase_limb_ok [OF S]) simp_all
  then have rows: "\<forall>r \<in> set (map ?ph [0..<length ms]). length r = N" by auto
  have limbs: "limb N (pt_data d) l = ?ph l" if "l < length ms" for l
    unfolding data using limb_concat [OF _ rows, of l "[]"] that by simp
  show "rns_ok N ms (pt_data d)"
    using length_concat_rows [OF rows] limbs ph by (simp add: rns_ok_def data)
  show "l < length ms \<Longrightarrow> limb N (pt_data d) l = ?ph l" by (rule limbs)
qed

text \<open>A ciphertext with the header of one that decrypts decrypts to a plaintext with the same header.\<close>

lemma decrypt_same_header:
  assumes S: "seal_arith_ok (sr_arith R)" and ntt: "\<forall>q \<in> set ms. ntt_ok R (sc_degree (sr_ctx R)) q"
    and meta: "metadata_ok R" and ct: "ct_coeff_ok R ms ct" "ct_coeff_ok R ms (ct\<lparr>ct_polys := ps\<rparr>)"
    and sk: "length ms * sc_degree (sr_ctx R) \<le> length (pt_data sk)"
    and dec: "decrypt_coeffs R ct sk = Inr d"
  obtains d' where "decrypt_coeffs R (ct\<lparr>ct_polys := ps\<rparr>) sk = Inr d'" "d' = d\<lparr>pt_data := pt_data d'\<rparr>"
proof -
  note 1 = iffD1 [OF decrypt_coeffs_Inr [OF S ntt meta ct(1) refl sk] dec]
  note 2 = decrypt_coeffs_Inr [OF S ntt meta ct(2) refl sk]
  define xs where "xs = concat (map (\<lambda>l. phase_limb R (ms ! l) (limb (sc_degree (sr_ctx R)) (ps ! 0) l)
      (limb (sc_degree (sr_ctx R)) (ps ! 1) l) (limb (sc_degree (sr_ctx R)) (pt_data sk) l)) [0..<length ms])"
  have "decrypt_coeffs R (ct\<lparr>ct_polys := ps\<rparr>) sk = Inr (d\<lparr>pt_data := xs\<rparr>)"
    using 1 by (intro iffD2 [OF 2]) (simp add: xs_def)
  then show ?thesis by (rule that) simp
qed

lemma decrypt_add_plain_lemma:
  assumes "seal_arith_ok (sr_arith R)" "\<forall>q \<in> set ms. ntt_ok R (sc_degree (sr_ctx R)) q" "metadata_ok R"
    and "ct_coeff_ok R ms ct" "length ms * sc_degree (sr_ctx R) \<le> length (pt_data sk)"
    and "rns_ok (sc_degree (sr_ctx R)) ms (pt_data pt)" "decrypt_coeffs R ct sk = Inr d"
  shows "\<exists>ct'. add_plain_inplace R ct pt = Inr ct' \<and>
    decrypt_coeffs R ct' sk
      = Inr (d\<lparr>pt_data := rns_add R (sc_degree (sr_ctx R)) ms (pt_data d) (pt_data pt)\<rparr>)"
proof -
  let ?N = "sc_degree (sr_ctx R)" and ?p = "pt_data pt" and ?s = "pt_data sk"
  obtain c0 c1 where cc: "ct_polys ct = [c0, c1]"
    using assms(4) by (auto simp: ct_coeff_ok_def length_Suc_conv numeral_2_eq_2)
  have c: "rns_ok ?N ms c0" "rns_ok ?N ms c1" using assms(4) by (simp_all add: ct_coeff_ok_def cc)
  have valid: "\<forall>q \<in> set ms. valid_modulus q" using assms(2) by (auto simp: ntt_ok_def)
  let ?ct' = "ct\<lparr>ct_polys := [rns_add R ?N ms c0 ?p, c1]\<rparr>"
  have add: "add_plain_inplace R ct pt = Inr ?ct'"
    using assms(4,6) by (auto simp: add_plain_inplace_def Let_def ct_coeff_ok_def rns_ok_def cc
        rns_add_def mult.commute)
  have ct': "ct_coeff_ok R ms ?ct'"
    using assms(4) c(2) rns_ok_add [OF assms(1) valid c(1) assms(6)] by (simp add: ct_coeff_ok_def)
  obtain d' where d': "decrypt_coeffs R ?ct' sk = Inr d'" "d' = d\<lparr>pt_data := pt_data d'\<rparr>"
    by (rule decrypt_same_header [OF assms(1-4) ct' assms(5,7)])
  note d = decrypt_coeffs_data [OF assms(1-4) refl assms(5,7)]
  note e = decrypt_coeffs_data [OF assms(1-3) ct' refl assms(5) d'(1)]
  have "pt_data d' = rns_add R ?N ms (pt_data d) ?p"
  proof (rule limbs_eqI)
    show "length (pt_data d') = length ms * ?N" using e(1) by (simp add: rns_ok_def)
    show "length (rns_add R ?N ms (pt_data d) ?p) = length ms * ?N"
      using rns_ok_add [OF assms(1) valid d(1) assms(6)] by (simp add: rns_ok_def)
  next
    fix l
    assume l: "l < length ms"
    have q: "ntt_ok R ?N (ms ! l)" using assms(2) l by simp
    have "limb ?N (pt_data d') l = phase_limb R (ms ! l)
        (add_poly_coeffmod (sr_arith R) (ms ! l) (limb ?N c0 l) (limb ?N ?p l)) (limb ?N c1 l) (limb ?N ?s l)"
      using e(2) [OF l] limb_rns_add [OF c(1) assms(6) l] by simp
    also have "\<dots> = add_poly_coeffmod (sr_arith R) (ms ! l) (limb ?N (pt_data d) l) (limb ?N ?p l)"
      using phase_limb_add_plain [OF assms(1) q] rns_okD [OF c(1) l] rns_okD [OF c(2) l]
        rns_okD [OF assms(6) l] sk_limb [OF assms(5) l] d(2) [OF l] by (simp add: cc)
    finally show "limb ?N (pt_data d') l = limb ?N (rns_add R ?N ms (pt_data d) ?p) l"
      by (simp only: limb_rns_add [OF d(1) assms(6) l])
  qed
  with d' add show ?thesis by metis
qed

text \<open>
  Homomorphic addition of a plaintext: for every ciphertext in coefficient form that decrypts, adding
  a plaintext polynomial in place succeeds, the sum decrypts, and its coefficients are the sums of the
  decrypted coefficients and of the plaintext, modulo each prime.
\<close>

theorem decrypt_add_plain:
  assumes "seal_arith_ok (sr_arith R)" "\<forall>q \<in> set ms. ntt_ok R (sc_degree (sr_ctx R)) q" "metadata_ok R"
    and "ct_coeff_ok R ms ct" "length ms * sc_degree (sr_ctx R) \<le> length (pt_data sk)"
    and "rns_ok (sc_degree (sr_ctx R)) ms (pt_data pt)" "decrypt_coeffs R ct sk = Inr d"
  shows "\<exists>ct'. add_plain_inplace R ct pt = Inr ct' \<and>
    decrypt_coeffs R ct' sk
      = Inr (d\<lparr>pt_data := rns_add R (sc_degree (sr_ctx R)) ms (pt_data d) (pt_data pt)\<rparr>)"
  using assms by (rule decrypt_add_plain_lemma)

text \<open>A concrete runtime: degree 2, the moduli of the SDK, and the identity as the transform.\<close>

definition rt_ref :: seal_runtime where
  "rt_ref = \<lparr>sr_arith = seal_ref, sr_ctx = mvp_ctx\<lparr>sc_degree := 2\<rparr>,
     sr_key_parms_id = parms_id 3, sr_first_parms_id = parms_id 2,
     sr_context_moduli = (\<lambda>p. if p = parms_id 3 then Some kModulus
                              else if p = parms_id 2 then Some (butlast kModulus) else None),
     sr_ntt_lazy = (\<lambda>q xs. xs), sr_ntt = (\<lambda>q xs. xs), sr_intt = (\<lambda>q xs. xs),
     sr_ct_metadata_valid = (\<lambda>ct. ct_parms_id ct = parms_id 2), sr_sk_valid = (\<lambda>sk. True)\<rparr>"

lemma ntt_ok_ref: "valid_modulus q \<Longrightarrow> ntt_ok rt_ref N q"
proof -
  assume q: "valid_modulus q"
  have "unat (xs ! i) < 4 * unat q \<and> unat (xs ! i) mod unat q = unat (xs ! i)"
    if "reduced q xs" "i < length xs" for xs i
    using reduced_nth [OF that] by (simp add: word_less_nat_alt)
  with q show ?thesis by (simp add: ntt_ok_def rt_ref_def)
qed

lemma metadata_ok_ref: "metadata_ok rt_ref"
  by (simp add: metadata_ok_def rt_ref_def)

definition ct_ref :: "u64 list \<Rightarrow> u64 list \<Rightarrow> rlwe_ct" where
  "ct_ref a b = \<lparr>ct_parms_id = parms_id 2, ct_is_ntt_form = False, ct_degree = 2, ct_coeff_modulus_size = 2,
     ct_polys = [a, b], ct_scale = 1\<rparr>"

definition pt_ref :: "u64 list \<Rightarrow> rlwe_pt" where
  "pt_ref a = \<lparr>pt_parms_id = parms_id 2, pt_data = a, pt_scale = 1\<rparr>"

lemma rns_ok_two: "rns_ok 2 [p, q] [a, b, c, d] \<longleftrightarrow> a < p \<and> b < p \<and> c < q \<and> d < q"
  by (auto simp: rns_ok_def slice_def reduced_def less_Suc_eq)

lemma rt_ref_degree [simp]: "sc_degree (sr_ctx rt_ref) = 2"
  by (simp add: rt_ref_def)

lemma ct_ref_ok: "ct_coeff_ok rt_ref (butlast kModulus) (ct_ref [1, 2, 3, 4] [5, 6, 7, 8])"
  by (simp add: ct_coeff_ok_def ct_ref_def kModulus_values rns_ok_two)
    (simp add: rt_ref_def mvp_ctx_def kModulus_values)

theorem decrypt_add_plain_witness:
  "\<exists>d ct'. decrypt_coeffs rt_ref (ct_ref [1, 2, 3, 4] [5, 6, 7, 8]) (pt_ref [1, 0, 1, 0]) = Inr d \<and>
    add_plain_inplace rt_ref (ct_ref [1, 2, 3, 4] [5, 6, 7, 8]) (pt_ref [9, 9, 9, 9]) = Inr ct' \<and>
    decrypt_coeffs rt_ref ct' (pt_ref [1, 0, 1, 0])
      = Inr (d\<lparr>pt_data := rns_add rt_ref (sc_degree (sr_ctx rt_ref)) (butlast kModulus) (pt_data d) [9, 9, 9, 9]\<rparr>)"
proof -
  let ?ct = "ct_ref [1, 2, 3, 4] [5, 6, 7, 8]" and ?sk = "pt_ref [1, 0, 1, 0]" and ?ms = "butlast kModulus"
  have S: "seal_arith_ok (sr_arith rt_ref)" using seal_arith_ok_ref by (simp add: rt_ref_def)
  have ntt: "\<forall>q \<in> set ?ms. ntt_ok rt_ref (sc_degree (sr_ctx rt_ref)) q"
    by (auto simp: kModulus_values valid_modulus_def intro!: ntt_ok_ref)
  have sk: "length ?ms * sc_degree (sr_ctx rt_ref) \<le> length (pt_data ?sk)"
    by (simp add: rt_ref_def mvp_ctx_def kModulus_values pt_ref_def)
  obtain d where d: "decrypt_coeffs rt_ref ?ct ?sk = Inr d"
    by (rule that, rule iffD2 [OF decrypt_coeffs_Inr [OF S ntt metadata_ok_ref ct_ref_ok refl sk]], intro conjI refl)
      (simp_all add: rt_ref_def ct_ref_def)
  have pt: "rns_ok (sc_degree (sr_ctx rt_ref)) ?ms (pt_data (pt_ref [9, 9, 9, 9]))"
    by (simp add: kModulus_values pt_ref_def rns_ok_two)
  from decrypt_add_plain [OF S ntt metadata_ok_ref ct_ref_ok sk pt d] d show ?thesis
    by (auto simp: pt_ref_def)
qed

lemma add_poly_swap:
  assumes S: "seal_arith_ok S" and q: "valid_modulus q"
    and a: "reduced q a" "reduced q b" "reduced q c" "reduced q d"
      "length b = length a" "length c = length a" "length d = length a"
  shows "add_poly_coeffmod S q (add_poly_coeffmod S q a b) (add_poly_coeffmod S q c d)
    = add_poly_coeffmod S q (add_poly_coeffmod S q a c) (add_poly_coeffmod S q b d)"
proof (rule nth_equalityI)
  show "length (add_poly_coeffmod S q (add_poly_coeffmod S q a b) (add_poly_coeffmod S q c d))
    = length (add_poly_coeffmod S q (add_poly_coeffmod S q a c) (add_poly_coeffmod S q b d))"
    using a by simp
next
  fix i
  assume "i < length (add_poly_coeffmod S q (add_poly_coeffmod S q a b) (add_poly_coeffmod S q c d))"
  then have i: "i < length a" using a by simp
  have sum: "unat (add_poly_coeffmod S q (add_poly_coeffmod S q w x) (add_poly_coeffmod S q y z) ! i)
      = (unat (w ! i) + unat (x ! i) + (unat (y ! i) + unat (z ! i))) mod unat q"
    if "reduced q w" "reduced q x" "reduced q y" "reduced q z"
      "length w = length a" "length x = length a" "length y = length a" "length z = length a" for w x y z
    using that i add_poly_nth [OF S q reduced_add_poly [OF S q that(1,2)] reduced_add_poly [OF S q that(3,4)], of i]
      add_poly_nth [OF S q that(1,2), of i] add_poly_nth [OF S q that(3,4), of i]
    by (simp add: mod_simps)
  show "add_poly_coeffmod S q (add_poly_coeffmod S q a b) (add_poly_coeffmod S q c d) ! i
    = add_poly_coeffmod S q (add_poly_coeffmod S q a c) (add_poly_coeffmod S q b d) ! i"
    using sum [OF a(1-4) refl a(5-7)] sum [OF a(1,3,2,4) refl a(6,5,7)]
    by (simp only: word_unat_eq_iff add.assoc add.left_commute)
qed

lemma phase_limb_add:
  assumes S: "seal_arith_ok (sr_arith R)" and q: "ntt_ok R N q" and s: "length s = N"
    and c: "length c0 = N" "reduced q c0" "length c1 = N" "reduced q c1"
    and e: "length e0 = N" "reduced q e0" "length e1 = N" "reduced q e1"
  shows "phase_limb R q (add_poly_coeffmod (sr_arith R) q c0 e0) (add_poly_coeffmod (sr_arith R) q c1 e1) s
    = add_poly_coeffmod (sr_arith R) q (phase_limb R q c0 c1 s) (phase_limb R q e0 e1 s)"
proof -
  let ?S = "sr_arith R" and ?add = "add_poly_coeffmod (sr_arith R) q" and ?mul = "\<lambda>a. dyadic_product_coeffmod (sr_arith R) q a s"
  let ?x0 = "sr_ntt R q c0" and ?x1 = "sr_ntt R q c1" and ?y0 = "sr_ntt R q e0" and ?y1 = "sr_ntt R q e1"
  note x0 = ntt_okD [OF q c(1,2)] and x1 = ntt_okD [OF q c(3,4)] and y0 = ntt_okD [OF q e(1,2)] and y1 = ntt_okD [OF q e(3,4)]
  have "?mul (?add ?x1 ?y1) = ?add (?mul ?x1) (?mul ?y1)"
    using S x1 y1 s by (intro dyadic_add) simp_all
  moreover have "?add (?add (?mul ?x1) (?mul ?y1)) (?add ?x0 ?y0) = ?add (?add (?mul ?x1) ?x0) (?add (?mul ?y1) ?y0)"
    using S x0 x1 y0 y1 s by (intro add_poly_swap) (simp_all add: reduced_dyadic)
  moreover have "length (?add (?mul ?x1) ?x0) = N" "reduced q (?add (?mul ?x1) ?x0)"
    "length (?add (?mul ?y1) ?y0) = N" "reduced q (?add (?mul ?y1) ?y0)"
    using S x0 x1 y0 y1 s by (simp_all add: reduced_add_poly reduced_dyadic)
  ultimately show ?thesis
    using ntt_ok_add [OF q] c e unfolding phase_limb_def by simp
qed

lemma decrypt_add_lemma:
  assumes "seal_arith_ok (sr_arith R)" "\<forall>q \<in> set ms. ntt_ok R (sc_degree (sr_ctx R)) q" "metadata_ok R"
    and "ct_coeff_ok R ms ct" "ct_coeff_ok R ms ct2" "ct_parms_id ct2 = ct_parms_id ct"
    and "length ms * sc_degree (sr_ctx R) \<le> length (pt_data sk)"
    and "decrypt_coeffs R ct sk = Inr d" "decrypt_coeffs R ct2 sk = Inr d2"
  shows "\<exists>ct'. add_inplace R ct ct2 = Inr ct' \<and>
    decrypt_coeffs R ct' sk
      = Inr (d\<lparr>pt_data := rns_add R (sc_degree (sr_ctx R)) ms (pt_data d) (pt_data d2)\<rparr>)"
proof -
  let ?N = "sc_degree (sr_ctx R)" and ?s = "pt_data sk"
  obtain c0 c1 where cc: "ct_polys ct = [c0, c1]"
    using assms(4) by (auto simp: ct_coeff_ok_def length_Suc_conv numeral_2_eq_2)
  obtain e0 e1 where ee: "ct_polys ct2 = [e0, e1]"
    using assms(5) by (auto simp: ct_coeff_ok_def length_Suc_conv numeral_2_eq_2)
  have c: "rns_ok ?N ms c0" "rns_ok ?N ms c1" "rns_ok ?N ms e0" "rns_ok ?N ms e1"
    using assms(4,5) by (simp_all add: ct_coeff_ok_def cc ee)
  have valid: "\<forall>q \<in> set ms. valid_modulus q" using assms(2) by (auto simp: ntt_ok_def)
  let ?ct' = "ct\<lparr>ct_polys := [rns_add R ?N ms c0 e0, rns_add R ?N ms c1 e1]\<rparr>"
  have add: "add_inplace R ct ct2 = Inr ?ct'"
    using assms(4-6) by (auto simp: add_inplace_def Let_def ct_coeff_ok_def cc ee rns_add_def)
  have ct': "ct_coeff_ok R ms ?ct'"
    using assms(4) rns_ok_add [OF assms(1) valid c(1,3)] rns_ok_add [OF assms(1) valid c(2,4)]
    by (simp add: ct_coeff_ok_def)
  obtain d' where d': "decrypt_coeffs R ?ct' sk = Inr d'" "d' = d\<lparr>pt_data := pt_data d'\<rparr>"
    by (rule decrypt_same_header [OF assms(1-4) ct' assms(7,8)])
  note d = decrypt_coeffs_data [OF assms(1-4) refl assms(7,8)]
  note d2 = decrypt_coeffs_data [OF assms(1-3,5) refl assms(7,9)]
  note r = decrypt_coeffs_data [OF assms(1-3) ct' refl assms(7) d'(1)]
  have "pt_data d' = rns_add R ?N ms (pt_data d) (pt_data d2)"
  proof (rule limbs_eqI)
    show "length (pt_data d') = length ms * ?N" using r(1) by (simp add: rns_ok_def)
    show "length (rns_add R ?N ms (pt_data d) (pt_data d2)) = length ms * ?N"
      using rns_ok_add [OF assms(1) valid d(1) d2(1)] by (simp add: rns_ok_def)
  next
    fix l
    assume l: "l < length ms"
    have q: "ntt_ok R ?N (ms ! l)" using assms(2) l by simp
    have "limb ?N (pt_data d') l = phase_limb R (ms ! l)
        (add_poly_coeffmod (sr_arith R) (ms ! l) (limb ?N c0 l) (limb ?N e0 l))
        (add_poly_coeffmod (sr_arith R) (ms ! l) (limb ?N c1 l) (limb ?N e1 l)) (limb ?N ?s l)"
      using r(2) [OF l] limb_rns_add [OF c(1,3) l] limb_rns_add [OF c(2,4) l] by simp
    also have "\<dots> = add_poly_coeffmod (sr_arith R) (ms ! l) (limb ?N (pt_data d) l) (limb ?N (pt_data d2) l)"
      using phase_limb_add [OF assms(1) q sk_limb [OF assms(7) l]] rns_okD [OF c(1) l] rns_okD [OF c(2) l]
        rns_okD [OF c(3) l] rns_okD [OF c(4) l] d(2) [OF l] d2(2) [OF l] by (simp add: cc ee)
    finally show "limb ?N (pt_data d') l = limb ?N (rns_add R ?N ms (pt_data d) (pt_data d2)) l"
      by (simp only: limb_rns_add [OF d(1) d2(1) l])
  qed
  with d' add show ?thesis by metis
qed

text \<open>
  Homomorphic addition of ciphertexts: two ciphertexts in coefficient form at the same level that
  decrypt can be added in place, and the sum decrypts to the sums of the coefficients modulo each prime.
\<close>

theorem decrypt_add:
  assumes "seal_arith_ok (sr_arith R)" "\<forall>q \<in> set ms. ntt_ok R (sc_degree (sr_ctx R)) q" "metadata_ok R"
    and "ct_coeff_ok R ms ct" "ct_coeff_ok R ms ct2" "ct_parms_id ct2 = ct_parms_id ct"
    and "length ms * sc_degree (sr_ctx R) \<le> length (pt_data sk)"
    and "decrypt_coeffs R ct sk = Inr d" "decrypt_coeffs R ct2 sk = Inr d2"
  shows "\<exists>ct'. add_inplace R ct ct2 = Inr ct' \<and>
    decrypt_coeffs R ct' sk
      = Inr (d\<lparr>pt_data := rns_add R (sc_degree (sr_ctx R)) ms (pt_data d) (pt_data d2)\<rparr>)"
  using assms by (rule decrypt_add_lemma)

theorem decrypt_add_witness:
  "\<exists>d ct'. decrypt_coeffs rt_ref (ct_ref [1, 2, 3, 4] [5, 6, 7, 8]) (pt_ref [1, 0, 1, 0]) = Inr d \<and>
    add_inplace rt_ref (ct_ref [1, 2, 3, 4] [5, 6, 7, 8]) (ct_ref [1, 2, 3, 4] [5, 6, 7, 8]) = Inr ct' \<and>
    decrypt_coeffs rt_ref ct' (pt_ref [1, 0, 1, 0])
      = Inr (d\<lparr>pt_data := rns_add rt_ref 2 (butlast kModulus) (pt_data d) (pt_data d)\<rparr>)"
proof -
  let ?ct = "ct_ref [1, 2, 3, 4] [5, 6, 7, 8]" and ?sk = "pt_ref [1, 0, 1, 0]" and ?ms = "butlast kModulus"
  have S: "seal_arith_ok (sr_arith rt_ref)" using seal_arith_ok_ref by (simp add: rt_ref_def)
  have ntt: "\<forall>q \<in> set ?ms. ntt_ok rt_ref (sc_degree (sr_ctx rt_ref)) q"
    by (auto simp: kModulus_values valid_modulus_def intro!: ntt_ok_ref)
  have sk: "length ?ms * sc_degree (sr_ctx rt_ref) \<le> length (pt_data ?sk)"
    by (simp add: kModulus_values pt_ref_def)
  obtain d where d: "decrypt_coeffs rt_ref ?ct ?sk = Inr d"
    by (rule that, rule iffD2 [OF decrypt_coeffs_Inr [OF S ntt metadata_ok_ref ct_ref_ok refl sk]], intro conjI refl)
      (simp_all add: rt_ref_def ct_ref_def)
  from decrypt_add [OF S ntt metadata_ok_ref ct_ref_ok ct_ref_ok refl sk d d] d show ?thesis
    by auto
qed

end
