(* ===== verification/Scaling.thy ===== *)
theory Scaling
  imports Prelude
begin

text \<open>
  The specification of the modulus switch on the integers: scaling between shares modulo \<open>t\<close> and
  residues modulo \<open>Q\<close> by rounded multiplication with \<open>Q / t\<close> and \<open>t / Q\<close>, and the laws that make
  decryption work: noise is rounded away, linear combinations survive up to a small error, and a mask
  splits a value into two shares.
\<close>

definition scale_up :: "int \<Rightarrow> int \<Rightarrow> int \<Rightarrow> int" where
  "scale_up t Q x = (Q * x + t div 2) div t"

definition scale_down :: "int \<Rightarrow> int \<Rightarrow> int \<Rightarrow> int" where
  "scale_down t Q y = (y * t + (Q + 1) div 2) div Q"

lemma twice_absI: "2 * z \<le> b \<Longrightarrow> - (2 * z) \<le> b \<Longrightarrow> 2 * \<bar>z\<bar> \<le> b" for z b :: int
  by linarith

lemma twice_abs_add: "2 * \<bar>a\<bar> \<le> x \<Longrightarrow> 2 * \<bar>b\<bar> \<le> y \<Longrightarrow> 2 * \<bar>a + b\<bar> \<le> x + y" for a b x y :: int
  by presburger

locale share_scaling =
  fixes t Q :: int
  assumes t_pos: "0 < t" and Q_pos: "0 < Q"
begin

lemma div_shift: "(Q * x + n) div Q = x + n div Q"
  using Q_pos by simp

lemma half_up: "0 \<le> (Q + 1) div 2" "(Q + 1) div 2 \<le> Q" "Q \<le> 2 * ((Q + 1) div 2)"
    "2 * ((Q + 1) div 2) \<le> Q + 1"
  using Q_pos by presburger+

lemma scale_down_shift:
  "t * y = Q * x + d \<Longrightarrow> scale_down t Q y = x + (d + (Q + 1) div 2) div Q"
  using div_shift [of x "d + (Q + 1) div 2"] by (simp only: scale_down_def mult.commute add.assoc)

lemma scale_up_error: "2 * \<bar>t * scale_up t Q x - Q * x\<bar> \<le> t"
proof -
  define h r where "h = t div 2" and "r = (Q * x + h) mod t"
  have "t * scale_up t Q x = Q * x + h - r"
    by (simp add: scale_up_def r_def h_def minus_mod_eq_mult_div)
  moreover have "0 \<le> r" "r < t" using t_pos by (simp_all add: r_def)
  moreover have "2 * h \<le> t" "t \<le> 2 * h + 1" unfolding h_def by presburger+
  ultimately show ?thesis by (intro twice_absI) simp_all
qed

text \<open>Scaling up is additive up to one.\<close>

lemma scale_up_add: "\<bar>scale_up t Q x + scale_up t Q y - scale_up t Q (x + y)\<bar> \<le> 1"
proof -
  define D where "D = scale_up t Q x + scale_up t Q y - scale_up t Q (x + y)"
  have "t * D = (t * scale_up t Q x - Q * x) + (t * scale_up t Q y - Q * y) + - (t * scale_up t Q (x + y) - Q * (x + y))"
    by (simp add: D_def algebra_simps)
  moreover have "2 * \<bar>- (t * scale_up t Q (x + y) - Q * (x + y))\<bar> \<le> t"
    using scale_up_error [of "x + y"] by (simp only: abs_minus_cancel)
  ultimately have "2 * \<bar>t * D\<bar> \<le> t + t + t"
    using twice_abs_add [OF twice_abs_add [OF scale_up_error [of x] scale_up_error [of y]]] by (simp only:)
  then have "t * (2 * \<bar>D\<bar>) \<le> t * 3" using t_pos by (simp add: abs_mult algebra_simps)
  then have "2 * \<bar>D\<bar> \<le> 3" using t_pos by (simp only: mult_le_cancel_left_pos)
  then show ?thesis by (simp add: D_def)
qed

text \<open>What \<open>scale_down\<close> makes of a value close to a multiple of \<open>Q / t\<close>.\<close>

lemma scale_down_near:
  assumes "t * y = Q * x + d" "2 * \<bar>d\<bar> + 1 < Q"
  shows "scale_down t Q y = x"
proof -
  have "0 \<le> d + (Q + 1) div 2" "d + (Q + 1) div 2 < Q"
    using assms(2) half_up by linarith+
  then show ?thesis using assms(1) by (simp add: scale_down_shift div_pos_pos_trivial)
qed

lemma scale_down_error:
  assumes "t * y = Q * x + d"
  shows "Q * \<bar>scale_down t Q y - x\<bar> \<le> \<bar>d\<bar> + Q"
proof -
  define n where "n = d + (Q + 1) div 2"
  have eq: "scale_down t Q y - x = n div Q"
    using assms by (simp add: scale_down_shift n_def)
  define r where "r = n mod Q"
  have "Q * (n div Q) = n - r" by (simp add: minus_mod_eq_mult_div r_def)
  moreover have "0 \<le> r" "r < Q" using Q_pos by (simp_all add: r_def)
  ultimately have "\<bar>Q * (n div Q)\<bar> \<le> \<bar>d\<bar> + Q"
    using half_up unfolding n_def by linarith
  then show ?thesis using Q_pos by (simp add: eq abs_mult)
qed

text \<open>Reducing modulo \<open>Q\<close> first changes the result by a multiple of \<open>t\<close> only.\<close>

lemma scale_down_mod: "scale_down t Q (y mod Q) = scale_down t Q y - t * (y div Q)"
proof -
  define q r where "q = y div Q" and "r = y mod Q"
  have "y = Q * q + r" by (simp add: q_def r_def)
  then have "y * t + (Q + 1) div 2 = Q * (t * q) + (r * t + (Q + 1) div 2)"
    by (simp add: algebra_simps)
  then have "scale_down t Q y = t * q + scale_down t Q r"
    unfolding scale_down_def using div_shift by metis
  then show ?thesis by (simp add: q_def r_def)
qed

lemma scale_down_mod_cong: "scale_down t Q (y mod Q) mod t = scale_down t Q y mod t"
  unfolding scale_down_mod by (metis diff_add_cancel mod_mult_self2 mult.commute)

lemma decode_noisy:
  assumes "t * (2 * \<bar>e\<bar> + 1) + 1 < Q"
  shows "scale_down t Q ((scale_up t Q x + e) mod Q) mod t = x mod t"
proof -
  define d where "d = (t * scale_up t Q x - Q * x) + t * e"
  have "\<bar>t * e\<bar> = t * \<bar>e\<bar>" using t_pos by (simp add: abs_mult)
  with scale_up_error [of x] have "2 * \<bar>d\<bar> \<le> t + 2 * (t * \<bar>e\<bar>)"
    unfolding d_def by (intro twice_abs_add) simp_all
  moreover have "t + 2 * (t * \<bar>e\<bar>) + 1 < Q" using assms by (simp add: algebra_simps)
  ultimately have "scale_down t Q (scale_up t Q x + e) = x"
    by (intro scale_down_near [where d = d]) (simp_all add: d_def algebra_simps)
  then show ?thesis by (simp add: scale_down_mod_cong)
qed

text \<open>
  A linear combination of scaled values, plus noise, decodes to the combination of the values, off
  by at most the rounding errors the coefficients amplify.
\<close>

lemma combination_error:
  fixes n :: nat
  shows "2 * \<bar>t * (\<Sum>j<n. m j * scale_up t Q (x j)) - Q * (\<Sum>j<n. m j * x j)\<bar>
         \<le> t * (\<Sum>j<n. \<bar>m j\<bar>)"
proof (induction n)
  case 0
  then show ?case by simp
next
  case (Suc n)
  define A D where "A = t * (\<Sum>j<n. m j * scale_up t Q (x j)) - Q * (\<Sum>j<n. m j * x j)"
    and "D = t * scale_up t Q (x n) - Q * x n"
  have "2 * \<bar>m n * D\<bar> = \<bar>m n\<bar> * (2 * \<bar>D\<bar>)" by (simp add: abs_mult)
  also have "\<dots> \<le> \<bar>m n\<bar> * t"
    using scale_up_error [of "x n"] unfolding D_def by (intro mult_left_mono) simp_all
  finally have last: "2 * \<bar>m n * D\<bar> \<le> t * \<bar>m n\<bar>" by (simp add: mult.commute)
  have "t * (\<Sum>j<Suc n. m j * scale_up t Q (x j)) - Q * (\<Sum>j<Suc n. m j * x j) = A + m n * D"
    by (simp add: A_def D_def algebra_simps)
  moreover have "2 * \<bar>A\<bar> \<le> t * (\<Sum>j<n. \<bar>m j\<bar>)" using Suc by (simp add: A_def)
  moreover have "t * (\<Sum>j<Suc n. \<bar>m j\<bar>) = t * (\<Sum>j<n. \<bar>m j\<bar>) + t * \<bar>m n\<bar>"
    by (simp add: distrib_left)
  ultimately show ?case using last by (simp only: twice_abs_add)
qed

lemma decode_combination:
  fixes n :: nat
  assumes "y = (\<Sum>j<n. m j * scale_up t Q (x j)) + e"
  shows "2 * Q * \<bar>scale_down t Q y - (\<Sum>j<n. m j * x j)\<bar>
         \<le> t * ((\<Sum>j<n. \<bar>m j\<bar>) + 2 * \<bar>e\<bar>) + 2 * Q"
proof -
  define s d where "s = (\<Sum>j<n. m j * x j)" and "d = t * y - Q * (\<Sum>j<n. m j * x j)"
  have "d = (t * (\<Sum>j<n. m j * scale_up t Q (x j)) - Q * s) + t * e"
    by (simp add: assms d_def s_def algebra_simps)
  moreover have "\<bar>t * e\<bar> = t * \<bar>e\<bar>" using t_pos by (simp add: abs_mult)
  ultimately have "2 * \<bar>d\<bar> \<le> t * (\<Sum>j<n. \<bar>m j\<bar>) + 2 * (t * \<bar>e\<bar>)"
    using combination_error [of m x n] unfolding s_def by (simp add: twice_abs_add)
  moreover have "Q * \<bar>scale_down t Q y - s\<bar> \<le> \<bar>d\<bar> + Q"
    by (intro scale_down_error) (simp add: d_def s_def)
  ultimately show ?thesis unfolding s_def by (simp add: algebra_simps)
qed

text \<open>Two values that add up modulo \<open>Q\<close> scale down to two that add up modulo \<open>t\<close>, off by one.\<close>

lemma split_by_mask:
  obtains c where "c \<in> {-1, 0, 1}"
    "scale_down t Q (y + r) = scale_down t Q y + scale_down t Q r + c"
proof -
  define h a b where "h = (Q + 1) div 2" and "a = (y * t + h) mod Q" and "b = (r * t + h) mod Q"
  define u v where "u = scale_down t Q y" and "v = scale_down t Q r"
  have "y * t + h = Q * u + a" "r * t + h = Q * v + b"
    by (simp_all add: u_def v_def a_def b_def h_def scale_down_def)
  then have "(y + r) * t + h = Q * (u + v) + (a + b - h)"
    by (simp add: algebra_simps)
  then have eq: "scale_down t Q (y + r) = u + v + (a + b - h) div Q"
    unfolding scale_down_def h_def using div_shift [of "u + v"] by metis
  have "0 \<le> a" "a < Q" "0 \<le> b" "b < Q" using Q_pos by (simp_all add: a_def b_def)
  then have le: "(- 1) * Q \<le> a + b - h" and lt: "a + b - h < 2 * Q"
    using half_up unfolding h_def by linarith+
  have "(a + b - h) div Q \<le> (Q * 1 + (Q - 1)) div Q"
    using lt Q_pos by (intro zdiv_mono1) simp_all
  also have "\<dots> = 1"
    unfolding div_shift using Q_pos by (simp add: div_pos_pos_trivial)
  finally have "(a + b - h) div Q \<le> 1" .
  moreover have "- 1 \<le> (a + b - h) div Q"
    using zdiv_mono1 [OF le Q_pos] Q_pos by (simp only: nonzero_mult_div_cancel_right)
  ultimately have "(a + b - h) div Q \<in> {-1, 0, 1}" by auto
  with eq that show ?thesis by (simp add: u_def v_def)
qed

end

end
