(* ===== verification/ModSwitch.thy ===== *)
theory ModSwitch
  imports Status SealApi Scaling
begin

text \<open>
  \<open>mod_switch.h\<close> and \<open>mod_switch.cc\<close>: switching between the shares \<open>[0, t)\<close>, \<open>t = 2 ^ k\<close>, and the
  ciphertext modulus \<open>[0, Q)\<close>. \<open>ModulusUpAt\<close> scales a share up to \<open>round(Q x / t)\<close>, one residue at a
  time, in 128-bit arithmetic; \<open>ModulusDownRNS\<close> scales back to \<open>round(t y / Q)\<close> with multi-word
  integers.
\<close>

section \<open>UInt128\<close>

text \<open>The union of two 64-bit limbs and one 128-bit integer, as a 128-bit word.\<close>

type_synonym UInt128 = u128

definition hi :: "UInt128 \<Rightarrow> u64" where "hi v = ucast (drop_bit 64 v)"
definition lo :: "UInt128 \<Rightarrow> u64" where "lo v = ucast v"
definition UInt128_set64 :: "u64 \<Rightarrow> UInt128" where "UInt128_set64 v = ucast v"
definition UInt128_of_limbs :: "u64 \<Rightarrow> u64 \<Rightarrow> UInt128" where
  "UInt128_of_limbs l h = push_bit 64 (ucast h) OR ucast l"
definition UInt128_rshift :: "UInt128 \<Rightarrow> nat \<Rightarrow> UInt128" where "UInt128_rshift v k = drop_bit k v"
definition UInt128_mul :: "UInt128 \<Rightarrow> u64 \<Rightarrow> UInt128" where "UInt128_mul v x = v * ucast x"
definition UInt128_div :: "UInt128 \<Rightarrow> UInt128 \<Rightarrow> UInt128" where "UInt128_div v w = v div w"
definition UInt128_add :: "UInt128 \<Rightarrow> UInt128 \<Rightarrow> UInt128" where "UInt128_add v w = v + w"
definition UInt128_add64 :: "UInt128 \<Rightarrow> u64 \<Rightarrow> UInt128" where "UInt128_add64 v x = v + ucast x"
definition UInt128_sub64 :: "UInt128 \<Rightarrow> u64 \<Rightarrow> UInt128" where "UInt128_sub64 v x = v - ucast x"
definition UInt128_le :: "UInt128 \<Rightarrow> UInt128 \<Rightarrow> bool" where "UInt128_le v w \<longleftrightarrow> v \<le> w"

definition barrett_rdc :: "seal_arith \<Rightarrow> UInt128 \<Rightarrow> u64 \<Rightarrow> u64" where
  "barrett_rdc S v p =
     (if hi v = 0 then barrett_reduce_64 S (lo v) p else barrett_reduce_128 S v p)"

section \<open>ModulusSwitchHelper\<close>

record ModulusSwitchHelper =
  ms_base_mod_bitlen :: nat
  ms_t :: UInt128
  ms_t_half :: UInt128
  ms_Q_mod_t :: UInt128
  ms_Q_div_t_mod_qi :: "u64 list"
  ms_context :: seal_context

text \<open>
  The constructor writes the two limbs of \<open>t\<close> to a buffer of \<open>num_modulus\<close> words, which needs at
  least two moduli.
\<close>

definition ModulusSwitchHelper_new ::
    "seal_arith \<Rightarrow> seal_context \<Rightarrow> nat \<Rightarrow> ModulusSwitchHelper outcome" where
  "ModulusSwitchHelper_new S C base_mod_bitlen =
     (let coeff_modulus = sc_first_moduli C; num_modulus = length coeff_modulus;
          bigQ = sc_total_modulus C
      in if \<not> (base_mod_bitlen \<le> 64 \<and> 2 \<le> base_mod_bitlen)
         then Inl (Throws (Logic_error ''base_mod_bitlen out-of-bound''))
         else
      let t = (if base_mod_bitlen < 64 then UInt128_set64 (push_bit base_mod_bitlen 1)
               else push_bit base_mod_bitlen 1);
          t_half = UInt128_rshift t 1
      in if num_modulus < 2 then Inl (Undefined ''temp_t[1]'') else
      let temp_t = unat (lo t) + unat (hi t) * 2 ^ 64;
          (Q_div_t, Q_mod_t) = divide_uint S num_modulus bigQ temp_t
      in Inr \<lparr>ms_base_mod_bitlen = base_mod_bitlen, ms_t = t, ms_t_half = t_half,
              ms_Q_mod_t = UInt128_of_limbs (of_nat Q_mod_t) (of_nat (Q_mod_t div 2 ^ 64)),
              ms_Q_div_t_mod_qi = rns_decompose S coeff_modulus Q_div_t,
              ms_context = C\<rparr>)"

definition ModulusUpAt_entry :: "seal_arith \<Rightarrow> ModulusSwitchHelper \<Rightarrow> nat \<Rightarrow> u64 \<Rightarrow> u64" where
  "ModulusUpAt_entry S h mod_idx x =
     (let mod_qj = sc_first_moduli (ms_context h) ! mod_idx;
          u = multiply_uint_mod S x (ms_Q_div_t_mod_qi h ! mod_idx) mod_qj;
          v = UInt128_div (UInt128_add (UInt128_mul (ms_Q_mod_t h) x) (ms_t_half h)) (ms_t h)
      in barrett_rdc S (UInt128_add64 v u) mod_qj)"

text \<open>The output span is given by its length; the result is what is written to it.\<close>

definition ModulusUpAt ::
    "seal_arith \<Rightarrow> ModulusSwitchHelper \<Rightarrow> u64 list \<Rightarrow> nat \<Rightarrow> nat \<Rightarrow> u64 list outcome" where
  "ModulusUpAt S h src mod_idx out_size =
     (let num_modulus = length (ms_Q_div_t_mod_qi h)
      in requires (mod_idx < num_modulus)
           (Failed INVALID_ARGUMENT ''ModulusUpAt: invalid mod_idx'')
         (requires (length src = out_size)
           (Failed INVALID_ARGUMENT ''ModulusUpAt: size mismatch'')
         (if length (sc_first_moduli (ms_context h)) \<le> mod_idx
          then Inl (Throws (Out_of_range ''vector::at''))
          else Inr (map (ModulusUpAt_entry S h mod_idx) src))))"

text \<open>
  One coefficient of \<open>ModulusDownRNS\<close>: \<open>x t\<close>, plus the rounded-up half of \<open>Q\<close>, divided by \<open>Q\<close>,
  in buffers of \<open>num_modulus + 2\<close> words; the lowest word of the quotient is stored.
\<close>

definition ModulusDown_entry :: "seal_arith \<Rightarrow> ModulusSwitchHelper \<Rightarrow> nat \<Rightarrow> u64" where
  "ModulusDown_entry S h x =
     (let n = length (ms_Q_div_t_mod_qi h) + 2; C = ms_context h;
          prod = multiply_uint S n x (unat (ms_t h));
          add = add_uint S n prod (sc_upper_half C);
          (quot, rem) = divide_uint S n add (sc_total_modulus C)
      in of_nat quot)"

text \<open>
  The source holds the residues of all coefficients for one modulus, then those for the next one.
\<close>

definition rns_column :: "u64 list \<Rightarrow> nat \<Rightarrow> nat \<Rightarrow> nat \<Rightarrow> u64 list" where
  "rns_column src num_modulus count i = map (\<lambda>l. src ! (l * count + i)) [0..<num_modulus]"

definition ModulusDownRNS ::
    "seal_arith \<Rightarrow> ModulusSwitchHelper \<Rightarrow> u64 list \<Rightarrow> nat \<Rightarrow> u64 list outcome" where
  "ModulusDownRNS S h src out_size =
     (let num_modulus = length (ms_Q_div_t_mod_qi h)
      in requires (length src = num_modulus * out_size)
           (Failed INVALID_ARGUMENT ''ModulusDown: size mismatch'')
         (Inr (map (\<lambda>i. ModulusDown_entry S h
                     (rns_compose S (sc_first_moduli (ms_context h))
                        (rns_column src num_modulus out_size i)))
                [0..<out_size])))"


section \<open>128-bit arithmetic on naturals\<close>

lemma unat_lo: "unat (lo v) = unat v mod 2 ^ 64"
  by (simp add: lo_def unsigned_ucast_eq take_bit_eq_mod)

lemma unat_drop_bit_div: "unat (drop_bit n v) = unat v div 2 ^ n"
  by (simp add: unat_drop_bit_eq flip: drop_bit_eq_div)

lemma unat_hi: "unat (hi v) = unat v div 2 ^ 64"
proof -
  have "unat v < 2 ^ 128" using unsigned_less [of v] by simp
  then have "unat v div 2 ^ 64 < 2 ^ 64" by (simp add: div_less_iff_less_mult flip: power_add)
  then show ?thesis
    by (simp add: hi_def unsigned_ucast_eq take_bit_eq_mod unat_drop_bit_div)
qed

lemma unat_limbs: "unat (lo v) + unat (hi v) * 2 ^ 64 = unat v"
  by (simp add: unat_lo unat_hi)

lemma UInt128_of_limbs_lo: "UInt128_of_limbs l 0 = ucast l"
  by (simp add: UInt128_of_limbs_def)

lemma unat_ucast_128: "unat (ucast (x :: u64) :: u128) = unat x"
proof -
  have "unat x < 2 ^ 64" by (rule unat64_less)
  then have "unat x < 2 ^ 128" by simp
  then show ?thesis by (simp only: unsigned_ucast_eq take_bit_eq_mod) simp
qed

lemma unat_barrett_rdc:
  assumes "seal_arith_ok S" "valid_modulus q"
  shows "unat (barrett_rdc S v q) = unat v mod unat q"
proof (cases "hi v = 0")
  case True
  then have "unat v div 2 ^ 64 = 0" using unat_hi [of v] by simp
  then have "unat (lo v) = unat v" by (simp add: unat_lo div_eq_0_iff)
  with True assms show ?thesis
    by (simp add: barrett_rdc_def seal_arith_ok_def seal_mod_ok_def)
next
  case False
  with assms show ?thesis by (simp add: barrett_rdc_def seal_arith_ok_def seal_mod_ok_def)
qed

section \<open>The constructor\<close>

text \<open>What the constructor establishes for shares of \<open>k\<close> bits.\<close>

definition ms_wf :: "ModulusSwitchHelper \<Rightarrow> seal_context \<Rightarrow> nat \<Rightarrow> bool" where
  "ms_wf h C k \<longleftrightarrow>
     seal_context_ok C \<and> ms_context h = C \<and> 2 \<le> k \<and> k \<le> 64 \<and>
     unat (ms_t h) = 2 ^ k \<and> unat (ms_t_half h) = 2 ^ (k - 1) \<and>
     unat (ms_Q_mod_t h) = sc_total_modulus C mod 2 ^ k \<and>
     ms_Q_div_t_mod_qi h = residues (sc_first_moduli C) (sc_total_modulus C div 2 ^ k)"

lemma prod_list_less:
  fixes qs :: "nat list"
  assumes "\<forall>q \<in> set qs. q < B" "qs \<noteq> []" "0 < B"
  shows "prod_list qs < B ^ length qs"
  using assms
proof (induction qs)
  case (Cons q qs)
  show ?case
  proof (cases "qs = []")
    case True
    then show ?thesis using Cons.prems by simp
  next
    case False
    with Cons have "prod_list qs < B ^ length qs" by simp
    then have "q * prod_list qs \<le> q * B ^ length qs" by simp
    also have "\<dots> < B * B ^ length qs" using Cons.prems by simp
    finally show ?thesis by simp
  qed
qed simp

lemma dvd_prod_list: "(x :: nat) \<in> set xs \<Longrightarrow> x dvd prod_list xs"
  by (induction xs) auto

lemma first_moduli_valid: "seal_context_ok C \<Longrightarrow> q \<in> set (sc_first_moduli C) \<Longrightarrow> valid_modulus q"
  by (auto simp: seal_context_ok_def dest: in_set_butlastD)

lemma total_modulus_bounds:
  assumes "seal_context_ok C"
  shows "0 < sc_total_modulus C" "sc_total_modulus C < 2 ^ (64 * length (sc_first_moduli C))"
proof -
  let ?qs = "map unat (sc_first_moduli C)"
  have eq: "sc_total_modulus C = prod_list ?qs" using assms by (simp add: seal_context_ok_def)
  have "\<forall>q \<in> set ?qs. 0 < q"
    using first_moduli_valid [OF assms] by (fastforce simp: valid_modulus_def)
  then have "prod_list ?qs \<noteq> 0" by (auto simp: prod_list_zero_iff)
  then show "0 < sc_total_modulus C" by (simp add: eq)
  have "?qs \<noteq> []" using assms by (auto simp: seal_context_ok_def)
  moreover have "\<forall>q \<in> set ?qs. q < 2 ^ 64"
    using unat64_less by auto
  ultimately have "prod_list ?qs < (2 ^ 64) ^ length ?qs" by (intro prod_list_less) simp_all
  then show "sc_total_modulus C < 2 ^ (64 * length (sc_first_moduli C))"
    by (simp add: eq power_mult)
qed

lemma ms_t_value:
  assumes "2 \<le> k" "k \<le> 64"
  defines "t \<equiv> (if k < 64 then UInt128_set64 (push_bit k 1) else push_bit k 1)"
  shows "unat t = 2 ^ k" and "unat (UInt128_rshift t 1) = 2 ^ (k - 1)"
proof -
  show t: "unat t = 2 ^ k"
  proof (cases "k < 64")
    case True
    then have "(2 :: nat) ^ k < 2 ^ 64" by (rule power_strict_increasing) simp
    then show ?thesis using True
      by (simp add: t_def UInt128_set64_def unat_ucast_128 push_bit_eq_mult unat_two_power)
  next
    case False
    then have "k = 64" using assms by simp
    then show ?thesis by (simp add: t_def)
  qed
  obtain j where "k = Suc j" using assms by (cases k) auto
  then show "unat (UInt128_rshift t 1) = 2 ^ (k - 1)"
    using t by (simp add: UInt128_rshift_def unat_drop_bit_div)
qed

lemma ModulusSwitchHelper_new_wf:
  assumes S: "seal_arith_ok S" and C: "seal_context_ok C" and k: "2 \<le> k" "k \<le> 64"
  obtains h where "ModulusSwitchHelper_new S C k = Inr h" "ms_wf h C k"
proof -
  let ?Q = "sc_total_modulus C" and ?n = "length (sc_first_moduli C)"
  define t :: UInt128 where
    "t = (if k < 64 then UInt128_set64 (push_bit k 1) else push_bit k 1)"
  have t: "unat t = 2 ^ k" "unat (UInt128_rshift t 1) = 2 ^ (k - 1)"
    using ms_t_value [OF k] by (simp_all add: t_def)
  have n: "\<not> ?n < 2" using C unfolding seal_context_ok_def by linarith
  have div: "divide_uint S ?n ?Q (2 ^ k) = (?Q div 2 ^ k, ?Q mod 2 ^ k)"
    using S total_modulus_bounds [OF C] by (simp add: seal_arith_ok_def seal_uint_ok_def)
  have dec: "rns_decompose S (sc_first_moduli C) x = residues (sc_first_moduli C) x" for x
    using S first_moduli_valid [OF C] by (simp add: seal_arith_ok_def seal_rns_ok_def)
  have "?Q mod 2 ^ k < 2 ^ k" by simp
  also have "(2 :: nat) ^ k \<le> 2 ^ 64" using k by (intro power_increasing) simp_all
  finally have small: "?Q mod 2 ^ k < 2 ^ 64" .
  define h where "h = \<lparr>ms_base_mod_bitlen = k, ms_t = t, ms_t_half = UInt128_rshift t 1,
     ms_Q_mod_t = UInt128_of_limbs (of_nat (?Q mod 2 ^ k)) (of_nat (?Q mod 2 ^ k div 2 ^ 64)),
     ms_Q_div_t_mod_qi = residues (sc_first_moduli C) (?Q div 2 ^ k), ms_context = C\<rparr>"
  have "ModulusSwitchHelper_new S C k = Inr h"
    using k n div dec t(1) unat_limbs [of t]
    by (simp add: ModulusSwitchHelper_new_def Let_def h_def flip: t_def)
  moreover have "ms_wf h C k"
    using C k t small
    by (simp add: ms_wf_def h_def UInt128_of_limbs_lo unat_ucast_128 unat_of_nat)
  ultimately show ?thesis by (rule that)
qed

section \<open>Scaling up\<close>

text \<open>The specification of one entry: \<open>round(Q x / 2 ^ k)\<close> on naturals.\<close>

definition up_value :: "nat \<Rightarrow> nat \<Rightarrow> nat \<Rightarrow> nat" where
  "up_value Q k x = (Q * x + 2 ^ (k - 1)) div 2 ^ k"

definition down_value :: "nat \<Rightarrow> nat \<Rightarrow> nat \<Rightarrow> nat" where
  "down_value Q k y = (y * 2 ^ k + (Q + 1) div 2) div Q"

lemma int_up_value: "0 < k \<Longrightarrow> int (up_value Q k x) = scale_up (2 ^ k) (int Q) (int x)"
  by (cases k) (simp_all add: up_value_def scale_up_def zdiv_int)

lemma int_down_value: "int (down_value Q k y) = scale_down (2 ^ k) (int Q) (int y)"
  by (simp add: down_value_def scale_down_def zdiv_int add.commute)

lemma up_value_split:
  "up_value Q k x = x * (Q div 2 ^ k) + ((Q mod 2 ^ k) * x + 2 ^ (k - 1)) div 2 ^ k"
proof -
  have "Q * x = (2 ^ k * (Q div 2 ^ k) + Q mod 2 ^ k) * x" by simp
  then have "Q * x + 2 ^ (k - 1)
      = ((Q mod 2 ^ k) * x + 2 ^ (k - 1)) + 2 ^ k * (x * (Q div 2 ^ k))"
    by (simp only: algebra_simps)
  then show ?thesis unfolding up_value_def by (simp only: div_mult_self2) simp
qed

lemma up_product_bound:
  assumes "r < (2 :: nat) ^ k" "x < 2 ^ 64" "1 \<le> k" "k \<le> 64"
  shows "r * x + 2 ^ (k - 1) < 2 ^ 128"
proof -
  have "(2 :: nat) ^ k \<le> 2 ^ 64" using assms by (intro power_increasing) simp_all
  then have "r \<le> 2 ^ 64 - 1" "x \<le> 2 ^ 64 - 1" using assms by simp_all
  then have "r * x \<le> (2 ^ 64 - 1) * (2 ^ 64 - 1)" by (rule mult_le_mono)
  moreover have "(2 :: nat) ^ (k - 1) \<le> 2 ^ 63" using assms by (intro power_increasing) simp_all
  ultimately show ?thesis by simp
qed

lemma ModulusUpAt_entry_value:
  assumes S: "seal_arith_ok S" and h: "ms_wf h C k" and j: "j < length (sc_first_moduli C)"
  defines "q \<equiv> sc_first_moduli C ! j"
  shows "unat (ModulusUpAt_entry S h j x) = up_value (sc_total_modulus C) k (unat x) mod unat q"
proof -
  let ?Q = "sc_total_modulus C" and ?x = "unat x"
  have C: "seal_context_ok C" and k: "2 \<le> k" "k \<le> 64" and ctx: "ms_context h = C"
    using h by (simp_all add: ms_wf_def)
  have q: "valid_modulus q" using C j by (simp add: q_def first_moduli_valid)
  then have q0: "0 < unat q" by (simp add: valid_modulus_def)
  define u where "u = multiply_uint_mod S x (ms_Q_div_t_mod_qi h ! j) q"
  have "unat (ms_Q_div_t_mod_qi h ! j) = (?Q div 2 ^ k) mod unat q"
  proof -
    have "(?Q div 2 ^ k) mod unat q < 2 ^ 64"
      by (rule less_trans [OF mod_less_divisor [OF q0] unat64_less])
    then show ?thesis
      using h j by (simp add: ms_wf_def residues_def unat_of_nat flip: q_def)
  qed
  then have u: "unat u = ?x * (?Q div 2 ^ k) mod unat q"
    using S q by (simp add: u_def seal_arith_ok_def seal_mod_ok_def mod_mult_right_eq)
  define w where "w = (?Q mod 2 ^ k) * ?x + 2 ^ (k - 1)"
  have w: "w < 2 ^ 128"
    unfolding w_def using k by (intro up_product_bound unat64_less) simp_all
  define p where "p = UInt128_add (UInt128_mul (ms_Q_mod_t h) x) (ms_t_half h)"
  have "unat p = w mod 2 ^ 128"
    using h by (simp add: p_def UInt128_add_def UInt128_mul_def w_def ms_wf_def unat_word_ariths
        unat_ucast_128 mod_simps)
  then have p: "unat p = w" using w by simp
  have "unat (UInt128_div p (ms_t h)) = w div 2 ^ k"
    using h by (simp add: UInt128_div_def unat_div p ms_wf_def)
  moreover have "w div 2 ^ k + unat u < 2 ^ 128"
  proof -
    have "(2 :: nat) ^ 2 \<le> 2 ^ k" using k(1) by (rule power_increasing) simp
    then have "w div 2 ^ k \<le> w div 2 ^ 2" by (intro div_le_mono2) simp_all
    moreover have "w div 2 ^ 2 < 2 ^ 126" using w by (intro less_mult_imp_div_less) simp
    ultimately have "w div 2 ^ k < 2 ^ 126" by (rule order.strict_trans1)
    moreover have "unat u < 2 ^ 64" by (rule unat64_less)
    ultimately show ?thesis by simp
  qed
  ultimately have "unat (UInt128_add64 (UInt128_div p (ms_t h)) u) = w div 2 ^ k + unat u"
    by (simp add: UInt128_add64_def unat_word_ariths unat_ucast_128)
  then have "unat (ModulusUpAt_entry S h j x) = (w div 2 ^ k + unat u) mod unat q"
    using unat_barrett_rdc [OF S q]
    by (simp add: ModulusUpAt_entry_def Let_def ctx flip: q_def u_def p_def)
  also have "\<dots> = up_value ?Q k ?x mod unat q"
    by (simp add: u up_value_split w_def mod_simps add.commute)
  finally show ?thesis .
qed

lemma ModulusUpAt_ok:
  assumes "ms_wf h C k" "j < length (sc_first_moduli C)"
  shows "ModulusUpAt S h src j (length src) = Inr (map (ModulusUpAt_entry S h j) src)"
  using assms by (simp add: ModulusUpAt_def Let_def ms_wf_def residues_def)

lemma ModulusUpAt_entry_residue:
  assumes "seal_arith_ok S" "ms_wf h C k" "j < length (sc_first_moduli C)"
  shows "ModulusUpAt_entry S h j x
    = residues (sc_first_moduli C) (up_value (sc_total_modulus C) k (unat x)) ! j"
proof -
  have "of_nat (unat (ModulusUpAt_entry S h j x)) = ModulusUpAt_entry S h j x" by simp
  then show ?thesis
    unfolding ModulusUpAt_entry_value [OF assms] using assms(3) by (simp add: residues_def)
qed

section \<open>Scaling down\<close>

lemma ms_wf_compose:
  assumes S: "seal_arith_ok S" and C: "seal_context_ok C"
  shows "rns_compose S (sc_first_moduli C) (residues (sc_first_moduli C) x)
    = x mod sc_total_modulus C"
proof -
  let ?qs = "sc_first_moduli C" and ?Q = "sc_total_modulus C"
  have Q: "?Q = prod_list (map unat ?qs)" using C by (simp add: seal_context_ok_def)
  have "unat q dvd ?Q" if "q \<in> set ?qs" for q
    using that unfolding Q by (simp add: dvd_prod_list)
  then have "residues ?qs x = residues ?qs (x mod ?Q)"
    by (simp add: residues_def mod_mod_cancel)
  moreover have "x mod ?Q < prod_list (map unat ?qs)"
    using total_modulus_bounds [OF C] by (simp flip: Q)
  moreover have "rns_compose S ?qs (residues ?qs y) = y" if "y < prod_list (map unat ?qs)" for y
  proof -
    have "\<forall>i j. i < length ?qs \<longrightarrow> j < length ?qs \<longrightarrow> i \<noteq> j \<longrightarrow>
        coprime (unat (?qs ! i)) (unat (?qs ! j))"
      using C unfolding seal_context_ok_def by blast
    then show ?thesis
      using S that first_moduli_valid [OF C] unfolding seal_arith_ok_def seal_rns_ok_def by blast
  qed
  ultimately show ?thesis by metis
qed

lemma ModulusDown_entry_value:
  assumes S: "seal_arith_ok S" and h: "ms_wf h C k" and y: "y < sc_total_modulus C"
  shows "ModulusDown_entry S h y = of_nat (down_value (sc_total_modulus C) k y)"
proof -
  let ?Q = "sc_total_modulus C" and ?n = "length (sc_first_moduli C)"
  have C: "seal_context_ok C" and k: "k \<le> 64" and ctx: "ms_context h = C"
    using h by (simp_all add: ms_wf_def)
  define B where "B = (2 :: nat) ^ (64 * ?n)"
  have Q: "0 < ?Q" "?Q < B" using total_modulus_bounds [OF C] by (simp_all add: B_def)
  have "y * 2 ^ k \<le> B * 2 ^ 64"
    using y Q k by (intro mult_le_mono power_increasing) simp_all
  moreover have pow: "(2 :: nat) ^ (64 * (?n + 2)) = B * 2 ^ 64 * 2 ^ 64"
    by (simp add: B_def power_add)
  moreover have "B * 2 ^ 64 + B * 2 ^ 64 \<le> B * 2 ^ 64 * 2 ^ 64" by simp
  moreover have "(?Q + 1) div 2 < B * 2 ^ 64" using Q by simp
  ultimately have lt: "y * 2 ^ k + (?Q + 1) div 2 < 2 ^ (64 * (?n + 2))" by linarith
  then have "y * 2 ^ k < 2 ^ (64 * (?n + 2))" by linarith
  with lt Q S h C show ?thesis
    by (simp add: ModulusDown_entry_def Let_def ctx down_value_def seal_arith_ok_def seal_uint_ok_def
        ms_wf_def seal_context_ok_def residues_def del: power_mult_distrib)
qed

lemma ModulusDownRNS_ok:
  assumes S: "seal_arith_ok S" and h: "ms_wf h C k"
    and len: "length src = length (sc_first_moduli C) * n"
    and cols: "\<And>i. i < n \<Longrightarrow>
      rns_column src (length (sc_first_moduli C)) n i = residues (sc_first_moduli C) (y i)"
    and y: "\<And>i. i < n \<Longrightarrow> y i < sc_total_modulus C"
  shows "ModulusDownRNS S h src n
    = Inr (map (\<lambda>i. of_nat (down_value (sc_total_modulus C) k (y i))) [0..<n])"
proof -
  have C: "seal_context_ok C" and ctx: "ms_context h = C"
    and nm: "length (ms_Q_div_t_mod_qi h) = length (sc_first_moduli C)"
    using h by (simp_all add: ms_wf_def residues_def)
  have "ModulusDown_entry S h (rns_compose S (sc_first_moduli C)
      (rns_column src (length (sc_first_moduli C)) n i))
    = of_nat (down_value (sc_total_modulus C) k (y i))" if "i < n" for i
    using ModulusDown_entry_value [OF S h y [OF that]] y [OF that]
    by (simp add: cols [OF that] ms_wf_compose [OF S C])
  then show ?thesis
    using len by (simp add: ModulusDownRNS_def Let_def ctx nm)
qed

text \<open>Arrays of residues: those of all coefficients for one modulus, then those for the next one.\<close>

definition rns_array :: "u64 list \<Rightarrow> nat list \<Rightarrow> u64 list" where
  "rns_array qs ys = concat (map (\<lambda>q. map (\<lambda>y. of_nat (y mod unat q)) ys) qs)"

lemma length_rns_array [simp]: "length (rns_array qs ys) = length qs * length ys"
  by (induction qs) (simp_all add: rns_array_def)

lemma nth_concat_rows:
  assumes "l < length rows" "i < n" "\<forall>r \<in> set rows. length r = n"
  shows "concat rows ! (l * n + i) = rows ! l ! i"
  using assms
proof (induction rows arbitrary: l)
  case Nil
  then show ?case by simp
next
  case (Cons r rows)
  then show ?case by (cases l) (simp_all add: nth_append)
qed

lemma rns_column_rns_array:
  assumes "i < length ys"
  shows "rns_column (rns_array qs ys) (length qs) (length ys) i = residues qs (ys ! i)"
  unfolding rns_column_def rns_array_def residues_def
  by (rule nth_equalityI) (use assms in \<open>simp_all add: nth_concat_rows\<close>)

lemma ModulusDownRNS_rns_array:
  assumes S: "seal_arith_ok S" and h: "ms_wf h C k"
    and ys: "\<forall>y \<in> set ys. y < sc_total_modulus C"
  shows "ModulusDownRNS S h (rns_array (sc_first_moduli C) ys) (length ys)
    = Inr (map (\<lambda>y. of_nat (down_value (sc_total_modulus C) k y)) ys)"
proof -
  have "map (\<lambda>i. of_nat (down_value (sc_total_modulus C) k (ys ! i)) :: u64) [0..<length ys]
      = map (\<lambda>y. of_nat (down_value (sc_total_modulus C) k y)) ys"
    by (rule nth_equalityI) simp_all
  then show ?thesis
    using ModulusDownRNS_ok [OF S h, of "rns_array (sc_first_moduli C) ys" "length ys" "\<lambda>i. ys ! i"] ys
    by (simp add: rns_column_rns_array)
qed

text \<open>Scaling a vector up for every modulus gives the residues of its scaled entries.\<close>

lemma ModulusUpAt_rns_array:
  assumes S: "seal_arith_ok S" and h: "ms_wf h C k"
  shows "omap (\<lambda>j. ModulusUpAt S h src j (length src)) [0..<length (sc_first_moduli C)] = Inr rows
    \<Longrightarrow> concat rows = rns_array (sc_first_moduli C)
          (map (\<lambda>x. up_value (sc_total_modulus C) k (unat x) mod sc_total_modulus C) src)"
proof -
  let ?qs = "sc_first_moduli C" and ?Q = "sc_total_modulus C"
  assume "omap (\<lambda>j. ModulusUpAt S h src j (length src)) [0..<length ?qs] = Inr rows"
  then have rows: "length rows = length ?qs"
      "\<forall>j < length ?qs. rows ! j = map (ModulusUpAt_entry S h j) src"
    using ModulusUpAt_ok [OF h] by (auto simp: omap_Inr_iff)
  have Q: "?Q = prod_list (map unat ?qs)" using h by (simp add: ms_wf_def seal_context_ok_def)
  have "rows ! j = map (\<lambda>y. of_nat (y mod unat (?qs ! j)))
      (map (\<lambda>x. up_value ?Q k (unat x) mod ?Q) src)" if "j < length ?qs" for j
  proof -
    have "unat (?qs ! j) dvd ?Q" using that unfolding Q by (simp add: dvd_prod_list)
    then show ?thesis
      using rows(2) that by (simp add: ModulusUpAt_entry_residue [OF S h that] residues_def mod_mod_cancel)
  qed
  then have "rows = map (\<lambda>q. map (\<lambda>y. of_nat (y mod unat q))
      (map (\<lambda>x. up_value ?Q k (unat x) mod ?Q) src)) ?qs"
    using rows(1) by (intro nth_equalityI) simp_all
  then show ?thesis by (simp add: rns_array_def)
qed

section \<open>The two directions against the specification\<close>

lemma ms_scaling: "seal_context_ok C \<Longrightarrow> share_scaling (2 ^ k) (int (sc_total_modulus C))"
  by unfold_locales (simp_all add: total_modulus_bounds)

interpretation mvp_scaling: share_scaling "2 ^ 64" "int (sc_total_modulus mvp_ctx)"
  by (rule ms_scaling [OF seal_context_ok_mvp])

lemma ms_wf_new:
  assumes "seal_arith_ok S" "seal_context_ok C" "ModulusSwitchHelper_new S C k = Inr h"
  shows "ms_wf h C k"
proof -
  have "2 \<le> k" "k \<le> 64"
    using assms(3) by (auto simp: ModulusSwitchHelper_new_def Let_def split: if_splits)
  with assms show ?thesis by (metis ModulusSwitchHelper_new_wf sum.inject(2))
qed

lemma mvp_helper:
  obtains h where "ModulusSwitchHelper_new seal_ref mvp_ctx 64 = Inr h"
  using ModulusSwitchHelper_new_wf [OF seal_arith_ok_ref seal_context_ok_mvp, of 64] by force

text \<open>An entry plus noise modulo \<open>Q\<close>: what decryption hands to \<open>ModulusDownRNS\<close>.\<close>

definition noisy :: "nat \<Rightarrow> nat \<Rightarrow> nat \<Rightarrow> int \<Rightarrow> nat" where
  "noisy Q k x e = nat ((int (up_value Q k x) + e) mod int Q)"

lemma noisy_less: "0 < Q \<Longrightarrow> noisy Q k x e < Q"
  by (simp add: noisy_def nat_less_iff)

lemma down_noisy:
  assumes C: "seal_context_ok C" and k: "0 < k"
    and e: "2 ^ k * (2 * \<bar>e\<bar> + 1) + 1 < int (sc_total_modulus C)"
  shows "down_value (sc_total_modulus C) k (noisy (sc_total_modulus C) k x e) mod 2 ^ k = x mod 2 ^ k"
proof -
  let ?Q = "sc_total_modulus C"
  have "int (noisy ?Q k x e) = (scale_up (2 ^ k) (int ?Q) (int x) + e) mod int ?Q"
    using total_modulus_bounds(1) [OF C] by (simp add: noisy_def int_up_value [OF k])
  then have "int (down_value ?Q k (noisy ?Q k x e)) mod 2 ^ k = int x mod 2 ^ k"
    using share_scaling.decode_noisy [OF ms_scaling [OF C] e] by (simp add: int_down_value)
  then have "int (down_value ?Q k (noisy ?Q k x e) mod 2 ^ k) = int (x mod 2 ^ k)"
    by (simp only: of_nat_mod of_nat_power of_nat_numeral)
  then show ?thesis by (simp only: of_nat_eq_iff)
qed

lemma u64_mod_of_nat:
  assumes "k \<le> 64"
  shows "unat (of_nat n :: u64) mod 2 ^ k = n mod 2 ^ k"
proof -
  have "(2 :: nat) ^ k dvd 2 ^ 64" using assms by (rule le_imp_power_dvd)
  then show ?thesis by (simp add: unat_of_nat mod_mod_cancel)
qed

text \<open>
  C11. \<open>ModulusDownRNS\<close> undoes \<open>ModulusUpAt\<close>: scaling a share vector up for every modulus succeeds and
  yields the residues of \<open>round(Q x / 2 ^ k)\<close>; whatever noise below about \<open>Q / 2 ^ (k + 1)\<close> is then
  added to the entries, scaling down returns the share vector, modulo \<open>2 ^ k\<close>.
\<close>

theorem modulus_switch_roundtrip:
  assumes "seal_arith_ok S" "seal_context_ok C" "ModulusSwitchHelper_new S C k = Inr h"
    and "length es = length xs"
    and "\<forall>e \<in> set es. 2 ^ k * (2 * \<bar>e\<bar> + 1) + 1 < int (sc_total_modulus C)"
  shows "\<exists>rows ys.
      omap (\<lambda>j. ModulusUpAt S h xs j (length xs)) [0..<length (sc_first_moduli C)] = Inr rows \<and>
      concat rows = rns_array (sc_first_moduli C)
        (map (\<lambda>x. noisy (sc_total_modulus C) k (unat x) 0) xs) \<and>
      ModulusDownRNS S h
        (rns_array (sc_first_moduli C) (map2 (\<lambda>x e. noisy (sc_total_modulus C) k (unat x) e) xs es))
        (length xs) = Inr ys \<and>
      map (\<lambda>y. unat y mod 2 ^ k) ys = map (\<lambda>x. unat x mod 2 ^ k) xs"
proof -
  let ?qs = "sc_first_moduli C" and ?Q = "sc_total_modulus C"
  let ?ns = "map2 (\<lambda>x e. noisy ?Q k (unat x) e) xs es"
  have h: "ms_wf h C k" by (rule ms_wf_new) fact+
  then have k: "0 < k" "k \<le> 64" by (simp_all add: ms_wf_def)
  define rows where "rows = map (\<lambda>j. map (ModulusUpAt_entry S h j) xs) [0..<length ?qs]"
  have rows: "omap (\<lambda>j. ModulusUpAt S h xs j (length xs)) [0..<length ?qs] = Inr rows"
    unfolding rows_def by (rule omap_all_Inr) (simp add: ModulusUpAt_ok [OF h])
  have up: "up_value ?Q k n mod ?Q = noisy ?Q k n 0" for n
    by (simp add: noisy_def flip: zmod_int)
  have "\<forall>y \<in> set ?ns. y < ?Q"
    using noisy_less [OF total_modulus_bounds(1) [OF assms(2)]] by auto
  then have "ModulusDownRNS S h (rns_array ?qs ?ns) (length xs)
      = Inr (map (\<lambda>y. of_nat (down_value ?Q k y)) ?ns)"
    using ModulusDownRNS_rns_array [OF assms(1) h, of ?ns] assms(4) by simp
  moreover have "map (\<lambda>y. unat y mod 2 ^ k) (map (\<lambda>y. of_nat (down_value ?Q k y) :: u64) ?ns)
      = map (\<lambda>x. unat x mod 2 ^ k) xs"
  proof -
    have "unat (of_nat (down_value ?Q k (noisy ?Q k (unat x) e)) :: u64) mod 2 ^ k = unat x mod 2 ^ k"
      if "e \<in> set es" for x :: u64 and e
      using down_noisy [OF assms(2) k(1)] assms(5) that by (simp only: u64_mod_of_nat [OF k(2)])
    then show ?thesis
      using assms(4) by (intro nth_equalityI) (simp_all del: of_nat_power)
  qed
  ultimately show ?thesis
    using rows ModulusUpAt_rns_array [OF assms(1) h rows] unfolding up by blast
qed

theorem modulus_switch_roundtrip_witness:
  "\<exists>h rows ys. ModulusSwitchHelper_new seal_ref mvp_ctx 64 = Inr h \<and>
      omap (\<lambda>j. ModulusUpAt seal_ref h [5, -1 :: u64] j (length [5, -1 :: u64]))
        [0..<length (sc_first_moduli mvp_ctx)] = Inr rows \<and>
      concat rows = rns_array (sc_first_moduli mvp_ctx)
        (map (\<lambda>x. noisy (sc_total_modulus mvp_ctx) 64 (unat x) 0) [5, -1 :: u64]) \<and>
      ModulusDownRNS seal_ref h
        (rns_array (sc_first_moduli mvp_ctx)
          (map2 (\<lambda>x e. noisy (sc_total_modulus mvp_ctx) 64 (unat x) e) [5, -1 :: u64] [7, -3]))
        (length [5, -1 :: u64]) = Inr ys \<and>
      map (\<lambda>y. unat y mod 2 ^ 64) ys = map (\<lambda>x. unat x mod 2 ^ 64) [5, -1 :: u64]"
proof -
  obtain h where h: "ModulusSwitchHelper_new seal_ref mvp_ctx 64 = Inr h"
    by (rule mvp_helper)
  have "\<forall>e \<in> set [7, -3 :: int]. 2 ^ 64 * (2 * \<bar>e\<bar> + 1) + 1 < int (sc_total_modulus mvp_ctx)"
    by (simp add: mvp_ctx_def)
  moreover have "length [7, -3 :: int] = length [5, -1 :: u64]" by simp
  ultimately show ?thesis
    using modulus_switch_roundtrip [OF seal_arith_ok_ref seal_context_ok_mvp h] h by blast
qed

text \<open>Reduction of an integer modulo \<open>Q\<close> before scaling down is harmless modulo \<open>2 ^ k\<close>.\<close>

lemma int_down_u64:
  assumes C: "seal_context_ok C" and k: "k \<le> 64"
  shows "int (unat (of_nat (down_value (sc_total_modulus C) k (nat (y mod int (sc_total_modulus C)))) :: u64))
      mod 2 ^ k = scale_down (2 ^ k) (int (sc_total_modulus C)) y mod 2 ^ k"
proof -
  let ?Q = "sc_total_modulus C"
  define z where "z = nat (y mod int ?Q)"
  have "0 < int ?Q" using total_modulus_bounds(1) [OF C] by simp
  then have z: "int z = y mod int ?Q" by (simp add: z_def)
  have "int (unat (of_nat (down_value ?Q k z) :: u64) mod 2 ^ k) = int (down_value ?Q k z mod 2 ^ k)"
    by (simp only: u64_mod_of_nat [OF k])
  then have "int (unat (of_nat (down_value ?Q k z) :: u64)) mod 2 ^ k
      = scale_down (2 ^ k) (int ?Q) (y mod int ?Q) mod 2 ^ k"
    by (simp only: of_nat_mod of_nat_power of_nat_numeral int_down_value z)
  then show ?thesis
    by (simp only: z_def share_scaling.scale_down_mod_cong [OF ms_scaling [OF C]])
qed

text \<open>The noisy linear combination of scaled shares that decryption finds in a coefficient.\<close>

definition combined :: "nat \<Rightarrow> nat \<Rightarrow> (nat \<Rightarrow> int) \<Rightarrow> u64 list \<Rightarrow> int \<Rightarrow> nat" where
  "combined Q k m xs e
     = nat (((\<Sum>j<length xs. m j * int (up_value Q k (unat (xs ! j)))) + e) mod int Q)"

text \<open>
  C30. Decoding a homomorphic product: when every coefficient handed to \<open>ModulusDownRNS\<close> is a linear
  combination, with integer coefficients \<open>m i\<close>, of the scaled shares \<open>xs\<close>, plus noise \<open>e i\<close>, modulo \<open>Q\<close>,
  the call succeeds and each output is that combination of the shares themselves modulo \<open>2 ^ k\<close>, up
  to an error \<open>\<delta> i\<close> of at most \<open>2 ^ k (\<Sum>|m i| + 2 |e i|) / 2 Q + 1\<close>.
\<close>

theorem modulus_down_linear_combination:
  assumes "seal_arith_ok S" "seal_context_ok C" "ModulusSwitchHelper_new S C k = Inr h"
  shows "\<exists>ys \<delta>. ModulusDownRNS S h (rns_array (sc_first_moduli C)
        (map (\<lambda>i. combined (sc_total_modulus C) k (m i) xs (e i)) [0..<n])) n = Inr ys \<and>
      length ys = n \<and>
      (\<forall>i<n. int (unat (ys ! i)) mod 2 ^ k
            = ((\<Sum>j<length xs. m i j * int (unat (xs ! j))) + \<delta> i) mod 2 ^ k \<and>
          2 * int (sc_total_modulus C) * \<bar>\<delta> i\<bar>
            \<le> 2 ^ k * ((\<Sum>j<length xs. \<bar>m i j\<bar>) + 2 * \<bar>e i\<bar>) + 2 * int (sc_total_modulus C))"
proof -
  let ?Q = "sc_total_modulus C"
  define y where "y i = (\<Sum>j<length xs. m i j * int (up_value ?Q k (unat (xs ! j)))) + e i" for i
  define \<delta> where "\<delta> i = scale_down (2 ^ k) (int ?Q) (y i)
      - (\<Sum>j<length xs. m i j * int (unat (xs ! j)))" for i
  have h: "ms_wf h C k" by (rule ms_wf_new) fact+
  then have k: "0 < k" "k \<le> 64" by (simp_all add: ms_wf_def)
  have Q: "0 < ?Q" by (rule total_modulus_bounds(1)) fact
  have "combined ?Q k (m i) xs (e i) < ?Q" for i
    using Q by (simp add: combined_def nat_less_iff)
  then have "ModulusDownRNS S h (rns_array (sc_first_moduli C)
        (map (\<lambda>i. combined ?Q k (m i) xs (e i)) [0..<n])) n
      = Inr (map (\<lambda>i. of_nat (down_value ?Q k (combined ?Q k (m i) xs (e i)))) [0..<n])"
    using ModulusDownRNS_rns_array [OF assms(1) h, of "map (\<lambda>i. combined ?Q k (m i) xs (e i)) [0..<n]"]
    by (auto simp: comp_def)
  moreover have "int (unat (of_nat (down_value ?Q k (combined ?Q k (m i) xs (e i))) :: u64)) mod 2 ^ k
      = ((\<Sum>j<length xs. m i j * int (unat (xs ! j))) + \<delta> i) mod 2 ^ k" for i
    using int_down_u64 [OF assms(2) k(2), of "y i"] by (simp add: combined_def y_def \<delta>_def)
  moreover have "2 * int ?Q * \<bar>\<delta> i\<bar> \<le> 2 ^ k * ((\<Sum>j<length xs. \<bar>m i j\<bar>) + 2 * \<bar>e i\<bar>) + 2 * int ?Q" for i
    unfolding \<delta>_def
    by (rule share_scaling.decode_combination [OF ms_scaling [OF assms(2)]])
      (simp add: y_def int_up_value [OF k(1)])
  ultimately show ?thesis
    by (intro exI [of _ "map (\<lambda>i. of_nat (down_value ?Q k (combined ?Q k (m i) xs (e i)))) [0..<n]"]
        exI [of _ \<delta>] conjI) simp_all
qed

theorem modulus_down_linear_combination_witness:
  "\<exists>h ys \<delta>. ModulusSwitchHelper_new seal_ref mvp_ctx 64 = Inr h \<and>
      ModulusDownRNS seal_ref h (rns_array (sc_first_moduli mvp_ctx)
        (map (\<lambda>i. combined (sc_total_modulus mvp_ctx) 64 (\<lambda>j. [3, -2] ! j) [5, 11] 100) [0..<1])) 1
        = Inr ys \<and>
      int (unat (ys ! 0)) mod 2 ^ 64 = (3 * 5 + (- 2) * 11 + \<delta> 0) mod 2 ^ 64 \<and> \<bar>\<delta> 0\<bar> \<le> 7"
proof -
  obtain h where h: "ModulusSwitchHelper_new seal_ref mvp_ctx 64 = Inr h" by (rule mvp_helper)
  from modulus_down_linear_combination [OF seal_arith_ok_ref seal_context_ok_mvp h,
      where n = 1 and m = "\<lambda>i j. [3, -2] ! j" and xs = "[5, 11]" and e = "\<lambda>i. 100"]
  obtain ys \<delta> where ys: "ModulusDownRNS seal_ref h (rns_array (sc_first_moduli mvp_ctx)
        (map (\<lambda>i. combined (sc_total_modulus mvp_ctx) 64 (\<lambda>j. [3, -2] ! j) [5, 11] 100) [0..<1])) 1
        = Inr ys"
      "int (unat (ys ! 0)) mod 2 ^ 64
        = ((\<Sum>j<length [5, 11 :: u64]. [3, -2] ! j * int (unat ([5, 11 :: u64] ! j))) + \<delta> 0) mod 2 ^ 64"
      "2 * int (sc_total_modulus mvp_ctx) * \<bar>\<delta> (0 :: nat)\<bar>
        \<le> 2 ^ 64 * ((\<Sum>j<length [5, 11 :: u64]. \<bar>[3, -2] ! j\<bar>) + 2 * \<bar>100\<bar>)
          + 2 * int (sc_total_modulus mvp_ctx)"
    by blast
  have "\<bar>\<delta> 0\<bar> \<le> 7" using ys(3) by (simp add: mvp_ctx_def lessThan_Suc)
  with h ys(1,2) show ?thesis by (auto simp: lessThan_Suc)
qed

text \<open>The two shares of one masked value, as words.\<close>

lemma down_mask:
  assumes C: "seal_context_ok C" and k: "k \<le> 64" and v: "v < sc_total_modulus C" and r: "r < sc_total_modulus C"
  defines "f \<equiv> \<lambda>y. of_nat (down_value (sc_total_modulus C) k y) :: u64"
  shows "\<exists>c \<in> {-1, 0, 1}. (int (unat (f ((v + r) mod sc_total_modulus C))) - int (unat (f r))) mod 2 ^ k
      = (int (unat (f v)) + c) mod 2 ^ k"
proof -
  let ?Q = "sc_total_modulus C"
  have f: "int (unat (f (y mod ?Q))) mod 2 ^ k = scale_down (2 ^ k) (int ?Q) (int y) mod 2 ^ k" for y
    using int_down_u64 [OF C k, of "int y"] by (simp add: f_def flip: zmod_int)
  obtain c where c: "c \<in> {-1, 0, 1}" "scale_down (2 ^ k) (int ?Q) (int v + int r)
      = scale_down (2 ^ k) (int ?Q) (int v) + scale_down (2 ^ k) (int ?Q) (int r) + c"
    by (rule share_scaling.split_by_mask [OF ms_scaling [OF C]])
  have fv: "scale_down (2 ^ k) (int ?Q) (int v) mod 2 ^ k = int (unat (f v)) mod 2 ^ k"
    and fr: "int (unat (f r)) mod 2 ^ k = scale_down (2 ^ k) (int ?Q) (int r) mod 2 ^ k"
    using f [of v] f [of r] v r by simp_all
  have "(int (unat (f ((v + r) mod ?Q))) - int (unat (f r))) mod 2 ^ k
      = (scale_down (2 ^ k) (int ?Q) (int (v + r)) - scale_down (2 ^ k) (int ?Q) (int r)) mod 2 ^ k"
    by (rule mod_diff_cong [OF f fr])
  also have "\<dots> = (scale_down (2 ^ k) (int ?Q) (int v) + c) mod 2 ^ k"
  proof -
    have "a + b + c - b = a + c" for a b :: int by simp
    then show ?thesis by (simp only: of_nat_add c(2))
  qed
  also have "\<dots> = (int (unat (f v)) + c) mod 2 ^ k" by (rule mod_add_cong [OF fv refl])
  finally show ?thesis using c(1) by blast
qed

text \<open>
  Masking splits a product into two shares: when the server adds a random mask \<open>rs\<close> modulo \<open>Q\<close> to
  the coefficients \<open>vs\<close>, scaling down the masked vector (the client) and scaling down the mask (the
  server) give vectors whose difference is the scaled down product modulo \<open>2 ^ k\<close>, off by at most one.
\<close>

theorem modulus_down_mask_shares:
  assumes "seal_arith_ok S" "seal_context_ok C" "ModulusSwitchHelper_new S C k = Inr h"
    and "length rs = length vs"
    and "\<forall>v \<in> set vs. v < sc_total_modulus C" "\<forall>r \<in> set rs. r < sc_total_modulus C"
  shows "\<exists>client server plain.
      ModulusDownRNS S h (rns_array (sc_first_moduli C)
        (map2 (\<lambda>v r. (v + r) mod sc_total_modulus C) vs rs)) (length vs) = Inr client \<and>
      ModulusDownRNS S h (rns_array (sc_first_moduli C) rs) (length vs) = Inr server \<and>
      ModulusDownRNS S h (rns_array (sc_first_moduli C) vs) (length vs) = Inr plain \<and>
      (\<forall>i < length vs. \<exists>c \<in> {-1, 0, 1}.
         (int (unat (client ! i)) - int (unat (server ! i))) mod 2 ^ k
           = (int (unat (plain ! i)) + c) mod 2 ^ k)"
proof -
  let ?qs = "sc_first_moduli C" and ?Q = "sc_total_modulus C"
  define f :: "nat \<Rightarrow> u64" where "f y = of_nat (down_value ?Q k y)" for y
  have h: "ms_wf h C k" by (rule ms_wf_new) fact+
  then have k: "0 < k" "k \<le> 64" by (simp_all add: ms_wf_def)
  have Q: "0 < ?Q" by (rule total_modulus_bounds(1)) fact
  let ?ms = "map2 (\<lambda>v r. (v + r) mod ?Q) vs rs"
  have down: "ModulusDownRNS S h (rns_array ?qs ys) (length vs) = Inr (map f ys)"
    if "\<forall>y \<in> set ys. y < ?Q" "length ys = length vs" for ys
    using ModulusDownRNS_rns_array [OF assms(1) h that(1)] that(2) by (simp add: f_def)
  have mask: "\<exists>c \<in> {-1, 0, 1}. (int (unat (f ((v + r) mod ?Q))) - int (unat (f r))) mod 2 ^ k
      = (int (unat (f v)) + c) mod 2 ^ k" if "v < ?Q" "r < ?Q" for v r
    using down_mask [OF assms(2) k(2) that] by (simp add: f_def)
  have shares: "\<forall>i < length vs. \<exists>c \<in> {-1, 0, 1}.
      (int (unat (map f ?ms ! i)) - int (unat (map f rs ! i))) mod 2 ^ k
        = (int (unat (map f vs ! i)) + c) mod 2 ^ k"
  proof (intro allI impI)
    fix i
    assume i: "i < length vs"
    then have "vs ! i < ?Q" "rs ! i < ?Q" using assms(4-6) by simp_all
    from mask [OF this] show "\<exists>c \<in> {-1, 0, 1}.
      (int (unat (map f ?ms ! i)) - int (unat (map f rs ! i))) mod 2 ^ k
        = (int (unat (map f vs ! i)) + c) mod 2 ^ k"
      using i assms(4) by (simp only: nth_map length_map length_zip min.idem nth_zip split)
  qed
  have "y < ?Q" if "y \<in> set ?ms" for y
    using that Q by (simp only: set_map) (elim imageE, simp add: case_prod_beta)
  then have ms: "\<forall>y \<in> set ?ms. y < ?Q" by blast
  have len: "length ?ms = length vs" using assms(4) by simp
  show ?thesis
    by (intro exI conjI, rule down [OF ms len], rule down [OF assms(6,4)],
        rule down [OF assms(5) refl], rule shares)
qed

theorem modulus_down_mask_shares_witness:
  "\<exists>h client server plain. ModulusSwitchHelper_new seal_ref mvp_ctx 64 = Inr h \<and>
      ModulusDownRNS seal_ref h (rns_array (sc_first_moduli mvp_ctx)
        (map2 (\<lambda>v r. (v + r) mod sc_total_modulus mvp_ctx) [2 ^ 67] [2 ^ 66])) 1 = Inr client \<and>
      ModulusDownRNS seal_ref h (rns_array (sc_first_moduli mvp_ctx) [2 ^ 66]) 1 = Inr server \<and>
      ModulusDownRNS seal_ref h (rns_array (sc_first_moduli mvp_ctx) [2 ^ 67]) 1 = Inr plain \<and>
      (\<exists>c \<in> {-1, 0, 1}. (int (unat (client ! 0)) - int (unat (server ! 0))) mod 2 ^ 64
         = (int (unat (plain ! 0)) + c) mod 2 ^ 64)"
proof -
  obtain h where h: "ModulusSwitchHelper_new seal_ref mvp_ctx 64 = Inr h" by (rule mvp_helper)
  have v: "\<forall>v \<in> set [2 ^ 67 :: nat]. v < sc_total_modulus mvp_ctx"
    and r: "\<forall>v \<in> set [2 ^ 66 :: nat]. v < sc_total_modulus mvp_ctx"
    and len: "length [2 ^ 66 :: nat] = length [2 ^ 67 :: nat]"
    by (simp_all add: mvp_ctx_def)
  from modulus_down_mask_shares [OF seal_arith_ok_ref seal_context_ok_mvp h len v r] h
  show ?thesis by (simp only: list.size) auto
qed

end
