(* ===== verification/Fpga.thy ===== *)
theory Fpga
  imports Ring
begin

text \<open>
  The FPGA driver of \<open>F3/mvp_fpga_lib.h\<close> with the registers of \<open>F3/mvp_fpga_reg.h\<close>, and the handler of
  \<open>fpga_handler.cc\<close> that loads the evaluation key. A run of the driver is the trace of the transfers
  and register writes it issues, with its return value; the host and the device are a record of
  parameters. The semaphores that order concurrent runs are a step relation at the end.
\<close>

section \<open>Registers and addresses\<close>

definition MVP_REG_OFFSET :: nat where "MVP_REG_OFFSET = 0x0"
definition MVP_PROCESS_START_OFFSET :: nat where "MVP_PROCESS_START_OFFSET = 0x0"
definition MVP_COMMAND_OFFSET :: nat where "MVP_COMMAND_OFFSET = 0x34"
definition MVP_LEVEL_OFFSET :: nat where "MVP_LEVEL_OFFSET = 0x38"
definition MVP_COL_SIZE_OFFSET :: nat where "MVP_COL_SIZE_OFFSET = 0x3C"
definition MVP_N_SPLIT_OFFSET :: nat where "MVP_N_SPLIT_OFFSET = 0x40"
definition MVP_N_INDEX_OFFSET :: nat where "MVP_N_INDEX_OFFSET = 0x44"
definition MVP_H_MAT_LEN_OFFSET :: nat where "MVP_H_MAT_LEN_OFFSET = 0x48"
definition MVP_KSK_DEV_MEM_LOW_OFFSET :: nat where "MVP_KSK_DEV_MEM_LOW_OFFSET = 0x4C"
definition MVP_KSK_DEV_MEM_HIGH_OFFSET :: nat where "MVP_KSK_DEV_MEM_HIGH_OFFSET = 0x50"
definition MVP_H_VEC_DATA_MEM_LOW_OFFSET :: nat where "MVP_H_VEC_DATA_MEM_LOW_OFFSET = 0x5C"
definition MVP_H_VEC_DATA_MEM_HIGH_OFFSET :: nat where "MVP_H_VEC_DATA_MEM_HIGH_OFFSET = 0x60"
definition MVP_OUTPUT_DATA_MEM_LOW_OFFSET :: nat where "MVP_OUTPUT_DATA_MEM_LOW_OFFSET = 0x64"
definition MVP_OUTPUT_DATA_MEM_HIGH_OFFSET :: nat where "MVP_OUTPUT_DATA_MEM_HIGH_OFFSET = 0x68"
definition MVP_OUTPUT_DATA_READY_OFFSET :: nat where "MVP_OUTPUT_DATA_READY_OFFSET = 0x6C"

definition KSK_DEV_BASE_ADDR :: u32 where "KSK_DEV_BASE_ADDR = 0x0000000"
definition FIRST_INPUT_DATA_DEV_BASE_ADDR :: u32 where "FIRST_INPUT_DATA_DEV_BASE_ADDR = 0x10000000"
definition FIRST_OUTPUT_DATA_DEV_BASE_ADDR :: u32 where "FIRST_OUTPUT_DATA_DEV_BASE_ADDR = 0x30000000"
definition SECOND_INPUT_DATA_DEV_BASE_ADDR :: u32 where "SECOND_INPUT_DATA_DEV_BASE_ADDR = 0x50000000"
definition SECOND_OUTPUT_DATA_DEV_BASE_ADDR :: u32 where "SECOND_OUTPUT_DATA_DEV_BASE_ADDR = 0x70000000"

section \<open>Transfers\<close>

text \<open>
  A transfer between a host buffer and device memory, of \<open>size\<close> bytes. Addresses are computed in 32-bit
  unsigned arithmetic before they are widened.
\<close>

datatype dev_op = Dma_write u32 nat "u64 list" | Dma_read u32 nat | Reg_write nat u32

text \<open>
  The host and the device: what looking for the PCI resource finds, the descriptor that opening the
  DMA device returns and the number of bytes the transfer moves (per transfer), the value of the
  ready register at each poll (nothing if the read fails), and the contents of the output area.
\<close>

text \<open>A device without a memory region makes the library end the process; the model ends there too.\<close>

datatype probe = Probe_missing | Probe_no_bar | Probe_ok

record fpga_env =
  fe_probe :: probe
  fe_open :: "dev_op \<Rightarrow> int"
  fe_moved :: "dev_op \<Rightarrow> int"
  fe_ready :: "nat \<Rightarrow> u32 option"
  fe_output :: "dev_op list \<Rightarrow> u64 list"

fun op_size :: "dev_op \<Rightarrow> int" where
  "op_size (Dma_write _ n _) = int n"
| "op_size (Dma_read _ n) = int n"
| "op_size (Reg_write _ _) = 4"

definition obtain_fpga_dev_name :: "fpga_env \<Rightarrow> int outcome" where
  "obtain_fpga_dev_name E =
     (case fe_probe E of Probe_missing \<Rightarrow> Inr (- 1)
      | Probe_no_bar \<Rightarrow> Inl (Undefined ''exit(1)'')
      | Probe_ok \<Rightarrow> Inr 0)"

definition fpga_memory_operate :: "fpga_env \<Rightarrow> dev_op \<Rightarrow> int" where
  "fpga_memory_operate E op =
     (let ret = fe_open E op
      in if ret < 0 then ret
         else if op_size op \<noteq> fe_moved E op then - 1
         else 0)"

definition fpga_reg_write_array :: "nat list \<Rightarrow> u32 list \<Rightarrow> dev_op list" where
  "fpga_reg_write_array offset_array value_array =
     map (\<lambda>i. Reg_write (offset_array ! i) (value_array ! i)) [0..<length offset_array]"

text \<open>
  Polling: the variable read into is not initialised, and a failed read leaves it unchanged. The result
  is the first odd value, or nothing when the tries are used up.
\<close>

fun poll_ready :: "(nat \<Rightarrow> u32 option) \<Rightarrow> nat \<Rightarrow> nat \<Rightarrow> u32 option \<Rightarrow> u32 option outcome" where
  "poll_ready ready 0 trycount data_u32 = Inr None"
| "poll_ready ready (Suc tries) trycount data_u32 =
     (let data_u32 = (case ready trycount of Some v \<Rightarrow> Some v | None \<Rightarrow> data_u32)
      in case data_u32 of
           None \<Rightarrow> Inl (Undefined ''data_u32 not initialised'')
         | Some v \<Rightarrow> if odd v then Inr (Some v) else poll_ready ready tries (Suc trycount) data_u32)"

section \<open>Loading the key switching keys\<close>

definition ksk_ops :: "u64 list list \<Rightarrow> nat \<Rightarrow> dev_op list" where
  "ksk_ops h_ksk chuck_size =
     map (\<lambda>i. Dma_write (KSK_DEV_BASE_ADDR + of_nat (chuck_size * i)) chuck_size (h_ksk ! i)) [0..<length h_ksk]"

definition KernelInit :: "fpga_env \<Rightarrow> u64 list list \<Rightarrow> nat \<Rightarrow> (dev_op list \<times> int) outcome" where
  "KernelInit E h_ksk chuck_size =
     obind (obtain_fpga_dev_name E) (\<lambda>r.
       if r \<noteq> 0 then Inr ([], - 1)
       else
         let writes = ksk_ops h_ksk chuck_size;
             results = map (fpga_memory_operate E) writes;
             regs = fpga_reg_write_array
               [MVP_REG_OFFSET + MVP_PROCESS_START_OFFSET, MVP_REG_OFFSET + MVP_COMMAND_OFFSET,
                MVP_REG_OFFSET + MVP_KSK_DEV_MEM_LOW_OFFSET, MVP_REG_OFFSET + MVP_KSK_DEV_MEM_HIGH_OFFSET,
                MVP_REG_OFFSET + MVP_PROCESS_START_OFFSET]
               [0, 0, KSK_DEV_BASE_ADDR, 0, 1]
         in obind (poll_ready (fe_ready E) 100000 0 None) (\<lambda>_. Inr (writes @ regs, 0)))"

section \<open>A run of the kernel\<close>

text \<open>
  The arguments the device needs. The double precision \<open>log2\<close>, \<open>ceil\<close> and \<open>pow\<close> of the source are exact
  on the 32-bit integers they are applied to, and truncated to unsigned integers; the product of \<open>n\<close> and \<open>n_split\<close>
  is taken in 32 bits.
\<close>

definition kernel_args :: "nat \<Rightarrow> nat \<Rightarrow> (nat \<times> nat \<times> nat \<times> nat \<times> nat) outcome" where
  "kernel_args n m =
     obind (Log2 n) (\<lambda>level.
       let n_split = (m + 4095) div 4096; n_index = 1 in
       if m < 4096
       then if m = 0 then Inl (Undefined ''4096 / 0'')
            else obind (Log2 (4096 div m)) (\<lambda>tmp.
              let n_split = 1; n_index = 2 ^ tmp
              in Inr (level, m, n_split, n_index, n * n_split mod 2 ^ 32 div n_index))
       else Inr (level, m, n_split, n_index, n * n_split mod 2 ^ 32 div n_index))"

definition slot_addresses :: "nat \<Rightarrow> u32 \<times> u32" where
  "slot_addresses buffer_index =
     (if buffer_index = 0 then (SECOND_INPUT_DATA_DEV_BASE_ADDR, SECOND_OUTPUT_DATA_DEV_BASE_ADDR)
      else (FIRST_INPUT_DATA_DEV_BASE_ADDR, FIRST_OUTPUT_DATA_DEV_BASE_ADDR))"

definition upload_ops :: "u32 \<Rightarrow> u64 list list \<Rightarrow> nat \<Rightarrow> u64 list list \<Rightarrow> nat \<Rightarrow> dev_op list" where
  "upload_ops input_addr h_vec vec_chuck_size h_mat mat_chuck_size =
     (let mat_addr_offset = vec_chuck_size * length h_vec
      in map (\<lambda>i. Dma_write (input_addr + of_nat (vec_chuck_size * i)) vec_chuck_size (h_vec ! i)) [0..<length h_vec]
       @ map (\<lambda>i. Dma_write (input_addr + of_nat mat_addr_offset + of_nat (mat_chuck_size * i)) mat_chuck_size (h_mat ! i))
           [0..<length h_mat])"

definition run_registers :: "nat \<Rightarrow> nat \<Rightarrow> nat \<Rightarrow> nat \<Rightarrow> nat \<Rightarrow> u32 \<Rightarrow> u32 \<Rightarrow> dev_op list" where
  "run_registers level col_size n_split n_index mat_len input_addr output_addr =
     fpga_reg_write_array
       [MVP_REG_OFFSET + MVP_PROCESS_START_OFFSET, MVP_REG_OFFSET + MVP_COMMAND_OFFSET,
        MVP_REG_OFFSET + MVP_LEVEL_OFFSET, MVP_REG_OFFSET + MVP_COL_SIZE_OFFSET,
        MVP_REG_OFFSET + MVP_N_SPLIT_OFFSET, MVP_REG_OFFSET + MVP_N_INDEX_OFFSET,
        MVP_REG_OFFSET + MVP_H_MAT_LEN_OFFSET,
        MVP_REG_OFFSET + MVP_H_VEC_DATA_MEM_LOW_OFFSET, MVP_REG_OFFSET + MVP_H_VEC_DATA_MEM_HIGH_OFFSET,
        MVP_REG_OFFSET + MVP_OUTPUT_DATA_MEM_LOW_OFFSET, MVP_REG_OFFSET + MVP_OUTPUT_DATA_MEM_HIGH_OFFSET,
        MVP_REG_OFFSET + MVP_PROCESS_START_OFFSET]
       [0, 1, of_nat level, of_nat col_size, of_nat n_split, of_nat n_index, of_nat mat_len,
        input_addr, 0, output_addr, 0, 1]"

text \<open>The status word is a signed integer; its upper bits are the error code of the device.\<close>

definition run_result :: "u32 option \<Rightarrow> int" where
  "run_result status =
     (let s = (case status of None \<Rightarrow> 0 | Some v \<Rightarrow> sint v) in if 1 < s then s div 2 ^ 8 else 0)"

text \<open>
  \<open>KernelRun\<close> between the semaphore operations, for the buffer it was given: the trace, the return value,
  and the result buffer, which keeps its contents when the final transfer fails.
\<close>

definition KernelRun ::
    "fpga_env \<Rightarrow> nat \<Rightarrow> nat \<Rightarrow> u64 list list \<Rightarrow> nat \<Rightarrow> u64 list list \<Rightarrow> nat \<Rightarrow> nat \<Rightarrow> u64 list
      \<Rightarrow> (dev_op list \<times> int \<times> u64 list) outcome" where
  "KernelRun E n m h_vec vec_chuck_size h_mat mat_chuck_size buffer_index h_result =
     obind (obtain_fpga_dev_name E) (\<lambda>r.
       if r \<noteq> 0 then Inr ([], - 1, h_result)
       else
         let outputsize = 0x20000; (input_addr, output_addr) = slot_addresses buffer_index;
             writes = upload_ops input_addr h_vec vec_chuck_size h_mat mat_chuck_size;
             results = map (fpga_memory_operate E) writes
         in obind (kernel_args n m) (\<lambda>(level, col_size, n_split, n_index, mat_len).
            let regs = run_registers level col_size n_split n_index mat_len input_addr output_addr
            in obind (poll_ready (fe_ready E) 10000000 0 None) (\<lambda>status.
               let rd = Dma_read output_addr outputsize;
                   h_result = (if fpga_memory_operate E rd = 0 then fe_output E (writes @ regs) else h_result)
               in Inr (writes @ regs @ [rd], run_result status, h_result))))"

section \<open>The handler\<close>

text \<open>
  The Galois keys: for each Galois element, the public keys of its decomposition. \<open>data()\<close> of a public
  key points to its first polynomial, so only that one is checked.
\<close>

type_synonym galois_keys = "nat \<Rightarrow> rlwe_ct list option"

definition check_key_limb :: "u64 list \<Rightarrow> nat \<Rightarrow> rlwe_ct \<Rightarrow> nat \<Rightarrow> unit outcome" where
  "check_key_limb moduli N k l =
     (let upper = moduli ! l; rns = slice (ct_polys k ! 0) (l * N, N)
      in requires (list_all (\<lambda>x. x < upper) rns) (Failed OUT_OF_RANGE ''InitFPGAKernel: invalid evk value'')
        (requires (list_ex (\<lambda>x. 0 < x) rns) (Failed INVALID_ARGUMENT ''InitFPGAKernel: invalid evk of all 0'')
          (Inr ())))"

definition check_key :: "nat \<Rightarrow> nat \<Rightarrow> rlwe_ct \<Rightarrow> u64 list outcome" where
  "check_key N num_modulus k =
     requires (ct_degree k = N \<and> ct_coeff_modulus_size k = num_modulus)
       (Failed INVALID_ARGUMENT ''InitFPGAKernel: invalid evk size'')
     (obind (omap (check_key_limb kModulus N k) [0..<num_modulus]) (\<lambda>_. Inr (concat (ct_polys k))))"

definition check_element :: "galois_keys \<Rightarrow> nat \<Rightarrow> nat \<Rightarrow> nat \<Rightarrow> u64 list list outcome" where
  "check_element evk N num_modulus i =
     (case evk (2 ^ i + 1) of
        None \<Rightarrow> Inl (Failed INVALID_ARGUMENT ''InitFPGAKernel: missing key'')
      | Some keys \<Rightarrow>
          requires (length keys = 2) (Failed INVALID_ARGUMENT ''InitFPGAKernel: invalid evk size'')
            (omap (check_key N num_modulus) keys))"

record FPGAHandler =
  fh_is_initialized :: bool

definition InitFPGAKernel :: "fpga_env \<Rightarrow> galois_keys \<Rightarrow> FPGAHandler \<Rightarrow> unit outcome \<times> FPGAHandler" where
  "InitFPGAKernel E evk h =
     (let N = kPolyDegree; logN = kLogPolyDegree; num_modulus = kNumModulus;
          evk_size = 2 * N * num_modulus * 8
      in case omap (check_element evk N num_modulus) [1..<Suc logN] of
           Inl e \<Rightarrow> (Inl e, h)
         | Inr evk_pointers \<Rightarrow>
             (case KernelInit E (concat evk_pointers) evk_size of
                Inl e \<Rightarrow> (Inl e, h)
              | Inr (ops, ret) \<Rightarrow>
                  if 0 \<noteq> ret then (Inl (Failed INTERNAL ''InitFPGAKernel: KernelInit failed''), h)
                  else (Inr (), h\<lparr>fh_is_initialized := True\<rparr>)))"

definition FPGAHandler_Release :: "FPGAHandler \<Rightarrow> unit outcome \<times> FPGAHandler" where
  "FPGAHandler_Release h = (Inr (), h\<lparr>fh_is_initialized := False\<rparr>)"

section \<open>The registers against the shapes of the host\<close>

lemma CeilDiv_small: "0 < b \<Longrightarrow> a + b \<le> 2 ^ 64 \<Longrightarrow> 0 < a \<Longrightarrow> a \<le> c * b \<Longrightarrow> CeilDiv a b \<le> c"
proof -
  assume b: "0 < b" "a + b \<le> 2 ^ 64" "a \<le> c * b"
  have "CeilDiv a b * b < a + b" using CeilDiv_bounds(2) [OF b(1,2)] .
  also have "a + b \<le> Suc c * b" using b(3) by simp
  finally have "CeilDiv a b < Suc c" by (simp only: mult_less_cancel2)
  then show ?thesis by simp
qed

lemma kernel_args_shape_lemma:
  assumes rows: "2 \<le> nrows" "nrows \<le> 4096" and cols: "1 \<le> ncols" "ncols \<le> 16384"
    and shape: "GetSubmatrixShape \<lparr>mi_is_transposed = False, mi_base_mod_nbits = nb, mi_nrows = nrows, mi_ncols = ncols\<rparr>
      4096 = Inr (r, w)"
  shows "\<exists>k. NextPow2 (max nrows r) = 2 ^ k \<and> NextPow2 nrows = 2 ^ k \<and>
    kernel_args (NextPow2 (max nrows r)) (max ncols w)
      = Inr (k, max ncols w, CeilDiv ncols w, r, CeilDiv (NextPow2 nrows) r * CeilDiv ncols w) \<and>
    1 \<le> CeilDiv ncols w \<and> CeilDiv ncols w \<le> 4 \<and> 2 \<le> CeilDiv (NextPow2 nrows) r"
proof -
  let ?meta = "\<lparr>mi_is_transposed = False, mi_base_mod_nbits = nb, mi_nrows = nrows, mi_ncols = ncols\<rparr>"
  define e where "e = shape_exponent (2 ^ 12) nrows ncols"
  have N: "(2 :: nat) ^ 12 = 4096" by simp
  have closed: "GetSubmatrixShape ?meta (2 ^ 12) = Inr (2 ^ e, 2 ^ (12 - e))" "e \<le> 12"
    using GetSubmatrixShape_closed [of ?meta 12] rows cols
    by (simp_all add: ExpectMatVecOutputLen_def ExpectMatVecInputLen_def e_def)
  then have r: "r = 2 ^ e" and w: "w = 2 ^ (12 - e)" using shape by simp_all
  have rw: "r * w = 4096" using closed(2) N by (simp add: r w flip: power_add)
  obtain k where k: "NextPow2 nrows = 2 ^ k" "nrows \<le> 2 ^ k" "2 ^ k < 2 * nrows"
    using NextPow2_power [of nrows] rows by auto
  have ek: "e < k" using shape_exponent_rows [of nrows 12 ncols k] rows cols k(1) by (simp add: e_def)
  have "2 * r \<le> 2 ^ k"
  proof -
    have "(2 :: nat) ^ Suc e \<le> 2 ^ k" using ek by (intro power_increasing) simp_all
    then show ?thesis by (simp add: r)
  qed
  then have "r \<le> nrows" using k(3) by simp
  then have mx: "max nrows r = nrows" by simp
  have "(2 :: nat) ^ k < 2 * 4096" using k(3) rows by simp
  then have k12: "(2 :: nat) ^ k \<le> 4096 * 2" by simp
  have blks: "CeilDiv (2 ^ k) r = 2 ^ (k - e)"
  proof -
    have eq: "(2 :: nat) ^ k = 2 ^ (k - e) * r" using ek by (simp add: r flip: power_add)
    have "2 ^ k + r \<le> 2 ^ 64" using k12 \<open>2 * r \<le> 2 ^ k\<close> by simp
    then have "2 ^ (k - e) * r + r \<le> 2 ^ 64" by (simp only: eq)
    then show ?thesis using CeilDiv_mult [of r "2 ^ (k - e)"] by (simp add: eq r)
  qed
  have w4096: "w \<le> 4096" "0 < w" using power_increasing [of "12 - e" 12 "2 :: nat"] by (simp_all add: w)
  have pos: "1 \<le> CeilDiv ncols w" using CeilDiv_pos [of ncols w] cols w4096 by simp
  have "(2 :: nat) ^ 1 \<le> 2 ^ (k - e)" using ek by (intro power_increasing) simp_all
  then have two: "2 \<le> CeilDiv (NextPow2 nrows) r" by (simp add: k(1) blks)
  show ?thesis
  proof (cases "max ncols w < 4096")
    case True
    then have "ncols \<le> w" using shape_exponent_cols [of nrows 12 ncols] rows cols by (simp add: w e_def)
    then have m: "max ncols w = w" and one: "CeilDiv ncols w = 1"
      using CeilDiv_le_1 [of ncols w] cols w4096 by simp_all
    have "4096 div w = 2 ^ e" using rw w4096 by (metis nonzero_mult_div_cancel_right r less_numeral_extra(3))
    then have "Log2 (4096 div w) = Inr e" by (simp add: Log2_pow2)
    moreover have "(2 :: nat) ^ k div 2 ^ e = 2 ^ (k - e)" using ek by (simp add: power_diff)
    moreover have "(2 :: nat) ^ k mod 2 ^ 32 = 2 ^ k" using k12 by simp
    ultimately have "kernel_args (2 ^ k) w = Inr (k, w, 1, r, 2 ^ (k - e))"
      using True m w4096 by (simp add: kernel_args_def Log2_pow2 r Let_def)
    then show ?thesis using k(1) m one two by (simp add: mx blks)
  next
    case False
    have "e = 0"
    proof (cases "ncols < 4096")
      case True
      then have "w = 4096" using False w4096 by simp
      then have "r = 1" using rw by simp
      then show ?thesis by (simp add: r)
    next
      case False
      then show ?thesis using shape_exponent_wide [of nrows 12 ncols] rows by (simp add: e_def)
    qed
    then have rw1: "r = 1" "w = 4096" by (simp_all add: r w)
    have split: "(max ncols 4096 + 4095) div 4096 = CeilDiv ncols 4096"
    proof (cases "ncols \<le> 4096")
      case True
      then have "CeilDiv ncols 4096 = 1" using CeilDiv_le_1 [of ncols 4096] cols by simp
      then show ?thesis using True by simp
    next
      case False
      then show ?thesis using CeilDiv_eq [of ncols 4096] cols by (simp add: max_def)
    qed
    have four: "CeilDiv ncols 4096 \<le> 4" using CeilDiv_small [of 4096 ncols 4] cols by simp
    have "2 ^ k * CeilDiv ncols 4096 \<le> 4096 * 2 * 4" using k12 four by (rule mult_le_mono)
    then have "2 ^ k * CeilDiv ncols 4096 mod 2 ^ 32 = 2 ^ k * CeilDiv ncols 4096" by simp
    with four have "CeilDiv ncols 4096 \<le> 4" "2 ^ k * CeilDiv ncols 4096 mod 2 ^ 32 = 2 ^ k * CeilDiv ncols 4096" by simp_all
    moreover from this have "kernel_args (2 ^ k) (max ncols 4096)
        = Inr (k, max ncols 4096, CeilDiv ncols 4096, 1, 2 ^ k * CeilDiv ncols 4096)"
      by (simp add: kernel_args_def Log2_pow2 split Let_def)
    moreover have "CeilDiv (2 ^ k) 1 = 2 ^ k" using blks \<open>e = 0\<close> rw1 by simp
    ultimately show ?thesis using k(1) pos two mx by (simp add: rw1)
  qed
qed

text \<open>
  C32. Host and device agree on the shape: for every matrix size the private implementation accepts, the
  register values \<open>KernelRun\<close> derives from the padded row count and the column count it is passed are
  the number of block columns of the host (between 1 and 4), the rows per block, and the number of
  plaintext polynomials the host uploads, which is at least 2.
\<close>

theorem kernel_registers_match_host:
  assumes "2 \<le> nrows" "nrows \<le> 4096" "1 \<le> ncols" "ncols \<le> 16384"
    and "GetSubmatrixShape \<lparr>mi_is_transposed = False, mi_base_mod_nbits = nb, mi_nrows = nrows, mi_ncols = ncols\<rparr>
      4096 = Inr (r, w)"
  shows "\<exists>level. NextPow2 (max nrows r) = 2 ^ level \<and>
    kernel_args (NextPow2 (max nrows r)) (max ncols w)
      = Inr (level, max ncols w, CeilDiv ncols w, r, CeilDiv (NextPow2 nrows) r * CeilDiv ncols w) \<and>
    1 \<le> CeilDiv ncols w \<and> CeilDiv ncols w \<le> 4 \<and> 1 < CeilDiv (NextPow2 nrows) r * CeilDiv ncols w"
proof -
  obtain k where "NextPow2 (max nrows r) = 2 ^ k"
    "kernel_args (NextPow2 (max nrows r)) (max ncols w)
      = Inr (k, max ncols w, CeilDiv ncols w, r, CeilDiv (NextPow2 nrows) r * CeilDiv ncols w)"
    "1 \<le> CeilDiv ncols w" "CeilDiv ncols w \<le> 4" "2 \<le> CeilDiv (NextPow2 nrows) r"
    using kernel_args_shape_lemma [OF assms] by blast
  moreover have "2 * 1 \<le> CeilDiv (NextPow2 nrows) r * CeilDiv ncols w"
    using calculation by (intro mult_le_mono)
  ultimately show ?thesis by auto
qed

theorem kernel_registers_match_host_witness:
  "\<exists>r w level. GetSubmatrixShape \<lparr>mi_is_transposed = False, mi_base_mod_nbits = 64, mi_nrows = 100, mi_ncols = 5000\<rparr> 4096
      = Inr (r, w) \<and> NextPow2 (max 100 r) = 2 ^ level \<and>
    kernel_args (NextPow2 (max 100 r)) (max 5000 w)
      = Inr (level, max 5000 w, CeilDiv 5000 w, r, CeilDiv (NextPow2 100) r * CeilDiv 5000 w) \<and>
    1 \<le> CeilDiv 5000 w \<and> CeilDiv 5000 w \<le> 4 \<and> 1 < CeilDiv (NextPow2 100) r * CeilDiv 5000 w"
proof -
  let ?meta = "\<lparr>mi_is_transposed = False, mi_base_mod_nbits = 64, mi_nrows = 100, mi_ncols = 5000\<rparr>"
  obtain r w where rw: "GetSubmatrixShape ?meta 4096 = Inr (r, w)"
    using GetSubmatrixShape_closed(1) [of ?meta 12]
    by (simp add: ExpectMatVecOutputLen_def ExpectMatVecInputLen_def)
  with kernel_registers_match_host [OF _ _ _ _ rw] show ?thesis by auto
qed

section \<open>Device memory\<close>

fun write_range :: "dev_op \<Rightarrow> nat set" where
  "write_range (Dma_write a n _) = {unat a..<unat a + n}"
| "write_range _ = {}"

lemma unat_of_nat_32: "n < 2 ^ 32 \<Longrightarrow> unat (of_nat n :: u32) = n"
  by (simp add: unat_of_nat)

lemma unat_offset_32: "unat (a :: u32) + n < 2 ^ 32 \<Longrightarrow> unat (a + of_nat n) = unat a + n"
  by (simp add: unat_word_ariths unat_of_nat mod_simps)

text \<open>
  The areas that the constants of \<open>F3/mvp_fpga_reg.h\<close> leave: the input area of a slot ends where its output area
  begins, \<open>0x20000000\<close> bytes further. A comment in \<open>KernelRun\<close> names other bases and \<open>0x70000000\<close> bytes for each slot.
\<close>

definition slot_area :: "nat \<Rightarrow> nat set" where
  "slot_area i = {unat (fst (slot_addresses i))..<unat (snd (slot_addresses i))}"

definition output_area :: "nat \<Rightarrow> nat set" where
  "output_area i = {unat (snd (slot_addresses i))..<unat (snd (slot_addresses i)) + 0x20000}"

lemma slot_address_values:
  "unat (fst (slot_addresses i)) = (if i = 0 then 0x50000000 else 0x10000000)"
  "unat (snd (slot_addresses i)) = (if i = 0 then 0x70000000 else 0x30000000)"
  by (simp_all add: slot_addresses_def FIRST_INPUT_DATA_DEV_BASE_ADDR_def SECOND_INPUT_DATA_DEV_BASE_ADDR_def
      FIRST_OUTPUT_DATA_DEV_BASE_ADDR_def SECOND_OUTPUT_DATA_DEV_BASE_ADDR_def)

lemma slot_area_eq: "slot_area i = {unat (fst (slot_addresses i))..<unat (fst (slot_addresses i)) + 0x20000000}"
  by (simp add: slot_area_def slot_address_values)

text \<open>Where the transfer with number \<open>k\<close> writes, counted from the base of the slot, and how much.\<close>

definition upload_offset :: "nat \<Rightarrow> nat \<Rightarrow> nat \<Rightarrow> nat \<Rightarrow> nat" where
  "upload_offset lv v m k = (if k < lv then v * k else v * lv + m * (k - lv))"

definition upload_size :: "nat \<Rightarrow> nat \<Rightarrow> nat \<Rightarrow> nat \<Rightarrow> nat" where
  "upload_size lv v m k = (if k < lv then v else m)"

lemma length_upload_ops [simp]: "length (upload_ops a h_vec v h_mat m) = length h_vec + length h_mat"
  by (simp add: upload_ops_def Let_def)

lemma upload_offset_step:
  assumes "k < j"
  shows "upload_offset lv v m k + upload_size lv v m k \<le> upload_offset lv v m j"
proof -
  have step: "c * i + c \<le> c * i'" if "i < i'" for c i i' :: nat
    using mult_le_mono2 [of "Suc i" i' c] that by simp
  consider "j < lv" | "k < lv" "lv \<le> j" | "lv \<le> k" by linarith
  then show ?thesis
  proof cases
    case 1
    then show ?thesis using assms step [of k j v] by (simp add: upload_offset_def upload_size_def)
  next
    case 2
    then show ?thesis using step [of k lv v] by (simp add: upload_offset_def upload_size_def)
  next
    case 3
    then show ?thesis using assms step [of "k - lv" "j - lv" m] by (simp add: upload_offset_def upload_size_def)
  qed
qed

lemma upload_offset_end: "upload_offset lv v m (lv + lm) = v * lv + m * lm"
  by (simp add: upload_offset_def)

lemma upload_ops_range:
  assumes k: "k < length h_vec + length h_mat" and fits: "unat a + (upload_offset (length h_vec) v m k + upload_size (length h_vec) v m k) < 2 ^ 32"
  shows "write_range (upload_ops a h_vec v h_mat m ! k) =
    {unat a + upload_offset (length h_vec) v m k..<unat a + (upload_offset (length h_vec) v m k + upload_size (length h_vec) v m k)}"
proof -
  have "\<exists>data. upload_ops a h_vec v h_mat m ! k = Dma_write (a + of_nat (upload_offset (length h_vec) v m k)) (upload_size (length h_vec) v m k) data"
  proof (cases "k < length h_vec")
    case True
    then show ?thesis using k by (simp add: upload_ops_def Let_def nth_append upload_offset_def upload_size_def del: of_nat_mult)
  next
    case False
    have "a + of_nat (v * length h_vec) + of_nat (m * (k - length h_vec)) = a + of_nat (v * length h_vec + m * (k - length h_vec))"
      by (simp only: of_nat_add add.assoc)
    with False k show ?thesis
      by (simp add: upload_ops_def Let_def nth_append upload_offset_def upload_size_def del: of_nat_mult of_nat_add)
  qed
  moreover have "unat (a + of_nat (upload_offset (length h_vec) v m k)) = unat a + upload_offset (length h_vec) v m k"
    using fits by (intro unat_offset_32) linarith
  ultimately show ?thesis by (auto simp: add.assoc simp del: of_nat_mult)
qed

text \<open>
  C33. Uploads stay in their slot and out of each other's way: as long as the vector and matrix polynomials of a run take
  at most the \<open>0x20000000\<close> bytes between the base of the input area and that of the output area, every transfer writes
  inside the input area of the slot the run was given, no two transfers write to the same place, so that the matrix
  does not overwrite the vector, and the input and output areas of the two slots and the area of the key switching keys
  are disjoint.
\<close>

theorem upload_inside_slot:
  fixes i v m h_vec h_mat
  defines "ops \<equiv> upload_ops (fst (slot_addresses i)) h_vec v h_mat m"
  assumes "v * length h_vec + m * length h_mat \<le> 0x20000000"
  shows "(\<forall>op \<in> set ops. write_range op \<subseteq> slot_area i) \<and>
    (\<forall>j k. j < k \<longrightarrow> k < length ops \<longrightarrow> write_range (ops ! j) \<inter> write_range (ops ! k) = {}) \<and>
    slot_area 0 \<inter> slot_area 1 = {} \<and> output_area 0 \<inter> output_area 1 = {} \<and>
    (slot_area 0 \<union> slot_area 1) \<inter> (output_area 0 \<union> output_area 1) = {} \<and>
    (\<forall>ks. length ks = 24 \<longrightarrow> (\<forall>op \<in> set (ksk_ops ks 196608).
       write_range op \<inter> (slot_area 0 \<union> slot_area 1 \<union> output_area 0 \<union> output_area 1) = {}))"
proof -
  let ?a = "unat (fst (slot_addresses i))" and ?off = "upload_offset (length h_vec) v m" and ?sz = "upload_size (length h_vec) v m"
  have le: "?off k + ?sz k \<le> 0x20000000" if "k < length ops" for k
    using upload_offset_step [of k "length h_vec + length h_mat" "length h_vec" v m] that assms(2)
    by (simp add: ops_def upload_offset_end)
  have base: "?a \<le> 0x50000000" by (simp add: slot_address_values)
  have at: "write_range (ops ! k) = {?a + ?off k..<?a + (?off k + ?sz k)}" if "k < length ops" for k
    unfolding ops_def using that le [OF that] base
    by (intro upload_ops_range) (simp_all add: ops_def)
  have inside: "write_range op \<subseteq> slot_area i" if "op \<in> set ops" for op
  proof -
    obtain k where "k < length ops" "op = ops ! k" using \<open>op \<in> set ops\<close> by (auto simp: in_set_conv_nth)
    then show ?thesis using at [of k] le [of k] by (auto simp: slot_area_eq)
  qed
  have apart: "write_range (ops ! j) \<inter> write_range (ops ! k) = {}" if "j < k" "k < length ops" for j k
    using upload_offset_step [OF that(1), of "length h_vec" v m] that at [of j] at [of k] by auto
  have keys: "write_range op \<inter> (slot_area 0 \<union> slot_area 1 \<union> output_area 0 \<union> output_area 1) = {}"
    if ks: "length ks = 24" "op \<in> set (ksk_ops ks 196608)" for ks op
  proof -
    obtain j where j: "j < 24" "op = Dma_write (KSK_DEV_BASE_ADDR + of_nat (196608 * j)) 196608 (ks ! j)"
      using ks by (auto simp: ksk_ops_def)
    have "unat (KSK_DEV_BASE_ADDR + of_nat (196608 * j) :: u32) = unat KSK_DEV_BASE_ADDR + 196608 * j"
      using j(1) by (intro unat_offset_32) (simp add: KSK_DEV_BASE_ADDR_def)
    then show ?thesis
      using j(1) by (auto simp: j(2) slot_area_def output_area_def slot_address_values KSK_DEV_BASE_ADDR_def
          simp del: of_nat_mult)
  qed
  show ?thesis
    using inside apart keys by (auto simp: slot_area_def output_area_def slot_address_values)
qed

theorem upload_inside_slot_witness:
  "list_all (\<lambda>op. write_range op \<subseteq> slot_area 1)
    (upload_ops (fst (slot_addresses 1)) [[1], [2]] 196608 [[3], [4], [5]] 98304) \<and>
   write_range (upload_ops (fst (slot_addresses 1)) [[1], [2]] 196608 [[3], [4], [5]] 98304 ! 1) \<inter>
   write_range (upload_ops (fst (slot_addresses 1)) [[1], [2]] 196608 [[3], [4], [5]] 98304 ! 2) = {}"
proof -
  have "196608 * length [[1], [2]] + 98304 * length [[3], [4], [5 :: u64]] \<le> 0x20000000" by simp
  from upload_inside_slot [OF this, of 1] show ?thesis by (simp only: list_all_iff length_upload_ops) simp
qed

section \<open>Return values of the driver\<close>

text \<open>
  The driver does not report failed transfers: two environments that differ in the results of the
  transfers only, with the same probe and the same ready register, give the same traces and the same
  return values of \<open>KernelInit\<close> and \<open>KernelRun\<close>; and \<open>KernelInit\<close> returns 0 whenever the device is found.
\<close>

theorem driver_ignores_transfers:
  assumes "fe_probe E' = fe_probe E" "fe_ready E' = fe_ready E"
  shows "KernelInit E' h_ksk c = KernelInit E h_ksk c \<and>
    (\<forall>ops ret. KernelInit E h_ksk c = Inr (ops, ret) \<longrightarrow> (ret = 0 \<longleftrightarrow> fe_probe E = Probe_ok)) \<and>
    map_sum id (\<lambda>(ops, ret, out). (ops, ret)) (KernelRun E' n m hv vc hm mc i res)
      = map_sum id (\<lambda>(ops, ret, out). (ops, ret)) (KernelRun E n m hv vc hm mc i res)"
proof (intro conjI allI impI)
  show "KernelInit E' h_ksk c = KernelInit E h_ksk c"
    using assms by (cases "fe_probe E") (simp_all add: KernelInit_def obtain_fpga_dev_name_def Let_def)
  show "ret = 0 \<longleftrightarrow> fe_probe E = Probe_ok" if "KernelInit E h_ksk c = Inr (ops, ret)" for ops ret
    using that by (auto simp: KernelInit_def obtain_fpga_dev_name_def obind_eq_Inr_iff Let_def split: probe.splits)
  show "map_sum id (\<lambda>(ops, ret, out). (ops, ret)) (KernelRun E' n m hv vc hm mc i res)
      = map_sum id (\<lambda>(ops, ret, out). (ops, ret)) (KernelRun E n m hv vc hm mc i res)"
    using assms
    by (cases "fe_probe E")
      (auto simp: KernelRun_def obtain_fpga_dev_name_def Let_def obind_def split: sum.splits prod.splits)
qed

definition env_ref :: "u32 \<Rightarrow> int \<Rightarrow> fpga_env" where
  "env_ref ready opened = \<lparr>fe_probe = Probe_ok, fe_open = (\<lambda>op. opened), fe_moved = op_size,
     fe_ready = (\<lambda>k. Some ready), fe_output = (\<lambda>ops. [])\<rparr>"

theorem driver_ignores_transfers_witness:
  "KernelInit (env_ref 1 (- 1)) [[5]] 8 = KernelInit (env_ref 1 3) [[5]] 8 \<and>
   map_sum id (\<lambda>(ops, ret, out). (ops, ret)) (KernelRun (env_ref 1 (- 1)) 2 4096 [[5]] 8 [[6]] 8 1 [])
     = map_sum id (\<lambda>(ops, ret, out). (ops, ret)) (KernelRun (env_ref 1 3) 2 4096 [[5]] 8 [[6]] 8 1 [])"
  using driver_ignores_transfers [of "env_ref 1 (- 1)" "env_ref 1 3"] by (simp add: env_ref_def)

lemma poll_never_ready: "\<forall>k. \<exists>v. ready k = Some v \<and> even v \<Longrightarrow> poll_ready ready tries k d = Inr None"
proof (induction tries arbitrary: k d)
  case (Suc tries)
  then obtain v where "ready k = Some v" "even v" by blast
  with Suc show ?case by simp
qed simp

text \<open>
  C35. A device that never becomes ready counts as success: when every poll reads an even value, \<open>KernelRun\<close>
  still returns 0, after its last poll, with whatever the output area holds as the result.
\<close>

theorem kernel_timeout_is_success:
  assumes "fe_probe E = Probe_ok" "\<forall>k. \<exists>v. fe_ready E k = Some v \<and> even v" "kernel_args n m = Inr args"
  shows "\<exists>ops out. KernelRun E n m h_vec vc h_mat mc i res = Inr (ops, 0, out)"
proof -
  obtain l cs sp ix ml where args: "args = (l, cs, sp, ix, ml)" by (cases args)
  show ?thesis
    using assms poll_never_ready [OF assms(2)]
    by (simp add: KernelRun_def obtain_fpga_dev_name_def Let_def args run_result_def slot_addresses_def)
qed

theorem kernel_timeout_is_success_witness:
  "\<exists>ops out. KernelRun (env_ref 0 3) 2 4096 [[5]] 8 [[6]] 8 1 [] = Inr (ops, 0, out)"
proof -
  have "kernel_args 2 4096 = Inr (1, 4096, 1, 1, 2)"
    using Log2_pow2 [of 1] by (simp add: kernel_args_def)
  then show ?thesis by (intro kernel_timeout_is_success) (simp_all add: env_ref_def)
qed

section \<open>Acceptance of the evaluation key\<close>

definition key_ok :: "rlwe_ct \<Rightarrow> bool" where
  "key_ok k \<longleftrightarrow> ct_degree k = 4096 \<and> ct_coeff_modulus_size k = 3 \<and>
     (\<forall>l < 3. (\<forall>x \<in> set (limb 4096 (ct_polys k ! 0) l). x < kModulus ! l) \<and>
             (\<exists>x \<in> set (limb 4096 (ct_polys k ! 0) l). 0 < x))"

lemma check_key_limb_Inr:
  "check_key_limb ms N k l = Inr u \<longleftrightarrow>
     (\<forall>x \<in> set (limb N (ct_polys k ! 0) l). x < ms ! l) \<and> (\<exists>x \<in> set (limb N (ct_polys k ! 0) l). 0 < x)"
  by (simp add: check_key_limb_def Let_def requires_def list_all_iff list_ex_iff)

lemma check_key_Inr: "(\<exists>p. check_key 4096 3 k = Inr p) \<longleftrightarrow> key_ok k"
proof -
  have "(\<exists>us. omap (check_key_limb kModulus 4096 k) [0..<3] = Inr us)
      \<longleftrightarrow> (\<forall>l < 3. check_key_limb kModulus 4096 k l = Inr ())"
    by (auto simp: omap_Inr_iff intro: exI [of _ "replicate 3 ()"])
  then show ?thesis
    by (auto simp: check_key_def requires_eq_Inr_iff obind_eq_Inr_iff key_ok_def check_key_limb_Inr)
qed

lemma omap_ex: "(\<exists>ys. omap f xs = Inr ys) \<longleftrightarrow> (\<forall>x \<in> set xs. \<exists>y. f x = Inr y)"
  by (induction xs) (auto simp: obind_eq_Inr_iff)

lemma check_element_Inr:
  "(\<exists>p. check_element evk 4096 3 i = Inr p) \<longleftrightarrow> (\<exists>k1 k2. evk (2 ^ i + 1) = Some [k1, k2] \<and> key_ok k1 \<and> key_ok k2)"
proof (cases "evk (2 ^ i + 1)")
  case (Some keys)
  have "(\<exists>p. check_element evk 4096 3 i = Inr p) \<longleftrightarrow> length keys = 2 \<and> (\<forall>k \<in> set keys. key_ok k)"
    using Some omap_ex [of "check_key 4096 3" keys] by (auto simp: check_element_def requires_eq_Inr_iff check_key_Inr)
  also have "\<dots> \<longleftrightarrow> (\<exists>k1 k2. keys = [k1, k2] \<and> key_ok k1 \<and> key_ok k2)"
    by (auto simp: length_Suc_conv numeral_2_eq_2)
  finally show ?thesis using Some by simp
qed (simp add: check_element_def)

lemma InitFPGAKernel_lemma:
  assumes "fe_probe E = Probe_ok" "fe_ready E 0 \<noteq> None"
  shows "(fst (InitFPGAKernel E evk h) = Inr () \<longleftrightarrow>
      (\<forall>i \<in> {1..12}. \<exists>k1 k2. evk (2 ^ i + 1) = Some [k1, k2] \<and> key_ok k1 \<and> key_ok k2)) \<and>
    fh_is_initialized (snd (InitFPGAKernel E evk h))
      = (fst (InitFPGAKernel E evk h) = Inr () \<or> fh_is_initialized h)"
proof -
  let ?chk = "omap (check_element evk kPolyDegree kNumModulus) [1..<Suc kLogPolyDegree]"
  have poll: "\<exists>r. poll_ready f (Suc t) k d = Inr r" if "f k \<noteq> None" for f t k d
  proof -
    have "\<exists>r. poll_ready f t k' (Some v) = Inr r" for t k' v
      by (induction t arbitrary: k' v) (auto simp: Let_def split: option.splits)
    with that show ?thesis by (auto simp: Let_def)
  qed
  obtain r where "poll_ready (fe_ready E) 100000 0 None = Inr r"
    using poll [of "fe_ready E" 0 99999 None] assms(2) by (auto simp del: poll_ready.simps)
  then have init: "\<exists>ops. KernelInit E ks c = Inr (ops, 0)" for ks c
    using assms(1) by (simp add: KernelInit_def obtain_fpga_dev_name_def Let_def)
  have "(\<exists>ps. ?chk = Inr ps) \<longleftrightarrow>
      (\<forall>i \<in> {1..12}. \<exists>k1 k2. evk (2 ^ i + 1) = Some [k1, k2] \<and> key_ok k1 \<and> key_ok k2)"
  proof -
    have "set [1..<Suc kLogPolyDegree] = {1..12}" by (auto simp: kLogPolyDegree_def)
    then show ?thesis
      unfolding omap_ex by (simp only: kPolyDegree_def kNumModulus_def check_element_Inr)
  qed
  moreover have "InitFPGAKernel E evk h = (case ?chk of Inl e \<Rightarrow> (Inl e, h) | Inr ps \<Rightarrow> (Inr (), h\<lparr>fh_is_initialized := True\<rparr>))"
  proof (cases ?chk)
    case (Inr ps)
    moreover obtain ops where "KernelInit E (concat ps) (2 * kPolyDegree * kNumModulus * 8) = Inr (ops, 0)"
      using init by blast
    ultimately show ?thesis unfolding InitFPGAKernel_def Let_def by (simp del: upt_Suc)
  qed (unfold InitFPGAKernel_def Let_def, simp del: upt_Suc)
  ultimately show ?thesis by (cases ?chk) (simp_all del: upt_Suc)
qed

text \<open>
  \<open>InitFPGAKernel\<close> and the initialised flag: with a device that is found and readable, the call succeeds
  exactly when all twelve Galois elements \<open>2 ^ i + 1\<close> have a key of two components, each of the right
  degree and size, with the residues of its first polynomial reduced and not all zero for each modulus.
  The flag is set by a successful call and left as it was by a failed one.
\<close>

theorem InitFPGAKernel_accepts:
  assumes "fe_probe E = Probe_ok" "fe_ready E 0 \<noteq> None"
  shows "(fst (InitFPGAKernel E evk h) = Inr () \<longleftrightarrow>
      (\<forall>i \<in> {1..12}. \<exists>k1 k2. evk (2 ^ i + 1) = Some [k1, k2] \<and> key_ok k1 \<and> key_ok k2)) \<and>
    fh_is_initialized (snd (InitFPGAKernel E evk h))
      = (fst (InitFPGAKernel E evk h) = Inr () \<or> fh_is_initialized h)"
  using assms by (rule InitFPGAKernel_lemma)

lemma all_ones_key_ok:
  "key_ok \<lparr>ct_parms_id = parms_id 3, ct_is_ntt_form = True, ct_degree = 4096, ct_coeff_modulus_size = 3,
     ct_polys = [replicate 12288 1, replicate 12288 1], ct_scale = 1\<rparr>"
proof -
  have "limb 4096 (replicate 12288 (1 :: u64)) l = replicate 4096 1" if "l < 3" for l
    using that by (simp add: slice_def min_def)
  moreover have "(1 :: u64) < kModulus ! l" if "l < 3" for l
  proof -
    have "l = 0 \<or> l = 1 \<or> l = 2" using that by linarith
    then show ?thesis by (auto simp: kModulus_values)
  qed
  ultimately show ?thesis by (simp add: key_ok_def)
qed

theorem InitFPGAKernel_accepts_witness:
  "fst (InitFPGAKernel (env_ref 1 3) (\<lambda>_. Some (replicate 2 \<lparr>ct_parms_id = parms_id 3, ct_is_ntt_form = True,
      ct_degree = 4096, ct_coeff_modulus_size = 3,
      ct_polys = [replicate 12288 1, replicate 12288 1], ct_scale = 1\<rparr>)) \<lparr>fh_is_initialized = False\<rparr>) = Inr () \<and>
   \<not> fh_is_initialized (snd (InitFPGAKernel (env_ref 1 3) (\<lambda>_. None) \<lparr>fh_is_initialized = False\<rparr>))"
proof -
  have env: "fe_probe (env_ref 1 3) = Probe_ok" "fe_ready (env_ref 1 3) 0 \<noteq> None" by (simp_all add: env_ref_def)
  show ?thesis
    using InitFPGAKernel_accepts [OF env] all_ones_key_ok by (auto simp: numeral_2_eq_2)
qed

end
