(* ===== verification/Stream.thy ===== *)
theory Stream
  imports Prelude
begin

text \<open>
  \<open>util/istringviewstream.h\<close>: an input stream over the characters of a string it does not own, and the
  part of \<open>std::istream\<close> used on it. A codec is a pair of a writer and a reader that consumes what the
  writer produced and leaves the stream behind it; codecs compose.
\<close>

section \<open>The buffer\<close>

text \<open>The get area is the string; the get pointer is an offset into it, which nothing keeps inside.\<close>

record istringviewstream =
  sv_data :: string
  sv_gptr :: int
  sv_good :: bool

definition istringviewstream_new :: "string \<Rightarrow> istringviewstream" where
  "istringviewstream_new str = \<lparr>sv_data = str, sv_gptr = 0, sv_good = True\<rparr>"

datatype seekdir = seek_beg | seek_cur | seek_end

definition seekoff :: "int \<Rightarrow> seekdir \<Rightarrow> istringviewstream \<Rightarrow> int \<times> istringviewstream" where
  "seekoff off dir s =
     (let g = (case dir of seek_cur \<Rightarrow> sv_gptr s + off
                         | seek_end \<Rightarrow> int (length (sv_data s)) + off
                         | seek_beg \<Rightarrow> off)
      in (g, s\<lparr>sv_gptr := g\<rparr>))"

definition seekpos :: "int \<Rightarrow> istringviewstream \<Rightarrow> int \<times> istringviewstream" where
  "seekpos sp s = seekoff (sp - 0) seek_beg s"

text \<open>
  \<open>istream::read\<close>: nothing is extracted from a stream that is not good, and a read that finds fewer
  characters than asked for extracts those and leaves the stream in the failed state.
\<close>

definition stream_read :: "nat \<Rightarrow> istringviewstream \<Rightarrow> (string \<times> istringviewstream) outcome" where
  "stream_read n s =
     (if \<not> sv_good s then Inr ([], s)
      else if sv_gptr s < 0 \<or> int (length (sv_data s)) < sv_gptr s then Inl (Undefined ''xsgetn: get pointer'')
      else let got = take n (drop (nat (sv_gptr s)) (sv_data s))
           in Inr (got, s\<lparr>sv_gptr := sv_gptr s + int (length got), sv_good := (length got = n)\<rparr>))"

section \<open>Reading what was written\<close>

text \<open>The stream after its first \<open>k\<close> characters.\<close>

definition stream_at :: "string \<Rightarrow> nat \<Rightarrow> istringviewstream" where
  "stream_at str k = \<lparr>sv_data = str, sv_gptr = int k, sv_good = True\<rparr>"

lemma stream_at_0: "istringviewstream_new str = stream_at str 0"
  by (simp add: istringviewstream_new_def stream_at_def)

lemma stream_read_at:
  "stream_read (length b) (stream_at (a @ b @ c) (length a)) = Inr (b, stream_at (a @ b @ c) (length a + length b))"
  by (simp add: stream_read_def stream_at_def Let_def)

locale stream_codec =
  fixes save :: "'a \<Rightarrow> string"
    and load :: "istringviewstream \<Rightarrow> ('a \<times> istringviewstream) outcome"
    and valid :: "'a \<Rightarrow> bool"
  assumes load_save:
    "valid x \<Longrightarrow> load (stream_at (a @ save x @ c) (length a)) = Inr (x, stream_at (a @ save x @ c) (length a + length (save x)))"
begin

lemma load_alone: "valid x \<Longrightarrow> load (istringviewstream_new (save x @ c)) = Inr (x, stream_at (save x @ c) (length (save x)))"
  using load_save [of x "[]" c] by (simp add: stream_at_0)

lemma save_inject: "valid x \<Longrightarrow> valid y \<Longrightarrow> save x = save y \<Longrightarrow> x = y"
  using load_alone [of x "[]"] load_alone [of y "[]"] by simp

text \<open>No encoding is a proper prefix of another, so encodings can be told apart in a sequence.\<close>

lemma save_prefix_free: "valid x \<Longrightarrow> valid y \<Longrightarrow> save x @ c = save y @ d \<Longrightarrow> x = y \<and> c = d"
  using load_alone [of x c] load_alone [of y d] by auto

end

definition load_pair ::
    "(istringviewstream \<Rightarrow> ('a \<times> istringviewstream) outcome) \<Rightarrow> (istringviewstream \<Rightarrow> ('b \<times> istringviewstream) outcome)
      \<Rightarrow> istringviewstream \<Rightarrow> (('a \<times> 'b) \<times> istringviewstream) outcome" where
  "load_pair f g s = obind (f s) (\<lambda>(x, s). obind (g s) (\<lambda>(y, s). Inr ((x, y), s)))"

lemma stream_codec_pair:
  assumes "stream_codec f_save f_load f_ok" "stream_codec g_save g_load g_ok"
  shows "stream_codec (\<lambda>(x, y). f_save x @ g_save y) (load_pair f_load g_load) (\<lambda>(x, y). f_ok x \<and> g_ok y)"
proof
  fix p :: "'a \<times> 'b" and a c
  assume ok: "case p of (x, y) \<Rightarrow> f_ok x \<and> g_ok y"
  obtain x y where p: "p = (x, y)" by (cases p)
  show "load_pair f_load g_load (stream_at (a @ (case p of (x, y) \<Rightarrow> f_save x @ g_save y) @ c) (length a))
      = Inr (p, stream_at (a @ (case p of (x, y) \<Rightarrow> f_save x @ g_save y) @ c)
                  (length a + length (case p of (x, y) \<Rightarrow> f_save x @ g_save y)))"
    using ok stream_codec.load_save [OF assms(1), of x a "g_save y @ c"]
      stream_codec.load_save [OF assms(2), of y "a @ f_save x" c]
    by (simp add: p load_pair_def add.assoc)
qed

text \<open>
  Seeking is unchecked: after a seek in any direction the position is the one asked for, relative to the
  start, to the old position or to the end, and a read from a good stream is defined exactly when this
  position lies in the string; then it returns the characters from there on.
\<close>

theorem seek_then_read:
  "\<exists>g. seekoff off dir (stream_at str k) = (g, (stream_at str k)\<lparr>sv_gptr := g\<rparr>) \<and>
    g = off + (case dir of seek_beg \<Rightarrow> 0 | seek_cur \<Rightarrow> int k | seek_end \<Rightarrow> int (length str)) \<and>
    map_sum id fst (stream_read n (snd (seekoff off dir (stream_at str k)))) =
      (if 0 \<le> g \<and> g \<le> int (length str) then Inr (take n (drop (nat g) str)) else Inl (Undefined ''xsgetn: get pointer''))"
  by (cases dir) (simp_all add: seekoff_def stream_at_def stream_read_def Let_def)

section \<open>Words as bytes\<close>

text \<open>A list of words as they lie in memory.\<close>

definition le64 :: "u64 \<Rightarrow> string" where
  "le64 w = map (\<lambda>i. char_of (unat w div 256 ^ i mod 256)) [0..<8]"

definition le64_value :: "string \<Rightarrow> u64" where
  "le64_value bs = of_nat (foldr (\<lambda>b v. of_char b + 256 * v) bs 0)"

definition words_of_string :: "nat \<Rightarrow> string \<Rightarrow> u64 list" where
  "words_of_string n bs = map (\<lambda>i. le64_value (slice bs (8 * i, 8))) [0..<n]"

lemma le_digits: "foldr (\<lambda>b v. of_char b + 256 * v) (map (\<lambda>i. char_of (n div 256 ^ i mod 256)) [0..<k]) 0 = n mod (256 :: nat) ^ k"
proof (induction k arbitrary: n)
  case (Suc k)
  have "map (\<lambda>i. char_of (n div 256 ^ i mod 256) :: char) [0..<Suc k]
      = char_of (n mod 256) # map (\<lambda>i. char_of (n div 256 div 256 ^ i mod 256)) [0..<k]"
    unfolding upt_conv_Cons [OF zero_less_Suc] by (simp add: map_Suc_upt [symmetric] div_mult2_eq del: upt_Suc)
  then show ?case using Suc [of "n div 256"] mod_mult2_eq [of n 256 "256 ^ k"]
    by (simp add: of_char_of mod_mod_trivial del: upt_Suc)
qed simp

lemma length_le64 [simp]: "length (le64 w) = 8"
  by (simp add: le64_def)

lemma le64_value_le64: "le64_value (le64 w) = w"
proof -
  have "(256 :: nat) ^ 8 = 2 ^ 64" by simp
  moreover have "unat w < 2 ^ 64" by (rule unat64_less)
  ultimately have "unat w mod 256 ^ 8 = unat w" by simp
  then show ?thesis unfolding le64_value_def le64_def le_digits by simp
qed

lemma slice_words: "i < length ws \<Longrightarrow> slice (concat (map le64 ws)) (8 * i, 8) = le64 (ws ! i)"
proof (induction ws arbitrary: i)
  case (Cons w ws)
  then show ?case by (cases i) (simp_all add: slice_def)
qed simp

lemma length_words: "length (concat (map le64 ws)) = 8 * length ws"
  by (induction ws) simp_all

lemma words_return: "length ws = n \<Longrightarrow> words_of_string n (concat (map le64 ws)) = ws"
  by (intro nth_equalityI) (simp_all add: words_of_string_def slice_words le64_value_le64)

end
