(* ===== verification/Context.thy ===== *)
theory Context
  imports Ring ModSwitch Fpga Stream
begin

text \<open>
  \<open>mvp_context.h\<close> and \<open>mvp_context.cc\<close>: the object that both parties hold, with the SEAL context, the public
  key, the helper for modulus switching, the handler of the card and the thread pool. It comes with the
  record of the SEAL routines on keys and ciphertexts that the SDK calls.
\<close>

section \<open>SEAL on keys and ciphertexts\<close>

text \<open>
  The routines of one SEAL context. Whatever can throw is an outcome. The routines that sample take the
  number of the call, so that two calls need not agree; \<open>sl_prng\<close> gives the byte stream of each generator that
  is created. Decoding with \<open>unsafe_load\<close> omits SEAL's checks. The last argument of the symmetric encryption of zero
  is \<open>save_seed\<close>: the second polynomial then holds a marker and the seed it was drawn from, and loading the saved
  ciphertext expands the seed.
\<close>

record seal_lib =
  sl_rt :: seal_runtime
  sl_encrypt_zero_asymmetric :: "nat \<Rightarrow> public_key \<Rightarrow> parms_id \<Rightarrow> bool \<Rightarrow> rlwe_ct outcome"
  sl_encrypt_zero_symmetric :: "nat \<Rightarrow> secret_key \<Rightarrow> parms_id \<Rightarrow> bool \<Rightarrow> bool \<Rightarrow> rlwe_ct outcome"
  sl_ct_save :: "rlwe_ct \<Rightarrow> string outcome"
  sl_ct_load :: "string \<Rightarrow> rlwe_ct outcome"
  sl_ct_unsafe_load :: "string \<Rightarrow> rlwe_ct outcome"
  sl_ct_metadata_valid_pure :: "rlwe_ct \<Rightarrow> bool"
  sl_pk_metadata_valid :: "public_key \<Rightarrow> bool"
  sl_pk_data_valid :: "public_key \<Rightarrow> bool"
  sl_sk_metadata_valid :: "secret_key \<Rightarrow> bool"
  sl_sk_valid :: "secret_key \<Rightarrow> bool"
  sl_ct_data_valid :: "rlwe_ct \<Rightarrow> bool"
  sl_prng :: "nat \<Rightarrow> nat \<Rightarrow> u8"
  sl_keygen :: "nat \<Rightarrow> secret_key outcome"
  sl_create_public_key :: "nat \<Rightarrow> secret_key \<Rightarrow> public_key outcome"
  sl_create_galois_keys :: "nat \<Rightarrow> secret_key \<Rightarrow> nat list \<Rightarrow> galois_keys outcome"
  sl_gk_save :: "galois_keys \<Rightarrow> string outcome"
  sl_gk_load :: "istringviewstream \<Rightarrow> (galois_keys \<times> istringviewstream) outcome"
  sl_pk_save :: "public_key \<Rightarrow> string outcome"
  sl_pk_load :: "istringviewstream \<Rightarrow> (public_key \<times> istringviewstream) outcome"

abbreviation sl_ctx :: "seal_lib \<Rightarrow> seal_context" where
  "sl_ctx L \<equiv> sr_ctx (sl_rt L)"

abbreviation sl_arith :: "seal_lib \<Rightarrow> seal_arith" where
  "sl_arith L \<equiv> sr_arith (sl_rt L)"

section \<open>The context\<close>

record MVPVersion =
  ver_major :: u8
  ver_minor :: u8
  ver_patch :: u8
  ver_tweak :: u8

definition current_version :: MVPVersion where
  "current_version = \<lparr>ver_major = 1, ver_minor = 2, ver_patch = 0, ver_tweak = 0\<rparr>"

record MVPContext =
  cx_fpga_handler :: FPGAHandler
  cx_seal_context :: seal_lib
  cx_version :: MVPVersion
  cx_public_key :: "public_key option"
  cx_ms_helper :: ModulusSwitchHelper
  cx_tpool_size :: nat

definition MVPContext_new :: "seal_lib \<Rightarrow> nat \<Rightarrow> MVPContext outcome" where
  "MVPContext_new sc tpool_size =
     (let tpool_size = max 1 tpool_size; tpool_size = min 8 tpool_size
      in obind (ModulusSwitchHelper_new (sl_arith sc) (sl_ctx sc) kSecretShareBitLen) (\<lambda>helper.
           Inr \<lparr>cx_fpga_handler = \<lparr>fh_is_initialized = False\<rparr>, cx_seal_context = sc,
                cx_version = current_version, cx_public_key = None, cx_ms_helper = helper,
                cx_tpool_size = tpool_size\<rparr>))"

text \<open>\<open>Create\<close> asks SEAL for a context with the scheme, the degree and the moduli of the SDK.\<close>

definition MVPContext_Create ::
    "(scheme_type \<Rightarrow> nat \<Rightarrow> u64 list \<Rightarrow> seal_lib outcome) \<Rightarrow> nat \<Rightarrow> MVPContext outcome" where
  "MVPContext_Create seal_new thread_pool_size =
     (let coeff_modulus = map (\<lambda>i. kModulus ! i) [0..<kNumModulus];
          thread_pool_size = max 1 thread_pool_size
      in obind (seal_new ckks kPolyDegree coeff_modulus) (\<lambda>sc. MVPContext_new sc thread_pool_size))"

definition IsFPGAEnabled :: "MVPContext \<Rightarrow> bool" where
  "IsFPGAEnabled rt = fh_is_initialized (cx_fpga_handler rt)"

definition thread_pool_size :: "MVPContext \<Rightarrow> nat" where
  "thread_pool_size rt = cx_tpool_size rt"

definition MVPContext_public_key :: "MVPContext \<Rightarrow> public_key outcome" where
  "MVPContext_public_key rt =
     (case cx_public_key rt of
        None \<Rightarrow> Inl (Throws (Runtime_error ''public_key is not set yet''))
      | Some pk \<Rightarrow> Inr pk)"

definition SetupPublicKey :: "MVPContext \<Rightarrow> public_key \<Rightarrow> unit outcome \<times> MVPContext" where
  "SetupPublicKey rt pk =
     (if \<not> sc_parameters_set (sl_ctx (cx_seal_context rt))
      then (Inl (Failed INTERNAL ''invalid seal context''), rt)
      else if \<not> sl_pk_data_valid (cx_seal_context rt) pk
      then (Inl (Failed INVALID_ARGUMENT ''invalid public key''), rt)
      else (Inr (), rt\<lparr>cx_public_key := Some pk\<rparr>))"

section \<open>Well-formed contexts\<close>

text \<open>
  What the properties assume of the SEAL context: the parameters are valid, and the key level and the
  first data level have the moduli of the parameters.
\<close>

definition lib_ok :: "seal_lib \<Rightarrow> bool" where
  "lib_ok L \<longleftrightarrow> seal_arith_ok (sl_arith L) \<and> seal_context_ok (sl_ctx L) \<and>
     0 < sc_degree (sl_ctx L) \<and>
     length (sc_key_moduli (sl_ctx L)) * sc_degree (sl_ctx L) < 2 ^ 64 \<and>
     sr_key_parms_id (sl_rt L) \<noteq> parms_id_zero \<and> sr_first_parms_id (sl_rt L) \<noteq> parms_id_zero \<and>
     sr_context_moduli (sl_rt L) (sr_key_parms_id (sl_rt L)) = Some (sc_key_moduli (sl_ctx L)) \<and>
     sr_context_moduli (sl_rt L) (sr_first_parms_id (sl_rt L)) = Some (sc_first_moduli (sl_ctx L))"

definition ctx_ok :: "MVPContext \<Rightarrow> bool" where
  "ctx_ok rt \<longleftrightarrow> lib_ok (cx_seal_context rt) \<and>
     ms_wf (cx_ms_helper rt) (sl_ctx (cx_seal_context rt)) kSecretShareBitLen \<and>
     cx_tpool_size rt \<in> {1..8} \<and> cx_version rt = current_version"

lemma MVPContext_new_ok:
  assumes "lib_ok L"
  shows "\<exists>rt. MVPContext_new L n = Inr rt \<and> ctx_ok rt \<and> cx_seal_context rt = L \<and>
    cx_tpool_size rt = min 8 (max 1 n) \<and> cx_public_key rt = None \<and> \<not> IsFPGAEnabled rt"
proof -
  have "2 \<le> kSecretShareBitLen" "kSecretShareBitLen \<le> 64" by (simp_all add: kSecretShareBitLen_def)
  then obtain h where h: "ModulusSwitchHelper_new (sl_arith L) (sl_ctx L) kSecretShareBitLen = Inr h"
      "ms_wf h (sl_ctx L) kSecretShareBitLen"
    using assms ModulusSwitchHelper_new_wf [of "sl_arith L" "sl_ctx L" kSecretShareBitLen]
    by (auto simp: lib_ok_def)
  then show ?thesis using assms
    by (auto simp: MVPContext_new_def Let_def ctx_ok_def IsFPGAEnabled_def)
qed

section \<open>A concrete library\<close>

text \<open>
  Over the runtime \<open>rt_ref\<close>: encryptions of zero are zero, every ciphertext is saved as the same string and
  loaded as a given one, and keys are one character long.
\<close>

definition zero_ct :: "parms_id \<Rightarrow> nat \<Rightarrow> rlwe_ct" where
  "zero_ct pid l = \<lparr>ct_parms_id = pid, ct_is_ntt_form = False, ct_degree = 2, ct_coeff_modulus_size = l,
     ct_polys = [replicate (2 * l) 0, replicate (2 * l) 0], ct_scale = 1\<rparr>"

definition load_char :: "char \<Rightarrow> 'a \<Rightarrow> istringviewstream \<Rightarrow> ('a \<times> istringviewstream) outcome" where
  "load_char ch x s = obind (stream_read 1 s) (\<lambda>(got, s).
     if got = [ch] then Inr (x, s) else Inl (Throws (Logic_error ''load'')))"

definition lib_ref :: "rlwe_ct \<Rightarrow> seal_lib" where
  "lib_ref ct = \<lparr>sl_rt = rt_ref,
     sl_encrypt_zero_asymmetric = (\<lambda>i pk pid ntt. Inr (zero_ct pid (if pid = parms_id 3 then 3 else 2))),
     sl_encrypt_zero_symmetric = (\<lambda>i sk pid ntt save_seed. Inr (zero_ct pid (if pid = parms_id 3 then 3 else 2))),
     sl_ct_save = (\<lambda>ct. Inr ''ct''), sl_ct_load = (\<lambda>s. Inr ct), sl_ct_unsafe_load = (\<lambda>s. Inr ct),
     sl_ct_metadata_valid_pure = (\<lambda>ct. True), sl_pk_metadata_valid = (\<lambda>pk. True), sl_pk_data_valid = (\<lambda>pk. True),
     sl_sk_metadata_valid = (\<lambda>sk. True), sl_sk_valid = (\<lambda>sk. True), sl_ct_data_valid = (\<lambda>ct. True),
     sl_prng = (\<lambda>g i. 0), sl_keygen = (\<lambda>i. Inr (pt_ref [1, 0, 1, 0, 1, 0])),
     sl_create_public_key = (\<lambda>i sk. Inr (zero_ct (parms_id 3) 3)), sl_create_galois_keys = (\<lambda>i sk elts. Inr (\<lambda>_. None)),
     sl_gk_save = (\<lambda>gk. Inr ''G''), sl_gk_load = load_char (CHR ''G'') (\<lambda>_. None),
     sl_pk_save = (\<lambda>pk. Inr ''P''), sl_pk_load = load_char (CHR ''P'') (zero_ct (parms_id 3) 3)\<rparr>"

lemma lib_ref_rt [simp]: "sl_rt (lib_ref ct) = rt_ref"
  by (simp add: lib_ref_def)

lemma seal_context_ok_degree: "seal_context_ok (C\<lparr>sc_degree := n\<rparr>) = seal_context_ok C"
  by (cases C) (simp only: seal_context_ok_def seal_context.select_convs seal_context.update_convs)

lemma lib_ok_ref: "lib_ok (lib_ref ct)"
proof -
  have "seal_context_ok (mvp_ctx\<lparr>sc_degree := 2\<rparr>)" using seal_context_ok_mvp by (simp only: seal_context_ok_degree)
  then show ?thesis using seal_arith_ok_ref
    by (simp add: lib_ok_def rt_ref_def) (simp add: mvp_ctx_def kModulus_values)
qed

text \<open>
  C40. A new context is well formed: for every number of threads asked for, \<open>Create\<close> on a SEAL context with the
  parameters of the SDK gives a context with a helper for 64-bit shares, between one and eight threads, no
  public key and the card off; a valid public key that is then set is the one handed out.
\<close>

theorem MVPContext_Create_ok:
  assumes "seal_new ckks kPolyDegree kModulus = Inr L" "lib_ok L" "sl_pk_data_valid L pk"
  shows "\<exists>rt. MVPContext_Create seal_new n = Inr rt \<and> ctx_ok rt \<and> cx_seal_context rt = L \<and>
    thread_pool_size rt = min 8 (max 1 n) \<and> \<not> IsFPGAEnabled rt \<and>
    MVPContext_public_key rt = Inl (Throws (Runtime_error ''public_key is not set yet'')) \<and>
    (\<exists>rt'. SetupPublicKey rt pk = (Inr (), rt') \<and> ctx_ok rt' \<and> MVPContext_public_key rt' = Inr pk)"
proof -
  have "map (\<lambda>i. kModulus ! i) [0..<kNumModulus] = kModulus"
    by (simp add: kNumModulus_def kModulus_def numeral_3_eq_3)
  moreover obtain rt where rt: "MVPContext_new L (max 1 n) = Inr rt" "ctx_ok rt" "cx_seal_context rt = L"
      "cx_tpool_size rt = min 8 (max 1 (max 1 n))" "cx_public_key rt = None" "\<not> IsFPGAEnabled rt"
    using MVPContext_new_ok [OF assms(2), of "max 1 n"] by blast
  moreover have "SetupPublicKey rt pk = (Inr (), rt\<lparr>cx_public_key := Some pk\<rparr>)"
    using assms(2,3) rt(3) by (simp add: SetupPublicKey_def lib_ok_def seal_context_ok_def)
  moreover have "ctx_ok (rt\<lparr>cx_public_key := Some pk\<rparr>)" using rt(2) by (simp add: ctx_ok_def)
  ultimately show ?thesis using assms(1)
    by (simp add: MVPContext_Create_def thread_pool_size_def MVPContext_public_key_def)
qed

theorem MVPContext_Create_ok_witness:
  "\<exists>rt. MVPContext_Create (\<lambda>sch n ms. Inr (lib_ref (zero_ct (parms_id 2) 2))) 100 = Inr rt \<and> thread_pool_size rt = 8"
  using MVPContext_Create_ok [of "\<lambda>sch n ms. Inr (lib_ref (zero_ct (parms_id 2) 2))" "lib_ref (zero_ct (parms_id 2) 2)"
      "zero_ct (parms_id 3) 3" 100] lib_ok_ref
  by (auto simp: lib_ref_def)

end
