(* ===== verification/Public.thy ===== *)
theory Public
  imports Context
begin

text \<open>
  \<open>mvp_impl.cc\<close>: the party that holds the secret key. It encodes a share vector as polynomials and encrypts
  them (\<open>EncryptVector\<close>), adds vectors and ciphertexts (\<open>AddVector\<close>, \<open>UpdateMatVec\<close>, \<open>AddMatVec\<close>), and decrypts the
  product (\<open>Decrypt\<close>). The functions of the namespace \<open>api\<close> are at the end.
\<close>

section \<open>State and configuration\<close>

record MVPPublicImpl =
  pub_is_proper_config :: bool
  pub_config :: MVPMetaInfo
  pub_ms_helper :: ModulusSwitchHelper
  pub_seal_rt :: seal_lib

abbreviation pub_ctx :: "MVPPublicImpl \<Rightarrow> seal_context" where
  "pub_ctx I \<equiv> sl_ctx (pub_seal_rt I)"

abbreviation pub_rt :: "MVPPublicImpl \<Rightarrow> seal_runtime" where
  "pub_rt I \<equiv> sl_rt (pub_seal_rt I)"

definition IsUseExtraPrime :: "MVPPublicImpl \<Rightarrow> bool" where
  "IsUseExtraPrime I = True"

definition pub_check_config :: "MVPPublicImpl \<Rightarrow> MVPPublicImpl outcome" where
  "pub_check_config I =
     (let c = pub_config I; I = I\<lparr>pub_is_proper_config := True\<rparr>
      in if \<not> sc_parameters_set (pub_ctx I) then Inl (Throws (Invalid_argument ''MVPPublicImpl: invalid seal context''))
         else if sc_scheme (pub_ctx I) \<noteq> ckks then Inl (Throws (Invalid_argument ''MVPPublicImpl: scheme_type''))
         else if mi_nrows c = 0 \<or> mi_ncols c = 0 then Inl (Throws (Invalid_argument ''MVPPublicImpl: 0 shape''))
         else if kMaxNumRows < mi_nrows c then Inl (Throws (Invalid_argument ''MVPPublicImpl: nrows out-of-bound''))
         else if kMaxNumCols < mi_ncols c then Inl (Throws (Invalid_argument ''MVPPublicImpl: ncols out-of-bound''))
         else if 50331648 \<le> mi_ncols c * mi_nrows c then Inl (Throws (Invalid_argument ''MVPPrivImpl: not supported yet''))
         else Inr I)"

definition MVPPublicImpl_new :: "MVPMetaInfo \<Rightarrow> ModulusSwitchHelper \<Rightarrow> seal_lib \<Rightarrow> MVPPublicImpl outcome" where
  "MVPPublicImpl_new config ms_helper context =
     pub_check_config \<lparr>pub_is_proper_config = True, pub_config = config, pub_ms_helper = ms_helper, pub_seal_rt = context\<rparr>"

definition pub_poly_degree :: "MVPPublicImpl \<Rightarrow> nat" where
  "pub_poly_degree I = sc_degree (pub_ctx I)"

definition base_mask :: "MVPMetaInfo \<Rightarrow> u64" where
  "base_mask c = (if mi_base_mod_nbits c < 64 then push_bit (mi_base_mod_nbits c) 1 - 1 else - 1)"

section \<open>Encoding\<close>

definition InitPtx :: "seal_runtime \<Rightarrow> rlwe_pt \<Rightarrow> parms_id \<Rightarrow> rlwe_pt outcome" where
  "InitPtx R pt pid =
     (let pid = (if pid = parms_id_zero then sr_first_parms_id R else pid)
      in case sr_context_moduli R pid of
           None \<Rightarrow> Inl (Failed INVALID_ARGUMENT ''InitPtx'')
         | Some moduli \<Rightarrow>
             let num_moduli = length moduli; num_elt = num_moduli * sc_degree (sr_ctx R)
             in if 2 ^ 64 \<le> num_elt then Inl (Throws (Logic_error ''unsigned overflow''))
                else Inr (pt\<lparr>pt_data := vec_resize num_elt (pt_data pt), pt_parms_id := pid\<rparr>))"

text \<open>A fresh \<open>seal::Plaintext\<close>; the scale is the double 1.0.\<close>

definition fresh_ptx :: rlwe_pt where
  "fresh_ptx = \<lparr>pt_parms_id = parms_id_zero, pt_data = [], pt_scale = 0x3FF0000000000000\<rparr>"

definition multiply_poly_scalar_coeffmod :: "seal_arith \<Rightarrow> u64 list \<Rightarrow> u64 \<Rightarrow> u64 \<Rightarrow> u64 list" where
  "multiply_poly_scalar_coeffmod S poly scalar q = map (\<lambda>x. multiply_uint_mod S x scalar q) poly"

text \<open>
  One pass of the loop of \<open>Vec2Poly\<close> over the moduli. The status of \<open>ModulusUpAt\<close> is dropped: when it fails
  the coefficients are the ones the plaintext had.
\<close>

definition pub_vec2poly_limb ::
    "MVPPublicImpl \<Rightarrow> u64 list \<Rightarrow> VecView \<Rightarrow> bool \<Rightarrow> bool \<Rightarrow> u64 list \<Rightarrow> nat \<Rightarrow> u64 list outcome" where
  "pub_vec2poly_limb I modulus vec is_ntt_form is_use_extra_prime data j =
     (let N = pub_poly_degree I; n = length vec; num_moduli = length modulus; S = sr_arith (pub_rt I)
      in if is_use_extra_prime \<and> j + 1 = num_moduli then Inr (replicate N 0)
         else obind (case ModulusUpAt S (pub_ms_helper I) vec j n of
                       Inl (Failed c m) \<Rightarrow> Inr (slice data (j * N, n))
                     | r \<Rightarrow> r) (\<lambda>wrap_pt.
           let wrap_pt = (if is_use_extra_prime
                          then multiply_poly_scalar_coeffmod S wrap_pt (last modulus) (modulus ! j) else wrap_pt);
               poly = wrap_pt @ replicate (N - n) 0
           in Inr (if is_ntt_form then sr_ntt (pub_rt I) (modulus ! j) poly else poly)))"

definition pub_Vec2Poly :: "MVPPublicImpl \<Rightarrow> VecView \<Rightarrow> rlwe_pt \<Rightarrow> bool \<Rightarrow> bool \<Rightarrow> rlwe_pt outcome" where
  "pub_Vec2Poly I vec pt is_ntt_form is_use_extra_prime =
     requires (0 < length vec \<and> length vec \<le> pub_poly_degree I) (Failed INVALID_ARGUMENT ''Vec2Poly: vec.size()'')
       (obind (InitPtx (pub_rt I) pt (if is_use_extra_prime then sr_key_parms_id (pub_rt I) else sr_first_parms_id (pub_rt I))) (\<lambda>pt.
          case sr_context_moduli (pub_rt I) (pt_parms_id pt) of
            None \<Rightarrow> Inl (Undefined ''cntxt_data'')
          | Some modulus \<Rightarrow>
              obind (omap (pub_vec2poly_limb I modulus vec is_ntt_form is_use_extra_prime (pt_data pt)) [0..<length modulus]) (\<lambda>limbs.
                Inr (pt\<lparr>pt_data := concat limbs\<rparr>))))"

definition pub_EncodeVector :: "MVPPublicImpl \<Rightarrow> VecView \<Rightarrow> bool \<Rightarrow> bool \<Rightarrow> rlwe_pt list outcome" where
  "pub_EncodeVector I input is_ntt_form is_use_extra_prime =
     requires (pub_is_proper_config I) (Failed UNAVAILABLE ''config '')
     (requires (length input = ExpectMatVecInputLen (pub_config I)) (Failed INVALID_ARGUMENT ''input.num_elements()'')
     (obind (GetSubmatrixShape (pub_config I) (pub_poly_degree I)) (\<lambda>(_, subvec_len).
        omap (\<lambda>subvec. if subvec = [] then Inl (Throws (Invalid_argument ''nullptr''))
                       else pub_Vec2Poly I subvec fresh_ptx is_ntt_form is_use_extra_prime)
          (subvectors subvec_len input))))"

section \<open>Encryption\<close>

text \<open>The overloads of \<open>EncryptPoly\<close>, on a public or a secret key; the latter asks SEAL to save the seed.\<close>

datatype enc_key = Enc_public public_key | Enc_secret secret_key

fun encrypt_zero :: "seal_lib \<Rightarrow> enc_key \<Rightarrow> nat \<Rightarrow> parms_id \<Rightarrow> bool \<Rightarrow> rlwe_ct outcome" where
  "encrypt_zero L (Enc_public pk) i pid is_ntt_form = sl_encrypt_zero_asymmetric L i pk pid is_ntt_form"
| "encrypt_zero L (Enc_secret sk) i pid is_ntt_form = sl_encrypt_zero_symmetric L i sk pid is_ntt_form True"

fun enc_key_valid :: "seal_lib \<Rightarrow> enc_key \<Rightarrow> bool" where
  "enc_key_valid L (Enc_public pk) = sl_pk_metadata_valid L pk"
| "enc_key_valid L (Enc_secret sk) = sl_sk_metadata_valid L sk"

definition EncodeSEALObject :: "seal_lib \<Rightarrow> rlwe_ct \<Rightarrow> string outcome" where
  "EncodeSEALObject L obj = catch_seal (sl_ct_save L obj)"

definition EncryptPoly :: "MVPPublicImpl \<Rightarrow> enc_key \<Rightarrow> nat \<Rightarrow> rlwe_pt \<Rightarrow> bool \<Rightarrow> string outcome" where
  "EncryptPoly I key i pt is_ntt_form =
     obind (catch_seal (encrypt_zero (pub_seal_rt I) key i (pt_parms_id pt) is_ntt_form)) (\<lambda>ct.
     obind (add_plain_inplace (pub_rt I) ct pt) (\<lambda>ct.
     requires_ok (EncodeSEALObject (pub_seal_rt I) ct) (Failed INTERNAL ''EncodeSEALObject failed'')))"

definition DecodeSEALObjects :: "seal_lib \<Rightarrow> StrBufView \<Rightarrow> bool \<Rightarrow> rlwe_ct list outcome" where
  "DecodeSEALObjects L ins santi_check =
     omap (\<lambda>s. catch_seal (if santi_check then sl_ct_load L s else sl_ct_unsafe_load L s)) ins"

text \<open>The pointer of a view is null exactly for the empty view of an empty vector.\<close>

definition EncryptVector :: "MVPPublicImpl \<Rightarrow> VecView \<Rightarrow> enc_key \<Rightarrow> string list outcome" where
  "EncryptVector I vec_share key =
     requires (pub_is_proper_config I) (Failed UNAVAILABLE ''config is not done properly'')
     (requires (vec_share \<noteq> []) (Failed INVALID_ARGUMENT ''vector nullptr'')
     (requires (length vec_share = ExpectMatVecInputLen (pub_config I))
        (Failed INVALID_ARGUMENT ''vector length mismatches the meta info'')
     (requires (enc_key_valid (pub_seal_rt I) key) (Failed INVALID_ARGUMENT ''invalid key'')
     (let mask = base_mask (pub_config I)
      in requires (list_all (\<lambda>v. v \<le> mask) vec_share) (Failed OUT_OF_RANGE ''vec_share out-of-range [0, 2^k)'')
     (let is_ntt_form = (MVP_VERSION \<noteq> ''1.2.0'')
      in obind (pub_EncodeVector I vec_share is_ntt_form (IsUseExtraPrime I)) (\<lambda>plain_polys.
         omap (\<lambda>(idx, pt). EncryptPoly I key idx pt is_ntt_form) (enumerate 0 plain_polys)))))))"

section \<open>Adding vectors and ciphertexts\<close>

text \<open>The loop that spreads a short vector over a zero vector of length \<open>N\<close>.\<close>

definition spread :: "nat \<Rightarrow> nat \<Rightarrow> u64 list \<Rightarrow> u64 list outcome" where
  "spread N gap xs =
     (if \<exists>i < length xs. N \<le> i * gap then Inl (Undefined ''aligned_plain_vec[j]'')
      else Inr (fold (\<lambda>i v. v[i * gap := xs ! i]) [0..<length xs] (replicate N 0)))"

text \<open>
  \<open>UpdateMatVec\<close> encodes a short vector under a configuration with \<open>N\<close> columns and puts the old one back only
  when the encoding succeeded.
\<close>

definition update_encode ::
    "MVPPublicImpl \<Rightarrow> VecView \<Rightarrow> bool \<Rightarrow> bool \<Rightarrow> rlwe_pt list outcome \<times> MVPPublicImpl" where
  "update_encode I plain_vec is_ntt_form is_use_extra_prime =
     (let N = pub_poly_degree I; n = length plain_vec
      in if n = N then (pub_EncodeVector I plain_vec is_ntt_form is_use_extra_prime, I)
         else let aligned_sze = NextPow2 n; gap = N div aligned_sze
         in case spread N gap plain_vec of
              Inl e \<Rightarrow> (Inl e, I)
            | Inr aligned_plain_vec \<Rightarrow>
                let saved_config = pub_config I; I = I\<lparr>pub_config := saved_config\<lparr>mi_ncols := N\<rparr>\<rparr>
                in case pub_EncodeVector I aligned_plain_vec is_ntt_form is_use_extra_prime of
                     Inl e \<Rightarrow> (Inl e, I)
                   | Inr ecd_vec \<Rightarrow> (Inr ecd_vec, I\<lparr>pub_config := saved_config\<rparr>))"

definition UpdateMatVec :: "MVPPublicImpl \<Rightarrow> VecView \<Rightarrow> StrBufView \<Rightarrow> string list outcome \<times> MVPPublicImpl" where
  "UpdateMatVec I plain_vec cipher_vec =
     (let N = pub_poly_degree I; c = pub_config I; n = length plain_vec; L = pub_seal_rt I in
      if \<not> pub_is_proper_config I then (Inl (Failed UNAVAILABLE ''configuartion is not done properly''), I)
      else if n \<noteq> mi_ncols c then (Inl (Failed INVALID_ARGUMENT ''plain_vec length''), I)
      else if N < n then (Inl (Failed INVALID_ARGUMENT ''plain_vec length''), I)
      else if length cipher_vec \<noteq> 1 then (Inl (Failed INVALID_ARGUMENT ''UpdateVector: cipher_vec.size()''), I)
      else case DecodeSEALObjects L cipher_vec True of
        Inl e \<Rightarrow> (Inl e, I)
      | Inr ct_vec \<Rightarrow>
          let is_ntt_form = ct_is_ntt_form (ct_vec ! 0);
              is_use_extra_prime = (ct_coeff_modulus_size (ct_vec ! 0) = kNumModulus);
              (encoded, I) = update_encode I plain_vec is_ntt_form is_use_extra_prime
          in (obind encoded (\<lambda>ecd_vec.
                requires (length ecd_vec = 1) (Failed INTERNAL ''UpdateVector: ecd_vec.size()'')
                (obind (add_plain_inplace (sl_rt L) (ct_vec ! 0) (ecd_vec ! 0)) (\<lambda>ct.
                 obind (EncodeSEALObject L ct) (\<lambda>s. Inr [s])))), I))"

definition AddMatVec :: "MVPPublicImpl \<Rightarrow> StrBufView \<Rightarrow> StrBufView \<Rightarrow> string list outcome" where
  "AddMatVec I cipher_vec_1 cipher_vec_2 =
     (let L = pub_seal_rt I in
      requires (pub_is_proper_config I) (Failed UNAVAILABLE ''configuartion is not done properly'')
      (requires (length cipher_vec_1 = 1) (Failed INVALID_ARGUMENT ''UpdateVector: cipher_vec.size()'')
      (obind (DecodeSEALObjects L cipher_vec_1 True) (\<lambda>ct_vec_1.
       obind (DecodeSEALObjects L cipher_vec_2 True) (\<lambda>ct_vec_2.
       if ct_vec_2 = [] then Inl (Undefined ''ct_vec_2[0]'')
       else obind (add_inplace (sl_rt L) (ct_vec_1 ! 0) (ct_vec_2 ! 0)) (\<lambda>ct.
            obind (EncodeSEALObject L ct) (\<lambda>s. Inr [s])))))))"

definition AddVector_entry :: "seal_lib \<Rightarrow> public_key \<Rightarrow> nat \<Rightarrow> rlwe_ct \<Rightarrow> rlwe_pt \<Rightarrow> string outcome" where
  "AddVector_entry L pk i ct pt =
     obind (add_plain_inplace (sl_rt L) ct pt) (\<lambda>ct.
     obind (catch_seal (sl_encrypt_zero_asymmetric L i pk (ct_parms_id ct) (ct_is_ntt_form ct))) (\<lambda>zero.
     obind (catch_seal (add_inplace (sl_rt L) ct zero)) (\<lambda>ct.
     EncodeSEALObject L ct)))"

definition AddVector :: "MVPPublicImpl \<Rightarrow> VecView \<Rightarrow> StrBufView \<Rightarrow> public_key \<Rightarrow> string list outcome" where
  "AddVector I plain_vec cipher_vec pk =
     (let N = pub_poly_degree I; c = pub_config I; L = pub_seal_rt I in
      requires (pub_is_proper_config I) (Failed UNAVAILABLE ''configuartion is not done properly'')
      (requires (length plain_vec = mi_ncols c) (Failed INVALID_ARGUMENT ''vec_to_add length'')
      (obind (GetSubmatrixShape c N) (\<lambda>(_, subvec_len).
       requires (length cipher_vec = CeilDiv (mi_ncols c) subvec_len) (Failed INVALID_ARGUMENT ''AddVector: cipher_vec.size()'')
       (let santi_check = \<not> IsUseExtraPrime I
        in obind (DecodeSEALObjects L cipher_vec santi_check) (\<lambda>ct_vec.
           requires (santi_check \<or> list_all (sl_ct_metadata_valid_pure L) ct_vec) (Failed INVALID_ARGUMENT ''invalid cipher'')
           (if ct_vec = [] then Inl (Undefined ''ct_vec[0]'')
            else let is_ntt_form = ct_is_ntt_form (ct_vec ! 0);
                     is_use_extra_prime = (ct_coeff_modulus_size (ct_vec ! 0) = kNumModulus)
              in obind (pub_EncodeVector I plain_vec is_ntt_form is_use_extra_prime) (\<lambda>ecd_vec.
                 requires (length ecd_vec = length ct_vec) (Failed INVALID_ARGUMENT ''Execute: vec_to_add.size()'')
                 (omap (\<lambda>(i, ct, pt). AddVector_entry L pk i ct pt) (enumerate 0 (zip ct_vec ecd_vec)))))))))))"

section \<open>Decryption\<close>

text \<open>The coefficients that carry the product: the multiples of the stride, for each modulus.\<close>

definition select_coeffs :: "nat \<Rightarrow> nat \<Rightarrow> nat \<Rightarrow> nat \<Rightarrow> u64 list \<Rightarrow> u64 list" where
  "select_coeffs N num_moduli nrows coeff_stride data =
     concat (map (\<lambda>l. map (\<lambda>i. data ! (l * N + i * coeff_stride)) [0..<nrows]) [0..<num_moduli])"

definition Decrypt :: "MVPPublicImpl \<Rightarrow> StrBufView \<Rightarrow> secret_key \<Rightarrow> nat \<Rightarrow> u64 list outcome" where
  "Decrypt I ins sk out_size =
     (let N = pub_poly_degree I; nrows = mi_nrows (pub_config I); R = pub_rt I; S = sr_arith R in
      requires (pub_is_proper_config I) (Failed UNAVAILABLE ''config is not done properly'')
      (requires (out_size = nrows) (Failed INVALID_ARGUMENT ''output buffer length mismatch'')
      (requires (length ins = CeilDiv nrows N) (Failed INVALID_ARGUMENT ''Decrypt in.size()'')
      (obind (DecodeSEALObjects (pub_seal_rt I) ins True) (\<lambda>ct_array.
       if length ct_array \<noteq> 1 then Inl (Failed UNIMPLEMENTED ''multiple outputs is not supported yet'')
       else let ct = ct_array ! 0
       in obind (decrypt_coeffs R ct sk) (\<lambda>pt.
          case sr_context_moduli R (ct_parms_id ct) of
            None \<Rightarrow> Inl (Undefined ''cntxt_data'')
          | Some moduli \<Rightarrow>
              if nrows < N
              then ModulusDownRNS S (pub_ms_helper I)
                     (select_coeffs N (length moduli) nrows (N div NextPow2 nrows) (pt_data pt)) out_size
              else ModulusDownRNS S (pub_ms_helper I) (pt_data pt) out_size))))))"

section \<open>The api\<close>

definition null_context :: "'a outcome" where
  "null_context = Inl (Failed INVALID_ARGUMENT ''MVPContext null'')"

definition impl_of :: "MVPContext \<Rightarrow> MVPMetaInfo \<Rightarrow> MVPPublicImpl outcome" where
  "impl_of rt meta = MVPPublicImpl_new meta (cx_ms_helper rt) (cx_seal_context rt)"

text \<open>A missing public key is caught and becomes an error status.\<close>

definition public_key_or :: "MVPContext \<Rightarrow> public_key outcome" where
  "public_key_or rt =
     (case MVPContext_public_key rt of
        Inl (Throws (Runtime_error _)) \<Rightarrow> Inl (Failed UNAVAILABLE ''public key is absent'')
      | r \<Rightarrow> r)"

definition api_Encrypt_sk :: "MVPContext option \<Rightarrow> VecView \<Rightarrow> MVPMetaInfo \<Rightarrow> secret_key \<Rightarrow> string list outcome" where
  "api_Encrypt_sk rt ins meta sk =
     (case rt of None \<Rightarrow> null_context
      | Some rt \<Rightarrow> obind (impl_of rt meta) (\<lambda>impl. EncryptVector impl ins (Enc_secret sk)))"

definition api_Encrypt_pk :: "MVPContext option \<Rightarrow> VecView \<Rightarrow> MVPMetaInfo \<Rightarrow> string list outcome" where
  "api_Encrypt_pk rt ins meta =
     (case rt of None \<Rightarrow> null_context
      | Some rt \<Rightarrow> obind (impl_of rt meta) (\<lambda>impl. obind (public_key_or rt) (\<lambda>pk. EncryptVector impl ins (Enc_public pk))))"

definition api_AddVector :: "MVPContext option \<Rightarrow> VecView \<Rightarrow> StrBufView \<Rightarrow> MVPMetaInfo \<Rightarrow> string list outcome" where
  "api_AddVector rt plain_vec cipher_vec meta =
     (case rt of None \<Rightarrow> null_context
      | Some rt \<Rightarrow> obind (impl_of rt meta) (\<lambda>impl. obind (public_key_or rt) (\<lambda>pk. AddVector impl plain_vec cipher_vec pk)))"

text \<open>The meta information of a product: one row with as many columns as the product has entries.\<close>

definition output_meta :: "MVPMetaInfo \<Rightarrow> MVPMetaInfo" where
  "output_meta meta = meta\<lparr>mi_is_transposed := False, mi_nrows := 1, mi_ncols := ExpectMatVecOutputLen meta\<rparr>"

definition api_UpdateMatVec :: "MVPContext option \<Rightarrow> VecView \<Rightarrow> StrBufView \<Rightarrow> MVPMetaInfo \<Rightarrow> string list outcome" where
  "api_UpdateMatVec rt plain_vec cipher_vec meta =
     (case rt of None \<Rightarrow> null_context
      | Some rt \<Rightarrow> obind (impl_of rt (output_meta meta)) (\<lambda>impl. fst (UpdateMatVec impl plain_vec cipher_vec)))"

definition api_AddMatVec :: "MVPContext option \<Rightarrow> StrBufView \<Rightarrow> StrBufView \<Rightarrow> MVPMetaInfo \<Rightarrow> string list outcome" where
  "api_AddMatVec rt cipher_vec_1 cipher_vec_2 meta =
     (case rt of None \<Rightarrow> null_context
      | Some rt \<Rightarrow> obind (impl_of rt (output_meta meta)) (\<lambda>impl. AddMatVec impl cipher_vec_1 cipher_vec_2))"

definition api_DecryptMatVec :: "MVPContext option \<Rightarrow> StrBufView \<Rightarrow> MVPMetaInfo \<Rightarrow> secret_key \<Rightarrow> nat \<Rightarrow> u64 list outcome" where
  "api_DecryptMatVec rt ins meta sk out_size =
     (case rt of None \<Rightarrow> null_context
      | Some rt \<Rightarrow> obind (impl_of rt meta) (\<lambda>impl. Decrypt impl ins sk out_size))"

end
