(* ===== verification/Transpose.thy ===== *)
theory Transpose
  imports Prelude
begin

text \<open>
  \<open>TransposeInplace\<close> of \<open>mvp_priv_impl.cc\<close>: an \<open>nrows\<close> by \<open>ncols\<close> matrix stored by rows is transposed
  in place by following the cycles of \<open>i \<mapsto> i * nrows mod (nrows * ncols - 1)\<close>, with the set \<open>b\<close> of the
  positions already moved. Both loops are partial functions into options, so that their termination is
  a theorem. The index products stay below \<open>nrows\<close> times the number of elements, far from the range
  of \<open>size_t\<close> for the two-row matrices of pointers the code transposes.
\<close>

text \<open>The \<open>do ... while\<close> loop along one cycle.\<close>

partial_function (option) cycle_loop ::
    "nat \<Rightarrow> nat \<Rightarrow> nat \<Rightarrow> 'a list \<Rightarrow> 'a \<Rightarrow> nat set \<Rightarrow> nat \<Rightarrow> ('a list \<times> nat set) option" where
  "cycle_loop nrows sz cycleBegin flatten t b i =
     (let next = (i * nrows) mod sz;
          t' = flatten ! next;
          flatten' = flatten[next := t];
          b' = insert i b
      in if next = cycleBegin then Some (flatten', b')
         else cycle_loop nrows sz cycleBegin flatten' t' b' next)"

text \<open>The search for the next position to start from.\<close>

function next_move :: "nat \<Rightarrow> nat set \<Rightarrow> nat \<Rightarrow> nat" where
  "next_move sz b i = (if i < sz \<and> i \<in> b then next_move sz b (i + 1) else i)"
  by pat_completeness auto
termination
  by (relation "measure (\<lambda>(sz, b, i). sz - i)") auto

declare next_move.simps [simp del]

partial_function (option) transpose_loop ::
    "nat \<Rightarrow> nat \<Rightarrow> 'a list \<Rightarrow> nat set \<Rightarrow> nat \<Rightarrow> 'a list option" where
  "transpose_loop nrows sz flatten b i =
     (if i < sz
      then (case cycle_loop nrows sz i flatten (flatten ! i) b i of
              None \<Rightarrow> None
            | Some (flatten', b') \<Rightarrow> transpose_loop nrows sz flatten' b' (next_move sz b' 1))
      else Some flatten)"

definition TransposeInplace :: "'a list \<Rightarrow> nat \<Rightarrow> nat \<Rightarrow> 'a list option" where
  "TransposeInplace flatten nrows ncols =
     (let sz = nrows * ncols - 1 in transpose_loop nrows sz flatten {0, sz} 1)"

lemma next_move_spec:
  "i \<le> next_move sz b i \<and> (next_move sz b i < sz \<longrightarrow> next_move sz b i \<notin> b) \<and>
   (\<forall>j. i \<le> j \<and> j < next_move sz b i \<longrightarrow> j \<in> b)"
proof (induction sz b i rule: next_move.induct)
  case (1 sz b i)
  show ?case
  proof (cases "i < sz \<and> i \<in> b")
    case True
    then have "next_move sz b i = next_move sz b (i + 1)" by (simp add: next_move.simps)
    with 1 True show ?thesis by (metis Suc_eq_plus1 Suc_leD le_antisym not_less_eq_eq)
  next
    case False
    then show ?thesis by (auto simp: next_move.simps [of sz b i])
  qed
qed

section \<open>The permutation\<close>

text \<open>Multiplication by \<open>nrows\<close> permutes the interior positions; \<open>ncols\<close> is its inverse.\<close>

locale transposition =
  fixes nrows ncols sz :: nat
  assumes sz_eq: "sz = nrows * ncols - 1" and rows: "0 < nrows" and cols: "0 < ncols"
begin

definition interior :: "nat set" where "interior = {0<..<sz}"

definition move :: "nat \<Rightarrow> nat" where "move i = (i * nrows) mod sz"

lemma total: "nrows * ncols = sz + 1"
  using sz_eq rows cols by (simp add: Suc_leI)

lemma move_back: "i < sz \<Longrightarrow> (move i * ncols) mod sz = i"
proof -
  assume i: "i < sz"
  have "(move i * ncols) mod sz = (i * (nrows * ncols)) mod sz"
    by (simp add: move_def mod_mult_left_eq mult.assoc)
  also have "i * (nrows * ncols) = i + sz * i" unfolding total by (simp add: algebra_simps)
  finally show ?thesis using i by simp
qed

lemma move_inj: "i < sz \<Longrightarrow> j < sz \<Longrightarrow> move i = move j \<Longrightarrow> i = j"
  by (metis move_back)

lemma move_interior: "i \<in> interior \<Longrightarrow> move i \<in> interior"
proof -
  assume i: "i \<in> interior"
  then have "move i < sz" by (simp add: interior_def move_def)
  moreover have "move i \<noteq> 0"
    using i move_back [of i] by (intro notI) (simp add: interior_def)
  ultimately show ?thesis by (simp add: interior_def)
qed

lemma move_entry:
  assumes "r < nrows" "c < ncols" "r * ncols + c < sz"
  shows "move (r * ncols + c) = c * nrows + r"
proof -
  have "(r * ncols + c) * nrows = r * (nrows * ncols) + c * nrows" by (simp add: algebra_simps)
  also have "\<dots> = (c * nrows + r) + sz * r" unfolding total by (simp add: algebra_simps)
  finally have "move (r * ncols + c) = (c * nrows + r) mod sz" by (simp add: move_def)
  moreover have "c * nrows + r < sz"
  proof (rule ccontr)
    assume "\<not> ?thesis"
    then have "nrows * ncols \<le> c * nrows + r + 1" using total by simp
    moreover have "c * nrows + nrows \<le> nrows * ncols"
    proof -
      have "Suc c * nrows \<le> ncols * nrows" using assms(2) by (intro mult_le_mono1) simp
      then show ?thesis by (simp add: mult.commute)
    qed
    ultimately have r: "r + 1 = nrows" and "nrows * ncols \<le> Suc c * nrows"
      using assms(1) by simp_all
    then have "ncols \<le> Suc c" using rows by (simp only: mult.commute [of nrows] mult_le_cancel2)
    then have "c + 1 = ncols" using assms(2) by simp
    then have "r * ncols + c + 1 = (r + 1) * ncols" by simp
    then have "r * ncols + c + 1 = nrows * ncols" by (simp only: r)
    then show False using assms(3) total by simp
  qed
  ultimately show ?thesis by simp
qed

text \<open>
  The loop invariant, against the list \<open>a\<close> the code started from: the positions in \<open>b\<close> have been
  moved, every target of another position still holds its old element.
\<close>

definition moved :: "'a list \<Rightarrow> nat set \<Rightarrow> 'a list \<Rightarrow> bool" where
  "moved a b f \<longleftrightarrow> length f = length a \<and>
     (\<forall>j \<in> b \<inter> interior. f ! move j = a ! j) \<and>
     (\<forall>x < length a. (\<forall>j \<in> b \<inter> interior. move j \<noteq> x) \<longrightarrow> f ! x = a ! x)"

lemma moved_step:
  assumes "moved a b f" "i \<in> interior" "i \<notin> b" "sz < length a"
  shows "f ! move i = a ! move i" "moved a (insert i b) (f[move i := a ! i])"
proof -
  have lt: "move i < length a"
    using move_interior [OF assms(2)] assms(4) by (simp add: interior_def)
  have ne: False if "move j = move i" "j \<in> b" "j \<in> interior" for j
    using that assms move_inj [of j i] by (auto simp: interior_def)
  with assms(1) lt show "f ! move i = a ! move i" unfolding moved_def by blast
  show "moved a (insert i b) (f[move i := a ! i])"
    using assms(1,2) lt by (auto simp: moved_def nth_list_update dest: ne ne [OF sym])
qed

text \<open>Every moved position except the start \<open>s\<close> of the current cycle was reached from a moved one.\<close>

definition preclosed :: "nat set \<Rightarrow> nat set \<Rightarrow> bool" where
  "preclosed s b \<longleftrightarrow> (\<forall>x \<in> b \<inter> interior - s. \<exists>j \<in> b \<inter> interior. move j = x)"

lemma preclosedD:
  "preclosed s b \<Longrightarrow> x \<in> b \<Longrightarrow> x \<in> interior \<Longrightarrow> x \<notin> s \<Longrightarrow> \<exists>j \<in> b \<inter> interior. move j = x"
  by (simp add: preclosed_def)

lemma preclosedI:
  "(\<And>x. x \<in> b \<Longrightarrow> x \<in> interior \<Longrightarrow> x \<notin> s \<Longrightarrow> \<exists>j \<in> b \<inter> interior. move j = x) \<Longrightarrow> preclosed s b"
  by (simp add: preclosed_def)

lemma bex_insert_mono: "\<exists>j \<in> b \<inter> A. P j \<Longrightarrow> \<exists>j \<in> insert i b \<inter> A. P j"
  by blast

lemma next_fresh:
  assumes "i \<in> interior" "i \<notin> b" "preclosed {s} b" "i \<noteq> s \<longrightarrow> (\<exists>j \<in> b \<inter> interior. move j = i)"
    and "move i \<noteq> s"
  shows "move i \<notin> insert i b"
proof
  assume "move i \<in> insert i b"
  then have "\<exists>j \<in> b \<inter> interior. move j = move i"
  proof
    assume "move i = i"
    then have "i \<noteq> s" using assms(5) by simp
    with assms(4) show ?thesis unfolding \<open>move i = i\<close> by simp
  next
    assume "move i \<in> b"
    then have "move i \<in> b \<inter> interior - {s}" using assms(5) move_interior [OF assms(1)] by blast
    then show ?thesis by (intro preclosedD [OF assms(3)]) simp_all
  qed
  then obtain j where j: "j \<in> b" "j \<in> interior" "move j = move i" by blast
  have "j = i" using move_inj [of j i] j assms(1) by (simp add: interior_def)
  then show False using j assms(2) by simp
qed

lemma cycle_loop_ok:
  assumes "moved a b f" "sz < length a" "i \<in> interior" "i \<notin> b" "s \<in> interior"
    and "preclosed {s} b" "i \<noteq> s \<longrightarrow> (\<exists>j \<in> b \<inter> interior. move j = i)" "i \<noteq> s \<longrightarrow> s \<in> b"
  shows "\<exists>f' b'. cycle_loop nrows sz s f (a ! i) b i = Some (f', b') \<and> moved a b' f' \<and>
           insert i b \<subseteq> b' \<and> preclosed {} b'"
  using assms
proof (induction "card (interior - b)" arbitrary: f b i rule: less_induct)
  case less
  let ?n = "move i" and ?b = "insert i b" and ?f = "f[move i := a ! i]"
  have next_i: "(i * nrows) mod sz = ?n" by (simp add: move_def)
  note step = moved_step [OF less.prems(1,3,4,2)]
  have pre: "preclosed {s} ?b"
  proof (rule preclosedI, rule bex_insert_mono)
    fix x
    assume x: "x \<in> ?b" "x \<in> interior" "x \<notin> {s}"
    show "\<exists>j \<in> b \<inter> interior. move j = x"
    proof (cases "x = i")
      case True
      with less.prems(7) x(3) show ?thesis by simp
    next
      case False
      with x show ?thesis by (intro preclosedD [OF less.prems(6)]) simp_all
    qed
  qed
  show ?case
  proof (cases "?n = s")
    case True
    have "preclosed {} ?b"
    proof (rule preclosedI)
      fix x
      assume x: "x \<in> ?b" "x \<in> interior"
      show "\<exists>j \<in> ?b \<inter> interior. move j = x"
      proof (cases "x = s")
        case True
        then show ?thesis using \<open>?n = s\<close> less.prems(3) by (intro bexI [of _ i]) simp_all
      next
        case False
        with x show ?thesis by (intro preclosedD [OF pre]) simp_all
      qed
    qed
    moreover have "cycle_loop nrows sz s f (a ! i) b i = Some (?f, ?b)"
      using True by (subst cycle_loop.simps) (simp add: next_i Let_def)
    ultimately show ?thesis using step(2) by blast
  next
    case False
    have int: "?n \<in> interior" using less.prems(3) by (rule move_interior)
    have fresh: "?n \<notin> ?b"
      by (rule next_fresh [OF less.prems(3,4,6,7) False])
    have "interior - ?b \<subset> interior - b" using less.prems(3,4) by blast
    then have card: "card (interior - ?b) < card (interior - b)"
      by (intro psubset_card_mono) (simp_all add: interior_def)
    have from_i: "?n \<noteq> s \<longrightarrow> (\<exists>j \<in> ?b \<inter> interior. move j = ?n)"
      using less.prems(3) by blast
    have start: "?n \<noteq> s \<longrightarrow> s \<in> ?b" using less.prems(8) by blast
    obtain f' b' where
      "cycle_loop nrows sz s ?f (a ! ?n) ?b ?n = Some (f', b')" "moved a b' f'"
      "insert ?n ?b \<subseteq> b'" "preclosed {} b'"
      using less.hyps [OF card step(2) less.prems(2) int fresh less.prems(5) pre from_i start] by blast
    then have "cycle_loop nrows sz s f (a ! i) b i = Some (f', b')"
      using False step(1) by (subst cycle_loop.simps) (simp add: next_i Let_def)
    moreover have "?b \<subseteq> b'" using \<open>insert ?n ?b \<subseteq> b'\<close> by blast
    ultimately show ?thesis using \<open>moved a b' f'\<close> \<open>preclosed {} b'\<close> by blast
  qed
qed

lemma transpose_loop_ok:
  assumes "moved a b f" "sz < length a" "preclosed {} b" "i < sz \<longrightarrow> i \<in> interior \<and> i \<notin> b"
    and "sz \<le> i \<longrightarrow> interior \<subseteq> b"
  shows "\<exists>f'. transpose_loop nrows sz f b i = Some f' \<and> moved a interior f'"
  using assms
proof (induction "card (interior - b)" arbitrary: f b i rule: less_induct)
  case less
  show ?case
  proof (cases "i < sz")
    case True
    then have i: "i \<in> interior" "i \<notin> b" using less.prems(4) by simp_all
    have fi: "f ! i = a ! i"
    proof -
      have "move j \<noteq> i" if "j \<in> b \<inter> interior" for j
      proof
        assume "move j = i"
        have fin: "finite (b \<inter> interior)" by (simp add: interior_def)
        have "b \<inter> interior \<subseteq> move ` (b \<inter> interior)"
          using less.prems(3) unfolding preclosed_def by (metis Diff_empty image_eqI subsetI)
        moreover have "inj_on move (b \<inter> interior)"
          by (intro inj_onI, rule move_inj) (simp_all add: interior_def)
        ultimately have "move ` (b \<inter> interior) = b \<inter> interior"
          using fin by (metis card_image card_subset_eq finite_imageI)
        then show False using that \<open>move j = i\<close> i by blast
      qed
      then show ?thesis using less.prems(1,2) True by (simp add: moved_def)
    qed
    have "preclosed {i} b" using less.prems(3) by (auto simp: preclosed_def)
    then obtain f' b' where c: "cycle_loop nrows sz i f (a ! i) b i = Some (f', b')"
      "moved a b' f'" "insert i b \<subseteq> b'" "preclosed {} b'"
      using cycle_loop_ok [OF less.prems(1,2) i i(1)] by auto
    let ?i = "next_move sz b' 1"
    note nm = next_move_spec [of 1 sz b']
    have "interior - b' \<subset> interior - b" using i c(3) by blast
    then have card: "card (interior - b') < card (interior - b)"
      by (intro psubset_card_mono) (simp_all add: interior_def)
    have nx: "?i < sz \<longrightarrow> ?i \<in> interior \<and> ?i \<notin> b'"
      using nm by (auto simp: interior_def)
    have ends: "sz \<le> ?i \<longrightarrow> interior \<subseteq> b'"
      using nm by (auto simp: interior_def)
    obtain g where "transpose_loop nrows sz f' b' ?i = Some g" "moved a interior g"
      using less.hyps [OF card c(2) less.prems(2) c(4) nx ends] by blast
    with c(1) True show ?thesis
      by (subst transpose_loop.simps) (simp add: fi)
  next
    case False
    with less.prems(1,5) show ?thesis
      by (subst transpose_loop.simps) (simp add: moved_def Int_absorb1)
  qed
qed

lemma moved_all:
  assumes "moved a interior f" "length a = nrows * ncols" "r < nrows" "c < ncols"
  shows "f ! (c * nrows + r) = a ! (r * ncols + c)"
proof -
  let ?i = "r * ncols + c"
  have "Suc r * ncols \<le> nrows * ncols" using assms(3) by (intro mult_le_mono1) simp
  then have le: "?i \<le> sz" using assms(4) total by simp
  have fixed: "f ! x = a ! x" if "x \<notin> interior" "x < length a" for x
  proof -
    have "move j \<noteq> x" if "j \<in> interior" for j
      using move_interior [OF that] \<open>x \<notin> interior\<close> by metis
    then have "\<forall>j \<in> interior \<inter> interior. move j \<noteq> x" by simp
    then show ?thesis using assms(1) that(2) by (simp add: moved_def)
  qed
  consider "?i = 0" | "?i = sz" "0 < sz" | "?i \<in> interior" using le by (force simp: interior_def)
  then show ?thesis
  proof cases
    case 1
    then have "r = 0" "c = 0" using assms(4) by auto
    then show ?thesis using fixed [of 0] assms(2) total by (simp add: interior_def)
  next
    case 2
    have "nrows * ncols \<le> r * ncols + c + 1" using 2 total by simp
    also have "\<dots> \<le> Suc r * ncols" using assms(4) by simp
    finally have "nrows \<le> Suc r" using cols by (simp only: mult_le_cancel2)
    then have r: "nrows = Suc r" using assms(3) by simp
    then have c: "ncols = Suc c" using 2(1) total by simp
    have "c * nrows + r = sz" using total by (simp add: r c algebra_simps)
    then show ?thesis using fixed [of sz] 2 assms(2) total by (simp add: interior_def)
  next
    case 3
    then have "f ! move ?i = a ! ?i" using assms(1) by (simp add: moved_def)
    then show ?thesis using 3 move_entry [OF assms(3,4)] by (simp add: interior_def)
  qed
qed

lemma transpose_total:
  assumes "length a = nrows * ncols"
  shows "\<exists>f. transpose_loop nrows sz a {0, sz} 1 = Some f \<and> length f = length a \<and>
    (\<forall>r < nrows. \<forall>c < ncols. f ! (c * nrows + r) = a ! (r * ncols + c))"
proof -
  have "moved a {0, sz} a" "preclosed {} {0, sz}"
    by (auto simp: moved_def preclosed_def interior_def)
  moreover have first_step: "(1 < sz \<longrightarrow> 1 \<in> interior \<and> 1 \<notin> {0, sz}) \<and>
      (sz \<le> 1 \<longrightarrow> interior \<subseteq> {0, sz})"
    by (auto simp: interior_def)
  ultimately obtain f where f: "transpose_loop nrows sz a {0, sz} 1 = Some f" "moved a interior f"
    using transpose_loop_ok [of a "{0, sz}" a 1] assms total
    by (metis first_step less_add_one)
  moreover have "length f = length a" using f(2) by (simp add: moved_def)
  ultimately show ?thesis using moved_all [OF f(2) assms] by blast
qed

end

interpretation two_rows: transposition 2 "Suc n" "2 * Suc n - 1" for n
  by unfold_locales simp_all

lemma transposition_of: "0 < nrows \<Longrightarrow> 0 < ncols \<Longrightarrow> transposition nrows ncols (nrows * ncols - 1)"
  by unfold_locales simp_all

lemma TransposeInplace_lemma:
  assumes "0 < nrows" "0 < ncols" "length flatten = nrows * ncols"
  shows "\<exists>f. TransposeInplace flatten nrows ncols = Some f \<and> length f = length flatten \<and>
    (\<forall>r < nrows. \<forall>c < ncols. f ! (c * nrows + r) = flatten ! (r * ncols + c))"
  unfolding TransposeInplace_def Let_def
  by (rule transposition.transpose_total [OF transposition_of]) fact+

text \<open>
  \<open>TransposeInplace\<close> terminates on every non-empty matrix and leaves its transpose: the element of
  row \<open>r\<close> and column \<open>c\<close> of the \<open>nrows\<close> by \<open>ncols\<close> matrix is afterwards in row \<open>c\<close> and column \<open>r\<close>.
\<close>

theorem TransposeInplace_correct:
  assumes "0 < nrows" "0 < ncols" "length flatten = nrows * ncols"
  shows "\<exists>f. TransposeInplace flatten nrows ncols = Some f \<and> length f = length flatten \<and>
    (\<forall>r < nrows. \<forall>c < ncols. f ! (c * nrows + r) = flatten ! (r * ncols + c))"
  by (rule TransposeInplace_lemma) fact+

theorem TransposeInplace_correct_witness:
  "\<exists>f. TransposeInplace [10, 11, 12, 20, 21, 22 :: nat] 2 3 = Some f \<and> length f = length [10, 11, 12, 20, 21, 22 :: nat] \<and>
     (\<forall>r < 2. \<forall>c < 3. f ! (c * 2 + r) = [10, 11, 12, 20, 21, 22] ! (r * 3 + c))"
  using TransposeInplace_correct [of 2 3 "[10, 11, 12, 20, 21, 22 :: nat]"] by simp

end
