(* ===== verification/Layout.thy ===== *)
theory Layout
  imports SealApi Views Transpose
begin

text \<open>
  How \<open>MVPPrivImpl::MatVec\<close> lays a matrix out over plaintext polynomials, and in which order
  \<open>MatVecCore\<close> hands them to the FPGA (\<open>mvp_priv_impl.cc\<close>). A block of rows, in bit-reversed order, is
  stored as the reversed rows one after the other, so that the coefficient at the end of each row of a
  product with a vector polynomial is a dot product.
\<close>

section \<open>Bit reversal\<close>

lemma rev_bits_0 [simp]: "rev_bits k 0 = 0"
  by (induction k) simp_all

lemma rev_bits_less: "rev_bits k i < 2 ^ k"
proof (induction k arbitrary: i)
  case (Suc k)
  have "(i mod 2) * 2 ^ k \<le> 1 * 2 ^ k" by (intro mult_le_mono1) simp
  with Suc [of "i div 2"] show ?case unfolding rev_bits.simps power_Suc by linarith
qed simp

lemma rev_bits_split:
  "rev_bits (Suc k) i div 2 ^ k = i mod 2" "rev_bits (Suc k) i mod 2 ^ k = rev_bits k (i div 2)"
  using rev_bits_less [of k "i div 2"] by simp_all

lemma rev_bits_inj: "i < 2 ^ k \<Longrightarrow> j < 2 ^ k \<Longrightarrow> rev_bits k i = rev_bits k j \<Longrightarrow> i = j"
proof (induction k arbitrary: i j)
  case (Suc k)
  let ?a = "rev_bits k (i div 2)" and ?b = "rev_bits k (j div 2)"
  have "i mod 2 = j mod 2" "?a = ?b"
    using Suc.prems(3) rev_bits_split by metis+
  have "i div 2 < 2 ^ k" "j div 2 < 2 ^ k" using Suc.prems(1,2) by simp_all
  from Suc.IH [OF this \<open>?a = ?b\<close>] have "i div 2 = j div 2" .
  with \<open>i mod 2 = j mod 2\<close> show ?case by (metis div_mult_mod_eq)
qed simp

text \<open>Reversing a short index over more bits scales its reversal.\<close>

lemma rev_bits_scale: "e \<le> k \<Longrightarrow> i < 2 ^ e \<Longrightarrow> rev_bits k i = 2 ^ (k - e) * rev_bits e i"
proof (induction e arbitrary: k i)
  case (Suc e)
  obtain k' where k': "k = Suc k'" "e \<le> k'" using Suc.prems by (cases k) auto
  have "rev_bits k' (i div 2) = 2 ^ (k' - e) * rev_bits e (i div 2)"
    using Suc.prems k' by (intro Suc.IH) simp_all
  moreover have "(2 :: nat) ^ k' = 2 ^ (k' - e) * 2 ^ e" using k'(2) by (simp flip: power_add)
  ultimately show ?case by (simp add: k' algebra_simps)
qed simp

section \<open>Which rows a block holds\<close>

definition row_base :: "nat \<Rightarrow> nat \<Rightarrow> nat \<Rightarrow> nat" where
  "row_base num_row_blks nrows rblk =
     (if rblk < num_row_blks div 2 then rblk else nrows div 2 + rblk - num_row_blks div 2)"

definition bit_reversed_rows :: "seal_arith \<Rightarrow> nat \<Rightarrow> nat \<Rightarrow> nat \<Rightarrow> nat list" where
  "bit_reversed_rows S base log2_nrows row_blk_sze =
     map (\<lambda>i. base + reverse_bits S i log2_nrows) [0..<row_blk_sze]"

text \<open>
  For \<open>2 ^ k\<close> rows in blocks of \<open>2 ^ e\<close>, in closed form: the top bit of the block number is the top bit
  of the row, its other bits are the low bits of the row, and the slot in the block, mirrored, gives
  the bits in between.
\<close>

definition slot_row :: "nat \<Rightarrow> nat \<Rightarrow> nat \<Rightarrow> nat \<Rightarrow> nat" where
  "slot_row k e rblk i = row_base (2 ^ (k - e)) (2 ^ k) rblk + rev_bits (k - 1) i"

lemma bit_reversed_rows_nth:
  assumes "seal_arith_ok S" "e < k" "i < 2 ^ e"
  shows "bit_reversed_rows S (row_base (2 ^ (k - e)) (2 ^ k) rblk) (k - 1) (2 ^ e) ! i = slot_row k e rblk i"
proof -
  have "(2 :: nat) ^ e \<le> 2 ^ (k - 1)" using assms(2) by (intro power_increasing) simp_all
  with assms(3) have "i < 2 ^ (k - 1)" by (rule order.strict_trans2)
  with assms(1,3) show ?thesis
    by (simp add: bit_reversed_rows_def slot_row_def seal_arith_ok_def seal_bits_ok_def)
qed

lemma slot_row_split:
  assumes "e < k" "rblk < 2 ^ (k - e)" "i < 2 ^ e"
  defines "h \<equiv> 2 ^ (k - 1 - e)"
  shows "slot_row k e rblk i = (rblk div h) * 2 ^ (k - 1) + rev_bits e i * h + rblk mod h"
    and "rblk div h < 2"
proof -
  obtain d where k: "k = Suc (e + d)" using assms(1) by (metis less_iff_Suc_add)
  have h: "h = 2 ^ d" and two: "(2 :: nat) ^ (k - e) = 2 * h" and top: "(2 :: nat) ^ k = 2 * 2 ^ (k - 1)"
    by (simp_all add: h_def k power_add)
  have rev: "rev_bits (k - Suc 0) i = rev_bits e i * h"
    using assms(3) rev_bits_scale [of e "e + d" i] by (simp add: h k mult.commute)
  show "rblk div h < 2"
    using assms(2) by (simp add: two h div_less_iff_less_mult)
  show "slot_row k e rblk i = (rblk div h) * 2 ^ (k - 1) + rev_bits e i * h + rblk mod h"
  proof (cases "rblk < h")
    case True
    then show ?thesis by (simp add: slot_row_def row_base_def two rev)
  next
    case False
    then have "rblk div h = 1" using \<open>rblk div h < 2\<close> h by (simp add: div_greater_zero_iff le_antisym Suc_leI)
    then have "rblk mod h = rblk - h" by (simp add: modulo_nat_def)
    with False \<open>rblk div h = 1\<close> show ?thesis
      by (simp add: slot_row_def row_base_def two rev top)
  qed
qed

lemma mixed_radix_inj:
  fixes a b c a' b' c' :: nat
  assumes "a * (m * n) + b * n + c = a' * (m * n) + b' * n + c'" "b < m" "b' < m" "c < n" "c' < n"
  shows "a = a' \<and> b = b' \<and> c = c'"
proof -
  have n: "0 < n" "0 < m" using assms by simp_all
  have x: "(a * m + b) * n + c = (a' * m + b') * n + c'" using assms(1) by (simp add: algebra_simps)
  have "((a * m + b) * n + c) div n = a * m + b" "((a' * m + b') * n + c') div n = a' * m + b'"
    using assms(4,5) n by simp_all
  with x have y: "a * m + b = a' * m + b'" by simp
  then have "c = c'" using x by simp
  moreover have "(a * m + b) div m = a" "(a' * m + b') div m = a'" using assms(2,3) n by simp_all
  ultimately show ?thesis using y by simp
qed

lemma slot_row_bij_lemma:
  assumes "e < k"
  shows "bij_betw (\<lambda>(rblk, i). slot_row k e rblk i) ({..<2 ^ (k - e)} \<times> {..<2 ^ e}) {..<2 ^ k}"
proof -
  let ?f = "\<lambda>(rblk, i). slot_row k e rblk i" and ?A = "{..<2 ^ (k - e)} \<times> {..<2 ^ e} :: (nat \<times> nat) set"
  define h where "h = (2 :: nat) ^ (k - 1 - e)"
  have h0: "0 < h" by (simp add: h_def)
  have mid: "(2 :: nat) ^ (k - 1) = 2 ^ e * h"
    using assms by (simp add: h_def flip: power_add)
  have top: "(2 :: nat) ^ k = 2 * (2 ^ e * h)"
    using assms by (simp add: h_def flip: power_add power_Suc)
  have split: "slot_row k e b i = (b div h) * (2 ^ e * h) + rev_bits e i * h + b mod h" "b div h < 2"
    if "b < 2 ^ (k - e)" "i < 2 ^ e" for b i
    using slot_row_split [OF assms that] unfolding mid h_def [symmetric] by simp_all
  have "inj_on ?f ?A"
  proof (rule inj_onI)
    fix x y
    assume xy: "x \<in> ?A" "y \<in> ?A" "?f x = ?f y"
    obtain b i b' i' where e: "x = (b, i)" "y = (b', i')" by (cases x, cases y) auto
    have "(b div h) * (2 ^ e * h) + rev_bits e i * h + b mod h
        = (b' div h) * (2 ^ e * h) + rev_bits e i' * h + b' mod h"
      using xy split(1) by (simp add: e)
    then have "b div h = b' div h \<and> rev_bits e i = rev_bits e i' \<and> b mod h = b' mod h"
      by (rule mixed_radix_inj) (simp_all add: rev_bits_less h0)
    moreover have "i < 2 ^ e" "i' < 2 ^ e" using xy(1,2) by (simp_all add: e)
    ultimately have "i = i'" "b div h = b' div h" "b mod h = b' mod h" using rev_bits_inj by blast+
    then show "x = y" unfolding e by (metis div_mult_mod_eq)
  qed
  moreover have "?f ` ?A \<subseteq> {..<2 ^ k}"
  proof (rule image_subsetI)
    fix x
    assume x: "x \<in> ?A"
    obtain b i where e: "x = (b, i)" by (cases x)
    with x have bi: "b \<in> {..<2 ^ (k - e)}" "i \<in> {..<2 ^ e}" by simp_all
    let ?r = "rev_bits e i"
    have "b div h < 2" using split(2) [of b i] bi by simp
    then have "(b div h) * (2 ^ e * h) \<le> 1 * (2 ^ e * h)" by (intro mult_le_mono1) simp
    moreover have "?r * h + b mod h < Suc ?r * h" using h0 by simp
    moreover have "Suc ?r * h \<le> 2 ^ e * h" using rev_bits_less [of e i] by (intro mult_le_mono1) simp
    ultimately have "(b div h) * (2 ^ e * h) + ?r * h + b mod h < 2 * (2 ^ e * h)" by linarith
    then show "?f x \<in> {..<2 ^ k}" using split(1) [of b i] bi by (simp add: e top)
  qed
  moreover have "card ?A = card {..<2 ^ k :: nat}"
    using assms by (simp add: card_cartesian_product flip: power_add)
  ultimately show ?thesis by (simp add: bij_betw_def card_image card_subset_eq)
qed

text \<open>
  Every row of the (padded) matrix is placed exactly once: over all row blocks and slots, the row
  numbers the encoder computes are a permutation of the rows.
\<close>

theorem slot_row_bij:
  assumes "seal_arith_ok S" "e < k"
  shows "bij_betw (\<lambda>(rblk, i). bit_reversed_rows S (row_base (2 ^ (k - e)) (2 ^ k) rblk) (k - 1) (2 ^ e) ! i)
    ({..<2 ^ (k - e)} \<times> {..<2 ^ e}) {..<2 ^ k}"
proof -
  have "bij_betw (\<lambda>(rblk, i). slot_row k e rblk i) ({..<2 ^ (k - e)} \<times> {..<2 ^ e}) {..<2 ^ k}"
    by (rule slot_row_bij_lemma) fact
  moreover have "(case x of (rblk, i) \<Rightarrow>
        bit_reversed_rows S (row_base (2 ^ (k - e)) (2 ^ k) rblk) (k - 1) (2 ^ e) ! i)
      = (case x of (rblk, i) \<Rightarrow> slot_row k e rblk i)" if "x \<in> {..<2 ^ (k - e)} \<times> {..<2 ^ e}" for x
    using that bit_reversed_rows_nth [OF assms] by auto
  ultimately show ?thesis using bij_betw_cong by blast
qed

theorem slot_row_bij_witness:
  "bij_betw (\<lambda>(rblk, i). bit_reversed_rows seal_ref (row_base (2 ^ (4 - 1)) (2 ^ 4) rblk) (4 - 1) (2 ^ 1) ! i)
    ({..<2 ^ (4 - 1)} \<times> {..<2 ^ 1}) {..<2 ^ 4}"
  using slot_row_bij [OF seal_arith_ok_ref, of 1 4] by simp

section \<open>Filling the coefficients of one block\<close>

text \<open>
  The body of the loop over the rows of a block, with the coefficient buffer as state. The write
  pointer advances by \<open>submat_cols\<close> for every row. A row past the matrix only gets its first
  \<open>submat_cols - num_cols\<close> coefficients cleared: the others keep what the previous block left there.
\<close>

definition fill_row ::
    "MatView \<Rightarrow> nat \<Rightarrow> nat \<Rightarrow> nat \<Rightarrow> nat list \<Rightarrow> nat \<Rightarrow> u64 list \<Rightarrow> u64 list outcome" where
  "fill_row mat submat_cols col_bgn num_cols rows slot coeffs =
     (let row_idx = rows ! slot;
          dst = slot * submat_cols;
          coeffs = overwrite coeffs dst (replicate (submat_cols - num_cols) 0);
          dst = dst + submat_cols
      in if mv_nrows mat \<le> row_idx then Inr coeffs
         else obind (MatView_row_at mat row_idx) (\<lambda>row.
           let src = take num_cols (drop col_bgn row)
           in Inr (overwrite coeffs (dst - num_cols) (rev src))))"

fun fill_rows ::
    "MatView \<Rightarrow> nat \<Rightarrow> nat \<Rightarrow> nat \<Rightarrow> nat list \<Rightarrow> nat list \<Rightarrow> u64 list \<Rightarrow> u64 list outcome" where
  "fill_rows mat submat_cols col_bgn num_cols rows [] coeffs = Inr coeffs"
| "fill_rows mat submat_cols col_bgn num_cols rows (slot # slots) coeffs =
     obind (fill_row mat submat_cols col_bgn num_cols rows slot coeffs)
       (fill_rows mat submat_cols col_bgn num_cols rows slots)"

text \<open>One submatrix: all rows of the block, then zeros up to the degree.\<close>

definition encode_block ::
    "MatView \<Rightarrow> nat \<Rightarrow> nat \<Rightarrow> nat list \<Rightarrow> nat \<Rightarrow> u64 list \<Rightarrow> u64 list outcome" where
  "encode_block mat row_blk_sze col_blk_sze rows cblk coeffs =
     (let col_bgn = cblk * col_blk_sze;
          col_end = min (col_bgn + col_blk_sze) (mv_ncols mat);
          num_cols = col_end - col_bgn
      in obind (fill_rows mat col_blk_sze col_bgn num_cols rows [0..<row_blk_sze] coeffs) (\<lambda>coeffs.
           let dst = row_blk_sze * col_blk_sze
           in Inr (overwrite coeffs dst (replicate (length coeffs - dst) 0))))"

text \<open>What slot \<open>s\<close> holds afterwards, whatever was in the buffer, for a row of the matrix.\<close>

definition slot_holds :: "MatView \<Rightarrow> nat \<Rightarrow> nat \<Rightarrow> nat \<Rightarrow> nat \<Rightarrow> nat \<Rightarrow> u64 list \<Rightarrow> bool" where
  "slot_holds mat w col_bgn num_cols row s coeffs \<longleftrightarrow>
     (\<forall>c < w. coeffs ! (s * w + w - 1 - c) = (if c < num_cols then mat_entry mat row (col_bgn + c) else 0))"

lemma slot_in_range: "s < n \<Longrightarrow> s * w + w \<le> n * (w :: nat)"
proof -
  assume "s < n"
  then have "Suc s * w \<le> n * w" by (intro mult_le_mono1) simp
  then show ?thesis by simp
qed

lemma fill_row_ok:
  assumes mat: "mat_wf mat" "col_bgn + num_cols \<le> mv_ncols mat" and num: "num_cols \<le> w"
    and slot: "slot * w + w \<le> length coeffs"
  shows "\<exists>coeffs'. fill_row mat w col_bgn num_cols rows slot coeffs = Inr coeffs' \<and>
      length coeffs' = length coeffs \<and>
      (rows ! slot < mv_nrows mat \<longrightarrow> slot_holds mat w col_bgn num_cols (rows ! slot) slot coeffs') \<and>
      (\<forall>i < length coeffs. i < slot * w \<or> slot * w + w \<le> i \<longrightarrow> coeffs' ! i = coeffs ! i)"
proof -
  let ?r = "rows ! slot"
  define z where "z = overwrite coeffs (slot * w) (replicate (w - num_cols) 0)"
  have z_len: "length z = length coeffs" using slot by (simp add: z_def)
  have z: "z ! i = (if slot * w \<le> i \<and> i < slot * w + (w - num_cols) then 0 else coeffs ! i)"
    if "i < length coeffs" for i
    using that slot by (auto simp: z_def nth_overwrite)
  show ?thesis
  proof (cases "?r < mv_nrows mat")
    case False
    then have "fill_row mat w col_bgn num_cols rows slot coeffs = Inr z"
      by (simp add: fill_row_def z_def Let_def)
    with False z z_len num show ?thesis by auto
  next
    case True
    then obtain row where row: "MatView_row_at mat ?r = Inr row" "mv_ncols mat \<le> length row"
        "\<forall>c < mv_ncols mat. row ! c = mat_entry mat ?r c"
      using MatView_row_at_wf [OF mat(1)] by blast
    define src where "src = take num_cols (drop col_bgn row)"
    have src: "length src = num_cols" using row(2) mat(2) by (simp add: src_def)
    have src_nth: "src ! c = mat_entry mat ?r (col_bgn + c)" if "c < num_cols" for c
      using that row(2,3) mat(2) by (simp add: src_def)
    let ?o = "overwrite z (slot * w + w - num_cols) (rev src)"
    have o_len: "length ?o = length coeffs" using slot num z_len src by simp
    have o_nth: "?o ! i = (if slot * w + w - num_cols \<le> i \<and> i < slot * w + w
        then rev src ! (i - (slot * w + w - num_cols)) else z ! i)" if "i < length coeffs" for i
      using that slot num z_len src by (subst nth_overwrite) auto
    have "fill_row mat w col_bgn num_cols rows slot coeffs = Inr ?o"
      using True row(1) by (simp add: fill_row_def Let_def flip: z_def src_def)
    moreover have "slot_holds mat w col_bgn num_cols ?r slot ?o"
      unfolding slot_holds_def
    proof (intro allI impI)
      fix c
      assume c: "c < w"
      let ?i = "slot * w + w - 1 - c"
      have i: "?i < length coeffs" using c slot by simp
      show "?o ! ?i = (if c < num_cols then mat_entry mat ?r (col_bgn + c) else 0)"
      proof (cases "c < num_cols")
        case True
        then have idx: "?i - (slot * w + w - num_cols) = num_cols - 1 - c"
          "slot * w + w - num_cols \<le> ?i" "?i < slot * w + w"
          using num by simp_all
        then have "?o ! ?i = rev src ! (num_cols - 1 - c)" using o_nth [OF i] by simp
        also have "\<dots> = src ! c" using True src by (simp add: rev_nth)
        finally show ?thesis using True src_nth by simp
      next
        case False
        then show ?thesis using c num o_nth [OF i] z [OF i] by auto
      qed
    qed
    moreover have "?o ! i = coeffs ! i" if "i < length coeffs" "i < slot * w \<or> slot * w + w \<le> i" for i
      using that num o_nth [OF that(1)] z [OF that(1)] by auto
    ultimately show ?thesis using o_len by blast
  qed
qed

lemma fill_rows_ok:
  assumes mat: "mat_wf mat" "col_bgn + num_cols \<le> mv_ncols mat" and num: "num_cols \<le> w"
  shows "n * w \<le> length coeffs \<Longrightarrow> m \<le> n \<Longrightarrow>
    \<exists>coeffs'. fill_rows mat w col_bgn num_cols rows [m..<n] coeffs = Inr coeffs' \<and>
      length coeffs' = length coeffs \<and>
      (\<forall>s. m \<le> s \<and> s < n \<and> rows ! s < mv_nrows mat \<longrightarrow>
          slot_holds mat w col_bgn num_cols (rows ! s) s coeffs') \<and>
      (\<forall>i < length coeffs. i < m * w \<or> n * w \<le> i \<longrightarrow> coeffs' ! i = coeffs ! i)"
proof (induction "n - m" arbitrary: m coeffs)
  case 0
  then show ?case by auto
next
  case (Suc d)
  then have "m < n" by simp
  have "m * w + w \<le> n * w" using \<open>m < n\<close> by (rule slot_in_range)
  then have fits: "m * w + w \<le> length coeffs" using Suc.prems(1) by simp
  obtain c1 where c1: "fill_row mat w col_bgn num_cols rows m coeffs = Inr c1" "length c1 = length coeffs"
      "rows ! m < mv_nrows mat \<longrightarrow> slot_holds mat w col_bgn num_cols (rows ! m) m c1"
      "\<forall>i < length coeffs. i < m * w \<or> m * w + w \<le> i \<longrightarrow> c1 ! i = coeffs ! i"
    using fill_row_ok [OF mat num fits] by blast
  have "d = n - Suc m" "n * w \<le> length c1" "Suc m \<le> n" using Suc.hyps(2) Suc.prems(1) \<open>m < n\<close> c1(2) by simp_all
  from Suc.hyps(1) [OF this] obtain c2 where
    c2: "fill_rows mat w col_bgn num_cols rows [Suc m..<n] c1 = Inr c2" "length c2 = length c1"
      "\<forall>s. Suc m \<le> s \<and> s < n \<and> rows ! s < mv_nrows mat \<longrightarrow>
          slot_holds mat w col_bgn num_cols (rows ! s) s c2"
      "\<forall>i < length c1. i < Suc m * w \<or> n * w \<le> i \<longrightarrow> c2 ! i = c1 ! i"
    by blast
  have "fill_rows mat w col_bgn num_cols rows [m..<n] coeffs = Inr c2"
    using \<open>m < n\<close> c1(1) c2(1) by (simp add: upt_conv_Cons)
  moreover have "slot_holds mat w col_bgn num_cols (rows ! m) m c2" if "rows ! m < mv_nrows mat"
    unfolding slot_holds_def
  proof (intro allI impI)
    fix c
    assume "c < w"
    then have "m * w + w - 1 - c < length c1" "m * w + w - 1 - c < Suc m * w" using fits c1(2) by simp_all
    then have "c2 ! (m * w + w - 1 - c) = c1 ! (m * w + w - 1 - c)" using c2(4) by blast
    then show "c2 ! (m * w + w - 1 - c) = (if c < num_cols then mat_entry mat (rows ! m) (col_bgn + c) else 0)"
      using c1(3) that \<open>c < w\<close> by (simp add: slot_holds_def)
  qed
  then have "\<forall>s. m \<le> s \<and> s < n \<and> rows ! s < mv_nrows mat \<longrightarrow>
          slot_holds mat w col_bgn num_cols (rows ! s) s c2"
    using c2(3) by (metis Suc_leI le_neq_implies_less)
  moreover have "c2 ! i = coeffs ! i" if "i < length coeffs" "i < m * w \<or> n * w \<le> i" for i
  proof -
    have "i < Suc m * w \<or> n * w \<le> i" "i < m * w \<or> m * w + w \<le> i"
      using that(2) \<open>m * w + w \<le> n * w\<close> by auto
    then show ?thesis using c1(2,4) c2(4) that(1) by metis
  qed
  ultimately show ?case using c1(2) c2(2) by metis
qed

lemma encode_block_ok:
  assumes mat: "mat_wf mat" and cols: "cblk * w < mv_ncols mat"
    and room: "n * w \<le> length coeffs"
  shows "\<exists>coeffs'. encode_block mat n w rows cblk coeffs = Inr coeffs' \<and>
      length coeffs' = length coeffs \<and>
      (\<forall>s < n. rows ! s < mv_nrows mat \<longrightarrow>
          slot_holds mat w (cblk * w) (min w (mv_ncols mat - cblk * w)) (rows ! s) s coeffs')"
proof -
  let ?b = "cblk * w" and ?n = "min w (mv_ncols mat - cblk * w)"
  have eq: "min (?b + w) (mv_ncols mat) - ?b = ?n" by linarith
  have "?b + ?n \<le> mv_ncols mat" using cols by linarith
  then obtain c1 where c1: "fill_rows mat w ?b ?n rows [0..<n] coeffs = Inr c1"
      "length c1 = length coeffs"
      "\<forall>s. 0 \<le> s \<and> s < n \<and> rows ! s < mv_nrows mat \<longrightarrow> slot_holds mat w ?b ?n (rows ! s) s c1"
    using fill_rows_ok [OF mat _ _ room, of ?b ?n 0 rows] by (metis le0 min.cobounded1)
  define c2 where "c2 = overwrite c1 (n * w) (replicate (length c1 - n * w) 0)"
  have "encode_block mat n w rows cblk coeffs = Inr c2"
    using c1(1) by (simp add: encode_block_def Let_def eq c2_def)
  moreover have "length c2 = length coeffs" using room c1(2) by (simp add: c2_def)
  moreover have "slot_holds mat w ?b ?n (rows ! s) s c2" if s: "s < n" "rows ! s < mv_nrows mat" for s
    unfolding slot_holds_def
  proof (intro allI impI)
    fix c
    assume "c < w"
    then have "s * w + w - 1 - c < n * w" using slot_in_range [OF s(1), of w] by linarith
    then have "c2 ! (s * w + w - 1 - c) = c1 ! (s * w + w - 1 - c)"
      using room c1(2) by (simp add: c2_def nth_overwrite)
    then show "c2 ! (s * w + w - 1 - c) = (if c < ?n then mat_entry mat (rows ! s) (?b + c) else 0)"
      using c1(3) s \<open>c < w\<close> by (simp add: slot_holds_def)
  qed
  ultimately show ?thesis by blast
qed

section \<open>Dot products\<close>

text \<open>The product of two polynomials modulo \<open>X ^ N + 1\<close>, coefficient \<open>n\<close>.\<close>

definition negacyclic :: "nat \<Rightarrow> (nat \<Rightarrow> int) \<Rightarrow> (nat \<Rightarrow> int) \<Rightarrow> nat \<Rightarrow> int" where
  "negacyclic N a b n = (\<Sum>j<N. (if j \<le> n then a (n - j) else - a (N + n - j)) * b j)"

lemma negacyclic_slot:
  assumes "slot_holds mat w col_bgn num_cols row s coeffs" "num_cols \<le> w" "s * w + w \<le> N" "0 < w"
    and "\<forall>j \<ge> num_cols. b j = 0"
  shows "negacyclic N (\<lambda>i. g (coeffs ! i)) b (s * w + w - 1)
    = (\<Sum>c<num_cols. g (mat_entry mat row (col_bgn + c)) * b c)"
proof -
  let ?n = "s * w + w - 1"
  have "negacyclic N (\<lambda>i. g (coeffs ! i)) b ?n
      = (\<Sum>j<num_cols. (if j \<le> ?n then g (coeffs ! (?n - j)) else - g (coeffs ! (N + ?n - j))) * b j)"
    unfolding negacyclic_def
    using assms by (intro sum.mono_neutral_right) auto
  also have "\<dots> = (\<Sum>c<num_cols. g (mat_entry mat row (col_bgn + c)) * b c)"
  proof (rule sum.cong [OF refl])
    fix c
    assume "c \<in> {..<num_cols}"
    then have c: "c < num_cols" "c < w" using assms(2) by simp_all
    then have "c \<le> ?n" by simp
    moreover have "coeffs ! (?n - c) = mat_entry mat row (col_bgn + c)"
      using assms(1) c by (simp add: slot_holds_def)
    ultimately show "(if c \<le> ?n then g (coeffs ! (?n - c)) else - g (coeffs ! (N + ?n - c))) * b c
      = g (mat_entry mat row (col_bgn + c)) * b c" by simp
  qed
  finally show ?thesis .
qed

text \<open>A sum over an index range, taken subvector by subvector.\<close>

lemma sum_list_concat_map: "sum_list (map f (concat xss)) = sum_list (map (\<lambda>xs. sum_list (map f xs)) xss)"
  by (induction xss) simp_all

lemma sum_subvectors:
  fixes f :: "nat \<Rightarrow> int"
  assumes "0 < w" "n + w \<le> 2 ^ 64"
  shows "(\<Sum>b<CeilDiv n w. \<Sum>c<min w (n - b * w). f (b * w + c)) = (\<Sum>c<n. f c)"
proof -
  have inner: "sum_list (map f [b * w..<b * w + l]) = (\<Sum>c<l. f (b * w + c))" for b l
  proof -
    have "[b * w..<b * w + l] = map (\<lambda>c. b * w + c) [0..<l]" by (simp add: map_add_upt add.commute)
    then show ?thesis by (simp add: comp_def interv_sum_list_conv_sum_set_nat atLeast0LessThan)
  qed
  have len: "min (x + w) n - x = min w (n - x)" for x by linarith
  have "(\<Sum>c<n. f c) = sum_list (map f [0..<n])"
    by (simp add: interv_sum_list_conv_sum_set_nat atLeast0LessThan)
  also have "\<dots> = sum_list (map f (concat (map (\<lambda>(b, l). [b..<b + l])
      (map (subvec_range w n) [0..<CeilDiv n w]))))"
    by (simp only: subvec_blocks [OF assms] subvec.blocks_cover)
  also have "\<dots> = sum_list (map (\<lambda>b. \<Sum>c<min w (n - b * w). f (b * w + c)) [0..<CeilDiv n w])"
    by (simp only: sum_list_concat_map map_map comp_def subvec_range_def Let_def split inner len)
  also have "\<dots> = (\<Sum>b<CeilDiv n w. \<Sum>c<min w (n - b * w). f (b * w + c))"
    by (simp only: interv_sum_list_conv_sum_set_nat set_upt atLeast0LessThan)
  finally show ?thesis by simp
qed

definition poly_of :: "(u64 \<Rightarrow> int) \<Rightarrow> u64 list \<Rightarrow> nat \<Rightarrow> int" where
  "poly_of h v j = (if j < length v then h (v ! j) else 0)"

lemma nth_subvectors:
  assumes "b < CeilDiv (length xs) w" "c < min w (length xs - b * w)"
  shows "length (subvectors w xs ! b) = min w (length xs - b * w)"
    and "subvectors w xs ! b ! c = xs ! (b * w + c)"
proof -
  have "min (b * w + w) (length xs) - b * w = min w (length xs - b * w)" by linarith
  moreover have "b * w \<le> length xs" using assms(2) by linarith
  ultimately show "length (subvectors w xs ! b) = min w (length xs - b * w)"
    and "subvectors w xs ! b ! c = xs ! (b * w + c)"
    using assms by (simp_all add: subvectors_def slice_def subvec_range_def Let_def)
qed

lemma encoded_dot_product_lemma:
  assumes mat: "mat_wf mat" and xs: "length xs = mv_ncols mat" and w: "0 < w" "mv_ncols mat + w \<le> 2 ^ 64"
    and N: "n * w \<le> N" and s: "s < n" "rows ! s < mv_nrows mat"
    and bufs: "\<And>cblk. cblk < CeilDiv (mv_ncols mat) w \<Longrightarrow>
      length (old cblk) = N \<and> encode_block mat n w rows cblk (old cblk) = Inr (buf cblk)"
  shows "(\<Sum>cblk<CeilDiv (mv_ncols mat) w.
        negacyclic N (\<lambda>i. g (buf cblk ! i)) (poly_of h (subvectors w xs ! cblk)) (s * w + w - 1))
    = (\<Sum>c<mv_ncols mat. g (mat_entry mat (rows ! s) c) * h (xs ! c))"
proof -
  let ?n = "mv_ncols mat"
  have inside: "b * w < ?n" if "b < CeilDiv ?n w" for b
  proof -
    have "Suc b * w \<le> CeilDiv ?n w * w" using that by (intro mult_le_mono1) simp
    then show ?thesis using CeilDiv_bounds(2) [of w ?n] w by (simp add: add.commute)
  qed
  have "negacyclic N (\<lambda>i. g (buf b ! i)) (poly_of h (subvectors w xs ! b)) (s * w + w - 1)
      = (\<Sum>c<min w (?n - b * w). g (mat_entry mat (rows ! s) (b * w + c)) * h (xs ! (b * w + c)))"
    if b: "b < CeilDiv ?n w" for b
  proof -
    let ?k = "min w (?n - b * w)"
    have len: "length (subvectors w xs ! b) = ?k"
      using nth_subvectors(1) [of b xs w 0] b xs w inside [OF b] by simp
    have sw: "s * w + w \<le> N" using slot_in_range [OF s(1), of w] N by linarith
    obtain c' where "encode_block mat n w rows b (old b) = Inr c'"
        "slot_holds mat w (b * w) ?k (rows ! s) s c'"
      using encode_block_ok [OF mat inside [OF b], of n "old b" rows] bufs [OF b] N s by auto
    then have holds: "slot_holds mat w (b * w) ?k (rows ! s) s (buf b)" using bufs [OF b] by simp
    have "negacyclic N (\<lambda>i. g (buf b ! i)) (poly_of h (subvectors w xs ! b)) (s * w + w - 1)
        = (\<Sum>c<?k. g (mat_entry mat (rows ! s) (b * w + c)) * poly_of h (subvectors w xs ! b) c)"
    proof (rule negacyclic_slot [OF holds _ sw w(1)])
      show "\<forall>j \<ge> ?k. poly_of h (subvectors w xs ! b) j = 0"
        unfolding poly_of_def len by (simp only: not_le [symmetric]) simp
    qed simp
    also have "\<dots> = (\<Sum>c<?k. g (mat_entry mat (rows ! s) (b * w + c)) * h (xs ! (b * w + c)))"
      using nth_subvectors(2) [of b xs w] b xs by (intro sum.cong) (simp_all add: poly_of_def len)
    finally show ?thesis .
  qed
  then show ?thesis
    using sum_subvectors [OF w, of "\<lambda>c. g (mat_entry mat (rows ! s) c) * h (xs ! c)"] by simp
qed

text \<open>
  C7. The packing computes matrix times vector: whatever the coefficient buffers held before, the products
  of the encoded blocks of one block row with the subvectors of the vector, modulo \<open>X ^ N + 1\<close>, add up
  to the dot product of a matrix row with the vector in the last coefficient of that row's slot. This
  holds for every reading \<open>g\<close>, \<open>h\<close> of the 64-bit entries as integers.
\<close>

theorem encoded_dot_product:
  assumes "mat_wf mat" "length xs = mv_ncols mat" "0 < w" "mv_ncols mat + w \<le> 2 ^ 64" "n * w \<le> N"
    and "s < n" "rows ! s < mv_nrows mat"
    and "\<forall>cblk < CeilDiv (mv_ncols mat) w.
      length (old cblk) = N \<and> encode_block mat n w rows cblk (old cblk) = Inr (buf cblk)"
  shows "(\<Sum>cblk<CeilDiv (mv_ncols mat) w.
        negacyclic N (\<lambda>i. g (buf cblk ! i)) (poly_of h (subvectors w xs ! cblk)) (s * w + w - 1))
    = (\<Sum>c<mv_ncols mat. g (mat_entry mat (rows ! s) c) * h (xs ! c))"
  by (rule encoded_dot_product_lemma [OF assms(1-7)]) (use assms(8) in blast)

text \<open>Three rows of three entries, in blocks of two slots of two columns.\<close>

definition sample_mat :: MatView where
  "sample_mat = \<lparr>mv_data = [1, 2, 3, 4, 5, 6, 7, 8, 9], mv_nrows = 3, mv_ncols = 3\<rparr>"

theorem encoded_dot_product_witness:
  "\<exists>buf. (\<forall>cblk < CeilDiv (mv_ncols sample_mat) 2.
        encode_block sample_mat 2 2 [1, 0] cblk (replicate 4 0) = Inr (buf cblk)) \<and>
     (\<Sum>cblk<CeilDiv (mv_ncols sample_mat) 2.
        negacyclic 4 (\<lambda>i. uint (buf cblk ! i)) (poly_of uint (subvectors 2 [5, 7, 11] ! cblk)) 1)
     = 4 * 5 + 5 * 7 + 6 * 11"
proof -
  have wf: "mat_wf sample_mat" by (simp add: sample_mat_def mat_wf_def)
  have two: "CeilDiv (mv_ncols sample_mat) 2 = 2" by (simp add: sample_mat_def CeilDiv_eq)
  have "\<exists>b. encode_block sample_mat 2 2 [1, 0] cblk (replicate 4 0) = Inr b" if "cblk < 2" for cblk
    using encode_block_ok [OF wf, of cblk 2 2 "replicate 4 0" "[1, 0]"] that
    by (force simp: sample_mat_def)
  then obtain buf where buf: "\<forall>cblk < 2. encode_block sample_mat 2 2 [1, 0] cblk (replicate 4 0) = Inr (buf cblk)"
    by metis
  have "(\<Sum>cblk<CeilDiv (mv_ncols sample_mat) 2.
        negacyclic 4 (\<lambda>i. uint (buf cblk ! i)) (poly_of uint (subvectors 2 [5, 7, 11] ! cblk)) (0 * 2 + 2 - 1))
      = (\<Sum>c<mv_ncols sample_mat. uint (mat_entry sample_mat ([1, 0] ! 0) c) * uint ([5, 7, 11 :: u64] ! c))"
    by (rule encoded_dot_product [OF wf, where n = 2 and old = "\<lambda>_. replicate 4 0"])
      (use buf in \<open>simp_all add: two\<close>, simp_all add: sample_mat_def)
  also have "\<dots> = 4 * 5 + 5 * 7 + 6 * 11" by (simp add: sample_mat_def mat_entry_def numeral_3_eq_3 lessThan_Suc)
  finally show ?thesis using buf by (intro exI [of _ buf]) (simp add: two)
qed

section \<open>Dividing the row blocks among the workers\<close>

definition thread_ranges :: "nat \<Rightarrow> nat \<Rightarrow> (nat \<times> nat) list" where
  "thread_ranges num_row_blks tpool_sze =
     (let ecd_work_load = CeilDiv num_row_blks tpool_sze
      in map (\<lambda>j. let rblk_bgn = j * ecd_work_load;
                     rblk_end = min (rblk_bgn + ecd_work_load) num_row_blks
                 in (rblk_bgn, rblk_end)) [0..<tpool_sze])"

lemma ranges_concat:
  "concat (map (\<lambda>j. [j * l..<min (j * l + l) n]) [0..<t]) = [0..<min (t * l) n]"
proof (induction t)
  case 0
  then show ?case by simp
next
  case (Suc t)
  show ?case
  proof (cases "t * l \<le> n")
    case True
    then have "[0..<min (t * l) n] @ [t * l..<min (t * l + l) n] = [0..<min (t * l + l) n]"
      using upt_add_eq_append [of 0 "t * l" "min (t * l + l) n - t * l"] by (simp add: min_absorb1)
    with Suc show ?thesis by (simp add: add.commute)
  next
    case False
    with Suc show ?thesis by simp
  qed
qed

text \<open>
  The jobs given to the worker threads encode every row block exactly once, in order, whatever the
  number of threads: the ranges of consecutive jobs join to the range of all row blocks, also when
  there are more threads than blocks.
\<close>

theorem thread_ranges_cover:
  assumes "0 < tpool_sze" "num_row_blks + tpool_sze \<le> 2 ^ 64"
  shows "concat (map (\<lambda>(b, e). [b..<e]) (thread_ranges num_row_blks tpool_sze)) = [0..<num_row_blks]"
proof -
  let ?l = "CeilDiv num_row_blks tpool_sze"
  have "num_row_blks \<le> tpool_sze * ?l"
    using CeilDiv_bounds(1) [of tpool_sze num_row_blks] assms by (simp add: mult.commute)
  then show ?thesis
    using ranges_concat [of ?l num_row_blks tpool_sze]
    by (simp add: thread_ranges_def Let_def comp_def min_absorb2)
qed

theorem thread_ranges_cover_witness:
  "concat (map (\<lambda>(b, e). [b..<e]) (thread_ranges 10 4)) = [0..<10] \<and>
   concat (map (\<lambda>(b, e). [b..<e]) (thread_ranges 2 8)) = [0..<2]"
  using thread_ranges_cover [of 4 10] thread_ranges_cover [of 8 2] by simp

section \<open>The order of the pointers for the FPGA\<close>

text \<open>
  The first loop of \<open>MatVecCore\<close>: the row of pointers \<open>rblk\<close> is the block row with the mirrored number,
  and after every second row the two rows are transposed, so that the two pointers of a column become
  neighbours. A pointer not written yet is null.
\<close>

definition place_row :: "seal_arith \<Rightarrow> nat \<Rightarrow> nat \<Rightarrow> 'a list \<Rightarrow> nat \<Rightarrow> 'a option list \<Rightarrow> 'a option list outcome" where
  "place_row S log2_nrows num_col_blks pt_mat rblk h_mat =
     (let offset = rblk * num_col_blks;
          rev_offset = reverse_bits S rblk log2_nrows * num_col_blks
      in if rev_offset + num_col_blks \<le> length pt_mat
         then Inr (overwrite h_mat offset (map Some (take num_col_blks (drop rev_offset pt_mat))))
         else Inl (Throws (Out_of_range ''vector::at'')))"

definition transpose_pair :: "nat \<Rightarrow> nat \<Rightarrow> 'a option list \<Rightarrow> 'a option list outcome" where
  "transpose_pair num_col_blks rblk h_mat =
     (let frm = (rblk - 1) * num_col_blks
      in case TransposeInplace (slice h_mat (frm, 2 * num_col_blks)) 2 num_col_blks of
           None \<Rightarrow> Inl (Undefined ''TransposeInplace does not return'')
         | Some seg \<Rightarrow> Inr (overwrite h_mat frm seg))"

fun arrange_rows :: "seal_arith \<Rightarrow> nat \<Rightarrow> nat \<Rightarrow> 'a list \<Rightarrow> nat list \<Rightarrow> 'a option list \<Rightarrow> 'a option list outcome" where
  "arrange_rows S log2_nrows num_col_blks pt_mat [] h_mat = Inr h_mat"
| "arrange_rows S log2_nrows num_col_blks pt_mat (rblk # rblks) h_mat =
     obind (place_row S log2_nrows num_col_blks pt_mat rblk h_mat) (\<lambda>h_mat.
     obind (if odd rblk then transpose_pair num_col_blks rblk h_mat else Inr h_mat)
       (arrange_rows S log2_nrows num_col_blks pt_mat rblks))"

definition arrange_pointers :: "seal_arith \<Rightarrow> nat \<Rightarrow> nat \<Rightarrow> 'a list \<Rightarrow> 'a option list outcome" where
  "arrange_pointers S num_row_blks num_col_blks pt_mat =
     obind (Log2 num_row_blks) (\<lambda>log2_nrows.
       arrange_rows S log2_nrows num_col_blks pt_mat [0..<num_row_blks]
         (replicate (length pt_mat) None))"

text \<open>What the positions of the first \<open>p\<close> pairs of rows hold once they are arranged.\<close>

definition arranged :: "nat \<Rightarrow> nat \<Rightarrow> 'a list \<Rightarrow> nat \<Rightarrow> 'a option list \<Rightarrow> bool" where
  "arranged l n pts p h \<longleftrightarrow>
     (\<forall>q < p. \<forall>c < n. \<forall>b < 2. h ! (2 * n * q + 2 * c + b) = Some (pts ! (rev_bits l (2 * q + b) * n + c)))"

lemma length_slice: "fst b + snd b \<le> length xs \<Longrightarrow> length (slice xs b) = snd b"
  by (simp add: slice_def)

lemma nth_slice: "fst b + snd b \<le> length xs \<Longrightarrow> i < snd b \<Longrightarrow> slice xs b ! i = xs ! (fst b + i)"
  by (simp add: slice_def)

lemma place_row_ok:
  assumes "seal_arith_ok S" "rblk < 2 ^ l" "length pts = 2 ^ l * n" "length h = length pts"
  shows "\<exists>h'. place_row S l n pts rblk h = Inr h' \<and> length h' = length pts \<and>
    (\<forall>c < n. h' ! (rblk * n + c) = Some (pts ! (rev_bits l rblk * n + c))) \<and>
    (\<forall>i < length pts. i < rblk * n \<or> rblk * n + n \<le> i \<longrightarrow> h' ! i = h ! i)"
proof -
  have rev: "reverse_bits S rblk l = rev_bits l rblk"
    using assms(1,2) by (simp add: seal_arith_ok_def seal_bits_ok_def)
  have le: "rev_bits l rblk * n + n \<le> length pts" "rblk * n + n \<le> length pts"
    using slot_in_range [of "rev_bits l rblk" "2 ^ l" n] slot_in_range [of rblk "2 ^ l" n] assms(2,3)
      rev_bits_less by simp_all
  define xs where "xs = map Some (take n (drop (rev_bits l rblk * n) pts))"
  have xs: "length xs = n" "\<forall>c < n. xs ! c = Some (pts ! (rev_bits l rblk * n + c))"
    using le(1) by (simp_all add: xs_def)
  have fits: "rblk * n + length xs \<le> length h" using le(2) xs(1) assms(4) by simp
  have "place_row S l n pts rblk h = Inr (overwrite h (rblk * n) xs)"
    using le(1) by (simp add: place_row_def rev Let_def xs_def)
  moreover have "\<forall>c < n. overwrite h (rblk * n) xs ! (rblk * n + c) = Some (pts ! (rev_bits l rblk * n + c))"
    using fits xs by (simp add: nth_overwrite)
  moreover have "\<forall>i < length pts. i < rblk * n \<or> rblk * n + n \<le> i \<longrightarrow> overwrite h (rblk * n) xs ! i = h ! i"
    using fits xs(1) assms(4) by (auto simp: nth_overwrite)
  ultimately show ?thesis using fits assms(4) by auto
qed

lemma transpose_pair_ok:
  assumes "0 < n" "2 * n * q + 2 * n \<le> length h"
  shows "\<exists>h'. transpose_pair n (Suc (2 * q)) h = Inr h' \<and> length h' = length h \<and>
    (\<forall>c < n. \<forall>b < 2. h' ! (2 * n * q + 2 * c + b) = h ! (2 * n * q + b * n + c)) \<and>
    (\<forall>i < length h. i < 2 * n * q \<or> 2 * n * q + 2 * n \<le> i \<longrightarrow> h' ! i = h ! i)"
proof -
  define frm where "frm = 2 * n * q"
  let ?seg = "slice h (frm, 2 * n)"
  have len: "length ?seg = 2 * n" using assms(2) by (simp add: length_slice frm_def)
  obtain seg where seg: "TransposeInplace ?seg 2 n = Some seg" "length seg = 2 * n"
      "\<forall>r < 2. \<forall>c < n. seg ! (c * 2 + r) = ?seg ! (r * n + c)"
    using TransposeInplace_lemma [of 2 n ?seg] assms(1) len by auto
  have fits: "frm + length seg \<le> length h" using assms(2) seg(2) by (simp add: frm_def)
  have "transpose_pair n (Suc (2 * q)) h = Inr (overwrite h frm seg)"
    using seg(1) by (simp add: transpose_pair_def Let_def frm_def mult.commute mult.left_commute)
  moreover have "overwrite h frm seg ! (frm + 2 * c + b) = h ! (frm + b * n + c)" if "c < n" "b < 2" for c b
  proof -
    have i: "2 * c + b < 2 * n" using that by linarith
    have j: "b * n + c < 2 * n"
      using slot_in_range [of b 2 n] that by linarith
    have "overwrite h frm seg ! (frm + 2 * c + b) = seg ! (c * 2 + b)"
      using i fits seg(2) by (simp add: nth_overwrite add.assoc mult.commute)
    also have "\<dots> = ?seg ! (b * n + c)" using seg(3) that by blast
    also have "\<dots> = h ! (frm + (b * n + c))"
      using j assms(2) by (intro trans [OF nth_slice]) (simp_all add: frm_def)
    finally show ?thesis by (simp add: add.assoc)
  qed
  moreover have "\<forall>i < length h. i < frm \<or> frm + 2 * n \<le> i \<longrightarrow> overwrite h frm seg ! i = h ! i"
    using fits seg(2) by (auto simp: nth_overwrite)
  ultimately show ?thesis using fits by (auto simp: frm_def)
qed

lemma arrange_rows_append:
  "arrange_rows S l n pts (xs @ ys) h = obind (arrange_rows S l n pts xs h) (arrange_rows S l n pts ys)"
  by (induction xs arbitrary: h) (auto simp: obind_def split: sum.splits)

lemma arrange_pair_ok:
  assumes S: "seal_arith_ok S" and n: "0 < n" and q: "2 * Suc q \<le> 2 ^ l"
    and len: "length pts = 2 ^ l * n" "length h = length pts" and arr: "arranged l n pts q h"
  shows "\<exists>h'. arrange_rows S l n pts [2 * q, Suc (2 * q)] h = Inr h' \<and> length h' = length pts \<and>
    arranged l n pts (Suc q) h'"
proof -
  have fits: "2 * n * q + 2 * n \<le> length pts"
  proof -
    have "2 * Suc q * n \<le> 2 ^ l * n" using q by (intro mult_le_mono1)
    then show ?thesis using len(1) by (simp add: algebra_simps)
  qed
  obtain h1 where h1: "place_row S l n pts (2 * q) h = Inr h1" "length h1 = length pts"
      "\<forall>c < n. h1 ! (2 * q * n + c) = Some (pts ! (rev_bits l (2 * q) * n + c))"
      "\<forall>i < length pts. i < 2 * q * n \<or> 2 * q * n + n \<le> i \<longrightarrow> h1 ! i = h ! i"
    using place_row_ok [OF S, of "2 * q" l pts n h] q len by auto
  obtain h2 where h2: "place_row S l n pts (Suc (2 * q)) h1 = Inr h2" "length h2 = length pts"
      "\<forall>c < n. h2 ! (Suc (2 * q) * n + c) = Some (pts ! (rev_bits l (Suc (2 * q)) * n + c))"
      "\<forall>i < length pts. i < Suc (2 * q) * n \<or> Suc (2 * q) * n + n \<le> i \<longrightarrow> h2 ! i = h1 ! i"
    using place_row_ok [OF S, of "Suc (2 * q)" l pts n h1] q len h1(2) by auto
  obtain h3 where h3: "transpose_pair n (Suc (2 * q)) h2 = Inr h3" "length h3 = length pts"
      "\<forall>c < n. \<forall>b < 2. h3 ! (2 * n * q + 2 * c + b) = h2 ! (2 * n * q + b * n + c)"
      "\<forall>i < length pts. i < 2 * n * q \<or> 2 * n * q + 2 * n \<le> i \<longrightarrow> h3 ! i = h2 ! i"
    using transpose_pair_ok [OF n, of q h2] fits h2(2) by auto
  have run: "arrange_rows S l n pts [2 * q, Suc (2 * q)] h = Inr h3"
    by (simp add: h1(1) h2(1) h3(1))
  have new: "h3 ! (2 * n * q + 2 * c + b) = Some (pts ! (rev_bits l (2 * q + b) * n + c))"
    if "c < n" "b < 2" for c b
  proof -
    have at: "h3 ! (2 * n * q + 2 * c + b) = h2 ! (2 * n * q + b * n + c)" using h3(3) that by blast
    have "b = 0 \<or> b = 1" using that(2) by linarith
    then consider "b = 0" | "b = 1" by blast
    then show ?thesis
    proof cases
      case 1
      have "2 * q * n + c < Suc (2 * q) * n" "2 * q * n + c < length pts"
        using that(1) fits by (simp_all add: algebra_simps)
      then have "h2 ! (2 * q * n + c) = h1 ! (2 * q * n + c)" using h2(4) by blast
      then show ?thesis using at h1(3) that(1) 1 by (simp add: mult.commute mult.left_commute)
    next
      case 2
      have "2 * n * q + b * n + c = Suc (2 * q) * n + c" using 2 by (simp add: algebra_simps)
      then have "h3 ! (2 * n * q + 2 * c + b) = h2 ! (Suc (2 * q) * n + c)" using at by (simp only:)
      also have "\<dots> = Some (pts ! (rev_bits l (Suc (2 * q)) * n + c))" using h2(3) that(1) by blast
      finally show ?thesis using 2 by simp
    qed
  qed
  have old: "h3 ! (2 * n * p + 2 * c + b) = Some (pts ! (rev_bits l (2 * p + b) * n + c))"
    if "p < q" "c < n" "b < 2" for p c b
  proof -
    let ?i = "2 * n * p + 2 * c + b"
    have "?i < 2 * n * q"
    proof -
      have "Suc p * (2 * n) \<le> q * (2 * n)" using that(1) by (intro mult_le_mono1) simp
      moreover have "2 * c + b < 2 * n" using that by linarith
      ultimately show ?thesis by (simp add: algebra_simps)
    qed
    then have lt: "?i < 2 * q * n" "?i < Suc (2 * q) * n" "?i < 2 * n * q" "?i < length pts"
      using fits by (simp_all add: algebra_simps)
    then have "h3 ! ?i = h ! ?i" using h1(4) h2(4) h3(4) by metis
    then show ?thesis using arr that by (simp add: arranged_def)
  qed
  have "arranged l n pts (Suc q) h3"
    unfolding arranged_def using new old less_Suc_eq by metis
  with run h3(2) show ?thesis by blast
qed

lemma arrange_rows_ok:
  assumes S: "seal_arith_ok S" and n: "0 < n" and len: "length pts = 2 ^ l * n"
  shows "2 * m \<le> 2 ^ l \<Longrightarrow> \<exists>h. arrange_rows S l n pts [0..<2 * m] (replicate (length pts) None) = Inr h \<and>
    length h = length pts \<and> arranged l n pts m h"
proof (induction m)
  case 0
  then show ?case by (simp add: arranged_def)
next
  case (Suc m)
  then obtain h where h: "arrange_rows S l n pts [0..<2 * m] (replicate (length pts) None) = Inr h"
      "length h = length pts" "arranged l n pts m h"
    by auto
  obtain h' where "arrange_rows S l n pts [2 * m, Suc (2 * m)] h = Inr h'" "length h' = length pts"
      "arranged l n pts (Suc m) h'"
    using arrange_pair_ok [OF S n Suc.prems len h(2,3)] by blast
  moreover have "[0..<2 * Suc m] = [0..<2 * m] @ [2 * m, Suc (2 * m)]" by simp
  ultimately show ?case using h(1) by (simp only: arrange_rows_append obind_Inr) blast
qed

lemma arrange_pointers_lemma:
  assumes "seal_arith_ok S" "0 < num_col_blks" "0 < l" "length pt_mat = 2 ^ l * num_col_blks"
  shows "\<exists>h. arrange_pointers S (2 ^ l) num_col_blks pt_mat = Inr h \<and> length h = length pt_mat \<and>
    arranged l num_col_blks pt_mat (2 ^ (l - 1)) h"
proof -
  have "2 * 2 ^ (l - 1) = (2 :: nat) ^ l" using assms(3) by (simp flip: power_Suc)
  then show ?thesis
    using arrange_rows_ok [OF assms(1,2,4), of "2 ^ (l - 1)"]
    by (simp add: arrange_pointers_def Log2_pow2)
qed

text \<open>
  The order in which the FPGA receives the encoded matrix: for \<open>2 ^ l\<close> block rows, \<open>l > 0\<close>, the
  loop of \<open>MatVecCore\<close> terminates, leaves no null pointer, and position \<open>2 n q + 2 c + b\<close> (\<open>n\<close> block
  columns) holds the block of column \<open>c\<close> and of the row with the bit-reversed number of \<open>2 q + b\<close>.
\<close>

theorem arrange_pointers_order:
  assumes "seal_arith_ok S" "0 < num_col_blks" "0 < l" "length pt_mat = 2 ^ l * num_col_blks"
  shows "\<exists>h. arrange_pointers S (2 ^ l) num_col_blks pt_mat = Inr h \<and> length h = length pt_mat \<and>
    (\<forall>q < 2 ^ (l - 1). \<forall>c < num_col_blks. \<forall>b < 2.
        h ! (2 * num_col_blks * q + 2 * c + b) = Some (pt_mat ! (rev_bits l (2 * q + b) * num_col_blks + c)))"
  using arrange_pointers_lemma [OF assms] by (simp add: arranged_def)

theorem arrange_pointers_order_witness:
  "\<exists>h. arrange_pointers seal_ref (2 ^ 2) 3 [0..<12] = Inr h \<and> length h = length [0..<12] \<and>
    (\<forall>q < 2 ^ (2 - 1). \<forall>c < 3. \<forall>b < 2.
        h ! (2 * 3 * q + 2 * c + b) = Some ([0..<12] ! (rev_bits 2 (2 * q + b) * 3 + c)))"
  using arrange_pointers_order [OF seal_arith_ok_ref, of 3 2 "[0..<12]"] by simp

end
