(* ===== verification/Private.thy ===== *)
theory Private
  imports Public Layout
begin

text \<open>
  \<open>mvp_priv_impl.cc\<close>: the party that holds the matrix. It decodes the encrypted vector, adds its own share,
  encodes the matrix block by block, hands both to the FPGA (\<open>MatVecCore\<close>), masks the product with a random
  vector whose negation is its own share of the result, clears the coefficients that carry no entry of
  the product, and serializes the rest. The two versions of \<open>MatVec\<close> differ in how they encode the matrix.
\<close>

section \<open>State and configuration\<close>

record MVPPrivImpl =
  priv_is_proper_config :: bool
  priv_config :: MVPMetaInfo
  priv_ms_helper :: ModulusSwitchHelper
  priv_seal_rt :: seal_lib

abbreviation priv_ctx :: "MVPPrivImpl \<Rightarrow> seal_context" where
  "priv_ctx I \<equiv> sl_ctx (priv_seal_rt I)"

abbreviation priv_rt :: "MVPPrivImpl \<Rightarrow> seal_runtime" where
  "priv_rt I \<equiv> sl_rt (priv_seal_rt I)"

datatype Role = encrypt_input | encode_inut | encode_weight

definition priv_IsUseExtraPrime :: "MVPPrivImpl \<Rightarrow> bool" where
  "priv_IsUseExtraPrime I = True"

definition priv_check_config :: "MVPPrivImpl \<Rightarrow> MVPPrivImpl outcome" where
  "priv_check_config I =
     (let c = priv_config I; I = I\<lparr>priv_is_proper_config := True\<rparr>
      in if \<not> sc_parameters_set (priv_ctx I) then Inl (Throws (Invalid_argument ''invalid seal context''))
         else if mi_nrows c = 0 \<or> mi_ncols c = 0 then Inl (Throws (Invalid_argument ''MVPPrivImpl: 0 shape''))
         else if mi_nrows c < 2 \<or> kMaxNumRows < mi_nrows c
           then Inl (Throws (Invalid_argument ''MVPPrivImpl: nrows out-of-bound''))
         else if kMaxNumCols < mi_ncols c then Inl (Throws (Invalid_argument ''MVPPrivImpl: ncols out-of-bound''))
         else if 50331648 \<le> mi_ncols c * mi_nrows c
           then Inl (Throws (Invalid_argument ''MVPPrivImpl: not supported yet''))
         else Inr I)"

definition MVPPrivImpl_new :: "MVPMetaInfo \<Rightarrow> ModulusSwitchHelper \<Rightarrow> seal_lib \<Rightarrow> MVPPrivImpl outcome" where
  "MVPPrivImpl_new config ms_helper context =
     priv_check_config \<lparr>priv_is_proper_config = True, priv_config = config, priv_ms_helper = ms_helper,
       priv_seal_rt = context\<rparr>"

definition priv_poly_degree :: "MVPPrivImpl \<Rightarrow> nat" where
  "priv_poly_degree I = sc_degree (priv_ctx I)"

section \<open>Random bytes\<close>

text \<open>
  The generator of an object, as its number and its position in its byte stream, the static counter of
  the bytes all objects drew, and the number of generators SEAL has created.
\<close>

record cprng =
  cp_prng :: "(nat \<times> nat) option"
  cp_bytes_gen :: nat
  cp_created :: nat

definition kMaxBytes :: nat where "kMaxBytes = 2 ^ 40"

definition CPRNG :: "(nat \<Rightarrow> nat \<Rightarrow> u8) \<Rightarrow> nat \<Rightarrow> bool \<Rightarrow> cprng \<Rightarrow> (int \<times> u8 list \<times> cprng) outcome" where
  "CPRNG streams nbytes dst s =
     (if kMaxBytes \<le> nbytes then Inl (Throws (Invalid_argument ''CPRNG: nbytes''))
      else if 0 < nbytes \<and> dst
      then let s = (if cp_prng s = None \<or> kMaxBytes \<le> cp_bytes_gen s
                    then s\<lparr>cp_prng := Some (cp_created s, 0), cp_bytes_gen := 0, cp_created := Suc (cp_created s)\<rparr>
                    else s);
               (g, p) = the (cp_prng s)
           in Inr (0, map (streams g) [p..<p + nbytes],
                   s\<lparr>cp_prng := Some (g, p + nbytes), cp_bytes_gen := cp_bytes_gen s + nbytes\<rparr>)
      else Inr (- 1, [], s))"

text \<open>The bytes of a word in memory, least significant first.\<close>

fun u64_of_bytes :: "u8 list \<Rightarrow> u64" where
  "u64_of_bytes [] = 0"
| "u64_of_bytes (b # bs) = ucast b + push_bit 8 (u64_of_bytes bs)"

text \<open>
  The loop that rejects words from \<open>max_multiple\<close> on. It need not end, so it is a partial function: no
  value is a loop that never returns.
\<close>

definition sample_bound :: "seal_arith \<Rightarrow> u64 \<Rightarrow> u64" where
  "sample_bound S q = (let max_random = - 1 in max_random - barrett_reduce_64 S max_random q - 1)"

partial_function (option) resample :: "(nat \<Rightarrow> nat \<Rightarrow> u8) \<Rightarrow> u64 \<Rightarrow> u64 \<Rightarrow> cprng \<Rightarrow> (u64 \<times> cprng) outcome option" where
  "resample streams max_multiple rand s =
     (if rand < max_multiple then Some (Inr (rand, s))
      else case CPRNG streams 8 True s of
             Inl e \<Rightarrow> Some (Inl e)
           | Inr (_, bytes, s) \<Rightarrow> resample streams max_multiple (u64_of_bytes bytes) s)"

definition or_loops :: "'a outcome option \<Rightarrow> 'a outcome" where
  "or_loops r = (case r of None \<Rightarrow> Inl (Undefined ''does not return'') | Some x \<Rightarrow> x)"

fun sample_words ::
    "seal_arith \<Rightarrow> (nat \<Rightarrow> nat \<Rightarrow> u8) \<Rightarrow> u64 \<Rightarrow> u64 list \<Rightarrow> cprng \<Rightarrow> (u64 list \<times> cprng) outcome" where
  "sample_words S streams q [] s = Inr ([], s)"
| "sample_words S streams q (rand # rands) s =
     obind (or_loops (resample streams (sample_bound S q) rand s)) (\<lambda>(rand, s).
     obind (sample_words S streams q rands s) (\<lambda>(xs, s).
       Inr (barrett_reduce_64 S rand q # xs, s)))"

definition words_of_bytes :: "u8 list \<Rightarrow> u64 list" where
  "words_of_bytes bytes = map (\<lambda>i. u64_of_bytes (slice bytes (8 * i, 8))) [0..<length bytes div 8]"

definition sample_limb ::
    "seal_arith \<Rightarrow> (nat \<Rightarrow> nat \<Rightarrow> u8) \<Rightarrow> nat \<Rightarrow> u64 \<Rightarrow> cprng \<Rightarrow> (u64 list \<times> cprng) outcome" where
  "sample_limb S streams n q s =
     obind (CPRNG streams (n * 8) True s) (\<lambda>(_, bytes, s). sample_words S streams q (words_of_bytes bytes) s)"

fun sample_limbs ::
    "seal_arith \<Rightarrow> (nat \<Rightarrow> nat \<Rightarrow> u8) \<Rightarrow> nat \<Rightarrow> u64 list \<Rightarrow> cprng \<Rightarrow> (u64 list \<times> cprng) outcome" where
  "sample_limbs S streams n [] s = Inr ([], s)"
| "sample_limbs S streams n (q # qs) s =
     obind (sample_limb S streams n q s) (\<lambda>(xs, s).
     obind (sample_limbs S streams n qs s) (\<lambda>(ys, s). Inr (xs @ ys, s)))"

text \<open>The sampled residues of one modulus at the multiples of the gap, zero elsewhere.\<close>

definition mask_limb :: "nat \<Rightarrow> u64 list \<Rightarrow> u64 list" where
  "mask_limb N src =
     (let n = length src; gap = N div n
      in if N = n then src
         else fold (\<lambda>i v. v[i * gap := src ! i]) [0..<n] (replicate N 0))"

text \<open>
  \<open>RandomVector\<close> with the plaintext it fills, the buffer for the share, and the generator. Whether the call
  throws part way, the generator has moved on only as far as the model says; after an exception the
  object is gone.
\<close>

definition RandomVector ::
    "MVPPrivImpl \<Rightarrow> rlwe_pt \<Rightarrow> VecBuffer \<Rightarrow> cprng \<Rightarrow> unit outcome \<times> rlwe_pt \<times> VecBuffer \<times> cprng" where
  "RandomVector I mask_pt out s =
     (let N = priv_poly_degree I; n = vb_len out; L = priv_seal_rt I; S = sl_arith L;
          coeff_modulus = sc_first_moduli (priv_ctx I); num_moduli = length coeff_modulus in
      if \<not> sc_parameters_set (priv_ctx I)
        then (Inl (Failed INVALID_ARGUMENT ''invalid first_context_data''), mask_pt, out, s)
      else if vb_data out = [] then (Inl (Failed INVALID_ARGUMENT ''out nullptr''), mask_pt, out, s)
      else if \<not> (0 < n \<and> N mod n = 0) then (Inl (Failed INVALID_ARGUMENT ''out.num_elements()''), mask_pt, out, s)
      else case sample_limbs S (sl_prng L) n coeff_modulus s of
        Inl e \<Rightarrow> (Inl e, mask_pt, out, s)
      | Inr (random, s) \<Rightarrow>
          let mask_pt = mask_pt\<lparr>pt_data := concat (map (\<lambda>j. mask_limb N (slice random (j * n, n))) [0..<num_moduli]),
                          pt_parms_id := sr_first_parms_id (sl_rt L)\<rparr>
          in case ModulusDownRNS S (priv_ms_helper I) random n of
               Inl e \<Rightarrow> (Inl e, mask_pt, out, s)
             | Inr share \<Rightarrow>
                 (Inr (), mask_pt, out\<lparr>vb_data := map (\<lambda>u. - u AND base_mask (priv_config I)) share\<rparr>, s))"

section \<open>Encoding\<close>

definition CenteralizeAt_entry :: "seal_arith \<Rightarrow> nat \<Rightarrow> u64 \<Rightarrow> u64 \<Rightarrow> u64" where
  "CenteralizeAt_entry S nbits q x =
     (let half = push_bit (nbits - 1) 1;
          base_mod_mask = (if nbits = 64 then - 1 else push_bit nbits 1)
      in if half \<le> x then negate_uint_mod S (- x AND base_mod_mask) q
         else barrett_reduce_64 S x q)"

text \<open>A shift by \<open>0 - 1\<close> is undefined.\<close>

definition CenteralizeAt :: "MVPPrivImpl \<Rightarrow> VecView \<Rightarrow> nat \<Rightarrow> nat \<Rightarrow> u64 list outcome" where
  "CenteralizeAt I src mod_idx out_size =
     (let modulus = sc_key_moduli (priv_ctx I); nbits = mi_base_mod_nbits (priv_config I)
      in requires (mod_idx < length modulus) (Failed INVALID_ARGUMENT ''Centeralize: invalid mod_idx'')
         (requires (length src = out_size) (Failed INVALID_ARGUMENT ''Centeralize: size mismatch'')
         (requires (nbits \<le> 64) (Failed FAILED_PRECONDITION ''support at most 64bit'')
         (if nbits = 0 then Inl (Undefined ''1ULL << -1'')
          else Inr (map (CenteralizeAt_entry (sr_arith (priv_rt I)) nbits (modulus ! mod_idx)) src)))))"

definition priv_vec2poly_limb ::
    "MVPPrivImpl \<Rightarrow> u64 list \<Rightarrow> VecView \<Rightarrow> Role \<Rightarrow> bool \<Rightarrow> nat \<Rightarrow> u64 list outcome" where
  "priv_vec2poly_limb I modulus vec role is_ntt_form j =
     (let N = priv_poly_degree I; n = length vec; num_moduli = length modulus; S = sr_arith (priv_rt I);
          use_extra_prime = priv_IsUseExtraPrime I; need_scale_up = (role \<noteq> encode_weight)
      in if j + 1 = num_moduli \<and> use_extra_prime \<and> need_scale_up then Inr (replicate N 0)
         else obind (case role of
                       encrypt_input \<Rightarrow> ModulusUpAt S (priv_ms_helper I) vec j n
                     | encode_inut \<Rightarrow> ModulusUpAt S (priv_ms_helper I) vec j n
                     | encode_weight \<Rightarrow> CenteralizeAt I vec j n) (\<lambda>pt_wrap.
           let pt_wrap = (if use_extra_prime \<and> need_scale_up
                          then multiply_poly_scalar_coeffmod S pt_wrap (last modulus) (modulus ! j) else pt_wrap);
               poly = pt_wrap @ replicate (N - n) 0
           in Inr (if is_ntt_form then ntt_forward (priv_rt I) (modulus ! j) poly else poly)))"

text \<open>The loop over the moduli; what was written before a failure stays.\<close>

fun priv_vec2poly_limbs ::
    "MVPPrivImpl \<Rightarrow> u64 list \<Rightarrow> VecView \<Rightarrow> Role \<Rightarrow> bool \<Rightarrow> nat list \<Rightarrow> u64 list \<Rightarrow> unit outcome \<times> u64 list" where
  "priv_vec2poly_limbs I modulus vec role is_ntt_form [] data = (Inr (), data)"
| "priv_vec2poly_limbs I modulus vec role is_ntt_form (j # js) data =
     (case priv_vec2poly_limb I modulus vec role is_ntt_form j of
        Inl e \<Rightarrow> (Inl e, data)
      | Inr poly \<Rightarrow> priv_vec2poly_limbs I modulus vec role is_ntt_form js
                     (overwrite data (j * priv_poly_degree I) poly))"

definition priv_Vec2Poly ::
    "MVPPrivImpl \<Rightarrow> VecView \<Rightarrow> rlwe_pt \<Rightarrow> Role \<Rightarrow> bool \<Rightarrow> unit outcome \<times> rlwe_pt" where
  "priv_Vec2Poly I vec pt role is_ntt_form =
     (let R = priv_rt I
      in case InitPtx R pt (if priv_IsUseExtraPrime I then sr_key_parms_id R else sr_first_parms_id R) of
           Inl e \<Rightarrow> (Inl e, pt)
         | Inr pt \<Rightarrow>
             (case sr_context_moduli R (pt_parms_id pt) of
                None \<Rightarrow> (Inl (Undefined ''cntxt_data''), pt)
              | Some modulus \<Rightarrow>
                  if vec = [] then (Inl (Throws (Invalid_argument ''nullptr'')), pt)
                  else if priv_poly_degree I < length vec then (Inl (Undefined ''pt_wrap''), pt)
                  else let (r, data) = priv_vec2poly_limbs I modulus vec role is_ntt_form [0..<length modulus] (pt_data pt)
                       in (r, pt\<lparr>pt_data := data\<rparr>)))"

text \<open>
  The guard compares the length with a truth value and takes the result as the condition of \<open>?:\<close>, so it
  tests the chosen dimension for zero.
\<close>

definition priv_EncodeVector :: "MVPPrivImpl \<Rightarrow> VecView \<Rightarrow> bool \<Rightarrow> rlwe_pt list outcome" where
  "priv_EncodeVector I input is_ntt_form =
     (let c = priv_config I in
      requires (priv_is_proper_config I) (Failed UNAVAILABLE ''config '')
      (requires ((if length input = of_bool (mi_is_transposed c) then mi_ncols c else mi_nrows c) \<noteq> 0)
         (Failed INVALID_ARGUMENT ''input.num_elements()'')
      (obind (GetSubmatrixShape c (priv_poly_degree I)) (\<lambda>(_, subvec_len).
         omap (\<lambda>subvec. case priv_Vec2Poly I subvec fresh_ptx encode_inut is_ntt_form of
                           (Inl e, pt) \<Rightarrow> Inl e | (Inr _, pt) \<Rightarrow> Inr pt)
           (subvectors subvec_len input)))))"

section \<open>Clearing the coefficients without a result\<close>

definition drop_limb :: "nat \<Rightarrow> nat \<Rightarrow> u64 list \<Rightarrow> u64 list" where
  "drop_limb degree gap ct0 = map (\<lambda>pos. if pos AND gap = 0 then ct0 ! pos else 0) [0..<degree]"

definition DropUnusedCoeffs :: "MVPPrivImpl \<Rightarrow> rlwe_ct \<Rightarrow> rlwe_ct outcome" where
  "DropUnusedCoeffs I ct =
     requires (length (ct_polys ct) = 2 \<and> \<not> ct_is_ntt_form ct) (Failed INVALID_ARGUMENT ''DropUnusedCoeffs'')
       (let degree = ct_degree ct;
            gap = (degree div NextPow2 (mi_nrows (priv_config I)) + (2 ^ 64 - 1)) mod 2 ^ 64;
            limbs = map (\<lambda>l. drop_limb degree gap (slice (ct_polys ct ! 0) (l * degree, degree))) [0..<ct_coeff_modulus_size ct]
        in Inr (ct\<lparr>ct_polys := (ct_polys ct)[0 := concat limbs @ drop (ct_coeff_modulus_size ct * degree) (ct_polys ct ! 0)]\<rparr>))"

end
