(* ===== verification/MatVec.thy ===== *)
theory MatVec
  imports Private
begin

text \<open>
  \<open>MVPPrivImpl::MatVecCore\<close> and the two versions of \<open>MVPPrivImpl::MatVec\<close> (\<open>mvp_priv_impl.cc\<close>), with the
  functions \<open>api::MatVec\<close> over them. The card is the environment of theory \<open>Fpga\<close>.
\<close>

section \<open>Calling the card\<close>

text \<open>A ciphertext after \<open>resize\<close>: two polynomials of zeros at the first data level.\<close>

definition resized_ct :: "seal_runtime \<Rightarrow> rlwe_ct" where
  "resized_ct R =
     (let N = sc_degree (sr_ctx R); L = length (sc_first_moduli (sr_ctx R))
      in \<lparr>ct_parms_id = sr_first_parms_id R, ct_is_ntt_form = False, ct_degree = N, ct_coeff_modulus_size = L,
          ct_polys = [replicate (L * N) 0, replicate (L * N) 0], ct_scale = 0x3FF0000000000000\<rparr>)"

definition core_guards :: "MVPPrivImpl \<Rightarrow> rlwe_ct list \<Rightarrow> rlwe_pt list \<Rightarrow> (nat \<times> nat \<times> nat \<times> nat) outcome" where
  "core_guards I ct_vec pt_mat =
     (let N = priv_poly_degree I; c = priv_config I; is_input_ntt = (MVP_VERSION \<noteq> ''1.2.0'') in
      obind (GetSubmatrixShape c N) (\<lambda>(subrows, subcols).
        let num_row_blks = CeilDiv (NextPow2 (mi_nrows c)) subrows; num_col_blks = CeilDiv (mi_ncols c) subcols in
        requires (length ct_vec = num_col_blks) (Failed INVALID_ARGUMENT ''FPGAv12: ct_vec.size()'')
        (requires (1 < length pt_mat) (Failed INTERNAL ''mat_len should > 1'')
        (requires (length pt_mat = num_row_blks * num_col_blks) (Failed INVALID_ARGUMENT ''FPGAv12: pt_mat.size()'')
        (obind (omap (\<lambda>ct.
             requires (ct_is_ntt_form ct = is_input_ntt) (Failed INVALID_ARGUMENT ''ct.is_ntt_form() mismatch'')
             (requires (ct_coeff_modulus_size ct = kNumModulus) (Failed INVALID_ARGUMENT ''ct.coeff_modulus_size() mismatch'')
             (Inr ()))) ct_vec)
           (\<lambda>_. Inr (subrows, subcols, num_row_blks, num_col_blks)))))))"

text \<open>A pointer of the array that was never set is null, and the driver reads from it.\<close>

definition all_pointers :: "'a option list \<Rightarrow> 'a list outcome" where
  "all_pointers h_mat = omap (\<lambda>p. case p of None \<Rightarrow> Inl (Undefined ''null pointer'') | Some pt \<Rightarrow> Inr pt) h_mat"

text \<open>
  The result buffer is the memory of the output ciphertext, to which the driver copies \<open>0x20000\<close> bytes.
\<close>

definition MatVecCore :: "fpga_env \<Rightarrow> nat \<Rightarrow> MVPPrivImpl \<Rightarrow> rlwe_ct list \<Rightarrow> rlwe_pt list \<Rightarrow> rlwe_ct outcome" where
  "MatVecCore E buffer_index I ct_vec pt_mat =
     (let N = priv_poly_degree I; c = priv_config I; R = priv_rt I in
      obind (core_guards I ct_vec pt_mat) (\<lambda>(subrows, subcols, num_row_blks, num_col_blks).
      obind (arrange_pointers (sr_arith R) num_row_blks num_col_blks pt_mat) (\<lambda>h_mat.
        let mat_chuck_size = Max (insert 0 (set (map (\<lambda>pt. length (pt_data pt) * 8) pt_mat)));
            vec_len = num_col_blks;
            h_vec = map (concat \<circ> ct_polys) ct_vec;
            vec_chuck_size = (if ct_vec = [] then 0
              else let ct = last ct_vec in length (ct_polys ct) * ct_degree ct * ct_coeff_modulus_size ct * 8);
            out = resized_ct R;
            nrows = NextPow2 (max (mi_nrows c) subrows); ncols = max (mi_ncols c) subcols
        in requires (1 \<le> vec_len \<and> vec_len \<le> 4) (Failed INVALID_ARGUMENT ''num_col_blks out-of-bound'')
          (requires (IsTwoPower nrows) (Failed INVALID_ARGUMENT ''nrows should be two-exponent'')
          (requires (1 \<le> ncols \<and> ncols \<le> 16384) (Failed INVALID_ARGUMENT ''ncols out-of-bound'')
          (obind (all_pointers (map (map_option pt_data) h_mat)) (\<lambda>h_mat.
             let buf = concat (ct_polys out) in
             if length buf * 8 < 0x20000 then Inl (Undefined ''out->data()'')
             else obind (KernelRun E nrows ncols h_vec vec_chuck_size h_mat mat_chuck_size buffer_index buf) (\<lambda>(ops, ret, h_result).
               if ret \<noteq> 0 then Inl (Failed INTERNAL ''KernelRun failed'')
               else let out = out\<lparr>ct_polys := [take (length buf div 2) h_result, drop (length buf div 2) h_result],
                                  ct_is_ntt_form := False\<rparr>
                    in if \<not> sl_ct_data_valid (priv_seal_rt I) out
                       then Inl (Failed INTERNAL ''FPGA return invalid ct'')
                       else Inr out))))))))"

section \<open>The stages of MatVec\<close>

definition matvec_guards ::
    "MVPPrivImpl \<Rightarrow> MatView \<Rightarrow> VecView option \<Rightarrow> StrBufView \<Rightarrow> VecBuffer option \<Rightarrow> (nat \<times> nat) outcome" where
  "matvec_guards I mat vec_share0 vec_share1 out_mask =
     (let c = priv_config I in
      requires (priv_is_proper_config I) (Failed UNAVAILABLE ''configuartion is not done properly'')
      (requires (mv_ncols mat = mi_ncols c) (Failed INVALID_ARGUMENT ''mat.ncols()'')
      (requires (mv_nrows mat = mi_nrows c) (Failed INVALID_ARGUMENT ''mat.nrows()'')
      (requires (case vec_share0 of None \<Rightarrow> True | Some v \<Rightarrow> length v = mi_ncols c)
         (Failed INVALID_ARGUMENT ''vec_share0 length'')
      (requires (case out_mask of None \<Rightarrow> True | Some b \<Rightarrow> mv_nrows mat = vb_len b)
         (Failed INVALID_ARGUMENT ''out_mask length'')
      (requires (case out_mask of None \<Rightarrow> True | Some b \<Rightarrow> vb_data b \<noteq> [])
         (Failed INVALID_ARGUMENT ''out_mask is empty'')
      (obind (GetSubmatrixShape c (priv_poly_degree I)) (\<lambda>shape.
       requires (length vec_share1 = CeilDiv (mi_ncols c) (snd shape))
         (Failed INVALID_ARGUMENT ''Execute: vec_share1.size()'') (Inr shape)))))))))"

text \<open>
  The lambda \<open>sample_mask_program\<close>: a number of rows that does not divide the degree is rounded up, in a
  buffer of its own.
\<close>

definition sample_mask_program ::
    "MVPPrivImpl \<Rightarrow> VecBuffer option \<Rightarrow> cprng \<Rightarrow> unit outcome \<times> rlwe_pt \<times> VecBuffer option \<times> cprng" where
  "sample_mask_program I out_mask s =
     (case out_mask of
        None \<Rightarrow> (Inr (), fresh_ptx, None, s)
      | Some b \<Rightarrow>
          let N = priv_poly_degree I; n = vb_len b in
          if N mod n = 0
          then let (r, mask_poly, b, s) = RandomVector I fresh_ptx b s in (r, mask_poly, Some b, s)
          else case RandomVector I fresh_ptx (VecBuffer_new (NextPow2 n)) s of
                 (Inl e, mask_poly, tmp_buf, s) \<Rightarrow> (Inl e, mask_poly, Some b, s)
               | (Inr _, mask_poly, tmp_buf, s) \<Rightarrow>
                   (Inr (), mask_poly, Some (b\<lparr>vb_data := overwrite (vb_data b) 0 (take n (vb_data tmp_buf))\<rparr>), s))"

text \<open>The call drops the status: an error is ignored, an exception is not.\<close>

definition drop_status :: "unit outcome \<Rightarrow> unit outcome" where
  "drop_status r = (case r of Inl (Failed c m) \<Rightarrow> Inr () | _ \<Rightarrow> r)"

text \<open>Step 1: decode the ciphertexts and add the own share.\<close>

definition add_shares :: "MVPPrivImpl \<Rightarrow> VecView option \<Rightarrow> StrBufView \<Rightarrow> rlwe_ct list outcome" where
  "add_shares I vec_share0 vec_share1 =
     (let L = priv_seal_rt I; santi_check = \<not> priv_IsUseExtraPrime I in
      obind (DecodeSEALObjects L vec_share1 santi_check) (\<lambda>ct_vec.
      requires (santi_check \<or> list_all (sl_ct_metadata_valid_pure L) ct_vec) (Failed INVALID_ARGUMENT ''invalid cipher'')
      (case vec_share0 of
         None \<Rightarrow> Inr ct_vec
       | Some v \<Rightarrow>
           if ct_vec = [] then Inl (Undefined ''ct_vec[0]'')
           else obind (priv_EncodeVector I v (ct_is_ntt_form (ct_vec ! 0))) (\<lambda>share0.
                requires (length share0 = length ct_vec) (Failed INVALID_ARGUMENT ''Execute: vec_share0.size()'')
                (omap (\<lambda>(ct, pt). add_plain_inplace (sl_rt L) ct pt) (zip ct_vec share0))))))"

text \<open>
  Step 2: one cell of the lambda \<open>ecd_program\<close>. The coefficient buffer belongs to the job and keeps its
  contents from cell to cell; the array of plaintexts is shared by all jobs.
\<close>

record ecd_job =
  ej_log2_nrows :: nat
  ej_nrows :: nat
  ej_shape :: "nat \<times> nat"
  ej_num_row_blks :: nat
  ej_num_col_blks :: nat

definition ecd_cell ::
    "MVPPrivImpl \<Rightarrow> MatView \<Rightarrow> ecd_job \<Rightarrow> nat \<times> nat \<Rightarrow> u64 list \<times> rlwe_pt list
      \<Rightarrow> unit outcome \<times> u64 list \<times> rlwe_pt list" where
  "ecd_cell I mat J cell st =
     (let (rblk, cblk) = cell; (coeffs, pt_mat) = st; (row_blk_sze, col_blk_sze) = ej_shape J;
          is_ntt_form = (MVP_VERSION \<noteq> ''1.2.0'');
          rows = bit_reversed_rows (sr_arith (priv_rt I)) (row_base (ej_num_row_blks J) (ej_nrows J) rblk)
                   (ej_log2_nrows J) row_blk_sze;
          idx = rblk * ej_num_col_blks J + cblk
      in case encode_block mat row_blk_sze col_blk_sze rows cblk coeffs of
           Inl e \<Rightarrow> (Inl e, coeffs, pt_mat)
         | Inr coeffs \<Rightarrow>
             if length pt_mat \<le> idx then (Inl (Throws (Out_of_range ''vector::at'')), coeffs, pt_mat)
             else let (r, pt) = priv_Vec2Poly I coeffs (pt_mat ! idx) encode_weight is_ntt_form
                  in (r, coeffs, pt_mat[idx := pt]))"

fun ecd_cells ::
    "MVPPrivImpl \<Rightarrow> MatView \<Rightarrow> ecd_job \<Rightarrow> (nat \<times> nat) list \<Rightarrow> u64 list \<times> rlwe_pt list
      \<Rightarrow> unit outcome \<times> u64 list \<times> rlwe_pt list" where
  "ecd_cells I mat J [] st = (Inr (), st)"
| "ecd_cells I mat J (cell # cells) st =
     (case ecd_cell I mat J cell st of
        (Inl e, st) \<Rightarrow> (Inl e, st)
      | (Inr _, st) \<Rightarrow> ecd_cells I mat J cells st)"

definition job_cells :: "nat \<Rightarrow> nat \<times> nat \<Rightarrow> (nat \<times> nat) list" where
  "job_cells num_col_blks rng = List.product [fst rng..<snd rng] [0..<num_col_blks]"

definition ecd_program ::
    "MVPPrivImpl \<Rightarrow> MatView \<Rightarrow> ecd_job \<Rightarrow> nat \<times> nat \<Rightarrow> rlwe_pt list \<Rightarrow> unit outcome \<times> rlwe_pt list" where
  "ecd_program I mat J rng pt_mat =
     (let (r, coeffs, pt_mat) = ecd_cells I mat J (job_cells (ej_num_col_blks J) rng)
                                  (replicate (priv_poly_degree I) 0, pt_mat)
      in (r, pt_mat))"

definition ecd_setup :: "MatView \<Rightarrow> nat \<times> nat \<Rightarrow> ecd_job outcome" where
  "ecd_setup mat shape =
     (let nrows = NextPow2 (mv_nrows mat);
          num_row_blks = CeilDiv nrows (fst shape); num_col_blks = CeilDiv (mv_ncols mat) (snd shape)
      in obind (Log2 (nrows - 1)) (\<lambda>log2_nrows.
         Inr \<lparr>ej_log2_nrows = log2_nrows, ej_nrows = nrows, ej_shape = shape,
              ej_num_row_blks = num_row_blks, ej_num_col_blks = num_col_blks\<rparr>))"

text \<open>The loop of the first version: the jobs one after the other, their statuses dropped.\<close>

fun ecd_serial ::
    "MVPPrivImpl \<Rightarrow> MatView \<Rightarrow> ecd_job \<Rightarrow> (nat \<times> nat) list \<Rightarrow> rlwe_pt list \<Rightarrow> rlwe_pt list outcome" where
  "ecd_serial I mat J [] pt_mat = Inr pt_mat"
| "ecd_serial I mat J (rng # rngs) pt_mat =
     (let (r, pt_mat) = ecd_program I mat J rng pt_mat
      in obind (drop_status r) (\<lambda>_. ecd_serial I mat J rngs pt_mat))"

definition encode_matrix :: "MVPContext \<Rightarrow> MVPPrivImpl \<Rightarrow> MatView \<Rightarrow> nat \<times> nat \<Rightarrow> rlwe_pt list outcome" where
  "encode_matrix rt I mat shape =
     obind (ecd_setup mat shape) (\<lambda>J.
       ecd_serial I mat J (thread_ranges (ej_num_row_blks J) (thread_pool_size rt))
         (replicate (ej_num_row_blks J * ej_num_col_blks J) fresh_ptx))"

text \<open>Steps 5 and 6: masking, clearing and serialization.\<close>

definition finish_product ::
    "MVPPrivImpl \<Rightarrow> VecBuffer option \<Rightarrow> rlwe_pt \<Rightarrow> rlwe_ct \<Rightarrow> string list outcome" where
  "finish_product I out_mask mask_poly matvec =
     requires (\<not> ct_is_ntt_form matvec) (Failed INTERNAL ''matvec RLWE should in non-ntt form'')
     (obind (case out_mask of
               None \<Rightarrow> Inr matvec
             | Some _ \<Rightarrow> add_plain_inplace (priv_rt I) matvec (mask_poly\<lparr>pt_scale := ct_scale matvec\<rparr>)) (\<lambda>matvec.
      obind (DropUnusedCoeffs I matvec) (\<lambda>matvec.
      obind (EncodeSEALObject (priv_seal_rt I) matvec) (\<lambda>out. Inr [out]))))"

section \<open>MatVec\<close>

text \<open>
  What is common to the two versions, given the stage that encodes the matrix. The share of the caller is
  in the buffer even when a later stage fails.
\<close>

definition matvec_with ::
    "(nat \<times> nat \<Rightarrow> rlwe_pt list outcome) \<Rightarrow> fpga_env \<Rightarrow> nat \<Rightarrow> MVPPrivImpl \<Rightarrow> MatView \<Rightarrow> VecView option
      \<Rightarrow> StrBufView \<Rightarrow> VecBuffer option \<Rightarrow> cprng \<Rightarrow> string list outcome \<times> VecBuffer option \<times> cprng" where
  "matvec_with encode E buffer_index I mat vec_share0 vec_share1 out_mask s =
     (case matvec_guards I mat vec_share0 vec_share1 out_mask of
        Inl e \<Rightarrow> (Inl e, out_mask, s)
      | Inr shape \<Rightarrow>
          let (sampled, mask_poly, out_mask, s) = sample_mask_program I out_mask s
          in (obind (drop_status sampled) (\<lambda>_.
              obind (add_shares I vec_share0 vec_share1) (\<lambda>ct_vec.
              obind (encode shape) (\<lambda>pt_mat.
              obind (MatVecCore E buffer_index I ct_vec pt_mat) (finish_product I out_mask mask_poly)))),
              out_mask, s))"

definition priv_MatVec ::
    "fpga_env \<Rightarrow> nat \<Rightarrow> MVPContext \<Rightarrow> MVPPrivImpl \<Rightarrow> MatView \<Rightarrow> VecView option \<Rightarrow> StrBufView
      \<Rightarrow> VecBuffer option \<Rightarrow> cprng \<Rightarrow> string list outcome \<times> VecBuffer option \<times> cprng" where
  "priv_MatVec E buffer_index rt I mat = matvec_with (encode_matrix rt I mat) E buffer_index I mat"

section \<open>The version with worker threads\<close>

text \<open>
  Each job is a task of the thread pool: its remaining cells, its coefficient buffer and its status. A step
  of a worker encodes one cell; the order in which the workers get to run is the list of the jobs whose turn
  it is. A failed job has no cells left.
\<close>

record ecd_task =
  et_cells :: "(nat \<times> nat) list"
  et_coeffs :: "u64 list"
  et_status :: "unit outcome"

definition task_step ::
    "MVPPrivImpl \<Rightarrow> MatView \<Rightarrow> ecd_job \<Rightarrow> nat \<Rightarrow> ecd_task list \<times> rlwe_pt list \<Rightarrow> ecd_task list \<times> rlwe_pt list" where
  "task_step I mat J j st =
     (let (tasks, pt_mat) = st in
      if length tasks \<le> j then st
      else case et_cells (tasks ! j) of
        [] \<Rightarrow> st
      | cell # cells \<Rightarrow>
          let (r, coeffs, pt_mat) = ecd_cell I mat J cell (et_coeffs (tasks ! j), pt_mat)
          in (tasks[j := \<lparr>et_cells = (case r of Inl e \<Rightarrow> [] | Inr _ \<Rightarrow> cells), et_coeffs = coeffs, et_status = r\<rparr>], pt_mat))"

definition run_tasks ::
    "MVPPrivImpl \<Rightarrow> MatView \<Rightarrow> ecd_job \<Rightarrow> nat list \<Rightarrow> ecd_task list \<times> rlwe_pt list \<Rightarrow> ecd_task list \<times> rlwe_pt list" where
  "run_tasks I mat J sched st = fold (task_step I mat J) sched st"

definition launch_tasks :: "MVPPrivImpl \<Rightarrow> ecd_job \<Rightarrow> (nat \<times> nat) list \<Rightarrow> ecd_task list" where
  "launch_tasks I J rngs =
     map (\<lambda>rng. \<lparr>et_cells = job_cells (ej_num_col_blks J) rng,
                   et_coeffs = replicate (priv_poly_degree I) 0, et_status = Inr ()\<rparr>) rngs"

text \<open>
  \<open>get\<close> of the futures in order: it waits for ever for a task that does not finish. A failed status leaves the function
  at once; if another task still has cells to encode then, it goes on with references to plaintexts that are gone.
\<close>

definition encode_matrix_MT ::
    "nat list \<Rightarrow> MVPContext \<Rightarrow> MVPPrivImpl \<Rightarrow> MatView \<Rightarrow> nat \<times> nat \<Rightarrow> rlwe_pt list outcome" where
  "encode_matrix_MT sched rt I mat shape =
     obind (ecd_setup mat shape) (\<lambda>J.
       let (tasks, pt_mat) = run_tasks I mat J sched
             (launch_tasks I J (thread_ranges (ej_num_row_blks J) (thread_pool_size rt)),
              replicate (ej_num_row_blks J * ej_num_col_blks J) fresh_ptx)
       in obind (omap (\<lambda>t. if et_cells t \<noteq> [] then Inl (Undefined ''does not return'')
                            else case et_status t of
                              Inl e \<Rightarrow> Inl (if list_all (\<lambda>t. et_cells t = []) tasks then e else Undefined ''pt_mat'')
                            | Inr _ \<Rightarrow> Inr ()) tasks) (\<lambda>_.
          Inr pt_mat))"

definition priv_MatVec_MT ::
    "nat list \<Rightarrow> fpga_env \<Rightarrow> nat \<Rightarrow> MVPContext \<Rightarrow> MVPPrivImpl \<Rightarrow> MatView \<Rightarrow> VecView option \<Rightarrow> StrBufView
      \<Rightarrow> VecBuffer option \<Rightarrow> cprng \<Rightarrow> bool \<Rightarrow> string list outcome \<times> VecBuffer option \<times> cprng" where
  "priv_MatVec_MT sched E buffer_index rt I mat vec_share0 vec_share1 out_mask s MT_in_subblock =
     matvec_with (if MT_in_subblock then encode_matrix_MT sched rt I mat else encode_matrix rt I mat)
       E buffer_index I mat vec_share0 vec_share1 out_mask s"

section \<open>The api\<close>

text \<open>The checks of every entry point, and the object it makes: it has no generator yet.\<close>

definition with_impl ::
    "MVPContext option \<Rightarrow> MVPMetaInfo \<Rightarrow> cprng \<Rightarrow> 'a
      \<Rightarrow> (MVPContext \<Rightarrow> MVPPrivImpl \<Rightarrow> cprng \<Rightarrow> string list outcome \<times> 'a \<times> cprng)
      \<Rightarrow> string list outcome \<times> 'a \<times> cprng" where
  "with_impl rt meta s out_share k =
     (case rt of
        None \<Rightarrow> (Inl (Failed INVALID_ARGUMENT ''FPGA is not enabled yet''), out_share, s)
      | Some rt \<Rightarrow>
          if \<not> IsFPGAEnabled rt then (Inl (Failed INVALID_ARGUMENT ''FPGA is not enabled yet''), out_share, s)
          else case MVPPrivImpl_new meta (cx_ms_helper rt) (cx_seal_context rt) of
            Inl e \<Rightarrow> (Inl e, out_share, s)
          | Inr impl \<Rightarrow> k rt impl (s\<lparr>cp_prng := None\<rparr>))"

definition api_MatVec_masked ::
    "fpga_env \<Rightarrow> nat \<Rightarrow> MVPContext option \<Rightarrow> MatView \<Rightarrow> VecView \<Rightarrow> StrBufView \<Rightarrow> MVPMetaInfo \<Rightarrow> VecBuffer \<Rightarrow> cprng
      \<Rightarrow> string list outcome \<times> VecBuffer option \<times> cprng" where
  "api_MatVec_masked E b rt mat vec_share vec_share_ct meta out_share s =
     with_impl rt meta s (Some out_share) (\<lambda>rt impl.
       priv_MatVec E b rt impl mat (Some vec_share) vec_share_ct (Some out_share))"

definition api_MatVec ::
    "fpga_env \<Rightarrow> nat \<Rightarrow> MVPContext option \<Rightarrow> MatView \<Rightarrow> StrBufView \<Rightarrow> MVPMetaInfo \<Rightarrow> cprng
      \<Rightarrow> string list outcome \<times> VecBuffer option \<times> cprng" where
  "api_MatVec E b rt mat vec_share_ct meta s =
     with_impl rt meta s None (\<lambda>rt impl. priv_MatVec E b rt impl mat None vec_share_ct None)"

definition api_MatVec_MT ::
    "nat list \<Rightarrow> fpga_env \<Rightarrow> nat \<Rightarrow> MVPContext option \<Rightarrow> MatView \<Rightarrow> StrBufView \<Rightarrow> MVPMetaInfo \<Rightarrow> cprng \<Rightarrow> bool
      \<Rightarrow> string list outcome \<times> VecBuffer option \<times> cprng" where
  "api_MatVec_MT sched E b rt mat vec_share_ct meta s MT_in_subblock =
     with_impl rt meta s None (\<lambda>rt impl s.
       priv_MatVec_MT sched E b rt impl mat None vec_share_ct None s MT_in_subblock)"

definition api_MatVec_shared ::
    "fpga_env \<Rightarrow> nat \<Rightarrow> MVPContext option \<Rightarrow> MatView \<Rightarrow> VecView \<Rightarrow> StrBufView \<Rightarrow> MVPMetaInfo \<Rightarrow> cprng
      \<Rightarrow> string list outcome \<times> VecBuffer option \<times> cprng" where
  "api_MatVec_shared E b rt mat vec_share vec_share_ct meta s =
     with_impl rt meta s None (\<lambda>rt impl. priv_MatVec E b rt impl mat (Some vec_share) vec_share_ct None)"

end
