(* ===== verification/PublicCorrect.thy ===== *)
theory PublicCorrect
  imports Public
begin

text \<open>
  Correctness of the operations of theory \<open>Public\<close>: the polynomial that \<open>Vec2Poly\<close> encodes a vector as, what
  the ciphertexts of \<open>EncryptVector\<close> decrypt to, and the share that \<open>Decrypt\<close> returns, also after
  \<open>UpdateMatVec\<close>. The integer polynomials behind the residues are lists of natural numbers.
\<close>

section \<open>Residue arrays of integer polynomials\<close>

lemma nth_rns_array:
  assumes "l < length qs" "i < length ys"
  shows "rns_array qs ys ! (l * length ys + i) = of_nat (ys ! i mod unat (qs ! l))"
  unfolding rns_array_def using assms by (subst nth_concat_rows) auto

lemma limb_rns_array:
  assumes "l < length qs" "length ys = N"
  shows "limb N (rns_array qs ys) l = map (\<lambda>y. of_nat (y mod unat (qs ! l))) ys"
  unfolding rns_array_def
  using limb_concat [of l "map (\<lambda>q. map (\<lambda>y. of_nat (y mod unat q)) ys) qs" N "[]"] assms by auto

lemma unat_residue: "valid_modulus q \<Longrightarrow> unat (of_nat (y mod unat q) :: u64) = y mod unat q"
proof -
  assume q: "valid_modulus q"
  have "y mod unat q < unat q" using q by (simp add: valid_modulus_def)
  then have "y mod unat q < 2 ^ 64" using unat64_less [of q] by linarith
  then show ?thesis by (simp add: unat_of_nat)
qed

lemma reduced_residues: "valid_modulus q \<Longrightarrow> reduced q (map (\<lambda>y. of_nat (y mod unat q)) ys)"
  by (auto simp: reduced_def word_less_nat_alt unat_residue valid_modulus_def)

lemma rns_ok_rns_array:
  "\<forall>q \<in> set qs. valid_modulus q \<Longrightarrow> length ys = N \<Longrightarrow> rns_ok N qs (rns_array qs ys)"
  by (simp add: rns_ok_def limb_rns_array reduced_residues)

lemma rns_add_rns_array:
  assumes S: "seal_arith_ok (sr_arith R)" and q: "\<forall>q \<in> set qs. valid_modulus q"
    and len: "length xs = N" "length ys = N"
  shows "rns_add R N qs (rns_array qs xs) (rns_array qs ys) = rns_array qs (map2 (+) xs ys)"
proof (rule limbs_eqI)
  show "length (rns_add R N qs (rns_array qs xs) (rns_array qs ys)) = length qs * N"
    using rns_ok_add [OF S q rns_ok_rns_array [OF q len(1)] rns_ok_rns_array [OF q len(2)]] by (simp add: rns_ok_def)
  show "length (rns_array qs (map2 (+) xs ys)) = length qs * N" using len by simp
next
  fix l
  assume l: "l < length qs"
  then have ql: "valid_modulus (qs ! l)" using q by simp
  let ?r = "\<lambda>zs. map (\<lambda>y. of_nat (y mod unat (qs ! l))) zs :: u64 list"
  have "add_poly_coeffmod (sr_arith R) (qs ! l) (?r xs) (?r ys) = ?r (map2 (+) xs ys)"
  proof (rule nth_equalityI)
    fix i
    assume "i < length (add_poly_coeffmod (sr_arith R) (qs ! l) (?r xs) (?r ys))"
    then have i: "i < N" using len by simp
    have "unat (add_poly_coeffmod (sr_arith R) (qs ! l) (?r xs) (?r ys) ! i)
        = (unat (?r xs ! i) + unat (?r ys ! i)) mod unat (qs ! l)"
      using i len by (intro add_poly_nth [OF S ql]) (simp_all add: reduced_residues ql)
    also have "\<dots> = unat (?r (map2 (+) xs ys) ! i)"
      using i len ql by (simp add: unat_residue mod_simps)
    finally show "add_poly_coeffmod (sr_arith R) (qs ! l) (?r xs) (?r ys) ! i = ?r (map2 (+) xs ys) ! i"
      by (simp only: word_unat_eq_iff)
  qed (use len in simp)
  then show "limb N (rns_add R N qs (rns_array qs xs) (rns_array qs ys)) l = limb N (rns_array qs (map2 (+) xs ys)) l"
    using limb_rns_add [OF rns_ok_rns_array [OF q len(1)] rns_ok_rns_array [OF q len(2)] l] l len
    by (simp add: limb_rns_array)
qed

lemma rns_array_mod:
  assumes "\<And>q. q \<in> set qs \<Longrightarrow> unat q dvd Q"
  shows "rns_array qs (map (\<lambda>y. y mod Q) ys) = rns_array qs ys"
  unfolding rns_array_def using assms by (simp add: mod_mod_cancel cong: map_cong)

section \<open>Encoding\<close>

text \<open>The integer polynomial of a share vector: the scaled entries, then zeros.\<close>

definition share_poly :: "seal_context \<Rightarrow> nat \<Rightarrow> u64 list \<Rightarrow> nat list" where
  "share_poly C k vec = map (\<lambda>x. up_value (sc_total_modulus C) k (unat x)) vec @ replicate (sc_degree C - length vec) 0"

lemma length_share_poly: "length vec \<le> sc_degree C \<Longrightarrow> length (share_poly C k vec) = sc_degree C"
  by (simp add: share_poly_def)

text \<open>The extra prime, the last one of the key level.\<close>

definition extra_prime :: "seal_context \<Rightarrow> nat" where
  "extra_prime C = unat (last (sc_key_moduli C))"

definition impl_ok :: "MVPPublicImpl \<Rightarrow> nat \<Rightarrow> bool" where
  "impl_ok I k \<longleftrightarrow> lib_ok (pub_seal_rt I) \<and> ms_wf (pub_ms_helper I) (pub_ctx I) k \<and> pub_is_proper_config I"

lemma lib_okD:
  assumes "lib_ok L"
  shows "seal_arith_ok (sl_arith L)" "seal_context_ok (sl_ctx L)"
    "\<forall>q \<in> set (sc_key_moduli (sl_ctx L)). valid_modulus q" "\<forall>q \<in> set (sc_first_moduli (sl_ctx L)). valid_modulus q"
    "sc_key_moduli (sl_ctx L) = sc_first_moduli (sl_ctx L) @ [last (sc_key_moduli (sl_ctx L))]"
    "3 \<le> length (sc_key_moduli (sl_ctx L))"
proof -
  show "seal_arith_ok (sl_arith L)" "seal_context_ok (sl_ctx L)" using assms by (simp_all add: lib_ok_def)
  then have C: "sc_first_moduli (sl_ctx L) = butlast (sc_key_moduli (sl_ctx L))" "2 \<le> length (sc_first_moduli (sl_ctx L))"
    "\<forall>q \<in> set (sc_key_moduli (sl_ctx L)). valid_modulus q" unfolding seal_context_ok_def by blast+
  then show "\<forall>q \<in> set (sc_key_moduli (sl_ctx L)). valid_modulus q" by simp
  show "\<forall>q \<in> set (sc_first_moduli (sl_ctx L)). valid_modulus q" using C by (auto dest: in_set_butlastD)
  show "sc_key_moduli (sl_ctx L) = sc_first_moduli (sl_ctx L) @ [last (sc_key_moduli (sl_ctx L))]"
    using C(1,2) by (metis append_butlast_last_id list.size(3) butlast.simps(1) not_numeral_le_zero)
  show "3 \<le> length (sc_key_moduli (sl_ctx L))" using C(2) unfolding C(1) by simp
qed

lemma up_entry_limb:
  assumes "seal_arith_ok S" "ms_wf h C k" "j < length (sc_first_moduli C)" "valid_modulus (sc_first_moduli C ! j)"
  shows "map (ModulusUpAt_entry S h j) vec @ replicate m 0
    = map (\<lambda>y. of_nat (y mod unat (sc_first_moduli C ! j))) (map (\<lambda>x. up_value (sc_total_modulus C) k (unat x)) vec @ replicate m 0)"
  using assms by (simp add: ModulusUpAt_entry_residue residues_def)

lemma pub_limb_plain:
  assumes I: "impl_ok I k" and j: "j < length (sc_first_moduli (pub_ctx I))" and n: "length vec \<le> sc_degree (pub_ctx I)"
  shows "pub_vec2poly_limb I (sc_first_moduli (pub_ctx I)) vec False False data j
    = Inr (map (\<lambda>y. of_nat (y mod unat (sc_first_moduli (pub_ctx I) ! j))) (share_poly (pub_ctx I) k vec))"
proof -
  have L: "lib_ok (pub_seal_rt I)" and h: "ms_wf (pub_ms_helper I) (pub_ctx I) k" using I by (simp_all add: impl_ok_def)
  have "valid_modulus (sc_first_moduli (pub_ctx I) ! j)" using lib_okD(4) [OF L] j by simp
  then show ?thesis
    using up_entry_limb [OF lib_okD(1) [OF L] h j] ModulusUpAt_ok [OF h j]
    by (simp add: pub_vec2poly_limb_def Let_def share_poly_def pub_poly_degree_def)
qed

lemma pub_limb_extra:
  assumes I: "impl_ok I k" and j: "j < length (sc_key_moduli (pub_ctx I))" and n: "length vec \<le> sc_degree (pub_ctx I)"
  shows "pub_vec2poly_limb I (sc_key_moduli (pub_ctx I)) vec False True data j
    = Inr (map (\<lambda>y. of_nat (y mod unat (sc_key_moduli (pub_ctx I) ! j)))
         (map ((*) (extra_prime (pub_ctx I))) (share_poly (pub_ctx I) k vec)))"
proof -
  let ?ms = "sc_key_moduli (pub_ctx I)" and ?fs = "sc_first_moduli (pub_ctx I)" and ?S = "sl_arith (pub_seal_rt I)"
  have L: "lib_ok (pub_seal_rt I)" and h: "ms_wf (pub_ms_helper I) (pub_ctx I) k" using I by (simp_all add: impl_ok_def)
  note D = lib_okD [OF L]
  have len: "length ?ms = Suc (length ?fs)" using arg_cong [OF D(5), of length] by simp
  show ?thesis
  proof (cases "j + 1 = length ?ms")
    case True
    then have "?ms ! j = last ?ms" by (metis add_diff_cancel_right' last_conv_nth list.size(3) add_is_0 one_neq_zero)
    then have "unat (?ms ! j) = extra_prime (pub_ctx I)" by (simp add: extra_prime_def)
    then have "map (\<lambda>y. of_nat (y mod unat (?ms ! j)) :: u64) (map ((*) (extra_prime (pub_ctx I))) (share_poly (pub_ctx I) k vec))
        = replicate (sc_degree (pub_ctx I)) 0"
      using length_share_poly [OF n, of k] by (intro nth_equalityI) simp_all
    moreover have "pub_vec2poly_limb I ?ms vec False True data j = Inr (replicate (sc_degree (pub_ctx I)) 0)"
      using True by (simp add: pub_vec2poly_limb_def Let_def pub_poly_degree_def)
    ultimately show ?thesis by (simp only:)
  next
    case False
    then have jf: "j < length ?fs" using j len by simp
    then have mj: "?ms ! j = ?fs ! j" using arg_cong [OF D(5), of "\<lambda>xs. xs ! j"] by (simp add: nth_append)
    have q: "valid_modulus (?fs ! j)" using D(4) jf by simp
    have mul: "multiply_uint_mod ?S (ModulusUpAt_entry ?S (pub_ms_helper I) j x) (last ?ms) (?fs ! j)
        = of_nat (extra_prime (pub_ctx I) * up_value (sc_total_modulus (pub_ctx I)) k (unat x) mod unat (?fs ! j))" for x
    proof -
      have "unat (multiply_uint_mod ?S (ModulusUpAt_entry ?S (pub_ms_helper I) j x) (last ?ms) (?fs ! j))
          = (up_value (sc_total_modulus (pub_ctx I)) k (unat x) mod unat (?fs ! j)) * unat (last ?ms) mod unat (?fs ! j)"
        using D(1) q ModulusUpAt_entry_residue [OF D(1) h jf, of x] jf
        by (simp add: seal_arith_ok_def seal_mod_ok_def residues_def unat_residue)
      then show ?thesis
        by (simp add: word_unat_eq_iff unat_residue [OF q] extra_prime_def mod_simps mult.commute)
    qed
    show ?thesis
      using False ModulusUpAt_ok [OF h jf]
      by (simp add: pub_vec2poly_limb_def Let_def pub_poly_degree_def multiply_poly_scalar_coeffmod_def share_poly_def
          mj mul)
  qed
qed

lemma rns_array_map: "rns_array qs ys = concat (map (\<lambda>j. map (\<lambda>y. of_nat (y mod unat (qs ! j))) ys) [0..<length qs])"
  unfolding rns_array_def by (intro arg_cong [where f = concat] nth_equalityI) simp_all

lemma InitPtx_level:
  assumes "sr_context_moduli (sl_rt L) pid = Some ms" "pid \<noteq> parms_id_zero" "length ms * sc_degree (sl_ctx L) < 2 ^ 64"
  shows "InitPtx (sl_rt L) fresh_ptx pid
    = Inr (fresh_ptx\<lparr>pt_parms_id := pid, pt_data := replicate (length ms * sc_degree (sl_ctx L)) 0\<rparr>)"
  using assms by (simp add: InitPtx_def Let_def fresh_ptx_def vec_resize_def)

lemma levels:
  assumes "lib_ok L"
  shows "sr_context_moduli (sl_rt L) (sr_key_parms_id (sl_rt L)) = Some (sc_key_moduli (sl_ctx L))"
    "sr_context_moduli (sl_rt L) (sr_first_parms_id (sl_rt L)) = Some (sc_first_moduli (sl_ctx L))"
    "length (sc_key_moduli (sl_ctx L)) * sc_degree (sl_ctx L) < 2 ^ 64"
    "length (sc_first_moduli (sl_ctx L)) * sc_degree (sl_ctx L) < 2 ^ 64"
    "sr_key_parms_id (sl_rt L) \<noteq> parms_id_zero" "sr_first_parms_id (sl_rt L) \<noteq> parms_id_zero"
proof -
  have "length (sc_first_moduli (sl_ctx L)) \<le> length (sc_key_moduli (sl_ctx L))"
    using arg_cong [OF lib_okD(5) [OF assms], of length] by simp
  then have "length (sc_first_moduli (sl_ctx L)) * sc_degree (sl_ctx L) \<le> length (sc_key_moduli (sl_ctx L)) * sc_degree (sl_ctx L)"
    by (rule mult_le_mono1)
  moreover show "length (sc_key_moduli (sl_ctx L)) * sc_degree (sl_ctx L) < 2 ^ 64" using assms unfolding lib_ok_def by blast
  ultimately show "length (sc_first_moduli (sl_ctx L)) * sc_degree (sl_ctx L) < 2 ^ 64" by linarith
qed (use assms in \<open>auto simp: lib_ok_def\<close>)

text \<open>The plaintexts at the two levels.\<close>

definition key_pt :: "MVPPublicImpl \<Rightarrow> nat \<Rightarrow> u64 list \<Rightarrow> rlwe_pt" where
  "key_pt I k vec = fresh_ptx\<lparr>pt_parms_id := sr_key_parms_id (pub_rt I),
     pt_data := rns_array (sc_key_moduli (pub_ctx I)) (map ((*) (extra_prime (pub_ctx I))) (share_poly (pub_ctx I) k vec))\<rparr>"

definition data_pt :: "MVPPublicImpl \<Rightarrow> nat \<Rightarrow> u64 list \<Rightarrow> rlwe_pt" where
  "data_pt I k vec = fresh_ptx\<lparr>pt_parms_id := sr_first_parms_id (pub_rt I),
     pt_data := rns_array (sc_first_moduli (pub_ctx I)) (share_poly (pub_ctx I) k vec)\<rparr>"

lemma pub_Vec2Poly_lemma:
  assumes I: "impl_ok I k" and vec: "vec \<noteq> []" "length vec \<le> sc_degree (pub_ctx I)"
  shows "pub_Vec2Poly I vec fresh_ptx False True = Inr (key_pt I k vec)"
    and "pub_Vec2Poly I vec fresh_ptx False False = Inr (data_pt I k vec)"
proof -
  have L: "lib_ok (pub_seal_rt I)" using I by (simp add: impl_ok_def)
  have "omap (pub_vec2poly_limb I (sc_key_moduli (pub_ctx I)) vec False True data) [0..<length (sc_key_moduli (pub_ctx I))]
      = Inr (map (\<lambda>j. map (\<lambda>y. of_nat (y mod unat (sc_key_moduli (pub_ctx I) ! j)))
          (map ((*) (extra_prime (pub_ctx I))) (share_poly (pub_ctx I) k vec))) [0..<length (sc_key_moduli (pub_ctx I))])" for data
    by (rule omap_all_Inr, rule pub_limb_extra [OF I _ vec(2)]) simp
  then show "pub_Vec2Poly I vec fresh_ptx False True = Inr (key_pt I k vec)"
    using InitPtx_level [OF levels(1,5,3) [OF L]] levels(1) [OF L] vec
    by (simp add: pub_Vec2Poly_def pub_poly_degree_def key_pt_def rns_array_map)
  have "omap (pub_vec2poly_limb I (sc_first_moduli (pub_ctx I)) vec False False data) [0..<length (sc_first_moduli (pub_ctx I))]
      = Inr (map (\<lambda>j. map (\<lambda>y. of_nat (y mod unat (sc_first_moduli (pub_ctx I) ! j)))
          (share_poly (pub_ctx I) k vec)) [0..<length (sc_first_moduli (pub_ctx I))])" for data
    by (rule omap_all_Inr, rule pub_limb_plain [OF I _ vec(2)]) simp
  then show "pub_Vec2Poly I vec fresh_ptx False False = Inr (data_pt I k vec)"
    using InitPtx_level [OF levels(2,6,4) [OF L]] levels(2) [OF L] vec
    by (simp add: pub_Vec2Poly_def pub_poly_degree_def data_pt_def rns_array_map)
qed

text \<open>
  \<open>Vec2Poly\<close> encodes a share vector as one integer polynomial: for every context and every vector that
  fits the degree, the plaintext at the data level holds the residues of \<open>round(Q x / 2 ^ k)\<close> followed by
  zeros, and the one at the key level those of the same polynomial times the extra prime, whose own
  residues are zero.
\<close>

theorem Vec2Poly_encodes:
  assumes "impl_ok I k" "vec \<noteq> []" "length vec \<le> sc_degree (pub_ctx I)"
  shows "map_sum id pt_data (pub_Vec2Poly I vec fresh_ptx False False)
      = Inr (rns_array (sc_first_moduli (pub_ctx I)) (share_poly (pub_ctx I) k vec)) \<and>
    map_sum id pt_data (pub_Vec2Poly I vec fresh_ptx False True)
      = Inr (rns_array (sc_key_moduli (pub_ctx I)) (map ((*) (extra_prime (pub_ctx I))) (share_poly (pub_ctx I) k vec)))"
  by (simp add: pub_Vec2Poly_lemma [OF assms] key_pt_def data_pt_def)

section \<open>Encryption\<close>

text \<open>What the constructor checks.\<close>

lemma impl_ofD:
  assumes "ctx_ok rt" "impl_of rt meta = Inr I"
  shows "impl_ok I 64" "pub_config I = meta" "pub_seal_rt I = cx_seal_context rt"
    "0 < mi_nrows meta" "0 < mi_ncols meta" "mi_nrows meta \<le> 4096" "mi_ncols meta \<le> 16384"
    "mi_ncols meta * mi_nrows meta < 50331648"
  using assms
  by (auto simp: impl_of_def MVPPublicImpl_new_def pub_check_config_def Let_def impl_ok_def ctx_ok_def
      kSecretShareBitLen_def kMaxNumRows_def kMaxNumCols_def kPolyDegree_def split: if_splits)

lemma base_mask_iff:
  assumes "mi_base_mod_nbits c \<le> 64"
  shows "x \<le> base_mask c \<longleftrightarrow> unat x < 2 ^ mi_base_mod_nbits c"
proof (cases "mi_base_mod_nbits c = 64")
  case True
  then show ?thesis using unat64_less [of x] by (simp add: base_mask_def)
next
  case False
  then have k: "mi_base_mod_nbits c < 64" using assms by simp
  define m where "m = (2 :: u64) ^ mi_base_mod_nbits c"
  have u: "unat m = 2 ^ mi_base_mod_nbits c" unfolding m_def using k by (simp add: unat_two_power)
  then have "0 < unat m" by simp
  then have "unat (m - 1) = unat m - 1" by (simp add: unat_sub word_le_nat_alt)
  moreover have "base_mask c = m - 1" using k by (simp add: base_mask_def push_bit_eq_mult m_def)
  ultimately have "x \<le> base_mask c \<longleftrightarrow> unat x \<le> unat m - 1" by (simp only: word_le_nat_alt)
  also have "\<dots> \<longleftrightarrow> unat x < unat m" using \<open>0 < unat m\<close> by linarith
  finally show ?thesis by (simp only: u)
qed

lemma pub_EncodeVector_lemma:
  assumes I: "impl_ok I k" and deg: "sc_degree (pub_ctx I) = 2 ^ K"
    and shape: "GetSubmatrixShape (pub_config I) (2 ^ K) = Inr (r, w)" "0 < w" "w \<le> 2 ^ K"
    and v: "length v = ExpectMatVecInputLen (pub_config I)" "length v + w \<le> 2 ^ 64"
  shows "pub_EncodeVector I v False True = Inr (map (key_pt I k) (subvectors w v))"
    and "pub_EncodeVector I v False False = Inr (map (data_pt I k) (subvectors w v))"
proof -
  have "sub \<noteq> [] \<and> length sub \<le> sc_degree (pub_ctx I)" if "sub \<in> set (subvectors w v)" for sub
    using subvectors_bounds [OF shape(2) v(2) that] shape(3) deg by auto
  then have "omap (\<lambda>sub. if sub = [] then Inl (Throws (Invalid_argument ''nullptr''))
        else pub_Vec2Poly I sub fresh_ptx False True) (subvectors w v) = Inr (map (key_pt I k) (subvectors w v))"
    "omap (\<lambda>sub. if sub = [] then Inl (Throws (Invalid_argument ''nullptr''))
        else pub_Vec2Poly I sub fresh_ptx False False) (subvectors w v) = Inr (map (data_pt I k) (subvectors w v))"
    by (intro omap_all_Inr; simp add: pub_Vec2Poly_lemma [OF I])+
  then show "pub_EncodeVector I v False True = Inr (map (key_pt I k) (subvectors w v))"
    "pub_EncodeVector I v False False = Inr (map (data_pt I k) (subvectors w v))"
    using I shape(1) v(1) by (simp_all add: pub_EncodeVector_def impl_ok_def pub_poly_degree_def deg)
qed

lemma rns_ok_key_pt:
  assumes "impl_ok I k" "length vec \<le> sc_degree (pub_ctx I)"
  shows "rns_ok (sc_degree (pub_ctx I)) (sc_key_moduli (pub_ctx I)) (pt_data (key_pt I k vec))"
    and "rns_ok (sc_degree (pub_ctx I)) (sc_first_moduli (pub_ctx I)) (pt_data (data_pt I k vec))"
  using assms lib_okD(3,4) [of "pub_seal_rt I"] length_share_poly [OF assms(2)]
  by (simp_all add: impl_ok_def key_pt_def data_pt_def rns_ok_rns_array)

text \<open>What SEAL's encryptions of zero must be: well-formed ciphertexts that decrypt to small noise.\<close>

definition zero_noise :: "seal_lib \<Rightarrow> u64 list \<Rightarrow> secret_key \<Rightarrow> rlwe_ct \<Rightarrow> nat list \<Rightarrow> bool" where
  "zero_noise L ms sk z noise \<longleftrightarrow> ct_coeff_ok (sl_rt L) ms z \<and> length noise = sc_degree (sl_ctx L) \<and>
     (\<exists>d. decrypt_coeffs (sl_rt L) z sk = Inr d \<and> pt_data d = rns_array ms noise)"

definition decrypt_ok :: "seal_lib \<Rightarrow> u64 list \<Rightarrow> secret_key \<Rightarrow> bool" where
  "decrypt_ok L ms sk \<longleftrightarrow> (\<forall>q \<in> set ms. ntt_ok (sl_rt L) (sc_degree (sl_ctx L)) q) \<and> metadata_ok (sl_rt L) \<and>
     length ms * sc_degree (sl_ctx L) \<le> length (pt_data sk)"

lemma encrypt_zero_plus:
  assumes S: "seal_arith_ok (sl_arith L)" and sk: "decrypt_ok L ms sk"
    and q: "\<forall>q \<in> set ms. valid_modulus q" and z: "zero_noise L ms sk z noise"
    and pt: "pt_data pt = rns_array ms ys" "length ys = sc_degree (sl_ctx L)"
  shows "\<exists>ct d. add_plain_inplace (sl_rt L) z pt = Inr ct \<and> decrypt_coeffs (sl_rt L) ct sk = Inr d \<and>
    pt_data d = rns_array ms (map2 (+) noise ys)"
proof -
  obtain d where d: "ct_coeff_ok (sl_rt L) ms z" "length noise = sc_degree (sl_ctx L)"
      "decrypt_coeffs (sl_rt L) z sk = Inr d" "pt_data d = rns_array ms noise"
    using z by (auto simp: zero_noise_def)
  have "rns_ok (sc_degree (sl_ctx L)) ms (pt_data pt)" by (simp add: pt rns_ok_rns_array [OF q])
  from decrypt_add_plain_lemma [OF S _ _ d(1) _ this d(3)] sk
  obtain ct where "add_plain_inplace (sl_rt L) z pt = Inr ct"
      "decrypt_coeffs (sl_rt L) ct sk
        = Inr (d\<lparr>pt_data := rns_add (sl_rt L) (sc_degree (sl_ctx L)) ms (pt_data d) (pt_data pt)\<rparr>)"
    unfolding decrypt_ok_def by metis
  moreover have "rns_add (sl_rt L) (sc_degree (sl_ctx L)) ms (pt_data d) (pt_data pt) = rns_array ms (map2 (+) noise ys)"
    using rns_add_rns_array [OF S q d(2) pt(2)] by (simp add: d pt)
  ultimately show ?thesis by auto
qed

text \<open>
  Ciphertexts at the key level, as the vector side sends them. SEAL does not decrypt at this level: a ciphertext of the
  key level fails \<open>is_metadata_valid_for\<close> with its defaults, so what it carries is stated by its phase \<open>c0 + c1 s\<close>,
  taken by SEAL's routines modulo each prime.
\<close>

definition key_level_ct :: "seal_lib \<Rightarrow> rlwe_ct \<Rightarrow> bool" where
  "key_level_ct L ct \<longleftrightarrow>
     ct_parms_id ct = sr_key_parms_id (sl_rt L) \<and> \<not> ct_is_ntt_form ct \<and> ct_degree ct = sc_degree (sl_ctx L) \<and>
     ct_coeff_modulus_size ct = length (sc_key_moduli (sl_ctx L)) \<and> length (ct_polys ct) = 2 \<and>
     list_all (\<lambda>p. length p = length (sc_key_moduli (sl_ctx L)) * sc_degree (sl_ctx L)) (ct_polys ct)"

definition phase_rns :: "seal_runtime \<Rightarrow> u64 list \<Rightarrow> rlwe_ct \<Rightarrow> u64 list \<Rightarrow> u64 list" where
  "phase_rns R ms ct s =
     (let N = sc_degree (sr_ctx R)
      in concat (map (\<lambda>l. phase_limb R (ms ! l) (limb N (ct_polys ct ! 0) l) (limb N (ct_polys ct ! 1) l) (limb N s l)) [0..<length ms]))"

text \<open>
  What loading makes of a saved ciphertext: the second polynomial, which may be a marker with a seed, is expanded; the
  expansion leaves a polynomial without the marker alone.
\<close>

definition expanded :: "(parms_id \<Rightarrow> u64 list \<Rightarrow> u64 list) \<Rightarrow> rlwe_ct \<Rightarrow> rlwe_ct" where
  "expanded expand ct = ct\<lparr>ct_polys := [ct_polys ct ! 0, expand (ct_parms_id ct) (ct_polys ct ! 1)]\<rparr>"

definition key_stream_ok :: "seal_lib \<Rightarrow> (parms_id \<Rightarrow> u64 list \<Rightarrow> u64 list) \<Rightarrow> bool" where
  "key_stream_ok L expand \<longleftrightarrow>
     (\<forall>ct. key_level_ct L ct \<longrightarrow> (\<exists>s. sl_ct_save L ct = Inr s \<and> sl_ct_unsafe_load L s = Inr (expanded expand ct)))"

text \<open>
  What an encryption of zero at the key level must be: a ciphertext with or without a seed whose expansion is reduced and
  has the noise as its phase.
\<close>

definition key_zero :: "seal_lib \<Rightarrow> (parms_id \<Rightarrow> u64 list \<Rightarrow> u64 list) \<Rightarrow> secret_key \<Rightarrow> rlwe_ct \<Rightarrow> nat list \<Rightarrow> bool" where
  "key_zero L expand sk z noise \<longleftrightarrow> key_level_ct L z \<and> ct_coeff_ok (sl_rt L) (sc_key_moduli (sl_ctx L)) (expanded expand z) \<and>
     length noise = sc_degree (sl_ctx L) \<and>
     phase_rns (sl_rt L) (sc_key_moduli (sl_ctx L)) (expanded expand z) (pt_data sk) = rns_array (sc_key_moduli (sl_ctx L)) noise"

definition key_phase_ok :: "seal_lib \<Rightarrow> secret_key \<Rightarrow> bool" where
  "key_phase_ok L sk \<longleftrightarrow> (\<forall>q \<in> set (sc_key_moduli (sl_ctx L)). ntt_ok (sl_rt L) (sc_degree (sl_ctx L)) q) \<and>
     length (sc_key_moduli (sl_ctx L)) * sc_degree (sl_ctx L) \<le> length (pt_data sk)"

lemma phase_rns_limbs:
  assumes S: "seal_arith_ok (sr_arith R)" and ntt: "\<forall>q \<in> set ms. ntt_ok R (sc_degree (sr_ctx R)) q"
    and ct: "ct_coeff_ok R ms ct" and sk: "length ms * sc_degree (sr_ctx R) \<le> length s"
  shows "rns_ok (sc_degree (sr_ctx R)) ms (phase_rns R ms ct s)"
    and "l < length ms \<Longrightarrow> limb (sc_degree (sr_ctx R)) (phase_rns R ms ct s) l = phase_limb R (ms ! l)
      (limb (sc_degree (sr_ctx R)) (ct_polys ct ! 0) l) (limb (sc_degree (sr_ctx R)) (ct_polys ct ! 1) l) (limb (sc_degree (sr_ctx R)) s l)"
proof -
  let ?N = "sc_degree (sr_ctx R)"
  let ?ph = "\<lambda>l. phase_limb R (ms ! l) (limb ?N (ct_polys ct ! 0) l) (limb ?N (ct_polys ct ! 1) l) (limb ?N s l)"
  have c: "rns_ok ?N ms (ct_polys ct ! 0)" "rns_ok ?N ms (ct_polys ct ! 1)" using ct by (simp_all add: ct_coeff_ok_def)
  have data: "phase_rns R ms ct s = concat (map ?ph [0..<length ms]) @ []" by (simp add: phase_rns_def Let_def)
  have ph: "length (?ph l) = ?N \<and> reduced (ms ! l) (?ph l)" if "l < length ms" for l
    using rns_okD [OF c(1) that] rns_okD [OF c(2) that] sk_limb [OF sk that] ntt that
    by (intro phase_limb_ok [OF S]) simp_all
  then have rows: "\<forall>r \<in> set (map ?ph [0..<length ms]). length r = ?N" by auto
  have limbs: "limb ?N (phase_rns R ms ct s) l = ?ph l" if "l < length ms" for l
    unfolding data using limb_concat [OF _ rows, of l "[]"] that by simp
  show "rns_ok ?N ms (phase_rns R ms ct s)"
    using length_concat_rows [OF rows] limbs ph by (simp add: rns_ok_def data)
  show "l < length ms \<Longrightarrow> limb ?N (phase_rns R ms ct s) l = ?ph l" by (rule limbs)
qed

text \<open>Adding to the first polynomial adds to the phase.\<close>

lemma phase_rns_add:
  assumes S: "seal_arith_ok (sr_arith R)" and ntt: "\<forall>q \<in> set ms. ntt_ok R (sc_degree (sr_ctx R)) q"
    and ct: "ct_coeff_ok R ms ct" and sk: "length ms * sc_degree (sr_ctx R) \<le> length s"
    and p: "rns_ok (sc_degree (sr_ctx R)) ms p"
  defines "ct' \<equiv> ct\<lparr>ct_polys := [rns_add R (sc_degree (sr_ctx R)) ms (ct_polys ct ! 0) p, ct_polys ct ! 1]\<rparr>"
  shows "ct_coeff_ok R ms ct'"
    and "phase_rns R ms ct' s = rns_add R (sc_degree (sr_ctx R)) ms (phase_rns R ms ct s) p"
proof -
  let ?N = "sc_degree (sr_ctx R)"
  have valid: "\<forall>q \<in> set ms. valid_modulus q" using ntt by (auto simp: ntt_ok_def)
  have c: "rns_ok ?N ms (ct_polys ct ! 0)" "rns_ok ?N ms (ct_polys ct ! 1)" using ct by (simp_all add: ct_coeff_ok_def)
  show ct': "ct_coeff_ok R ms ct'"
    using ct c(2) rns_ok_add [OF S valid c(1) p] by (simp add: ct_coeff_ok_def ct'_def)
  note d = phase_rns_limbs [OF S ntt ct sk] and e = phase_rns_limbs [OF S ntt ct' sk]
  show "phase_rns R ms ct' s = rns_add R ?N ms (phase_rns R ms ct s) p"
  proof (rule limbs_eqI)
    show "length (phase_rns R ms ct' s) = length ms * ?N" using e(1) by (simp add: rns_ok_def)
    show "length (rns_add R ?N ms (phase_rns R ms ct s) p) = length ms * ?N"
      using rns_ok_add [OF S valid d(1) p] by (simp add: rns_ok_def)
  next
    fix l
    assume l: "l < length ms"
    have q: "ntt_ok R ?N (ms ! l)" using ntt l by simp
    have "limb ?N (phase_rns R ms ct' s) l = phase_limb R (ms ! l)
        (add_poly_coeffmod (sr_arith R) (ms ! l) (limb ?N (ct_polys ct ! 0) l) (limb ?N p l)) (limb ?N (ct_polys ct ! 1) l) (limb ?N s l)"
      using e(2) [OF l] limb_rns_add [OF c(1) p l] by (simp add: ct'_def)
    also have "\<dots> = add_poly_coeffmod (sr_arith R) (ms ! l) (limb ?N (phase_rns R ms ct s) l) (limb ?N p l)"
      using phase_limb_add_plain [OF S q] rns_okD [OF c(1) l] rns_okD [OF c(2) l]
        rns_okD [OF p l] sk_limb [OF sk l] d(2) [OF l] by simp
    finally show "limb ?N (phase_rns R ms ct' s) l = limb ?N (rns_add R ?N ms (phase_rns R ms ct s) p) l"
      by (simp only: limb_rns_add [OF d(1) p l])
  qed
qed

text \<open>A plaintext added to an encryption of zero, seed or not, before it is saved and expanded.\<close>

lemma key_zero_plus:
  assumes L: "lib_ok L" and sk: "key_phase_ok L sk" and z: "key_zero L expand sk z noise"
    and pt: "pt_data pt = rns_array (sc_key_moduli (sl_ctx L)) ys" "length ys = sc_degree (sl_ctx L)"
  shows "\<exists>ct. add_plain_inplace (sl_rt L) z pt = Inr ct \<and> key_level_ct L ct \<and>
    ct_coeff_ok (sl_rt L) (sc_key_moduli (sl_ctx L)) (expanded expand ct) \<and>
    phase_rns (sl_rt L) (sc_key_moduli (sl_ctx L)) (expanded expand ct) (pt_data sk)
      = rns_array (sc_key_moduli (sl_ctx L)) (map2 (+) noise ys)"
proof -
  let ?R = "sl_rt L" and ?ms = "sc_key_moduli (sl_ctx L)" and ?N = "sc_degree (sl_ctx L)"
  note D = lib_okD [OF L]
  obtain c0 c1 where cc: "ct_polys z = [c0, c1]"
    using z by (auto simp: key_zero_def key_level_ct_def length_Suc_conv numeral_2_eq_2)
  have zz: "ct_coeff_ok ?R ?ms (expanded expand z)" "length noise = ?N"
    "phase_rns ?R ?ms (expanded expand z) (pt_data sk) = rns_array ?ms noise" "key_level_ct L z"
    using z by (simp_all add: key_zero_def)
  have c0: "rns_ok ?N ?ms c0" using zz(1) by (simp add: ct_coeff_ok_def expanded_def cc)
  have p: "rns_ok ?N ?ms (pt_data pt)" by (simp add: pt rns_ok_rns_array [OF D(3)])
  let ?ct = "z\<lparr>ct_polys := [rns_add ?R ?N ?ms c0 (pt_data pt), c1]\<rparr>"
  have add: "add_plain_inplace ?R z pt = Inr ?ct"
    using zz(4) p by (simp add: add_plain_inplace_def Let_def key_level_ct_def rns_ok_def cc rns_add_def mult.commute)
  have "rns_ok ?N ?ms (rns_add ?R ?N ?ms c0 (pt_data pt))" by (rule rns_ok_add [OF D(1,3) c0 p])
  then have level: "key_level_ct L ?ct" using zz(4) by (simp add: key_level_ct_def cc rns_ok_def)
  have exp: "expanded expand ?ct
      = (expanded expand z)\<lparr>ct_polys := [rns_add ?R ?N ?ms (ct_polys (expanded expand z) ! 0) (pt_data pt), ct_polys (expanded expand z) ! 1]\<rparr>"
    by (simp add: expanded_def cc)
  have sk': "\<forall>q \<in> set ?ms. ntt_ok ?R ?N q" "length ?ms * ?N \<le> length (pt_data sk)" using sk by (simp_all add: key_phase_ok_def)
  note sum = phase_rns_add [OF D(1) sk'(1) zz(1) sk'(2) p, folded exp]
  have "rns_add ?R ?N ?ms (rns_array ?ms noise) (pt_data pt) = rns_array ?ms (map2 (+) noise ys)"
    using rns_add_rns_array [OF D(1,3) zz(2) pt(2)] by (simp add: pt)
  then show ?thesis using add level sum zz(3) by (intro exI [of _ ?ct]) simp
qed

lemma lists_of_choice:
  assumes "\<forall>i < n. \<exists>x y. P i x y"
  obtains xs ys where "length xs = n" "length ys = n" "\<forall>i < n. P i (xs ! i) (ys ! i)"
proof -
  obtain f where "\<forall>i < n. \<exists>y. P i (f i) y" using assms by metis
  then obtain g where "\<forall>i < n. P i (f i) (g i)" by metis
  then show ?thesis by (intro that [of "map f [0..<n]" "map g [0..<n]"]) simp_all
qed

lemma EncryptPoly_ok:
  assumes "encrypt_zero (pub_seal_rt I) key i (pt_parms_id pt) False = Inr z"
    and "add_plain_inplace (pub_rt I) z pt = Inr ct" "sl_ct_save (pub_seal_rt I) ct = Inr s"
  shows "EncryptPoly I key i pt False = Inr s"
  using assms by (simp add: EncryptPoly_def EncodeSEALObject_def)

text \<open>The configuration and the vector of a call that the guards of \<open>EncryptVector\<close> let through.\<close>

definition encrypt_ready :: "MVPContext \<Rightarrow> MVPMetaInfo \<Rightarrow> enc_key \<Rightarrow> u64 list \<Rightarrow> nat \<Rightarrow> bool" where
  "encrypt_ready rt meta key v K \<longleftrightarrow>
     ctx_ok rt \<and> sc_degree (sl_ctx (cx_seal_context rt)) = 2 ^ K \<and> mi_base_mod_nbits meta \<le> 64 \<and>
     length v = ExpectMatVecInputLen meta \<and> ExpectMatVecOutputLen meta \<le> 2 ^ K \<and>
     (\<forall>x \<in> set v. unat x < 2 ^ mi_base_mod_nbits meta) \<and> enc_key_valid (cx_seal_context rt) key"

lemma encrypt_ready_shape:
  assumes ready: "encrypt_ready rt meta key v K" and I: "impl_of rt meta = Inr I"
  obtains r w where "GetSubmatrixShape meta (2 ^ K) = Inr (r, w)" "0 < w" "w \<le> 2 ^ K" "length v + w \<le> 2 ^ 64"
    "EncryptVector I v key = omap (\<lambda>(idx, pt). EncryptPoly I key idx pt False) (enumerate 0 (map (key_pt I 64) (subvectors w v)))"
proof -
  have rt: "ctx_ok rt" and deg: "sc_degree (sl_ctx (cx_seal_context rt)) = 2 ^ K" using ready by (simp_all add: encrypt_ready_def)
  note D = impl_ofD [OF rt I]
  have L: "lib_ok (cx_seal_context rt)" using rt by (simp add: ctx_ok_def)
  have pos: "0 < ExpectMatVecInputLen meta" "0 < ExpectMatVecOutputLen meta"
    using D(4,5) by (simp_all add: ExpectMatVecInputLen_def ExpectMatVecOutputLen_def)
  define e where "e = shape_exponent (2 ^ K) (ExpectMatVecOutputLen meta) (ExpectMatVecInputLen meta)"
  have shape: "GetSubmatrixShape meta (2 ^ K) = Inr (2 ^ e, 2 ^ (K - e))" "e \<le> K"
    using GetSubmatrixShape_closed [of meta K] ready pos by (simp_all add: encrypt_ready_def e_def)
  have w: "(2 :: nat) ^ (K - e) \<le> 2 ^ K" by simp
  have "3 \<le> length (sc_key_moduli (sl_ctx (cx_seal_context rt)))" by (rule lib_okD(6) [OF L])
  then have "3 * 2 ^ K \<le> length (sc_key_moduli (sl_ctx (cx_seal_context rt))) * 2 ^ K" by (rule mult_le_mono1)
  also have "\<dots> < 2 ^ 64" using levels(3) [OF L] by (simp only: deg)
  finally have bound: "3 * 2 ^ K < (2 :: nat) ^ 64" .
  have "length v \<le> 16384"
    using ready D(6,7) by (auto simp: encrypt_ready_def ExpectMatVecInputLen_def)
  moreover have "x + y \<le> 2 ^ 64" if "3 * z < (2 :: nat) ^ 64" "y \<le> z" "x \<le> 16384" for x y z
    using that by simp
  ultimately have len: "length v + 2 ^ (K - e) \<le> 2 ^ 64" using bound w by blast
  have "v \<noteq> []" using ready pos(1) by (auto simp: encrypt_ready_def)
  moreover have "list_all (\<lambda>x. x \<le> base_mask meta) v"
    using ready base_mask_iff [of meta] by (simp add: encrypt_ready_def list_all_iff)
  moreover have "pub_EncodeVector I v False True = Inr (map (key_pt I 64) (subvectors (2 ^ (K - e)) v))"
  proof (rule pub_EncodeVector_lemma(1) [OF D(1)])
    show "sc_degree (pub_ctx I) = 2 ^ K" by (simp add: D(3) deg)
    show "GetSubmatrixShape (pub_config I) (2 ^ K) = Inr (2 ^ e, 2 ^ (K - e))" by (simp add: D(2) shape(1))
    show "length v = ExpectMatVecInputLen (pub_config I)" using ready by (simp add: D(2) encrypt_ready_def)
  qed (use w len in simp_all)
  ultimately have "EncryptVector I v key = omap (\<lambda>(idx, pt). EncryptPoly I key idx pt False)
      (enumerate 0 (map (key_pt I 64) (subvectors (2 ^ (K - e)) v)))"
    using ready D by (simp add: EncryptVector_def encrypt_ready_def impl_ok_def Let_def MVP_VERSION_def IsUseExtraPrime_def)
  then show ?thesis using that [OF shape(1) _ w len] by simp
qed

text \<open>
  C8. Encryption of shares: for every accepted configuration, every vector of the right length with entries
  below \<open>2 ^ k\<close> and a valid public or secret key, \<open>EncryptVector\<close> succeeds with one string per subvector. The side
  that loads them, as the matrix side does at the key level without SEAL's checks and with the seeds expanded that a
  secret key leaves in place of the second polynomials, gets well-formed ciphertexts, and the phase of the ciphertext of
  a subvector is the noise of the encryption of zero plus the extra prime times \<open>round(Q x / 2 ^ 64)\<close> in every coefficient,
  modulo each prime.
\<close>

theorem EncryptVector_decrypts:
  assumes "encrypt_ready rt meta key v K" "impl_of rt meta = Inr I"
    and "key_phase_ok (cx_seal_context rt) sk" "key_stream_ok (cx_seal_context rt) expand"
    and "\<forall>i. \<exists>z. encrypt_zero (cx_seal_context rt) key i (sr_key_parms_id (pub_rt I)) False = Inr z \<and>
      key_zero (cx_seal_context rt) expand sk z (noise i)"
  shows "\<exists>r w outs cts. GetSubmatrixShape meta (2 ^ K) = Inr (r, w) \<and> EncryptVector I v key = Inr outs \<and>
    length outs = CeilDiv (length v) w \<and> DecodeSEALObjects (cx_seal_context rt) outs False = Inr cts \<and> length cts = length outs \<and>
    (\<forall>i < length cts. ct_coeff_ok (pub_rt I) (sc_key_moduli (pub_ctx I)) (cts ! i) \<and>
      phase_rns (pub_rt I) (sc_key_moduli (pub_ctx I)) (cts ! i) (pt_data sk) = rns_array (sc_key_moduli (pub_ctx I)) (map2 (+) (noise i)
        (map ((*) (extra_prime (pub_ctx I))) (share_poly (pub_ctx I) 64 (subvectors w v ! i)))))"
proof -
  obtain r w where shape: "GetSubmatrixShape meta (2 ^ K) = Inr (r, w)" "0 < w" "w \<le> 2 ^ K" "length v + w \<le> 2 ^ 64"
    and enc: "EncryptVector I v key = omap (\<lambda>(idx, pt). EncryptPoly I key idx pt False)
      (enumerate 0 (map (key_pt I 64) (subvectors w v)))"
    by (rule encrypt_ready_shape [OF assms(1,2)])
  have rt: "ctx_ok rt" and deg: "sc_degree (sl_ctx (cx_seal_context rt)) = 2 ^ K" using assms(1) by (simp_all add: encrypt_ready_def)
  note D = impl_ofD [OF rt assms(2)]
  let ?L = "cx_seal_context rt"
  have L: "lib_ok ?L" using rt by (simp add: ctx_ok_def)
  let ?n = "length (subvectors w v)" and ?ms = "sc_key_moduli (pub_ctx I)"
  let ?poly = "\<lambda>i. map ((*) (extra_prime (pub_ctx I))) (share_poly (pub_ctx I) 64 (subvectors w v ! i))"
  define P where "P i ct s \<longleftrightarrow> EncryptPoly I key i (key_pt I 64 (subvectors w v ! i)) False = Inr s \<and>
      sl_ct_unsafe_load ?L s = Inr ct \<and> ct_coeff_ok (pub_rt I) ?ms ct \<and>
      phase_rns (pub_rt I) ?ms ct (pt_data sk) = rns_array ?ms (map2 (+) (noise i) (?poly i))"
    for i ct s
  have "\<exists>ct s. P i ct s" if i: "i < ?n" for i
  proof -
    obtain z where z: "encrypt_zero ?L key i (sr_key_parms_id (pub_rt I)) False = Inr z"
      "key_zero ?L expand sk z (noise i)" using assms(5) by blast
    have "length (subvectors w v ! i) \<le> 2 ^ K"
      using subvectors_bounds [OF shape(2,4) nth_mem [OF i]] shape(3) by simp
    then have len: "length (?poly i) = sc_degree (sl_ctx ?L)"
      using length_share_poly [of "subvectors w v ! i" "pub_ctx I"] deg D(3) by simp
    have pt: "pt_data (key_pt I 64 (subvectors w v ! i)) = rns_array (sc_key_moduli (sl_ctx ?L)) (?poly i)" by (simp add: key_pt_def D(3))
    obtain ct where ct: "add_plain_inplace (sl_rt ?L) z (key_pt I 64 (subvectors w v ! i)) = Inr ct" "key_level_ct ?L ct"
      "ct_coeff_ok (sl_rt ?L) (sc_key_moduli (sl_ctx ?L)) (expanded expand ct)"
      "phase_rns (sl_rt ?L) (sc_key_moduli (sl_ctx ?L)) (expanded expand ct) (pt_data sk)
        = rns_array (sc_key_moduli (sl_ctx ?L)) (map2 (+) (noise i) (?poly i))"
      using key_zero_plus [OF L assms(3) z(2) pt len] by blast
    obtain s where s: "sl_ct_save ?L ct = Inr s" "sl_ct_unsafe_load ?L s = Inr (expanded expand ct)"
      using assms(4) ct(2) by (auto simp: key_stream_ok_def)
    have "EncryptPoly I key i (key_pt I 64 (subvectors w v ! i)) False = Inr s"
      by (rule EncryptPoly_ok [of _ _ _ _ z ct]) (use z s ct(1) in \<open>simp_all add: D(3) key_pt_def\<close>)
    with ct s show ?thesis unfolding P_def D(3) by blast
  qed
  then have "\<forall>i < ?n. \<exists>ct s. P i ct s" by blast
  then obtain cts outs where lens: "length cts = ?n" "length outs = ?n" and P: "\<forall>i < ?n. P i (cts ! i) (outs ! i)"
    by (rule lists_of_choice)
  have "EncryptVector I v key = Inr outs"
    using P lens by (simp add: enc omap_Inr_iff nth_enumerate_eq P_def)
  moreover have "DecodeSEALObjects ?L outs False = Inr cts"
    using P lens by (simp add: DecodeSEALObjects_def omap_Inr_iff P_def)
  ultimately show ?thesis using shape(1) lens P unfolding P_def
    by (intro exI [of _ r] exI [of _ w] exI [of _ outs] exI [of _ cts]) (simp add: subvectors_length)
qed

section \<open>The properties at a concrete context\<close>

definition meta_ref :: MVPMetaInfo where
  "meta_ref = \<lparr>mi_is_transposed = False, mi_base_mod_nbits = 64, mi_nrows = 1, mi_ncols = 2\<rparr>"

definition sk_ref :: secret_key where
  "sk_ref = pt_ref [1, 0, 1, 0, 1, 0]"

lemma ref_context:
  obtains rt I where "MVPContext_new (lib_ref ct) 1 = Inr rt" "ctx_ok rt" "cx_seal_context rt = lib_ref ct"
    "impl_of rt meta_ref = Inr I" "pub_seal_rt I = lib_ref ct" "pub_config I = meta_ref" "impl_ok I 64"
proof -
  obtain rt where rt: "MVPContext_new (lib_ref ct) 1 = Inr rt" "ctx_ok rt" "cx_seal_context rt = lib_ref ct"
    using MVPContext_new_ok [OF lib_ok_ref, of ct 1] by blast
  moreover obtain I where I: "impl_of rt meta_ref = Inr I"
    by (simp add: impl_of_def MVPPublicImpl_new_def pub_check_config_def Let_def meta_ref_def kMaxNumRows_def
        kMaxNumCols_def kPolyDegree_def rt(3)) (simp add: rt_ref_def mvp_ctx_def kMaxNumRows_def
        kMaxNumCols_def kPolyDegree_def)
  ultimately show ?thesis using that impl_ofD [OF rt(2) I] by (metis rt(3))
qed

theorem Vec2Poly_encodes_witness:
  "\<exists>I. impl_ok I 64 \<and> map_sum id pt_data (pub_Vec2Poly I [5, - 1] fresh_ptx False False)
      = Inr (rns_array (sc_first_moduli (pub_ctx I)) (share_poly (pub_ctx I) 64 [5, - 1]))"
proof -
  obtain rt I where I: "impl_ok I 64" "pub_seal_rt I = lib_ref (zero_ct (parms_id 2) 2)"
    by (rule ref_context [of "zero_ct (parms_id 2) 2"])
  have "[5, - 1 :: u64] \<noteq> []" "length [5, - 1 :: u64] \<le> sc_degree (pub_ctx I)" by (simp_all add: I(2))
  from Vec2Poly_encodes [OF I(1) this] I(1) show ?thesis by blast
qed

lemma decrypt_ok_ref: "ms = kModulus \<or> ms = butlast kModulus \<Longrightarrow> decrypt_ok (lib_ref ct) ms sk_ref"
  by (auto simp: decrypt_ok_def kModulus_values valid_modulus_def sk_ref_def pt_ref_def metadata_ok_ref intro!: ntt_ok_ref)

text \<open>
  A library whose symmetric encryption of zero leaves a marker and the number of the call as seed, from which loading
  expands the second polynomial; the noise is \<open>(3, 4)\<close>. Ciphertexts are saved word by word.
\<close>

definition seed_poly :: "nat \<Rightarrow> u64 list" where
  "seed_poly i = [- 1, of_nat i, 0, 0, 0, 0]"

definition expand_ref :: "parms_id \<Rightarrow> u64 list \<Rightarrow> u64 list" where
  "expand_ref pid xs = (if hd xs = - 1 then (let a = 7 + xs ! 1 mod 1000 in [a, 9, a, 9, a, 9]) else xs)"

definition seeded_zero :: "nat \<Rightarrow> rlwe_ct" where
  "seeded_zero i = (zero_ct (parms_id 3) 3)\<lparr>ct_polys :=
     [concat (map (\<lambda>q. [q - 4 - of_nat i mod 1000, 4]) kModulus), seed_poly i]\<rparr>"

definition ct_bytes :: "rlwe_ct \<Rightarrow> string" where
  "ct_bytes ct = concat (map le64 (ct_scale ct # concat (ct_polys ct)))"

definition ct_of_bytes :: "string \<Rightarrow> rlwe_ct" where
  "ct_of_bytes s = (let ws = words_of_string 13 s
     in (zero_ct (parms_id 3) 3)\<lparr>ct_scale := hd ws, ct_polys := [take 6 (tl ws), drop 6 (tl ws)]\<rparr>)"

definition lib_seeded :: seal_lib where
  "lib_seeded = (lib_ref (zero_ct (parms_id 2) 2))\<lparr>
     sl_encrypt_zero_symmetric := (\<lambda>i sk pid ntt save_seed.
       Inr (if save_seed then seeded_zero i else expanded expand_ref (seeded_zero i))),
     sl_ct_save := (\<lambda>ct. Inr (ct_bytes ct)), sl_ct_unsafe_load := (\<lambda>s. Inr (expanded expand_ref (ct_of_bytes s)))\<rparr>"

lemma lib_seeded_sel [simp]: "sl_rt lib_seeded = rt_ref"
  by (simp add: lib_seeded_def)

lemma ref_key_moduli: "sc_key_moduli (sr_ctx rt_ref) = kModulus" "sc_degree (sr_ctx rt_ref) = 2" "sr_key_parms_id rt_ref = parms_id 3"
  by (simp_all add: rt_ref_def mvp_ctx_def)

lemma ct_bytes_return:
  assumes "key_level_ct lib_seeded ct"
  shows "ct_of_bytes (ct_bytes ct) = ct"
proof -
  obtain c0 c1 where cc: "ct_polys ct = [c0, c1]" "length c0 = 6" "length c1 = 6"
    using assms by (auto simp: key_level_ct_def ref_key_moduli kModulus_values length_Suc_conv numeral_2_eq_2)
  have "words_of_string 13 (ct_bytes ct) = ct_scale ct # concat (ct_polys ct)"
    unfolding ct_bytes_def by (rule words_return) (simp add: cc)
  then have "ct_of_bytes (ct_bytes ct) = (zero_ct (parms_id 3) 3)\<lparr>ct_scale := ct_scale ct, ct_polys := [c0, c1]\<rparr>"
    by (simp add: ct_of_bytes_def cc)
  moreover have "(zero_ct (parms_id 3) 3)\<lparr>ct_scale := ct_scale ct, ct_polys := ct_polys ct\<rparr> = ct"
    using assms by (cases ct) (simp add: key_level_ct_def ref_key_moduli kModulus_values zero_ct_def)
  ultimately show ?thesis by (simp add: cc)
qed

lemma key_stream_ok_ref: "key_stream_ok lib_seeded expand_ref"
proof -
  have "sl_ct_save lib_seeded ct = Inr (ct_bytes ct)" "sl_ct_unsafe_load lib_seeded s = Inr (expanded expand_ref (ct_of_bytes s))" for ct s
    by (simp_all add: lib_seeded_def)
  then show ?thesis using ct_bytes_return by (simp add: key_stream_ok_def)
qed

lemma lib_seeded_ok: "lib_ok lib_seeded"
  using lib_ok_ref [of "zero_ct (parms_id 2) 2"] by (simp add: lib_ok_def)

text \<open>Its zeros have their noise under the key, whatever the seed.\<close>

lemma phase_limb_pair:
  "phase_limb rt_ref q [x0, x1] [y0, y1] [1, 0] = [of_nat ((unat (of_nat (unat y0 mod unat q) :: u64) + unat x0) mod unat q), of_nat (unat x1 mod unat q)]"
  by (simp add: phase_limb_def rt_ref_def seal_ref_def dyadic_product_coeffmod_def add_poly_coeffmod_def)

lemma seed_mask:
  fixes a q :: u64
  assumes "unat a < 1000" "2000 < unat q" "unat q < 2 ^ 61"
  shows "unat (q - 4 - a) = unat q - 4 - unat a" "unat (7 + a) = 7 + unat a" "7 + a < q" "q - 4 - a < q"
    "(unat (of_nat (unat (7 + a) mod unat q) :: u64) + unat (q - 4 - a)) mod unat q = 3"
proof -
  have 1: "unat (q - 4) = unat q - 4" using assms(2) by (simp add: unat_sub word_le_nat_alt)
  then show 2: "unat (q - 4 - a) = unat q - 4 - unat a" using assms by (simp add: unat_sub word_le_nat_alt)
  have "unat (7 + a) = (7 + unat a) mod 2 ^ 64" by (simp add: unat_word_ariths)
  also have "\<dots> = 7 + unat a" using assms(1) by (intro mod_less) simp
  finally show 3: "unat (7 + a) = 7 + unat a" .
  show lt: "7 + a < q" "q - 4 - a < q" using assms by (simp_all add: word_less_nat_alt 2 3)
  have "unat (of_nat (7 + unat a) :: u64) = 7 + unat a" by (simp add: 3)
  moreover have "(7 + unat a) mod unat q = 7 + unat a" using assms by simp
  moreover have "7 + unat a + (unat q - 4 - unat a) = 3 + unat q" using assms by simp
  ultimately show "(unat (of_nat (unat (7 + a) mod unat q) :: u64) + unat (q - 4 - a)) mod unat q = 3"
    using assms by (simp add: 2 3)
qed

lemma seed_word: "unat ((of_nat i :: u64) mod 1000) < 1000"
  by (simp add: unat_mod)

lemma key_zero_ref: "key_zero lib_seeded expand_ref sk_ref (seeded_zero i) [3, 4]"
proof -
  let ?a = "(of_nat i :: u64) mod 1000"
  let ?c0 = "concat (map (\<lambda>q. [q - 4 - ?a, 4]) kModulus)" and ?c1 = "[7 + ?a, 9, 7 + ?a, 9, 7 + ?a, 9]"
  have ex: "expanded expand_ref (seeded_zero i) = (zero_ct (parms_id 3) 3)\<lparr>ct_polys := [?c0, ?c1]\<rparr>"
    by (simp add: expanded_def seeded_zero_def zero_ct_def seed_poly_def expand_ref_def Let_def)
  have q: "2000 < unat (kModulus ! l) \<and> unat (kModulus ! l) < 2 ^ 61" if "l < 3" for l
    using that by (auto simp: kModulus_values less_Suc_eq numeral_3_eq_3)
  have limbs: "limb 2 ?c0 l = [kModulus ! l - 4 - ?a, 4]" "limb 2 ?c1 l = [7 + ?a, 9]" "limb 2 (pt_data sk_ref) l = [1, 0]" if "l < 3" for l
    using that by (auto simp: kModulus_values less_Suc_eq numeral_3_eq_3 slice_def sk_ref_def pt_ref_def)
  have word: "4 < kModulus ! l" "9 < kModulus ! l" if "l < 3" for l using q [OF that] by (simp_all add: word_less_nat_alt)
  have three: "length kModulus = 3" by (simp add: kModulus_values)
  have lens: "length ?c0 = 6" by (simp add: kModulus_values)
  have ok: "ct_coeff_ok rt_ref kModulus ((zero_ct (parms_id 3) 3)\<lparr>ct_polys := [?c0, ?c1]\<rparr>)"
  proof -
    have "rns_ok 2 kModulus ?c0" "rns_ok 2 kModulus ?c1"
      using seed_mask(3,4) [OF seed_word] q limbs word lens by (simp_all add: rns_ok_def three reduced_def)
    then show ?thesis by (simp add: ct_coeff_ok_def ref_key_moduli zero_ct_def) (simp add: rt_ref_def mvp_ctx_def kModulus_values)
  qed
  have "map (\<lambda>l. phase_limb rt_ref (kModulus ! l) (limb 2 ?c0 l) (limb 2 ?c1 l) (limb 2 (pt_data sk_ref) l)) [0..<3]
      = map (\<lambda>l. [3, 4]) [0..<3]"
  proof (rule map_cong [OF refl])
    fix l
    assume "l \<in> set [0..<3 :: nat]"
    then have l: "l < 3" by simp
    have "unat (4 :: u64) mod unat (kModulus ! l) = 4" using q [OF l] by simp
    then show "phase_limb rt_ref (kModulus ! l) (limb 2 ?c0 l) (limb 2 ?c1 l) (limb 2 (pt_data sk_ref) l) = [3, 4]"
      using seed_mask(5) [OF seed_word, of "kModulus ! l" i] q [OF l] by (simp only: limbs [OF l] phase_limb_pair) simp
  qed
  moreover have "rns_array kModulus [3, 4] = concat (map (\<lambda>l. [3, 4]) [0..<3 :: nat])"
    by (simp add: rns_array_def kModulus_values upt_rec)
  moreover have "phase_rns rt_ref kModulus ((zero_ct (parms_id 3) 3)\<lparr>ct_polys := [?c0, ?c1]\<rparr>) (pt_data sk_ref)
      = concat (map (\<lambda>l. phase_limb rt_ref (kModulus ! l) (limb 2 ?c0 l) (limb 2 ?c1 l) (limb 2 (pt_data sk_ref) l)) [0..<3])"
    by (simp add: phase_rns_def ref_key_moduli three)
  ultimately have "phase_rns rt_ref kModulus ((zero_ct (parms_id 3) 3)\<lparr>ct_polys := [?c0, ?c1]\<rparr>) (pt_data sk_ref) = rns_array kModulus [3, 4]"
    by (simp only:)
  moreover have "key_level_ct lib_seeded (seeded_zero i)"
    by (simp add: key_level_ct_def seeded_zero_def zero_ct_def ref_key_moduli seed_poly_def kModulus_values)
  ultimately show ?thesis using ok by (simp add: key_zero_def ex ref_key_moduli)
qed

definition meta_two :: MVPMetaInfo where
  "meta_two = \<lparr>mi_is_transposed = False, mi_base_mod_nbits = 64, mi_nrows = 1, mi_ncols = 4\<rparr>"

theorem EncryptVector_decrypts_witness:
  "\<exists>rt I outs cts. MVPContext_new lib_seeded 1 = Inr rt \<and> impl_of rt meta_two = Inr I \<and>
    EncryptVector I [5, - 1, 6, 7] (Enc_secret sk_ref) = Inr outs \<and> DecodeSEALObjects lib_seeded outs False = Inr cts \<and> length cts = 2 \<and>
    phase_rns rt_ref kModulus (cts ! 1) (pt_data sk_ref) = rns_array kModulus (map2 (+) [3, 4]
      (map ((*) (extra_prime (sl_ctx lib_seeded))) (share_poly (sl_ctx lib_seeded) 64 [6, 7])))"
proof -
  let ?v = "[5, - 1, 6, 7 :: u64]"
  obtain rt where rt: "MVPContext_new lib_seeded 1 = Inr rt" "ctx_ok rt" "cx_seal_context rt = lib_seeded"
    using MVPContext_new_ok [OF lib_seeded_ok, of 1] by blast
  obtain I where I: "impl_of rt meta_two = Inr I"
    by (simp add: impl_of_def MVPPublicImpl_new_def pub_check_config_def Let_def meta_two_def kMaxNumRows_def
        kMaxNumCols_def kPolyDegree_def rt(3)) (simp add: rt_ref_def mvp_ctx_def kMaxNumRows_def
        kMaxNumCols_def kPolyDegree_def)
  have L: "pub_seal_rt I = lib_seeded" using impl_ofD(3) [OF rt(2) I] rt(3) by simp
  have ready: "encrypt_ready rt meta_two (Enc_secret sk_ref) ?v 1"
    using rt(2,3) unat64_less
    by (simp add: encrypt_ready_def meta_two_def ExpectMatVecInputLen_def ExpectMatVecOutputLen_def ref_key_moduli)
      (simp add: lib_seeded_def lib_ref_def)
  have phase: "key_phase_ok lib_seeded sk_ref"
    using decrypt_ok_ref [of kModulus "zero_ct (parms_id 2) 2"] by (simp add: key_phase_ok_def decrypt_ok_def ref_key_moduli)
  have "encrypt_zero lib_seeded (Enc_secret sk_ref) i (sr_key_parms_id rt_ref) False = Inr (seeded_zero i)" for i
    by (simp add: lib_seeded_def)
  then have zeros: "\<forall>i. \<exists>z. encrypt_zero lib_seeded (Enc_secret sk_ref) i (sr_key_parms_id (sl_rt lib_seeded)) False = Inr z \<and>
      key_zero lib_seeded expand_ref sk_ref z [3, 4]" using key_zero_ref by simp
  obtain r w outs cts where out: "GetSubmatrixShape meta_two (2 ^ 1) = Inr (r, w)"
      "EncryptVector I ?v (Enc_secret sk_ref) = Inr outs" "length outs = CeilDiv (length ?v) w"
      "DecodeSEALObjects lib_seeded outs False = Inr cts" "length cts = length outs"
    and at: "\<forall>i < length cts. ct_coeff_ok rt_ref kModulus (cts ! i) \<and>
      phase_rns rt_ref kModulus (cts ! i) (pt_data sk_ref) = rns_array kModulus (map2 (+) [3, 4]
        (map ((*) (extra_prime (sl_ctx lib_seeded))) (share_poly (sl_ctx lib_seeded) 64 (subvectors w ?v ! i))))"
    using EncryptVector_decrypts [OF ready I, of sk_ref expand_ref "\<lambda>i. [3, 4]"] phase key_stream_ok_ref zeros
    unfolding L rt(3) lib_seeded_sel ref_key_moduli(1) by blast
  have "shape_exponent (2 ^ 1) 1 4 = 0" by (rule shape_exponent_wide) simp_all
  then have "w = 2" using out(1) GetSubmatrixShape_closed(1) [of meta_two 1]
    by (simp add: meta_two_def ExpectMatVecInputLen_def ExpectMatVecOutputLen_def)
  then have "length cts = 2" "subvectors w ?v ! 1 = [6, 7]" using out(3,5)
    by (simp_all add: CeilDiv_def subvectors_def subvec_range_def slice_def upt_rec)
  with rt(1) I out(2,4) at show ?thesis by auto
qed

end
