(* ===== verification/DecryptCorrect.thy ===== *)
theory DecryptCorrect
  imports PublicCorrect
begin

text \<open>
  \<open>Decrypt\<close> on a ciphertext that carries a share vector in the slots of the product, and its composition
  with \<open>UpdateMatVec\<close>, which adds a vector of the matrix holder to the encrypted product.
\<close>

section \<open>The slots of a product\<close>

definition slot_stride :: "nat \<Rightarrow> nat \<Rightarrow> nat" where
  "slot_stride N nrows = N div NextPow2 nrows"

lemma stride_in_range:
  assumes "0 < n" "n \<le> 2 ^ K" "i < n"
  shows "i * slot_stride (2 ^ K) n < 2 ^ K" and "0 < slot_stride (2 ^ K) n"
proof -
  obtain j where j: "NextPow2 n = 2 ^ j" "n \<le> 2 ^ j" by (rule NextPow2_power [OF assms(1)])
  have "(2 :: nat) ^ j \<le> 2 ^ K" using NextPow2_mono_pow2 [OF assms(1,2)] j by simp
  then have "j \<le> K" by simp
  then have g: "slot_stride (2 ^ K) n = 2 ^ (K - j)" by (simp add: slot_stride_def j power_diff)
  then show "0 < slot_stride (2 ^ K) n" by simp
  have "i * 2 ^ (K - j) < 2 ^ j * 2 ^ (K - j)" using assms(3) j(2) by simp
  also have "(2 :: nat) ^ j * 2 ^ (K - j) = 2 ^ K" using \<open>j \<le> K\<close> by (simp flip: power_add)
  finally show "i * slot_stride (2 ^ K) n < 2 ^ K" by (simp only: g)
qed

lemma select_rns_array:
  assumes "length ys = N" "\<And>i. i < n \<Longrightarrow> i * g < N"
  shows "select_coeffs N (length qs) n g (rns_array qs ys) = rns_array qs (map (\<lambda>i. ys ! (i * g)) [0..<n])"
proof -
  have "map (\<lambda>i. rns_array qs ys ! (l * N + i * g)) [0..<n]
      = map (\<lambda>y. of_nat (y mod unat (qs ! l))) (map (\<lambda>i. ys ! (i * g)) [0..<n])" if "l < length qs" for l
    using nth_rns_array [OF that, of _ ys] assms by simp
  then have "select_coeffs N (length qs) n g (rns_array qs ys)
      = concat (map (\<lambda>l. map (\<lambda>y. of_nat (y mod unat (qs ! l))) (map (\<lambda>i. ys ! (i * g)) [0..<n])) [0..<length qs])"
    unfolding select_coeffs_def by (metis (no_types, lifting) atLeastLessThan_iff map_cong set_upt)
  then show ?thesis by (simp only: rns_array_map [of qs "map (\<lambda>i. ys ! (i * g)) [0..<n]"])
qed

text \<open>An integer polynomial that carries the vector \<open>xs\<close> with noise \<open>e\<close> in its slots, modulo \<open>Q\<close>.\<close>

definition carries :: "seal_context \<Rightarrow> nat \<Rightarrow> nat list \<Rightarrow> (nat \<Rightarrow> int) \<Rightarrow> nat list \<Rightarrow> bool" where
  "carries C k xs e ys \<longleftrightarrow> length ys = sc_degree C \<and>
     (\<forall>i < length xs. ys ! (i * slot_stride (sc_degree C) (length xs)) mod sc_total_modulus C
        = noisy (sc_total_modulus C) k (xs ! i) (e i))"

definition noise_fits :: "seal_context \<Rightarrow> nat \<Rightarrow> int \<Rightarrow> bool" where
  "noise_fits C k e \<longleftrightarrow> 2 ^ k * (2 * \<bar>e\<bar> + 1) + 1 < int (sc_total_modulus C)"

lemma first_moduli_dvd: "seal_context_ok C \<Longrightarrow> q \<in> set (sc_first_moduli C) \<Longrightarrow> unat q dvd sc_total_modulus C"
  unfolding seal_context_ok_def by (simp add: dvd_prod_list)

section \<open>Decryption\<close>

lemma Decrypt_eq:
  assumes I: "impl_ok I k" and deg: "sc_degree (pub_ctx I) = 2 ^ K" and n: "n = mi_nrows (pub_config I)" "0 < n" "n \<le> 2 ^ K"
    and load: "sl_ct_load (pub_seal_rt I) s = Inr ct"
      "sr_context_moduli (pub_rt I) (ct_parms_id ct) = Some (sc_first_moduli (pub_ctx I))"
    and dec: "decrypt_coeffs (pub_rt I) ct sk = Inr d" "pt_data d = rns_array (sc_first_moduli (pub_ctx I)) ys" "length ys = 2 ^ K"
  shows "Decrypt I [s] sk n = ModulusDownRNS (sl_arith (pub_seal_rt I)) (pub_ms_helper I)
    (rns_array (sc_first_moduli (pub_ctx I)) (map (\<lambda>i. ys ! (i * slot_stride (2 ^ K) n)) [0..<n])) n"
proof -
  have L: "lib_ok (pub_seal_rt I)" using I by (simp add: impl_ok_def)
  have "3 * 2 ^ K \<le> length (sc_key_moduli (pub_ctx I)) * 2 ^ K" using lib_okD(6) [OF L] by (rule mult_le_mono1)
  also have "\<dots> < 2 ^ 64" using levels(3) [OF L] by (simp only: deg)
  finally have "n + 2 ^ K \<le> 2 ^ 64" using n(3) by linarith
  then have ceil: "CeilDiv n (2 ^ K) = 1" by (rule CeilDiv_le_1 [OF n(2,3)])
  have all: "map (\<lambda>i. ys ! (i * slot_stride (2 ^ K) n)) [0..<n] = ys" if "\<not> n < 2 ^ K"
  proof -
    have "n = 2 ^ K" using that n(3) by simp
    then show ?thesis using dec(3) by (intro nth_equalityI) (simp_all add: slot_stride_def)
  qed
  have sel: "select_coeffs (2 ^ K) (length (sc_first_moduli (pub_ctx I))) n (slot_stride (2 ^ K) n) (pt_data d)
      = rns_array (sc_first_moduli (pub_ctx I)) (map (\<lambda>i. ys ! (i * slot_stride (2 ^ K) n)) [0..<n])"
    unfolding dec(2) by (rule select_rns_array [OF dec(3)]) (rule stride_in_range(1) [OF n(2,3)])
  show ?thesis
    using I n(1) load dec(1,2) ceil sel all
    by (simp add: Decrypt_def impl_ok_def pub_poly_degree_def deg DecodeSEALObjects_def Let_def slot_stride_def)
qed

lemma Decrypt_lemma:
  assumes I: "impl_ok I k" and deg: "sc_degree (pub_ctx I) = 2 ^ K"
    and n: "length xs = mi_nrows (pub_config I)" "xs \<noteq> []" "length xs \<le> 2 ^ K"
    and load: "sl_ct_load (pub_seal_rt I) s = Inr ct"
      "sr_context_moduli (pub_rt I) (ct_parms_id ct) = Some (sc_first_moduli (pub_ctx I))"
    and dec: "decrypt_coeffs (pub_rt I) ct sk = Inr d" "pt_data d = rns_array (sc_first_moduli (pub_ctx I)) ys"
    and ys: "carries (pub_ctx I) k xs e ys" "\<forall>i < length xs. noise_fits (pub_ctx I) k (e i)"
  shows "\<exists>out. Decrypt I [s] sk (length xs) = Inr out \<and> map (\<lambda>y. unat y mod 2 ^ k) out = map (\<lambda>x. x mod 2 ^ k) xs"
proof -
  let ?C = "pub_ctx I" and ?Q = "sc_total_modulus (pub_ctx I)" and ?g = "slot_stride (2 ^ K) (length xs)"
  have L: "lib_ok (pub_seal_rt I)" and h: "ms_wf (pub_ms_helper I) ?C k" using I by (simp_all add: impl_ok_def)
  have S: "seal_arith_ok (sl_arith (pub_seal_rt I))" and C: "seal_context_ok ?C" using lib_okD(1,2) [OF L] .
  have k: "0 < k" "k \<le> 64" using h by (simp_all add: ms_wf_def)
  have len: "length ys = 2 ^ K" using ys(1) by (simp add: carries_def deg)
  let ?zs = "map (\<lambda>i. noisy ?Q k (xs ! i) (e i)) [0..<length xs]"
  have "rns_array (sc_first_moduli ?C) (map (\<lambda>i. ys ! (i * ?g)) [0..<length xs])
      = rns_array (sc_first_moduli ?C) (map (\<lambda>y. y mod ?Q) (map (\<lambda>i. ys ! (i * ?g)) [0..<length xs]))"
    by (rule rns_array_mod [symmetric], rule first_moduli_dvd [OF C])
  also have "map (\<lambda>y. y mod ?Q) (map (\<lambda>i. ys ! (i * ?g)) [0..<length xs]) = ?zs"
    using ys(1) by (simp add: carries_def deg)
  finally have "Decrypt I [s] sk (length xs)
      = ModulusDownRNS (sl_arith (pub_seal_rt I)) (pub_ms_helper I) (rns_array (sc_first_moduli ?C) ?zs) (length xs)"
    using Decrypt_eq [OF I deg n(1) _ n(3) load dec len] n(2) by simp
  also have "\<dots> = Inr (map (\<lambda>y. of_nat (down_value ?Q k y)) ?zs)"
    using ModulusDownRNS_rns_array [OF S h, of ?zs] noisy_less [OF total_modulus_bounds(1) [OF C]] by auto
  finally have out: "Decrypt I [s] sk (length xs) = Inr (map (\<lambda>y. of_nat (down_value ?Q k y)) ?zs)" .
  have "unat (of_nat (down_value ?Q k (noisy ?Q k (xs ! i) (e i))) :: u64) mod 2 ^ k = xs ! i mod 2 ^ k"
    if "i < length xs" for i
    using down_noisy [OF C k(1)] ys(2) that by (simp only: u64_mod_of_nat [OF k(2)] noise_fits_def)
  then have "map (\<lambda>y. unat y mod 2 ^ k) (map (\<lambda>y. of_nat (down_value ?Q k y) :: u64) ?zs) = map (\<lambda>x. x mod 2 ^ k) xs"
    by (intro nth_equalityI) simp_all
  with out show ?thesis by blast
qed

text \<open>
  C9. \<open>Decrypt\<close> recovers the shares: when the coefficients of a ciphertext carry a vector with noise below
  about \<open>Q / 2 ^ (k + 1)\<close> in the multiples of the stride \<open>N / NextPow2 nrows\<close>, whatever the other coefficients
  are, \<open>Decrypt\<close> succeeds and returns the vector modulo \<open>2 ^ k\<close>.
\<close>

theorem Decrypt_returns_shares:
  assumes "impl_ok I k" "sc_degree (pub_ctx I) = 2 ^ K"
    and "length xs = mi_nrows (pub_config I)" "xs \<noteq> []" "length xs \<le> 2 ^ K"
    and "sl_ct_load (pub_seal_rt I) s = Inr ct"
      "sr_context_moduli (pub_rt I) (ct_parms_id ct) = Some (sc_first_moduli (pub_ctx I))"
    and "decrypt_coeffs (pub_rt I) ct sk = Inr d" "pt_data d = rns_array (sc_first_moduli (pub_ctx I)) ys"
    and "carries (pub_ctx I) k xs e ys" "\<forall>i < length xs. noise_fits (pub_ctx I) k (e i)"
  shows "\<exists>out. Decrypt I [s] sk (length xs) = Inr out \<and> map (\<lambda>y. unat y mod 2 ^ k) out = map (\<lambda>x. x mod 2 ^ k) xs"
  using assms by (rule Decrypt_lemma)

text \<open>A ciphertext that decrypts to given coefficients, over the runtime of the concrete context.\<close>

definition carry_ct :: "nat list \<Rightarrow> rlwe_ct" where
  "carry_ct ys = \<lparr>ct_parms_id = parms_id 2, ct_is_ntt_form = False, ct_degree = 2, ct_coeff_modulus_size = 2,
     ct_polys = [rns_array (butlast kModulus) ys, replicate 4 0], ct_scale = 1\<rparr>"

lemma ref_moduli: "sc_first_moduli (sr_ctx rt_ref) = butlast kModulus" "sc_key_moduli (sr_ctx rt_ref) = kModulus"
    "sc_total_modulus (sr_ctx rt_ref) = 17314086913 * 17180393473"
    "sr_context_moduli rt_ref (parms_id 2) = Some (butlast kModulus)" "sr_arith rt_ref = seal_ref"
  by (simp_all add: rt_ref_def mvp_ctx_def)

lemma valid_first: "\<forall>q \<in> set (butlast kModulus). valid_modulus q"
  by (simp add: kModulus_values valid_modulus_def)

lemma carry_ct_ok: "length ys = 2 \<Longrightarrow> ct_coeff_ok rt_ref (butlast kModulus) (carry_ct ys)"
proof -
  assume "length ys = 2"
  then have "rns_ok 2 (butlast kModulus) (rns_array (butlast kModulus) ys)" by (rule rns_ok_rns_array [OF valid_first])
  moreover have "replicate 4 (0 :: u64) = [0, 0, 0, 0]" by (simp add: numeral_eq_Suc)
  then have "rns_ok 2 (butlast kModulus) (replicate 4 0)"
    by (simp add: kModulus_values rns_ok_two)
  moreover have "length (butlast kModulus) = 2" "kModulus = butlast kModulus @ [last kModulus]"
    by (simp_all add: kModulus_values)
  ultimately show ?thesis by (auto simp: ct_coeff_ok_def carry_ct_def ref_moduli)
qed

lemma phase_limb_plain:
  assumes "valid_modulus q" "a < q" "b < q"
  shows "phase_limb rt_ref q [a, b] [0, 0] [x, y] = [a, b]"
proof -
  have "(of_nat (unat c mod unat q) :: u64) = c" if "c < q" for c
    using that by (simp add: word_less_nat_alt)
  then show ?thesis using assms
    by (simp add: phase_limb_def rt_ref_def seal_ref_def dyadic_product_coeffmod_def add_poly_coeffmod_def)
qed

lemma decrypt_carry_ct:
  assumes "length ys = 2"
  shows "\<exists>d. decrypt_coeffs rt_ref (carry_ct ys) sk_ref = Inr d \<and> pt_data d = rns_array (butlast kModulus) ys"
proof -
  let ?ms = "butlast kModulus"
  have S: "seal_arith_ok (sr_arith rt_ref)" using seal_arith_ok_ref by (simp add: ref_moduli)
  have D: "\<forall>q \<in> set ?ms. ntt_ok rt_ref 2 q" "metadata_ok rt_ref" "length ?ms * 2 \<le> length (pt_data sk_ref)"
    using decrypt_ok_ref [of ?ms] by (simp_all add: decrypt_ok_def)
  obtain y z where ys: "ys = [y, z]" using assms by (auto simp: length_Suc_conv numeral_2_eq_2)
  define xs where "xs = concat (map (\<lambda>l. phase_limb rt_ref (?ms ! l) (limb 2 (rns_array ?ms ys) l)
      (limb 2 (replicate 4 0) l) (limb 2 (pt_data sk_ref) l)) [0..<length ?ms])"
  have "decrypt_coeffs rt_ref (carry_ct ys) sk_ref = Inr \<lparr>pt_parms_id = parms_id 2, pt_data = xs, pt_scale = 1\<rparr>"
    by (rule iffD2 [OF decrypt_coeffs_Inr [OF S _ _ carry_ct_ok [OF assms] refl]])
      (use D in \<open>auto simp: carry_ct_def xs_def\<close>, auto simp: rt_ref_def)
  moreover have "phase_limb rt_ref (?ms ! l) (limb 2 (rns_array ?ms ys) l) (limb 2 (replicate 4 0) l) (limb 2 (pt_data sk_ref) l)
      = map (\<lambda>y. of_nat (y mod unat (?ms ! l))) ys" if l: "l < length ?ms" for l
  proof -
    have q: "valid_modulus (?ms ! l)" using valid_first l by simp
    have "l = 0 \<or> l = 1" using l by (auto simp: kModulus_values)
    then have "limb 2 (replicate 4 (0 :: u64)) l = [0, 0]" "\<exists>x y. limb 2 (pt_data sk_ref) l = [x, y]"
      by (auto simp: slice_def sk_ref_def pt_ref_def numeral_eq_Suc)
    moreover have "of_nat (y mod unat (?ms ! l)) < ?ms ! l" for y
      using reduced_residues [OF q, of "[y]"] by (simp add: reduced_def)
    ultimately show ?thesis using phase_limb_plain [OF q] limb_rns_array [OF l assms] by (auto simp: ys)
  qed
  then have "xs = rns_array ?ms ys"
    unfolding xs_def rns_array_map by (intro arg_cong [where f = concat] map_cong refl) simp
  ultimately show ?thesis by auto
qed

lemma noise_fits_ref: "\<bar>e\<bar> \<le> 7 \<Longrightarrow> noise_fits (sr_ctx rt_ref) 64 e"
  by (simp add: noise_fits_def ref_moduli)

lemma carries_ref: "carries (sr_ctx rt_ref) 64 [x] e [noisy (17314086913 * 17180393473) 64 x (e 0), z]"
  using noisy_less [of "17314086913 * 17180393473"] by (simp add: carries_def ref_moduli)

theorem Decrypt_returns_shares_witness:
  "\<exists>I out. impl_ok I 64 \<and> Decrypt I [''ct''] sk_ref 1 = Inr out \<and> map (\<lambda>y. unat y mod 2 ^ 64) out = [5]"
proof -
  define ys :: "nat list" where "ys = [noisy (17314086913 * 17180393473) 64 5 (- 3), 77]"
  obtain rt I where I: "pub_seal_rt I = lib_ref (carry_ct ys)" "pub_config I = meta_ref" "impl_ok I 64"
    by (rule ref_context)
  have len: "length ys = 2" by (simp add: ys_def)
  obtain d where d: "decrypt_coeffs (pub_rt I) (carry_ct ys) sk_ref = Inr d" "pt_data d = rns_array (sc_first_moduli (pub_ctx I)) ys"
    using decrypt_carry_ct [OF len] by (auto simp: I ref_moduli)
  have "\<exists>out. Decrypt I [''ct''] sk_ref (length [5 :: nat]) = Inr out \<and>
      map (\<lambda>y. unat y mod 2 ^ 64) out = map (\<lambda>x. x mod 2 ^ 64) [5]"
  proof (rule Decrypt_returns_shares [OF I(3) _ _ _ _ _ _ d])
    show "sc_degree (pub_ctx I) = 2 ^ 1" by (simp add: I)
    show "length [5 :: nat] = mi_nrows (pub_config I)" by (simp add: I meta_ref_def)
    show "sl_ct_load (pub_seal_rt I) ''ct'' = Inr (carry_ct ys)" by (simp add: I lib_ref_def)
    show "sr_context_moduli (pub_rt I) (ct_parms_id (carry_ct ys)) = Some (sc_first_moduli (pub_ctx I))"
      by (simp add: I carry_ct_def ref_moduli)
    show "carries (pub_ctx I) 64 [5] (\<lambda>_. - 3) ys" unfolding ys_def I(1) lib_ref_rt by (rule carries_ref)
  qed (simp_all add: I noise_fits_ref)
  then show ?thesis using I(3) by auto
qed

section \<open>Adding a vector to an encrypted product\<close>

lemma spread_ok:
  assumes "0 < g" "\<And>i. i < length xs \<Longrightarrow> i * g < N"
  shows "\<exists>v. spread N g xs = Inr v \<and> length v = N \<and> (\<forall>i < length xs. v ! (i * g) = xs ! i)"
proof -
  have "length (fold (\<lambda>i v. v[i * g := xs ! i]) [0..<m] (replicate N 0)) = N \<and>
      (\<forall>i < m. fold (\<lambda>i v. v[i * g := xs ! i]) [0..<m] (replicate N 0) ! (i * g) = xs ! i)" if "m \<le> length xs" for m
    using that assms by (induction m) (auto simp: less_Suc_eq nth_list_update)
  moreover have "\<not> (\<exists>i < length xs. N \<le> i * g)" using assms(2) by (simp add: not_le)
  ultimately show ?thesis by (simp add: spread_def)
qed

lemma noisy_add:
  assumes C: "seal_context_ok C" and k: "0 < k" and a: "a mod sc_total_modulus C = noisy (sc_total_modulus C) k x e"
  shows "\<exists>c. \<bar>c\<bar> \<le> 1 \<and> (a + up_value (sc_total_modulus C) k v) mod sc_total_modulus C
    = noisy (sc_total_modulus C) k (x + v) (e + c)"
proof -
  let ?Q = "sc_total_modulus C" and ?up = "\<lambda>x. int (up_value (sc_total_modulus C) k x)"
  define c where "c = ?up x + ?up v - ?up (x + v)"
  have Q: "0 < ?Q" by (rule total_modulus_bounds(1) [OF C])
  have "\<bar>c\<bar> \<le> 1"
    using share_scaling.scale_up_add [OF ms_scaling [OF C], of k "int x" "int v"]
    by (simp add: c_def int_up_value [OF k])
  moreover have "int ((a + up_value ?Q k v) mod ?Q) = (int a mod int ?Q + ?up v) mod int ?Q"
    by (simp add: zmod_int mod_simps)
  moreover have "int a mod int ?Q = (?up x + e) mod int ?Q"
    using arg_cong [OF a, of int] Q by (simp add: noisy_def zmod_int)
  ultimately have "int ((a + up_value ?Q k v) mod ?Q) = (?up (x + v) + (e + c)) mod int ?Q"
    by (simp add: c_def mod_simps algebra_simps)
  then have "(a + up_value ?Q k v) mod ?Q = noisy ?Q k (x + v) (e + c)" by (simp add: noisy_def)
  with \<open>\<bar>c\<bar> \<le> 1\<close> show ?thesis by blast
qed

lemma carries_add:
  assumes C: "seal_context_ok C" and k: "0 < k" and deg: "sc_degree C = 2 ^ K"
    and ys: "carries C k xs e ys" and len: "length v = length xs" "0 < length xs" "length xs \<le> 2 ^ K"
    and zs: "length zs = 2 ^ K" "\<forall>i < length v. zs ! (i * slot_stride (2 ^ K) (length v)) = up_value (sc_total_modulus C) k (unat (v ! i))"
  shows "\<exists>e'. carries C k (map2 (\<lambda>x y. x + unat y) xs v) e' (map2 (+) ys zs) \<and> (\<forall>i. \<bar>e' i\<bar> \<le> \<bar>e i\<bar> + 1)"
proof -
  let ?g = "slot_stride (2 ^ K) (length xs)" and ?Q = "sc_total_modulus C"
  have "\<forall>i. \<exists>c. i < length xs \<longrightarrow> \<bar>c\<bar> \<le> 1 \<and> (ys ! (i * ?g) + up_value ?Q k (unat (v ! i))) mod ?Q = noisy ?Q k (xs ! i + unat (v ! i)) (e i + c)"
    using noisy_add [OF C k] ys by (simp add: carries_def deg)
  then obtain c where c: "\<And>i. i < length xs \<Longrightarrow> \<bar>c i\<bar> \<le> 1 \<and>
      (ys ! (i * ?g) + up_value ?Q k (unat (v ! i))) mod ?Q = noisy ?Q k (xs ! i + unat (v ! i)) (e i + c i)"
    by metis
  define e' where "e' i = (if i < length xs then e i + c i else e i)" for i
  have "carries C k (map2 (\<lambda>x y. x + unat y) xs v) e' (map2 (+) ys zs)"
    using c ys zs len stride_in_range(1) [OF len(2,3)] by (simp add: carries_def deg e'_def)
  moreover have "\<bar>e' i\<bar> \<le> \<bar>e i\<bar> + 1" for i
    using c [of i] abs_triangle_ineq [of "e i" "c i"] by (auto simp: e'_def)
  ultimately show ?thesis by blast
qed

lemma subvectors_single:
  assumes "length v = 2 ^ K" "2 ^ K + 2 ^ K \<le> (2 :: nat) ^ 64"
  shows "subvectors (2 ^ K) v = [v]"
proof -
  have "CeilDiv (length v) (2 ^ K) = 1" using assms by (intro CeilDiv_le_1) simp_all
  then show ?thesis using assms by (simp add: subvectors_def subvec_range_def Let_def slice_def)
qed

text \<open>A vector of the full degree under a configuration with one row is one plaintext at the data level.\<close>

lemma encode_full:
  assumes I: "impl_ok I k" and deg: "sc_degree (pub_ctx I) = 2 ^ K"
    and cfg: "\<not> mi_is_transposed (pub_config I)" "mi_nrows (pub_config I) = 1" "mi_ncols (pub_config I) = 2 ^ K"
    and v: "length v = 2 ^ K"
  shows "pub_EncodeVector I v False False = Inr [data_pt I k v]"
proof -
  have L: "lib_ok (pub_seal_rt I)" using I by (simp add: impl_ok_def)
  have "3 * 2 ^ K \<le> length (sc_key_moduli (pub_ctx I)) * 2 ^ K" using lib_okD(6) [OF L] by (rule mult_le_mono1)
  also have "\<dots> < 2 ^ 64" using levels(3) [OF L] by (simp only: deg)
  finally have K: "2 ^ K + 2 ^ K \<le> (2 :: nat) ^ 64" by linarith
  have "ExpectMatVecOutputLen (pub_config I) = 1" "ExpectMatVecInputLen (pub_config I) = 2 ^ K"
    using cfg by (simp_all add: ExpectMatVecOutputLen_def ExpectMatVecInputLen_def)
  moreover have "shape_exponent (2 ^ K) 1 (2 ^ K) = 0"
    using Log2_pow2 [of 0] by (simp add: shape_exponent_def split: sum.splits)
  ultimately have shape: "GetSubmatrixShape (pub_config I) (2 ^ K) = Inr (1, 2 ^ K)"
    using GetSubmatrixShape_closed(1) [of "pub_config I" K] by simp
  show ?thesis
    using pub_EncodeVector_lemma(2) [OF I deg shape] subvectors_single [OF v K] v K cfg
    by (simp add: ExpectMatVecInputLen_def)
qed

text \<open>The plaintext \<open>UpdateMatVec\<close> adds holds the scaled vector in the slots.\<close>

lemma share_poly_nth: "i < length v \<Longrightarrow> share_poly C k v ! i = up_value (sc_total_modulus C) k (unat (v ! i))"
  by (simp add: share_poly_def nth_append)

lemma update_plaintext:
  assumes I: "impl_ok I k" and deg: "sc_degree (pub_ctx I) = 2 ^ K"
    and cfg: "\<not> mi_is_transposed (pub_config I)" "mi_nrows (pub_config I) = 1" "mi_ncols (pub_config I) = length v"
    and v: "0 < length v" "length v \<le> 2 ^ K"
  obtains w where "length w = 2 ^ K" "\<forall>i < length v. w ! (i * slot_stride (2 ^ K) (length v)) = v ! i"
    "update_encode I v False False = (Inr [data_pt I k w], I)"
proof (cases "length v = 2 ^ K")
  case True
  then have "pub_EncodeVector I v False False = Inr [data_pt I k v]"
    using encode_full [OF I deg cfg(1,2)] cfg(3) by simp
  with True show ?thesis
    by (intro that [of v]) (simp_all add: slot_stride_def update_encode_def pub_poly_degree_def deg)
next
  case False
  define J where "J = I\<lparr>pub_config := (pub_config I)\<lparr>mi_ncols := 2 ^ K\<rparr>\<rparr>"
  obtain w where w: "spread (2 ^ K) (slot_stride (2 ^ K) (length v)) v = Inr w" "length w = 2 ^ K"
      "\<forall>i < length v. w ! (i * slot_stride (2 ^ K) (length v)) = v ! i"
    using spread_ok [OF stride_in_range(2) [OF v v(1)] stride_in_range(1) [OF v]] by blast
  have "impl_ok J k" using I by (simp add: impl_ok_def J_def)
  then have "pub_EncodeVector J w False False = Inr [data_pt J k w]"
    by (rule encode_full) (use deg cfg w(2) in \<open>simp_all add: J_def\<close>)
  moreover have "data_pt J k w = data_pt I k w" by (simp add: data_pt_def J_def)
  moreover have "J\<lparr>pub_config := pub_config I\<rparr> = I" by (simp add: J_def)
  ultimately have "update_encode I v False False = (Inr [data_pt I k w], I)"
    using False w(1) by (simp add: update_encode_def pub_poly_degree_def deg slot_stride_def flip: J_def)
  then show ?thesis by (rule that [OF w(2,3)])
qed

lemma UpdateMatVec_lemma:
  assumes I: "impl_ok I k" and deg: "sc_degree (pub_ctx I) = 2 ^ K"
    and cfg: "\<not> mi_is_transposed (pub_config I)" "mi_nrows (pub_config I) = 1" "mi_ncols (pub_config I) = length v"
    and v: "v \<noteq> []" "length v \<le> 2 ^ K" "length (sc_first_moduli (pub_ctx I)) \<noteq> kNumModulus"
    and load: "sl_ct_load (pub_seal_rt I) s = Inr ct" "ct_coeff_ok (pub_rt I) (sc_first_moduli (pub_ctx I)) ct"
    and sk: "decrypt_ok (pub_seal_rt I) (sc_first_moduli (pub_ctx I)) sk"
    and dec: "decrypt_coeffs (pub_rt I) ct sk = Inr d" "pt_data d = rns_array (sc_first_moduli (pub_ctx I)) ys"
    and ys: "carries (pub_ctx I) k xs e ys" "length xs = length v"
    and save: "\<forall>ct. \<exists>s. sl_ct_save (pub_seal_rt I) ct = Inr s"
  shows "\<exists>ct' s' d' ys' e'. UpdateMatVec I v [s] = (Inr [s'], I) \<and> sl_ct_save (pub_seal_rt I) ct' = Inr s' \<and>
    ct_parms_id ct' = ct_parms_id ct \<and> decrypt_coeffs (pub_rt I) ct' sk = Inr d' \<and>
    pt_data d' = rns_array (sc_first_moduli (pub_ctx I)) ys' \<and>
    carries (pub_ctx I) k (map2 (\<lambda>x y. x + unat y) xs v) e' ys' \<and> (\<forall>i. \<bar>e' i\<bar> \<le> \<bar>e i\<bar> + 1)"
proof -
  let ?C = "pub_ctx I" and ?ms = "sc_first_moduli (pub_ctx I)"
  have L: "lib_ok (pub_seal_rt I)" and h: "ms_wf (pub_ms_helper I) ?C k" using I by (simp_all add: impl_ok_def)
  have k: "0 < k" using h by (simp add: ms_wf_def)
  have v0: "0 < length v" using v(1) by simp
  obtain w where w: "length w = 2 ^ K" "\<forall>i < length v. w ! (i * slot_stride (2 ^ K) (length v)) = v ! i"
    and enc: "update_encode I v False False = (Inr [data_pt I k w], I)"
    by (rule update_plaintext [OF I deg cfg v0 v(2)])
  have lw: "length (share_poly ?C k w) = sc_degree ?C" using length_share_poly [of w ?C k] w(1) deg by simp
  have noise: "zero_noise (pub_seal_rt I) ?ms sk ct ys"
    using load(2) dec ys by (auto simp: zero_noise_def carries_def)
  obtain ct' d' where ct': "add_plain_inplace (pub_rt I) ct (data_pt I k w) = Inr ct'" "decrypt_coeffs (pub_rt I) ct' sk = Inr d'"
      "pt_data d' = rns_array ?ms (map2 (+) ys (share_poly ?C k w))"
    using encrypt_zero_plus [OF lib_okD(1) [OF L] sk lib_okD(4) [OF L] noise, of "data_pt I k w" "share_poly ?C k w"] lw
    by (auto simp: data_pt_def)
  have "ct_parms_id ct' = ct_parms_id ct"
    using ct'(1) by (auto simp: add_plain_inplace_def Let_def split: if_splits)
  obtain s' where s': "sl_ct_save (pub_seal_rt I) ct' = Inr s'" using save by blast
  have "ct_coeff_modulus_size ct \<noteq> kNumModulus" "\<not> ct_is_ntt_form ct" using load(2) v(3) by (simp_all add: ct_coeff_ok_def)
  then have upd: "UpdateMatVec I v [s] = (Inr [s'], I)"
    using I enc load(1) v(2) cfg(3) ct'(1) s'
    by (simp add: UpdateMatVec_def impl_ok_def pub_poly_degree_def deg DecodeSEALObjects_def Let_def EncodeSEALObject_def)
  have "\<forall>i < length v. share_poly ?C k w ! (i * slot_stride (2 ^ K) (length v)) = up_value (sc_total_modulus ?C) k (unat (v ! i))"
    using w stride_in_range(1) [OF v0 v(2)] by (simp add: share_poly_nth)
  then have "\<exists>e'. carries ?C k (map2 (\<lambda>x y. x + unat y) xs v) e' (map2 (+) ys (share_poly ?C k w)) \<and> (\<forall>i. \<bar>e' i\<bar> \<le> \<bar>e i\<bar> + 1)"
    using carries_add [OF lib_okD(2) [OF L] k deg ys(1), of v "share_poly ?C k w"] ys(2) v0 v(2) lw deg by simp
  with upd s' \<open>ct_parms_id ct' = ct_parms_id ct\<close> ct'(2,3) show ?thesis by blast
qed

text \<open>
  C10. \<open>UpdateMatVec\<close> adds the vector: on a ciphertext at the data level that carries \<open>xs\<close>, with noise one below the
  bound, and a vector of the length of the product, it succeeds, leaves the configuration as it was, and
  every implementation that loads the new ciphertext decrypts it to the sum of both vectors modulo \<open>2 ^ k\<close>.
\<close>

theorem UpdateMatVec_then_Decrypt:
  assumes "impl_ok I k" "sc_degree (pub_ctx I) = 2 ^ K"
    and "\<not> mi_is_transposed (pub_config I)" "mi_nrows (pub_config I) = 1" "mi_ncols (pub_config I) = length v"
    and "v \<noteq> []" "length v \<le> 2 ^ K" "length (sc_first_moduli (pub_ctx I)) \<noteq> kNumModulus"
    and "sl_ct_load (pub_seal_rt I) s = Inr ct" "ct_coeff_ok (pub_rt I) (sc_first_moduli (pub_ctx I)) ct"
    and "decrypt_ok (pub_seal_rt I) (sc_first_moduli (pub_ctx I)) sk"
    and "decrypt_coeffs (pub_rt I) ct sk = Inr d" "pt_data d = rns_array (sc_first_moduli (pub_ctx I)) ys"
    and "carries (pub_ctx I) k xs e ys" "length xs = length v" "\<forall>i < length xs. noise_fits (pub_ctx I) k (\<bar>e i\<bar> + 1)"
    and "\<forall>ct. \<exists>s. sl_ct_save (pub_seal_rt I) ct = Inr s"
  shows "\<exists>ct' s'. UpdateMatVec I v [s] = (Inr [s'], I) \<and> sl_ct_save (pub_seal_rt I) ct' = Inr s' \<and>
    (\<forall>J. impl_ok J k \<and> pub_rt J = pub_rt I \<and> mi_nrows (pub_config J) = length v \<and> sl_ct_load (pub_seal_rt J) s' = Inr ct' \<longrightarrow>
      (\<exists>out. Decrypt J [s'] sk (length v) = Inr out \<and>
        map (\<lambda>y. unat y mod 2 ^ k) out = map2 (\<lambda>x y. (x + unat y) mod 2 ^ k) xs v))"
proof -
  obtain ct' s' d' ys' e' where u: "UpdateMatVec I v [s] = (Inr [s'], I)" "sl_ct_save (pub_seal_rt I) ct' = Inr s'"
    "ct_parms_id ct' = ct_parms_id ct" "decrypt_coeffs (pub_rt I) ct' sk = Inr d'"
    "pt_data d' = rns_array (sc_first_moduli (pub_ctx I)) ys'"
    "carries (pub_ctx I) k (map2 (\<lambda>x y. x + unat y) xs v) e' ys'" "\<forall>i. \<bar>e' i\<bar> \<le> \<bar>e i\<bar> + 1"
    using UpdateMatVec_lemma [OF assms(1-15,17)] by blast
  let ?zs = "map2 (\<lambda>x y. x + unat y) xs v"
  have fits: "\<forall>i < length ?zs. noise_fits (pub_ctx I) k (e' i)"
  proof (intro allI impI)
    fix i assume "i < length ?zs"
    then have "2 ^ k * (2 * (\<bar>e i\<bar> + 1) + 1) + 1 < int (sc_total_modulus (pub_ctx I))"
      using assms(16) by (simp add: noise_fits_def)
    moreover have "(2 :: int) ^ k * (2 * \<bar>e' i\<bar> + 1) \<le> 2 ^ k * (2 * (\<bar>e i\<bar> + 1) + 1)"
      using spec [OF u(7), of i] by (intro mult_left_mono) auto
    ultimately show "noise_fits (pub_ctx I) k (e' i)" unfolding noise_fits_def by linarith
  qed
  have parms: "sr_context_moduli (pub_rt I) (ct_parms_id ct') = Some (sc_first_moduli (pub_ctx I))"
    using assms(10) u(3) by (simp add: ct_coeff_ok_def)
  have len: "length ?zs = length v" using assms(15) by simp
  have "\<exists>out. Decrypt J [s'] sk (length v) = Inr out \<and> map (\<lambda>y. unat y mod 2 ^ k) out = map2 (\<lambda>x y. (x + unat y) mod 2 ^ k) xs v"
    if J: "impl_ok J k" "pub_rt J = pub_rt I" "mi_nrows (pub_config J) = length v" "sl_ct_load (pub_seal_rt J) s' = Inr ct'" for J
  proof -
    have "\<exists>out. Decrypt J [s'] sk (length ?zs) = Inr out \<and> map (\<lambda>y. unat y mod 2 ^ k) out = map (\<lambda>x. x mod 2 ^ k) ?zs"
      by (rule Decrypt_lemma [OF J(1), where ct = ct' and d = d' and ys = ys' and e = e' and K = K])
        (use J u parms fits len assms(2,6,7) in auto)
    moreover have "map (\<lambda>x. x mod 2 ^ k) ?zs = map2 (\<lambda>x y. (x + unat y) mod 2 ^ k) xs v"
      by (intro nth_equalityI) simp_all
    ultimately show ?thesis by (simp only: len)
  qed
  with u(1,2) show ?thesis by blast
qed

theorem UpdateMatVec_then_Decrypt_witness:
  "\<exists>I s' ct'. UpdateMatVec I [- 1] [''ct''] = (Inr [s'], I) \<and>
    (\<exists>J out. sl_ct_load (pub_seal_rt J) s' = Inr ct' \<and> Decrypt J [s'] sk_ref 1 = Inr out \<and> map (\<lambda>y. unat y mod 2 ^ 64) out = [4])"
proof -
  define ys :: "nat list" where "ys = [noisy (17314086913 * 17180393473) 64 5 2, 77]"
  obtain rt I0 where I0: "pub_seal_rt I0 = lib_ref (carry_ct ys)" "pub_config I0 = meta_ref" "impl_ok I0 64"
    by (rule ref_context)
  define I where "I = I0\<lparr>pub_config := meta_ref\<lparr>mi_ncols := 1\<rparr>\<rparr>"
  have I: "pub_seal_rt I = lib_ref (carry_ct ys)" "pub_config I = meta_ref\<lparr>mi_ncols := 1\<rparr>" "impl_ok I 64"
    using I0 by (simp_all add: I_def impl_ok_def)
  have len: "length ys = 2" by (simp add: ys_def)
  obtain d where d: "decrypt_coeffs (pub_rt I) (carry_ct ys) sk_ref = Inr d" "pt_data d = rns_array (sc_first_moduli (pub_ctx I)) ys"
    using decrypt_carry_ct [OF len] by (auto simp: I ref_moduli)
  have car: "carries (pub_ctx I) 64 [5] (\<lambda>_. 2) ys" unfolding ys_def I(1) lib_ref_rt by (rule carries_ref)
  have "\<exists>ct' s'. UpdateMatVec I [- 1] [''ct''] = (Inr [s'], I) \<and> sl_ct_save (pub_seal_rt I) ct' = Inr s' \<and>
    (\<forall>J. impl_ok J 64 \<and> pub_rt J = pub_rt I \<and> mi_nrows (pub_config J) = length [- 1 :: u64] \<and> sl_ct_load (pub_seal_rt J) s' = Inr ct' \<longrightarrow>
      (\<exists>out. Decrypt J [s'] sk_ref (length [- 1 :: u64]) = Inr out \<and>
        map (\<lambda>y. unat y mod 2 ^ 64) out = map2 (\<lambda>x y. (x + unat y) mod 2 ^ 64) [5] [- 1 :: u64]))"
    by (rule UpdateMatVec_then_Decrypt [OF I(3) _ _ _ _ _ _ _ _ _ _ d car, where K = 1])
      (use carry_ct_ok [OF len] decrypt_ok_ref [of "butlast kModulus"] noise_fits_ref [of 3] in
        \<open>simp_all add: I meta_ref_def ref_moduli kNumModulus_def kModulus_values lib_ref_def\<close>)
  moreover have four: "(5 + unat (- 1 :: u64)) mod 2 ^ 64 = 4"
    by (simp add: unsigned_minus_1_eq_mask mask_eq_exp_minus_1)
  ultimately obtain ct' s' where u: "UpdateMatVec I [- 1] [''ct''] = (Inr [s'], I)"
    and J: "\<And>J. impl_ok J 64 \<Longrightarrow> pub_rt J = pub_rt I \<Longrightarrow> mi_nrows (pub_config J) = 1 \<Longrightarrow> sl_ct_load (pub_seal_rt J) s' = Inr ct' \<Longrightarrow>
      \<exists>out. Decrypt J [s'] sk_ref 1 = Inr out \<and> map (\<lambda>y. unat y mod 2 ^ 64) out = [4]"
    using four by auto
  obtain rt2 J2 where J2: "pub_seal_rt J2 = lib_ref ct'" "pub_config J2 = meta_ref" "impl_ok J2 64" by (rule ref_context)
  have load: "sl_ct_load (pub_seal_rt J2) s' = Inr ct'" unfolding J2(1) by (simp add: lib_ref_def)
  have "pub_rt J2 = pub_rt I" "mi_nrows (pub_config J2) = 1" by (simp_all add: I(1) J2(1,2) meta_ref_def)
  from J [OF J2(3) this load] obtain out where out: "Decrypt J2 [s'] sk_ref 1 = Inr out" "map (\<lambda>y. unat y mod 2 ^ 64) out = [4]"
    by (elim exE conjE)
  show ?thesis
    by (rule exI [of _ I], rule exI [of _ s'], rule exI [of _ ct'], intro conjI exI [of _ J2] exI [of _ out]) fact+
qed

end
