(* ===== verification/PrivateCorrect.thy ===== *)
theory PrivateCorrect
  imports Private DecryptCorrect
begin

text \<open>
  Correctness of the operations of theory \<open>Private\<close>: which words the rejection sampling accepts and when it
  returns, the residues \<open>CenteralizeAt\<close> gives the entries of the matrix, and what a client that decrypts sees of
  \<open>DropUnusedCoeffs\<close>.
\<close>

section \<open>Rejection sampling\<close>

lemma seal_modD:
  assumes "seal_arith_ok S" "valid_modulus q"
  shows "unat (barrett_reduce_64 S x q) = unat x mod unat q"
    and "x < q \<Longrightarrow> unat (negate_uint_mod S x q) = (unat q - unat x) mod unat q"
  using assms by (simp_all add: seal_arith_ok_def seal_mod_ok_def)

lemma unat_minus_1_64: "unat (- 1 :: u64) = 2 ^ 64 - 1"
  by (simp add: unsigned_minus_1_eq_mask mask_eq_exp_minus_1)

lemma sample_bound_value:
  assumes "seal_arith_ok S" "valid_modulus q"
  shows "unat (sample_bound S q) = (2 ^ 64 - 1) div unat q * unat q - 1"
    and "1 < (2 ^ 64 - 1) div unat q * unat q" and "1 < (2 ^ 64 - 1) div unat q"
proof -
  define M :: nat where "M = 2 ^ 64 - 1"
  let ?q = "unat q" and ?b = "barrett_reduce_64 S (- 1) q"
  have q: "1 < ?q" "?q < 2 ^ 61" using assms(2) by (simp_all add: valid_modulus_def)
  have b: "unat ?b = M mod ?q" using seal_modD(1) [OF assms, of "- 1"] by (simp add: unat_minus_1_64 M_def)
  have "2 * ?q \<le> M" using q(2) by (simp add: M_def)
  then have "2 \<le> M div ?q" using q(1) by (simp add: less_eq_div_iff_mult_less_eq)
  then show "1 < (2 ^ 64 - 1) div ?q" by (simp add: M_def)
  have d: "M - M mod ?q = M div ?q * ?q" by (simp add: minus_mod_eq_div_mult)
  have "2 * 1 \<le> M div ?q * ?q" using \<open>2 \<le> M div ?q\<close> q(1) by (intro mult_le_mono) simp_all
  then have big: "1 < M div ?q * ?q" by simp
  then show "1 < (2 ^ 64 - 1) div ?q * ?q" by (simp add: M_def)
  have "?b \<le> - 1" by (rule word_order.extremum)
  then have s1: "unat (- 1 - ?b) = M - M mod ?q"
    using b by (simp only: unat_sub) (simp add: unat_minus_1_64 M_def)
  then have "1 \<le> unat (- 1 - ?b)" using big d by linarith
  then have "(1 :: u64) \<le> - 1 - ?b" by (simp only: word_le_nat_alt unat_1)
  then have "unat (- 1 - ?b - 1) = M - M mod ?q - 1"
    using s1 by (simp only: unat_sub) simp
  then show "unat (sample_bound S q) = (2 ^ 64 - 1) div ?q * ?q - 1"
    using d by (simp add: sample_bound_def M_def)
qed

lemma card_residue:
  assumes "v < q"
  shows "card {x :: nat. x < n * q \<and> x mod q = v} = n"
proof -
  have "{x :: nat. x < n * q \<and> x mod q = v} = (\<lambda>i. i * q + v) ` {..<n}"
  proof (rule set_eqI, rule iffI)
    fix x
    assume "x \<in> {x. x < n * q \<and> x mod q = v}"
    then have x: "x < n * q" "x mod q = v" by simp_all
    then have "x div q < n" by (simp add: less_mult_imp_div_less)
    moreover have "x = x div q * q + v" using x(2) by (metis div_mult_mod_eq)
    ultimately show "x \<in> (\<lambda>i. i * q + v) ` {..<n}" by blast
  next
    fix x
    assume "x \<in> (\<lambda>i. i * q + v) ` {..<n}"
    then obtain i where i: "i < n" "x = i * q + v" by blast
    have "Suc i * q \<le> n * q" using i(1) by (intro mult_le_mono1) simp
    then show "x \<in> {x. x < n * q \<and> x mod q = v}" using i(2) assms by simp
  qed
  moreover have "inj_on (\<lambda>i. i * q + v) {..<n}" using assms by (auto simp: inj_on_def)
  ultimately show ?thesis by (simp add: card_image)
qed

lemma card_unat: "card {x :: u64. P (unat x)} = card {n. n < 2 ^ 64 \<and> P n}"
proof -
  have "unat ` {x :: u64. P (unat x)} = {n. n < 2 ^ 64 \<and> P n}"
  proof (rule set_eqI, rule iffI)
    fix n
    assume "n \<in> {n. n < 2 ^ 64 \<and> P n}"
    then have "unat (of_nat n :: u64) = n" "P n" by (simp_all add: unat_of_nat)
    then show "n \<in> unat ` {x :: u64. P (unat x)}" by (intro image_eqI [of _ _ "of_nat n"]) simp_all
  next
    fix n
    assume "n \<in> unat ` {x :: u64. P (unat x)}"
    then show "n \<in> {n. n < 2 ^ 64 \<and> P n}" using unat64_less by auto
  qed
  moreover have "inj_on unat {x :: u64. P (unat x)}" by (auto simp: inj_on_def word_unat_eq_iff)
  ultimately show ?thesis using card_image by metis
qed

text \<open>
  The sampling is not quite uniform: of the words the rejection loop accepts, every residue of the modulus
  has equally many, \<open>(2 ^ 64 - 1) div q\<close>, except the largest residue, which has one less (the bound is
  one below a multiple of the modulus). The loop therefore accepts some word for every residue.
\<close>

theorem accepted_words_per_residue:
  assumes "seal_arith_ok S" "valid_modulus q" "v < unat q"
  shows "card {r. r < sample_bound S q \<and> unat (barrett_reduce_64 S r q) = v}
      = (2 ^ 64 - 1) div unat q - of_bool (v = unat q - 1) \<and>
    (\<exists>r. r < sample_bound S q \<and> unat (barrett_reduce_64 S r q) = v)"
proof -
  let ?q = "unat q" and ?A = "{r. r < sample_bound S q \<and> unat (barrett_reduce_64 S r q) = v}"
  define m where "m = (2 ^ 64 - 1) div ?q"
  have b: "unat (sample_bound S q) = m * ?q - 1" "1 < m * ?q" "1 < m"
    using sample_bound_value [OF assms(1,2)] by (simp_all add: m_def)
  have "m * ?q \<le> 2 ^ 64 - 1" by (simp add: m_def)
  then have lt: "m * ?q < 2 ^ 64" by simp
  have "?A = {r. unat r < m * ?q - 1 \<and> unat r mod ?q = v}"
    by (simp only: word_less_nat_alt b(1) seal_modD(1) [OF assms(1,2)])
  then have "card ?A = card {n. n < 2 ^ 64 \<and> n < m * ?q - 1 \<and> n mod ?q = v}"
    using card_unat [of "\<lambda>n. n < m * ?q - 1 \<and> n mod ?q = v"] by simp
  also have "{n. n < 2 ^ 64 \<and> n < m * ?q - 1 \<and> n mod ?q = v} = {n. n < m * ?q \<and> n mod ?q = v} - {m * ?q - 1}"
    using lt by auto
  also have "card \<dots> = m - of_bool (v = ?q - 1)"
  proof -
    have "(m * ?q - 1) mod ?q = ?q - 1"
    proof -
      have "m * ?q - 1 = (m - 1) * ?q + (?q - 1)" using b assms(3) by (cases m) simp_all
      moreover have "((m - 1) * ?q + (?q - 1)) mod ?q = ?q - 1" using assms(3) by (subst mod_mult_self3) simp
      ultimately show ?thesis by (simp only:)
    qed
    then have "m * ?q - 1 \<in> {n. n < m * ?q \<and> n mod ?q = v} \<longleftrightarrow> v = ?q - 1" using b(2) by auto
    then show ?thesis using card_residue [OF assms(3), of m] by (cases "v = ?q - 1") (simp_all add: card_Diff_singleton_if)
  qed
  finally have card: "card ?A = m - of_bool (v = ?q - 1)" .
  then have "card ?A \<noteq> 0" using b(3) by (simp add: of_bool_def)
  then have "?A \<noteq> {}" by auto
  then show ?thesis using card by (auto simp: m_def)
qed

theorem accepted_words_per_residue_witness:
  "card {r. r < sample_bound seal_ref 3 \<and> unat (barrett_reduce_64 seal_ref r 3) = 2} = 6148914691236517204"
  using accepted_words_per_residue [OF seal_arith_ok_ref, of 3 2] by (simp add: valid_modulus_def)

text \<open>The word at a position of a byte stream, and the words the loop looks at.\<close>

definition word_at :: "(nat \<Rightarrow> nat \<Rightarrow> u8) \<Rightarrow> nat \<Rightarrow> nat \<Rightarrow> u64" where
  "word_at streams g p = u64_of_bytes (map (streams g) [p..<p + 8])"

fun candidate :: "(nat \<Rightarrow> nat \<Rightarrow> u8) \<Rightarrow> nat \<Rightarrow> nat \<Rightarrow> u64 \<Rightarrow> nat \<Rightarrow> u64" where
  "candidate streams g p rand 0 = rand"
| "candidate streams g p rand (Suc i) = word_at streams g (p + 8 * i)"

definition advanced :: "nat \<Rightarrow> nat \<Rightarrow> nat \<Rightarrow> cprng \<Rightarrow> cprng" where
  "advanced g p n s = s\<lparr>cp_prng := Some (g, p + n), cp_bytes_gen := cp_bytes_gen s + n\<rparr>"

lemma CPRNG_8:
  assumes "cp_prng s = Some (g, p)" "cp_bytes_gen s < kMaxBytes"
  shows "CPRNG streams 8 True s = Inr (0, map (streams g) [p..<p + 8], advanced g p 8 s)"
  using assms by (simp add: CPRNG_def advanced_def kMaxBytes_def)

lemma advanced_advanced:
  "cp_prng s = Some (g, p) \<Longrightarrow> advanced g (p + a) b (advanced g p a s) = advanced g p (a + b) s"
  by (simp add: advanced_def add.assoc)

lemma resample_lemma:
  "cp_prng s = Some (g, p) \<Longrightarrow> cp_bytes_gen s + 8 * k < kMaxBytes + 8 \<Longrightarrow>
    (\<forall>i < k. \<not> candidate streams g p rand i < b) \<Longrightarrow> candidate streams g p rand k < b \<Longrightarrow>
    resample streams b rand s = Some (Inr (candidate streams g p rand k, advanced g p (8 * k) s))"
proof (induction k arbitrary: rand s p)
  case 0
  then show ?case by (subst resample.simps) (simp add: advanced_def)
next
  case (Suc k)
  let ?w = "word_at streams g p" and ?s = "advanced g p 8 s"
  have "\<not> rand < b" using Suc.prems(3) by force
  moreover have "CPRNG streams 8 True s = Inr (0, map (streams g) [p..<p + 8], ?s)"
    using Suc.prems(1,2) by (intro CPRNG_8) simp_all
  ultimately have step: "resample streams b rand s = resample streams b ?w ?s"
    by (subst resample.simps) (simp add: word_at_def)
  have cand: "candidate streams g (p + 8) ?w i = candidate streams g p rand (Suc i)" for i
    by (cases i) (simp_all add: add.assoc)
  have "resample streams b ?w ?s = Some (Inr (candidate streams g (p + 8) ?w k, advanced g (p + 8) (8 * k) ?s))"
    using Suc.prems by (intro Suc.IH) (auto simp: advanced_def cand)
  then show ?case using step advanced_advanced [OF Suc.prems(1), of 8 "8 * k"] by (simp only: cand) simp
qed

text \<open>
  C39. The rejection loop returns the first acceptable word: when the generator is set up and has not used up
  its bytes, and the \<open>k\<close>-th of the candidates (the word at hand, then the words of the byte stream) is the first one
  below the bound, the loop returns it and has consumed eight bytes per rejection.
\<close>

theorem resample_returns_first:
  assumes "cp_prng s = Some (g, p)" "cp_bytes_gen s + 8 * k < kMaxBytes + 8"
    and "\<forall>i < k. \<not> candidate streams g p rand i < b" "candidate streams g p rand k < b"
  shows "resample streams b rand s = Some (Inr (candidate streams g p rand k, advanced g p (8 * k) s))"
  using assms by (rule resample_lemma)

lemma u64_of_zero_bytes: "u64_of_bytes (map (\<lambda>i. 0) xs) = 0"
  by (induction xs) simp_all

theorem resample_returns_first_witness:
  "resample (\<lambda>g i. 0) (sample_bound seal_ref 3) (- 1) \<lparr>cp_prng = Some (0, 0), cp_bytes_gen = 8, cp_created = 1\<rparr>
    = Some (Inr (0, \<lparr>cp_prng = Some (0, 8), cp_bytes_gen = 16, cp_created = 1\<rparr>))"
proof -
  let ?str = "\<lambda>(g :: nat) (i :: nat). 0 :: u8"
  have b: "sample_bound seal_ref 3 = 0xFFFFFFFFFFFFFFFE" by (simp add: sample_bound_def seal_ref_def)
  have c: "candidate ?str 0 0 (- 1) (Suc 0) = 0" by (simp add: word_at_def u64_of_zero_bytes)
  show ?thesis
    using resample_returns_first [of "\<lparr>cp_prng = Some (0, 0), cp_bytes_gen = 8, cp_created = 1\<rparr>" 0 0 1 ?str "- 1" "sample_bound seal_ref 3"] c
    by (simp add: b advanced_def kMaxBytes_def)
qed

lemma resample_below: "resample streams b rand s = Some (Inr (r, s')) \<Longrightarrow> r < b"
proof -
  assume run: "resample streams b rand s = Some (Inr (r, s'))"
  have "\<forall>r' t. Inr (r, s') = (Inr (r', t) :: (u64 \<times> cprng) outcome) \<longrightarrow> r' < b"
    by (rule resample.raw_induct [of "\<lambda>streams b rand s y. \<forall>r t. y = Inr (r, t) \<longrightarrow> r < b", OF _ run])
      (auto split: if_splits sum.splits)
  then show "r < b" by blast
qed

text \<open>What one modulus and all moduli contribute.\<close>

lemma sample_words_ok:
  assumes S: "seal_arith_ok S" and q: "valid_modulus q"
  shows "sample_words S streams q rands s = Inr (xs, s') \<Longrightarrow> length xs = length rands \<and> reduced q xs"
proof (induction rands arbitrary: s xs)
  case Nil
  then show ?case by (simp add: reduced_def)
next
  case (Cons rand rands)
  then obtain r s1 ys where ys: "sample_words S streams q rands s1 = Inr (ys, s')" "xs = barrett_reduce_64 S r q # ys"
    by (auto simp: obind_eq_Inr_iff)
  have "barrett_reduce_64 S r q < q"
    using seal_modD(1) [OF S q] q by (simp add: word_less_nat_alt valid_modulus_def)
  with Cons.IH [OF ys(1)] ys(2) show ?case by (simp add: reduced_def)
qed

lemma CPRNG_bytes: "CPRNG streams n True s = Inr (c, bytes, s') \<Longrightarrow> 0 < n \<Longrightarrow> length bytes = n"
  by (auto simp: CPRNG_def Let_def split: if_splits prod.splits)

lemma sample_limb_ok:
  assumes "seal_arith_ok S" "valid_modulus q" "0 < n" "sample_limb S streams n q s = Inr (xs, s')"
  shows "length xs = n \<and> reduced q xs"
proof -
  obtain c bytes s1 where "CPRNG streams (n * 8) True s = Inr (c, bytes, s1)"
      "sample_words S streams q (words_of_bytes bytes) s1 = Inr (xs, s')"
    using assms(4) by (auto simp: sample_limb_def obind_eq_Inr_iff)
  then show ?thesis
    using sample_words_ok [OF assms(1,2)] CPRNG_bytes [of streams "n * 8" s c bytes s1] assms(3)
    by (auto simp: words_of_bytes_def)
qed

lemma sample_limbs_ok:
  assumes S: "seal_arith_ok S" and n: "0 < n"
  shows "\<forall>q \<in> set qs. valid_modulus q \<Longrightarrow> sample_limbs S streams n qs s = Inr (xs, s') \<Longrightarrow> rns_ok n qs xs"
proof (induction qs arbitrary: s xs)
  case Nil
  then show ?case by (simp add: rns_ok_def)
next
  case (Cons q qs)
  then obtain as s1 bs where ab: "sample_limb S streams n q s = Inr (as, s1)"
      "sample_limbs S streams n qs s1 = Inr (bs, s')" "xs = as @ bs"
    by (auto simp: obind_eq_Inr_iff)
  have as: "length as = n" "reduced q as" using sample_limb_ok [OF S _ n ab(1)] Cons.prems(1) by simp_all
  have bs: "rns_ok n qs bs" using Cons.IH [OF _ ab(2)] Cons.prems(1) by simp
  have "length (limb n xs l) = n \<and> reduced ((q # qs) ! l) (limb n xs l)" if "l < Suc (length qs)" for l
  proof (cases l)
    case 0
    then show ?thesis using as by (simp add: ab(3) slice_def)
  next
    case (Suc m)
    then have "limb n xs l = limb n bs m" using as(1) by (simp add: ab(3) slice_def)
    then show ?thesis using rns_okD [OF bs, of m] that Suc by simp
  qed
  then show ?case using as(1) bs by (simp add: rns_ok_def ab(3))
qed

section \<open>Residues of a random vector\<close>

text \<open>Chinese remainders: every family of residues belongs to a number below the product.\<close>

lemma crt_exists:
  fixes qs rs :: "nat list"
  shows "\<forall>q \<in> set qs. 0 < q \<Longrightarrow>
    \<forall>i j. i < length qs \<longrightarrow> j < length qs \<longrightarrow> i \<noteq> j \<longrightarrow> coprime (qs ! i) (qs ! j) \<Longrightarrow> length rs = length qs \<Longrightarrow>
    \<exists>x < prod_list qs. \<forall>i < length qs. x mod (qs ! i) = rs ! i mod (qs ! i)"
proof (induction qs arbitrary: rs)
  case Nil
  then show ?case by (intro exI [of _ 0]) simp
next
  case (Cons q qs)
  obtain r rs' where rs: "rs = r # rs'" "length rs' = length qs" using Cons.prems(3) by (cases rs) auto
  have pair: "coprime (qs ! i) (qs ! j)" if "i < length qs" "j < length qs" "i \<noteq> j" for i j
    using Cons.prems(2) [rule_format, of "Suc i" "Suc j"] that by simp
  obtain y where y: "y < prod_list qs" "\<forall>i < length qs. y mod (qs ! i) = rs' ! i mod (qs ! i)"
    using Cons.IH [of rs'] Cons.prems(1) pair rs(2) by auto
  have "coprime (qs ! i) q" if "i < length qs" for i
    using Cons.prems(2) [rule_format, of "Suc i" 0] that by simp
  then have cop: "coprime (prod_list qs) q" by (intro coprime_prod_list) simp
  have q: "0 < q" using Cons.prems(1) by simp
  define z where "z = nat ((int r - int y) * fst (bezw (prod_list qs) q) mod int q)"
  have z: "Suc z \<le> q" using q by (simp add: z_def nat_less_iff Suc_le_eq)
  have "Suc z * prod_list qs \<le> q * prod_list qs" using z by (rule mult_le_mono1)
  then have lt: "y + prod_list qs * z < prod_list (q # qs)" using y(1) by (simp add: algebra_simps)
  have "(y + prod_list qs * z) mod ((q # qs) ! i) = rs ! i mod ((q # qs) ! i)" if "i < length (q # qs)" for i
  proof (cases i)
    case 0
    then show ?thesis using crt_step_mod [OF q cop, of y r] by (simp add: z_def rs)
  next
    case (Suc m)
    then have m: "m < length qs" using that by simp
    then have "qs ! m dvd prod_list qs * z" by (simp add: dvd_prod_list)
    then have "(y + prod_list qs * z) mod (qs ! m) = y mod (qs ! m)" by (simp add: mod_add_right_eq flip: mod_add_eq)
    then show ?thesis using y(2) m by (simp add: Suc rs)
  qed
  with lt show ?case by blast
qed

lemma residues_of_numbers:
  assumes C: "seal_context_ok C" and xs: "rns_ok n (sc_first_moduli C) xs"
  obtains ys where "length ys = n" "\<forall>y \<in> set ys. y < sc_total_modulus C" "xs = rns_array (sc_first_moduli C) ys"
proof -
  let ?qs = "sc_first_moduli C" and ?us = "map unat (sc_first_moduli C)"
  have valid: "\<forall>q \<in> set ?qs. valid_modulus q" using first_moduli_valid [OF C] by blast
  then have pos: "\<forall>q \<in> set ?us. 0 < q" by (auto simp: valid_modulus_def)
  have cop: "\<forall>i j. i < length ?us \<longrightarrow> j < length ?us \<longrightarrow> i \<noteq> j \<longrightarrow> coprime (?us ! i) (?us ! j)"
  proof (intro allI impI)
    fix i j
    assume "i < length ?us" "j < length ?us" "i \<noteq> j"
    moreover have "\<forall>i j. i < length ?qs \<longrightarrow> j < length ?qs \<longrightarrow> i \<noteq> j \<longrightarrow> coprime (unat (?qs ! i)) (unat (?qs ! j))"
      using C unfolding seal_context_ok_def by blast
    ultimately show "coprime (?us ! i) (?us ! j)" by (simp only: length_map nth_map) blast
  qed
  have "\<exists>y < prod_list ?us. \<forall>l < length ?qs. y mod unat (?qs ! l) = unat (limb n xs l ! i) mod unat (?qs ! l)" for i
    using crt_exists [OF pos cop, of "map (\<lambda>l. unat (limb n xs l ! i)) [0..<length ?qs]"] by simp
  then obtain f where f: "\<And>i. f i < prod_list ?us"
      "\<And>i l. l < length ?qs \<Longrightarrow> f i mod unat (?qs ! l) = unat (limb n xs l ! i) mod unat (?qs ! l)"
    by metis
  let ?ys = "map f [0..<n]"
  have "xs = rns_array ?qs ?ys"
  proof (rule limbs_eqI)
    show "length xs = length ?qs * n" using xs by (simp add: rns_ok_def)
    show "length (rns_array ?qs ?ys) = length ?qs * n" by simp
  next
    fix l
    assume l: "l < length ?qs"
    have r: "length (limb n xs l) = n" "reduced (?qs ! l) (limb n xs l)" using rns_okD [OF xs l] by simp_all
    have "limb n xs l ! i = of_nat (f i mod unat (?qs ! l))" if "i < n" for i
    proof -
      have "limb n xs l ! i < ?qs ! l" using reduced_nth [OF r(2)] r(1) that by simp
      then show ?thesis using f(2) [OF l] by (simp add: word_less_nat_alt)
    qed
    then have "limb n xs l = map (\<lambda>y. of_nat (y mod unat (?qs ! l))) ?ys"
      using r(1) by (intro nth_equalityI) simp_all
    also have "\<dots> = limb n (rns_array ?qs ?ys) l" using limb_rns_array [OF l, of ?ys n] by simp
    finally show "limb n xs l = limb n (rns_array ?qs ?ys) l" .
  qed
  moreover have "prod_list ?us = sc_total_modulus C" using C by (simp add: seal_context_ok_def)
  ultimately show ?thesis using f(1) by (intro that [of ?ys]) auto
qed

section \<open>Signed entries\<close>

text \<open>
  A 64-bit entry stands for a number in \<open>[-2 ^ 63, 2 ^ 63)\<close>. SEAL documents the negation for operands below the
  modulus only, so the negative entries must be above \<open>-q\<close>.
\<close>

lemma unat_of_signed:
  "sint (x :: u64) < 0 \<Longrightarrow> int (unat x) = 2 ^ 64 + sint x \<and> int (unat (- x)) = - sint x"
  "0 \<le> sint (x :: u64) \<Longrightarrow> int (unat x) = sint x"
proof -
  have range: "- (2 ^ 63) \<le> sint x" "sint x < 2 ^ 63" using sint_ge [of x] sint_lt [of x] by simp_all
  have u: "int (unat x) = sint x mod 2 ^ 64" using uint_sint [of x] by (simp add: take_bit_eq_mod)
  have v: "int (unat (- x)) = - int (unat x) mod 2 ^ 64" using uint_word_ariths(4) [of x] by simp
  show "0 \<le> sint x \<Longrightarrow> int (unat x) = sint x" using u range by simp
  assume neg: "sint x < 0"
  have "sint x mod 2 ^ 64 = (2 ^ 64 + sint x) mod 2 ^ 64" by simp
  also have "\<dots> = 2 ^ 64 + sint x" using neg range by (intro mod_pos_pos_trivial) simp_all
  finally have ux: "int (unat x) = 2 ^ 64 + sint x" using u by simp
  have "- int (unat x) mod 2 ^ 64 = (- int (unat x) + 2 ^ 64) mod 2 ^ 64" by simp
  also have "- int (unat x) + 2 ^ 64 = - sint x" using ux by simp
  also have "- sint x mod 2 ^ 64 = - sint x" using neg range by (intro mod_pos_pos_trivial) simp_all
  finally show "int (unat x) = 2 ^ 64 + sint x \<and> int (unat (- x)) = - sint x" using ux v by simp
qed

lemma half_le_iff: "push_bit 63 1 \<le> (x :: u64) \<longleftrightarrow> sint x < 0"
proof -
  have "int (unat (push_bit 63 1 :: u64)) = 2 ^ 63" by simp
  then have "push_bit 63 1 \<le> x \<longleftrightarrow> 2 ^ 63 \<le> int (unat x)" unfolding word_le_nat_alt by linarith
  also have "\<dots> \<longleftrightarrow> sint x < 0"
    using unat_of_signed [of x] sint_ge [of x] sint_lt [of x] by (cases "sint x < 0") simp_all
  finally show ?thesis .
qed

lemma half_le_iff_numeral: "9223372036854775808 \<le> (x :: u64) \<longleftrightarrow> sint x < 0"
  using half_le_iff [of x] by simp

lemma CenteralizeAt_entry_signed:
  assumes S: "seal_arith_ok S" and q: "valid_modulus q" and x: "- int (unat q) < sint x"
  shows "int (unat (CenteralizeAt_entry S 64 q x)) = sint x mod int (unat q)"
proof (cases "sint x < 0")
  case True
  note u = unat_of_signed(1) [OF True]
  have "int (unat (- x)) < int (unat q)" using u x by simp
  then have lt: "unat (- x) < unat q" by (simp only: of_nat_less_iff)
  then have "unat (CenteralizeAt_entry S 64 q x) = (unat q - unat (- x)) mod unat q"
    using seal_modD(2) [OF S q, of "- x"] True by (simp add: CenteralizeAt_entry_def half_le_iff_numeral word_less_nat_alt)
  also have "int \<dots> = (int (unat q) - int (unat (- x))) mod int (unat q)" using lt by (simp add: zmod_int of_nat_diff)
  finally show ?thesis using u by simp
next
  case False
  then show ?thesis
    using seal_modD(1) [OF S q, of x] unat_of_signed(2) [of x]
    by (simp add: CenteralizeAt_entry_def half_le_iff_numeral zmod_int)
qed

text \<open>With fewer bits the mask is a single bit, and every entry from the half on becomes the same residue.\<close>

lemma div_below_multiple:
  fixes a b x :: nat
  assumes "0 < x" "x \<le> b" "0 < a"
  shows "(b * a - x) div b = a - 1"
proof -
  have "b * a - x = (b - x) + (a - 1) * b" using assms by (cases a) (simp_all add: algebra_simps)
  moreover have "((b - x) + (a - 1) * b) div b = (a - 1) + (b - x) div b" using assms by (intro div_mult_self1) simp
  ultimately show ?thesis using assms by simp
qed

lemma unat_negation:
  assumes "0 < unat (x :: u64)"
  shows "unat (- x) + unat x = 2 ^ 64"
proof -
  have less: "int (unat x) < 2 ^ 64" using unsigned_less [of x, where ?'a = int] by simp
  have pos: "0 < int (unat x)" using assms(1) by (simp only: of_nat_0_less_iff)
  have "int (unat (- x)) = - int (unat x) mod 2 ^ 64" using uint_word_ariths(4) [of x] by simp
  also have "\<dots> = (- int (unat x) + 2 ^ 64) mod 2 ^ 64" by simp
  also have "\<dots> = 2 ^ 64 - int (unat x)" using less pos by (subst mod_pos_pos_trivial) linarith+
  finally have "int (unat (- x) + unat x) = int (2 ^ 64)" by simp
  then show ?thesis by (simp only: of_nat_eq_iff)
qed

lemma bit_of_negation:
  assumes "0 < unat (x :: u64)" "unat x \<le> 2 ^ k" "k < 64"
  shows "- x AND push_bit k 1 = push_bit k 1"
proof -
  have v: "unat (- x) = 2 ^ 64 - unat x" using unat_negation [OF assms(1)] by linarith
  obtain j where j: "(2 :: nat) ^ 64 = 2 ^ k * (2 * 2 ^ j)"
  proof -
    have "(2 :: nat) ^ 64 = 2 ^ k * 2 ^ Suc (63 - k)" using assms(3) by (simp add: Suc_diff_Suc flip: power_add)
    then show ?thesis by (intro that [of "63 - k"]) simp
  qed
  have "odd ((2 ^ 64 - unat x) div 2 ^ k)"
    unfolding j using div_below_multiple [of "unat x" "2 ^ k" "2 * 2 ^ j"] assms(1,2) by simp
  then have "bit (unat (- x)) k" by (simp add: v bit_iff_odd)
  then have "bit (- x) k" by (simp add: bit_unsigned_iff)
  then show ?thesis by (intro bit_word_eqI) (auto simp: bit_simps)
qed

text \<open>
  A negative number below \<open>-q\<close>: the operand of the negation is not below the modulus, as SEAL requires of it. The plain
  subtraction, which is what SEAL's source does, then wraps round, and the residue is off by \<open>2 ^ 64\<close>.
\<close>

lemma wrapped_negation:
  assumes q: "valid_modulus q" "odd (unat q)" and x: "sint (x :: u64) < - int (unat q)"
  shows "int (unat (q - (- x))) mod int (unat q) \<noteq> sint x mod int (unat q)"
proof
  assume eq: "int (unat (q - (- x))) mod int (unat q) = sint x mod int (unat q)"
  have neg: "sint x < 0" using x by linarith
  note u = unat_of_signed(1) [OF neg]
  have "int (unat q) < int (unat (- x))" using x u by linarith
  then have lt: "q < - x" by (simp only: word_less_nat_alt of_nat_less_iff)
  have "unat (- x - q) = unat (- x) - unat q" using lt by (simp add: unat_sub word_less_nat_alt word_le_nat_alt)
  then have d: "int (unat (- x - q)) = - sint x - int (unat q)" using u lt by (simp add: word_less_nat_alt of_nat_diff)
  have eq2: "q - (- x) = - (- x - q)" by simp
  have "0 < unat (- x - q)" using lt \<open>unat (- x - q) = unat (- x) - unat q\<close> by (simp only: word_less_nat_alt zero_less_diff)
  from unat_negation [OF this] have "int (unat (q - (- x)) + unat (- x - q)) = int (2 ^ 64)" by (simp only: eq2)
  then have "int (unat (q - (- x))) = 2 ^ 64 - int (unat (- x - q))" by simp
  then have "int (unat (q - (- x))) = 2 ^ 64 + sint x + int (unat q)" using d by simp
  with eq have "(2 ^ 64 + sint x + int (unat q)) mod int (unat q) = sint x mod int (unat q)" by simp
  then have "(2 ^ 64 + sint x) mod int (unat q) = sint x mod int (unat q)" by (simp only: mod_add_self2)
  then have "int (unat q) dvd 2 ^ 64" by (simp add: mod_eq_dvd_iff)
  then have "unat q dvd 2 ^ 64" by (metis int_dvd_int_iff of_nat_numeral of_nat_power)
  moreover have "coprime (unat q) (2 ^ 64)" using q(2) by (simp only: coprime_power_right_iff coprime_right_2_iff_odd simp_thms)
  ultimately have "unat q = 1" by (metis coprime_absorb_left nat_dvd_1_iff_1)
  then show False using q(1) by (simp add: valid_modulus_def)
qed

text \<open>
  C31. How \<open>CenteralizeAt\<close> reads the entries of the matrix. With 64-bit shares, an entry that stands for a signed number
  above \<open>-q\<close> becomes that number modulo \<open>q\<close>. For one below \<open>-q\<close>, which is most negative numbers, the code negates an
  operand that is not reduced, outside the range for which SEAL documents its negation; where the negation is the
  subtraction of SEAL's source and \<open>q\<close> is odd, the residue is wrong. With shares of \<open>k < 64\<close> bits, entries below the half
  become their residue, and all entries that stand for negative numbers become the negation of the same number
  \<open>2 ^ k\<close>, because the mask is the single bit \<open>2 ^ k\<close> instead of the bits below it; where \<open>2 ^ k\<close> is below \<open>q\<close> that is
  the residue \<open>q - 2 ^ k\<close>.
\<close>

theorem CenteralizeAt_residues:
  fixes I mod_idx
  defines "q \<equiv> sc_key_moduli (priv_ctx I) ! mod_idx" and "k \<equiv> mi_base_mod_nbits (priv_config I)" and "S \<equiv> sr_arith (priv_rt I)"
  assumes "seal_arith_ok S" "mod_idx < length (sc_key_moduli (priv_ctx I))" "valid_modulus q" "0 < k" "k \<le> 64"
  shows "\<exists>out. CenteralizeAt I src mod_idx (length src) = Inr out \<and> length out = length src \<and>
    (\<forall>i < length src.
       (k = 64 \<and> - int (unat q) < sint (src ! i) \<longrightarrow> int (unat (out ! i)) = sint (src ! i) mod int (unat q)) \<and>
       (k = 64 \<and> sint (src ! i) < - int (unat q) \<longrightarrow>
          q < - (src ! i) \<and> out ! i = negate_uint_mod S (- (src ! i)) q \<and>
          (odd (unat q) \<longrightarrow> negate_uint_mod S (- (src ! i)) q = q - (- (src ! i)) \<longrightarrow>
             int (unat (out ! i)) mod int (unat q) \<noteq> sint (src ! i) mod int (unat q))) \<and>
       (k < 64 \<and> unat (src ! i) < 2 ^ (k - 1) \<longrightarrow> unat (out ! i) = unat (src ! i) mod unat q) \<and>
       (k < 64 \<and> 2 ^ (k - 1) \<le> unat (src ! i) \<and> unat (src ! i) \<le> 2 ^ k \<longrightarrow>
          out ! i = negate_uint_mod S (push_bit k 1) q \<and> (2 ^ k < unat q \<longrightarrow> unat (out ! i) = unat q - 2 ^ k)))"
proof -
  have unat_bit: "unat ((2 :: u64) ^ j) = 2 ^ j" if "j < 64" for j
    using that unat_two_power [of j, where 'a = 64] by simp
  have low: "unat (CenteralizeAt_entry S k q x) = unat x mod unat q" if "k < 64" "unat x < 2 ^ (k - 1)" for x
  proof -
    have "\<not> push_bit (k - 1) 1 \<le> x" using that by (simp add: word_le_nat_alt unat_bit)
    then show ?thesis using seal_modD(1) [OF assms(4,6)] by (simp add: CenteralizeAt_entry_def)
  qed
  have high: "CenteralizeAt_entry S k q x = negate_uint_mod S (push_bit k 1) q"
    if "k < 64" "2 ^ (k - 1) \<le> unat x" "unat x \<le> 2 ^ k" for x
  proof -
    have "push_bit (k - 1) 1 \<le> x" using that by (simp add: word_le_nat_alt unat_bit)
    moreover have "0 < unat x" using that(2) by (rule order.strict_trans2 [rotated]) simp
    ultimately show ?thesis using bit_of_negation [OF _ that(3,1)] that(1) by (simp add: CenteralizeAt_entry_def)
  qed
  have bit_residue: "unat (negate_uint_mod S (push_bit k 1) q) = unat q - 2 ^ k" if "k < 64" "2 ^ k < unat q"
  proof -
    have "unat (negate_uint_mod S (push_bit k 1) q) = (unat q - 2 ^ k) mod unat q"
      using seal_modD(2) [OF assms(4,6)] that by (simp add: word_less_nat_alt unat_bit)
    also have "\<dots> = unat q - 2 ^ k" using that by (intro mod_less diff_less) simp_all
    finally show ?thesis .
  qed
  have below: "CenteralizeAt_entry S 64 q x = negate_uint_mod S (- x) q \<and> q < - x" if "sint x < - int (unat q)" for x
  proof -
    have neg: "sint x < 0" using that by linarith
    have "int (unat q) < int (unat (- x))" using that unat_of_signed(1) [OF neg] by linarith
    then have "q < - x" by (simp only: word_less_nat_alt of_nat_less_iff)
    then show ?thesis using neg by (simp add: CenteralizeAt_entry_def half_le_iff_numeral)
  qed
  have "CenteralizeAt I src mod_idx (length src) = Inr (map (CenteralizeAt_entry S k q) src)"
    using assms(5,7,8) by (simp add: CenteralizeAt_def Let_def q_def k_def S_def)
  then show ?thesis
    using low high bit_residue below CenteralizeAt_entry_signed [OF assms(4,6)] wrapped_negation [OF assms(6)]
    by (intro exI [of _ "map (CenteralizeAt_entry S k q) src"]) simp
qed

definition priv_ref :: "nat \<Rightarrow> MVPPrivImpl" where
  "priv_ref nbits = \<lparr>priv_is_proper_config = True,
     priv_config = \<lparr>mi_is_transposed = False, mi_base_mod_nbits = nbits, mi_nrows = 2, mi_ncols = 2\<rparr>,
     priv_ms_helper = \<lparr>ms_base_mod_bitlen = 64, ms_t = 0, ms_t_half = 0, ms_Q_mod_t = 0, ms_Q_div_t_mod_qi = [], ms_context = mvp_ctx\<rparr>,
     priv_seal_rt = lib_ref (zero_ct (parms_id 2) 2)\<rparr>"

lemma priv_ref_sel:
  "priv_config (priv_ref k) = \<lparr>mi_is_transposed = False, mi_base_mod_nbits = k, mi_nrows = 2, mi_ncols = 2\<rparr>"
  "priv_rt (priv_ref k) = rt_ref"
  by (simp_all add: priv_ref_def)

theorem CenteralizeAt_residues_witness:
  "(\<exists>out. CenteralizeAt (priv_ref 64) [- 5] 0 1 = Inr out \<and> int (unat (out ! 0)) = - 5 mod 17314086913) \<and>
   (\<exists>out. CenteralizeAt (priv_ref 64) [- 1099511627776] 0 1 = Inr out \<and>
     out ! 0 = negate_uint_mod seal_ref 1099511627776 17314086913 \<and> (17314086913 :: u64) < 1099511627776) \<and>
   (\<exists>out. CenteralizeAt (priv_ref 32) [0xFFFFFFFB] 0 1 = Inr out \<and> unat (out ! 0) = 17314086913 - 2 ^ 32)"
proof -
  note ref = priv_ref_sel ref_moduli kModulus_values
  have S: "seal_arith_ok (sr_arith (priv_rt (priv_ref k)))" for k by (simp add: ref seal_arith_ok_ref)
  have v: "valid_modulus 17314086913" by (simp add: valid_modulus_def)
  have a: "sr_arith rt_ref = seal_ref" by (simp add: rt_ref_def)
  show ?thesis
    using CenteralizeAt_residues [of "priv_ref 64" 0 "[- 5]"] CenteralizeAt_residues [of "priv_ref 32" 0 "[0xFFFFFFFB]"]
      CenteralizeAt_residues [of "priv_ref 64" 0 "[- 1099511627776]"] S v
    by (auto simp: ref a)
qed

section \<open>Clearing the unused coefficients\<close>

text \<open>The mask of the loop selects the multiples of the stride of the slots.\<close>

lemma and_mask_eq_0: "(i AND (2 ^ m - Suc 0) = 0) \<longleftrightarrow> 2 ^ m dvd (i :: nat)"
proof -
  have "i AND (2 ^ m - 1) = i mod 2 ^ m" by (metis mask_eq_exp_minus_1 take_bit_eq_mask take_bit_eq_mod)
  then show ?thesis by (simp add: dvd_eq_mod_eq_0)
qed

lemma slot_stride_power:
  assumes "0 < n" "n \<le> 2 ^ K"
  obtains m where "m \<le> K" "slot_stride (2 ^ K) n = 2 ^ m"
proof -
  obtain j where j: "NextPow2 n = 2 ^ j" by (rule NextPow2_power [OF assms(1)])
  have "(2 :: nat) ^ j \<le> 2 ^ K" using NextPow2_mono_pow2 [OF assms] j by simp
  then have "j \<le> K" by simp
  then show ?thesis by (intro that [of "K - j"]) (simp_all add: slot_stride_def j power_diff)
qed

definition clear_unused :: "nat \<Rightarrow> nat \<Rightarrow> u64 list \<Rightarrow> u64 list" where
  "clear_unused N stride xs = map (\<lambda>i. if stride dvd i then xs ! i else 0) [0..<N]"

lemma DropUnusedCoeffs_eq:
  assumes n: "0 < mi_nrows (priv_config I)" "mi_nrows (priv_config I) \<le> 2 ^ K" and K: "K \<le> 64"
    and ct: "ct_polys ct = [c0, c1]" "\<not> ct_is_ntt_form ct" "ct_degree ct = 2 ^ K" "length c0 = ct_coeff_modulus_size ct * 2 ^ K"
  shows "DropUnusedCoeffs I ct = Inr (ct\<lparr>ct_polys := [concat (map (\<lambda>l. clear_unused (2 ^ K) (slot_stride (2 ^ K) (mi_nrows (priv_config I)))
      (limb (2 ^ K) c0 l)) [0..<ct_coeff_modulus_size ct]), c1]\<rparr>)"
proof -
  obtain m where m: "m \<le> K" "slot_stride (2 ^ K) (mi_nrows (priv_config I)) = 2 ^ m" by (rule slot_stride_power [OF n])
  then have "(2 ^ K div NextPow2 (mi_nrows (priv_config I)) + (2 ^ 64 - 1)) mod 2 ^ 64 = 2 ^ m - 1"
  proof -
    have "(2 :: nat) ^ m \<le> 2 ^ 64" using m(1) K by (intro power_increasing) simp_all
    moreover have "(0 :: nat) < 2 ^ m" by simp
    ultimately have "2 ^ m + (2 ^ 64 - 1) = (2 ^ m - 1) + (2 ^ 64 :: nat)" "2 ^ m - 1 < (2 ^ 64 :: nat)" by linarith+
    then have "(2 ^ m + (2 ^ 64 - 1)) mod 2 ^ 64 = (2 ^ m - 1 :: nat)" by (simp only: mod_add_self2 mod_less)
    then show ?thesis using m(2) by (simp only: slot_stride_def)
  qed
  then show ?thesis
    using ct by (simp add: DropUnusedCoeffs_def drop_limb_def clear_unused_def and_mask_eq_0 m(2) Let_def)
qed

text \<open>The coefficients that are cleared, and how clearing them changes what the ciphertext decrypts to.\<close>

definition cleared_part :: "nat \<Rightarrow> nat \<Rightarrow> u64 list \<Rightarrow> u64 list" where
  "cleared_part N stride xs = map (\<lambda>i. if stride dvd i then 0 else xs ! i) [0..<N]"

lemma clear_unused_add:
  assumes S: "seal_arith_ok S" and q: "valid_modulus q" and xs: "length xs = N" "reduced q xs"
  shows "add_poly_coeffmod S q (clear_unused N g xs) (cleared_part N g xs) = xs"
    and "length (clear_unused N g xs) = N \<and> reduced q (clear_unused N g xs)"
    and "length (cleared_part N g xs) = N \<and> reduced q (cleared_part N g xs)"
proof -
  have q0: "0 < q" using q by (simp add: valid_modulus_def word_less_nat_alt)
  show u: "length (clear_unused N g xs) = N \<and> reduced q (clear_unused N g xs)"
    and p: "length (cleared_part N g xs) = N \<and> reduced q (cleared_part N g xs)"
    using reduced_nth [OF xs(2)] xs(1) q0 by (auto simp: clear_unused_def cleared_part_def reduced_def)
  show "add_poly_coeffmod S q (clear_unused N g xs) (cleared_part N g xs) = xs"
  proof (rule nth_equalityI)
    fix i
    assume "i < length (add_poly_coeffmod S q (clear_unused N g xs) (cleared_part N g xs))"
    then have i: "i < N" using u p by simp
    have "unat (xs ! i) < unat q" using reduced_nth [OF xs(2)] i xs(1) by (simp add: word_less_nat_alt)
    then have "unat (add_poly_coeffmod S q (clear_unused N g xs) (cleared_part N g xs) ! i) = unat (xs ! i)"
      using add_poly_nth [OF S q _ _ _ _, of "clear_unused N g xs" "cleared_part N g xs" i] i u p
      by (simp add: clear_unused_def cleared_part_def)
    then show "add_poly_coeffmod S q (clear_unused N g xs) (cleared_part N g xs) ! i = xs ! i"
      by (simp add: word_unat_eq_iff)
  qed (use u p xs(1) in simp)
qed

lemma phase_limb_cleared:
  assumes S: "seal_arith_ok (sr_arith R)" and q: "ntt_ok R N q" "valid_modulus q"
    and c: "length c0 = N" "reduced q c0" "length c1 = N" "reduced q c1" "length s = N"
    and i: "i < N" "g dvd i"
  shows "phase_limb R q (clear_unused N g c0) c1 s ! i = phase_limb R q c0 c1 s ! i"
proof -
  note split = clear_unused_add [OF S q(2) c(1,2), of g]
  let ?d = "phase_limb R q (clear_unused N g c0) c1 s"
  have d: "length ?d = N \<and> reduced q ?d" using phase_limb_ok [OF S q(1)] split(2) c(3-5) by blast
  have "phase_limb R q c0 c1 s = add_poly_coeffmod (sr_arith R) q ?d (cleared_part N g c0)"
    using phase_limb_add_plain [OF S q(1), of "clear_unused N g c0" c1 s "cleared_part N g c0"] split c(3-5) by simp
  then have "unat (phase_limb R q c0 c1 s ! i) = (unat (?d ! i) + unat (cleared_part N g c0 ! i)) mod unat q"
    using add_poly_nth [OF S q(2), of ?d "cleared_part N g c0" i] d split(3) i(1) by simp
  also have "cleared_part N g c0 ! i = 0" using i by (simp add: cleared_part_def)
  also have "(unat (?d ! i) + unat (0 :: u64)) mod unat q = unat (?d ! i)"
    using reduced_nth [of q ?d i] d i(1) by (simp add: word_less_nat_alt)
  finally show ?thesis by (simp add: word_unat_eq_iff)
qed

lemma nth_limb: "i < N \<Longrightarrow> l * N + N \<le> length a \<Longrightarrow> limb N a l ! i = a ! (l * N + i)"
  by (simp add: slice_def)

lemma DropUnusedCoeffs_lemma:
  fixes I :: MVPPrivImpl and K :: nat
  defines "R \<equiv> priv_rt I" and "g \<equiv> slot_stride (2 ^ K) (mi_nrows (priv_config I))"
  assumes S: "seal_arith_ok (sr_arith R)" and deg: "sc_degree (sr_ctx R) = 2 ^ K" "K \<le> 64"
    and n: "0 < mi_nrows (priv_config I)" "mi_nrows (priv_config I) \<le> 2 ^ K"
    and sk: "decrypt_ok (priv_seal_rt I) ms sk" and ct: "ct_coeff_ok R ms ct" and dec: "decrypt_coeffs R ct sk = Inr d"
  shows "\<exists>ct' d'. DropUnusedCoeffs I ct = Inr ct' \<and> ct_coeff_ok R ms ct' \<and> ct_parms_id ct' = ct_parms_id ct \<and>
    decrypt_coeffs R ct' sk = Inr d' \<and> rns_ok (2 ^ K) ms (pt_data d') \<and>
    (\<forall>l < length ms. \<forall>i < 2 ^ K.
      (g dvd i \<longrightarrow> pt_data d' ! (l * 2 ^ K + i) = pt_data d ! (l * 2 ^ K + i)) \<and>
      (\<not> g dvd i \<longrightarrow> ct_polys ct' ! 0 ! (l * 2 ^ K + i) = 0))"
proof -
  let ?N = "2 ^ K :: nat"
  obtain c0 c1 where cc: "ct_polys ct = [c0, c1]"
    using ct by (auto simp: ct_coeff_ok_def length_Suc_conv numeral_2_eq_2)
  have c: "rns_ok ?N ms c0" "rns_ok ?N ms c1" using ct by (simp_all add: ct_coeff_ok_def cc deg)
  have ntt: "\<forall>q \<in> set ms. ntt_ok R ?N q" "metadata_ok R" "length ms * ?N \<le> length (pt_data sk)"
    using sk by (simp_all add: decrypt_ok_def R_def [symmetric] deg)
  then have valid: "\<forall>q \<in> set ms. valid_modulus q" by (auto simp: ntt_ok_def)
  define rows where "rows = map (\<lambda>l. clear_unused ?N g (limb ?N c0 l)) [0..<length ms]"
  let ?ct' = "ct\<lparr>ct_polys := [concat rows, c1]\<rparr>"
  have rows: "\<forall>r \<in> set rows. length r = ?N" by (simp add: rows_def clear_unused_def)
  have lim: "limb ?N (concat rows) l = clear_unused ?N g (limb ?N c0 l)" if "l < length ms" for l
    using limb_concat [OF _ rows, of l "[]"] that by (simp add: rows_def)
  have u: "length (clear_unused ?N g (limb ?N c0 l)) = ?N \<and> reduced (ms ! l) (clear_unused ?N g (limb ?N c0 l))"
    if "l < length ms" for l
    using rns_okD [OF c(1) that] valid that by (intro clear_unused_add(2) [OF S]) simp_all
  have len: "length (concat rows) = length ms * ?N" using length_concat_rows [OF rows] by (simp add: rows_def)
  have ok: "rns_ok ?N ms (concat rows)" unfolding rns_ok_def using len lim u by simp
  have ct': "ct_coeff_ok R ms ?ct'" using ct ok c(2) by (simp add: ct_coeff_ok_def deg)
  have drop: "DropUnusedCoeffs I ct = Inr ?ct'"
    using DropUnusedCoeffs_eq [OF n deg(2) cc] ct c(1) by (simp add: ct_coeff_ok_def deg rns_ok_def rows_def g_def)
  have data: "\<forall>q \<in> set ms. ntt_ok R (sc_degree (sr_ctx R)) q" "length ms * sc_degree (sr_ctx R) \<le> length (pt_data sk)"
    using ntt by (simp_all add: deg)
  obtain d' where d': "decrypt_coeffs R ?ct' sk = Inr d'"
    by (rule decrypt_same_header [OF S data(1) ntt(2) ct ct' data(2) dec])
  note e = decrypt_coeffs_data [OF S data(1) ntt(2) ct refl data(2) dec, unfolded deg]
  note f = decrypt_coeffs_data [OF S data(1) ntt(2) ct' refl data(2) d', unfolded deg]
  have kept: "pt_data d' ! (l * ?N + i) = pt_data d ! (l * ?N + i)" if l: "l < length ms" "i < ?N" "g dvd i" for l i
  proof -
    have fits: "l * ?N + ?N \<le> length ms * ?N" using slot_in_range [OF l(1)] .
    have q: "ntt_ok R ?N (ms ! l)" "valid_modulus (ms ! l)" using ntt valid l(1) by simp_all
    have "limb ?N (pt_data d') l ! i = phase_limb R (ms ! l) (clear_unused ?N g (limb ?N c0 l)) (limb ?N c1 l) (limb ?N (pt_data sk) l) ! i"
      using f(2) [OF l(1)] lim [OF l(1)] by simp
    also have "\<dots> = limb ?N (pt_data d) l ! i"
      using phase_limb_cleared [OF S q _ _ _ _ _ l(2,3)] rns_okD [OF c(1) l(1)] rns_okD [OF c(2) l(1)]
        sk_limb [OF ntt(3) l(1)] e(2) [OF l(1)] by (simp add: cc)
    finally show ?thesis using fits e(1) f(1) l(2) by (simp add: nth_limb rns_ok_def)
  qed
  have zero: "ct_polys ?ct' ! 0 ! (l * ?N + i) = 0" if l: "l < length ms" "i < ?N" "\<not> g dvd i" for l i
  proof -
    have ll: "l < length rows" using l(1) by (simp add: rows_def)
    have "concat rows ! (l * ?N + i) = rows ! l ! i" by (rule nth_concat_rows [OF ll l(2) rows])
    also have "rows ! l = clear_unused ?N g (limb ?N c0 l)" using l(1) by (simp add: rows_def)
    also have "\<dots> ! i = 0" using l(2,3) by (simp add: clear_unused_def)
    finally show ?thesis by simp
  qed
  have pid: "ct_parms_id ?ct' = ct_parms_id ct" by simp
  show ?thesis
    by (rule exI [of _ ?ct'], rule exI [of _ d'], intro conjI allI impI) (fact drop ct' pid d' f(1) | erule (2) kept | erule (2) zero)+
qed

end
