(* ===== verification/MaskCorrect.thy ===== *)
theory MaskCorrect
  imports MatVec PrivateCorrect
begin

text \<open>
  The masked product: what \<open>sample_mask_program\<close> samples, and what the client that decrypts the result of
  \<open>finish_product\<close> and the server that keeps the mask hold together.
\<close>

section \<open>The mask\<close>

text \<open>A vector at the slots of a polynomial, zero elsewhere.\<close>

definition at_slots :: "nat \<Rightarrow> nat list \<Rightarrow> nat list" where
  "at_slots N rs = map (\<lambda>i. if N div length rs dvd i then rs ! (i div (N div length rs)) else 0) [0..<N]"

lemma fold_spread:
  assumes g: "0 < g" and n: "n * g = N" and m: "m \<le> n"
  shows "fold (\<lambda>i v. v[i * g := f i]) [0..<m] (replicate N 0)
    = map (\<lambda>i. if g dvd i \<and> i div g < m then f (i div g) else 0) [0..<N]"
  using m
proof (induction m)
  case 0
  then show ?case by (simp add: map_replicate_const)
next
  case (Suc m)
  have "m * g < N"
  proof -
    have "Suc m * g \<le> n * g" using Suc.prems by (intro mult_le_mono1) simp
    then show ?thesis using g n by simp
  qed
  have "(map (\<lambda>i. if g dvd i \<and> i div g < m then f (i div g) else 0) [0..<N])[m * g := f m] ! i
      = map (\<lambda>i. if g dvd i \<and> i div g < Suc m then f (i div g) else 0) [0..<N] ! i" if "i < N" for i
  proof (cases "i = m * g")
    case True
    then show ?thesis using that g by simp
  next
    case False
    then have "\<not> (g dvd i \<and> i div g = m)" by auto
    then show ?thesis using False that by (auto simp: less_Suc_eq)
  qed
  then have "(map (\<lambda>i. if g dvd i \<and> i div g < m then f (i div g) else 0) [0..<N])[m * g := f m]
      = map (\<lambda>i. if g dvd i \<and> i div g < Suc m then f (i div g) else 0) [0..<N]"
    by (intro nth_equalityI) simp_all
  then show ?case using Suc by simp
qed

lemma mask_limb_residues:
  assumes n: "0 < length rs" "length rs dvd N" "0 < N"
  shows "mask_limb N (map (\<lambda>y. of_nat (y mod q)) rs) = map (\<lambda>y. of_nat (y mod q)) (at_slots N rs)"
proof -
  let ?n = "length rs" and ?g = "N div length rs"
  have g: "0 < ?g" "?n * ?g = N" using n by (simp_all add: div_greater_zero_iff dvd_imp_le)
  show ?thesis
  proof (cases "N = ?n")
    case True
    then show ?thesis using n by (intro nth_equalityI) (simp_all add: mask_limb_def at_slots_def)
  next
    case False
    have slot: "i div ?g < ?n" if "i < N" for i
      using that g by (simp add: div_less_iff_less_mult)
    have "fold (\<lambda>i v. v[i * ?g := map (\<lambda>y. of_nat (y mod q)) rs ! i]) [0..<?n] (replicate N 0)
        = (map (\<lambda>i. if ?g dvd i \<and> i div ?g < ?n then map (\<lambda>y. of_nat (y mod q)) rs ! (i div ?g) else 0) [0..<N] :: u64 list)"
      by (rule fold_spread [OF g order_refl])
    also have "\<dots> = map (\<lambda>y. of_nat (y mod q)) (at_slots N rs)"
      using slot by (intro nth_equalityI) (simp_all add: at_slots_def)
    finally show ?thesis using False by (simp add: mask_limb_def Let_def)
  qed
qed

lemma length_at_slots [simp]: "length (at_slots N rs) = N"
  by (simp add: at_slots_def)

lemma at_slots_nth:
  assumes "0 < N" "length rs dvd N" "i < length rs"
  shows "at_slots N rs ! (i * (N div length rs)) = rs ! i"
proof -
  let ?g = "N div length rs"
  have "rs \<noteq> []" using assms(3) by auto
  then have g: "0 < ?g" "length rs * ?g = N" using assms by (simp_all add: div_greater_zero_iff dvd_imp_le)
  have "Suc i * ?g \<le> length rs * ?g" using assms(3) by (intro mult_le_mono1) simp
  then have "i * ?g < N" using g by simp
  then show ?thesis using g(1) by (simp add: at_slots_def)
qed

text \<open>The vector behind the sampled residues, the polynomial that carries it, and the share that goes with it.\<close>

definition server_share :: "seal_context \<Rightarrow> nat \<Rightarrow> nat \<Rightarrow> u64" where
  "server_share C k r = - of_nat (down_value (sc_total_modulus C) k r)"

lemma RandomVector_ok:
  assumes L: "lib_ok (priv_seal_rt I)" and h: "ms_wf (priv_ms_helper I) (priv_ctx I) k"
    and run: "RandomVector I m b s = (Inr (), mask_poly, b', s')"
  shows "\<exists>rs. length rs = vb_len b \<and> (\<forall>r \<in> set rs. r < sc_total_modulus (priv_ctx I)) \<and> 0 < vb_len b \<and>
    vb_len b dvd priv_poly_degree I \<and>
    pt_data mask_poly = rns_array (sc_first_moduli (priv_ctx I)) (at_slots (priv_poly_degree I) rs) \<and>
    b' = b\<lparr>vb_data := map (\<lambda>r. server_share (priv_ctx I) k r AND base_mask (priv_config I)) rs\<rparr>"
proof -
  let ?C = "priv_ctx I" and ?n = "vb_len b" and ?N = "priv_poly_degree I" and ?S = "sl_arith (priv_seal_rt I)"
  let ?qs = "sc_first_moduli ?C"
  have S: "seal_arith_ok ?S" and C: "seal_context_ok ?C" and N: "0 < ?N"
    using L by (simp_all add: lib_ok_def priv_poly_degree_def)
  have valid: "\<forall>q \<in> set ?qs. valid_modulus q" using first_moduli_valid [OF C] by blast
  have n: "0 < ?n" "?n dvd ?N" using run by (auto simp: RandomVector_def Let_def split: if_splits)
  obtain random s1 share where r: "sample_limbs ?S (sl_prng (priv_seal_rt I)) ?n ?qs s = Inr (random, s1)"
      "ModulusDownRNS ?S (priv_ms_helper I) random ?n = Inr share"
    and out: "mask_poly = m\<lparr>pt_data := concat (map (\<lambda>j. mask_limb ?N (slice random (j * ?n, ?n))) [0..<length ?qs]),
        pt_parms_id := sr_first_parms_id (priv_rt I)\<rparr>"
      "b' = b\<lparr>vb_data := map (\<lambda>u. - u AND base_mask (priv_config I)) share\<rparr>"
    using run by (auto simp: RandomVector_def Let_def split: if_splits sum.splits)
  have "rns_ok ?n ?qs random" by (rule sample_limbs_ok [OF S n(1) valid r(1)])
  then obtain rs where rs: "length rs = ?n" "\<forall>y \<in> set rs. y < sc_total_modulus ?C" "random = rns_array ?qs rs"
    by (rule residues_of_numbers [OF C])
  have "mask_limb ?N (slice random (j * ?n, ?n)) = map (\<lambda>y. of_nat (y mod unat (?qs ! j))) (at_slots ?N rs)"
    if "j < length ?qs" for j
    using limb_rns_array [OF that rs(1)] mask_limb_residues [of rs ?N "unat (?qs ! j)"] n N by (simp add: rs)
  then have "concat (map (\<lambda>j. mask_limb ?N (slice random (j * ?n, ?n))) [0..<length ?qs]) = rns_array ?qs (at_slots ?N rs)"
    unfolding rns_array_map by (intro arg_cong [where f = concat] map_cong refl) simp
  moreover have "share = map (\<lambda>y. of_nat (down_value (sc_total_modulus ?C) k y)) rs"
    using ModulusDownRNS_rns_array [OF S h rs(2)] r(2) by (simp add: rs)
  ultimately show ?thesis
    using out rs n by (intro exI [of _ rs]) (simp add: server_share_def)
qed

lemma dvd_power_two: "n dvd 2 ^ K \<Longrightarrow> \<exists>i. n = (2 :: nat) ^ i"
proof (induction K arbitrary: n)
  case (Suc K)
  show ?case
  proof (cases "even n")
    case True
    then obtain m where m: "n = 2 * m" by (rule evenE)
    then have "m dvd 2 ^ K" using Suc.prems by simp
    then obtain i where "m = 2 ^ i" using Suc.IH by blast
    then have "n = 2 ^ Suc i" by (simp add: m)
    then show ?thesis by blast
  next
    case False
    then have "coprime n 2" by simp
    then have "n dvd 2 ^ K" using Suc.prems by (simp add: coprime_dvd_mult_right_iff)
    then show ?thesis by (rule Suc.IH)
  qed
qed (auto intro: exI [of _ 0])

lemma sample_mask_program_ok:
  assumes L: "lib_ok (priv_seal_rt I)" and h: "ms_wf (priv_ms_helper I) (priv_ctx I) k"
    and deg: "priv_poly_degree I = 2 ^ K" and b: "vb_wf b" "0 < vb_len b" "vb_len b \<le> 2 ^ K"
    and run: "sample_mask_program I (Some b) s = (Inr (), mask_poly, out, s')"
  shows "\<exists>rs. length rs = NextPow2 (vb_len b) \<and> (\<forall>r \<in> set rs. r < sc_total_modulus (priv_ctx I)) \<and>
    pt_data mask_poly = rns_array (sc_first_moduli (priv_ctx I)) (at_slots (2 ^ K) rs) \<and>
    out = Some (b\<lparr>vb_data := map (\<lambda>i. server_share (priv_ctx I) k (rs ! i) AND base_mask (priv_config I)) [0..<vb_len b]\<rparr>)"
proof -
  let ?n = "vb_len b" and ?f = "\<lambda>r. server_share (priv_ctx I) k r AND base_mask (priv_config I)"
  obtain j where j: "NextPow2 ?n = 2 ^ j" "?n \<le> 2 ^ j" by (rule NextPow2_power [OF b(2)])
  show ?thesis
  proof (cases "2 ^ K mod ?n = 0")
    case True
    then have "?n dvd 2 ^ K" by (simp add: dvd_eq_mod_eq_0)
    then obtain i where "?n = 2 ^ i" using dvd_power_two by blast
    then have np: "NextPow2 ?n = ?n" by simp
    obtain b' where run': "RandomVector I fresh_ptx b s = (Inr (), mask_poly, b', s')" "out = Some b'"
      using run True deg by (auto simp: sample_mask_program_def Let_def split: prod.splits)
    obtain rs where "length rs = ?n" "\<forall>r \<in> set rs. r < sc_total_modulus (priv_ctx I)"
        "pt_data mask_poly = rns_array (sc_first_moduli (priv_ctx I)) (at_slots (priv_poly_degree I) rs)"
        "b' = b\<lparr>vb_data := map ?f rs\<rparr>"
      using RandomVector_ok [OF L h run'(1)] by blast
    moreover from this have "map ?f rs = map (\<lambda>i. ?f (rs ! i)) [0..<?n]" by (intro nth_equalityI) simp_all
    ultimately show ?thesis using run'(2) np deg by (intro exI [of _ rs]) simp
  next
    case False
    obtain t where t: "RandomVector I fresh_ptx (VecBuffer_new (NextPow2 ?n)) s = (Inr (), mask_poly, t, s')"
        "out = Some (b\<lparr>vb_data := overwrite (vb_data b) 0 (take ?n (vb_data t))\<rparr>)"
      using run False deg by (auto simp: sample_mask_program_def Let_def split: prod.splits sum.splits)
    have len: "vb_len (VecBuffer_new (NextPow2 ?n)) = NextPow2 ?n" using VecBuffer_new_wf by blast
    obtain rs where rs: "length rs = NextPow2 ?n" "\<forall>r \<in> set rs. r < sc_total_modulus (priv_ctx I)"
        "pt_data mask_poly = rns_array (sc_first_moduli (priv_ctx I)) (at_slots (priv_poly_degree I) rs)"
        "vb_data t = map ?f rs"
      using RandomVector_ok [OF L h t(1)] len by auto
    have "overwrite (vb_data b) 0 (take ?n (vb_data t)) = map (\<lambda>i. ?f (rs ! i)) [0..<?n]"
      using b(1) rs(1,4) j by (intro nth_equalityI) (auto simp: overwrite_def vb_wf_def nth_append)
    then show ?thesis using rs t(2) deg by (intro exI [of _ rs]) simp
  qed
qed

section \<open>The masked product\<close>

lemma add_plain_ct_ok:
  assumes S: "seal_arith_ok (sr_arith R)" and valid: "\<forall>q \<in> set ms. valid_modulus q"
    and ct: "ct_coeff_ok R ms ct" and pt: "rns_ok (sc_degree (sr_ctx R)) ms (pt_data pt)"
    and add: "add_plain_inplace R ct pt = Inr ct'"
  shows "ct_coeff_ok R ms ct'" and "ct_parms_id ct' = ct_parms_id ct"
proof -
  let ?N = "sc_degree (sr_ctx R)"
  obtain c0 c1 where cc: "ct_polys ct = [c0, c1]"
    using ct by (auto simp: ct_coeff_ok_def length_Suc_conv numeral_2_eq_2)
  have "ct' = ct\<lparr>ct_polys := [rns_add R ?N ms c0 (pt_data pt), c1]\<rparr>"
    using add ct pt by (auto simp: add_plain_inplace_def Let_def ct_coeff_ok_def rns_ok_def cc rns_add_def mult.commute)
  moreover have "rns_ok ?N ms (rns_add R ?N ms c0 (pt_data pt))"
    using ct pt by (intro rns_ok_add [OF S valid]) (simp_all add: ct_coeff_ok_def cc)
  ultimately show "ct_coeff_ok R ms ct'" and "ct_parms_id ct' = ct_parms_id ct"
    using ct by (simp_all add: ct_coeff_ok_def cc)
qed

lemma residues_inject:
  assumes S: "seal_arith_ok S" and C: "seal_context_ok C"
    and eq: "residues (sc_first_moduli C) x = residues (sc_first_moduli C) y"
  shows "x mod sc_total_modulus C = y mod sc_total_modulus C"
  using ms_wf_compose [OF S C, of x] ms_wf_compose [OF S C, of y] eq by simp

text \<open>Two arrays of residues that agree at a position have congruent numbers there.\<close>

lemma rns_array_agree:
  assumes S: "seal_arith_ok S" and C: "seal_context_ok C" and i: "i < N" "length xs = N" "length ys = N"
    and eq: "\<forall>l < length (sc_first_moduli C). rns_array (sc_first_moduli C) xs ! (l * N + i) = rns_array (sc_first_moduli C) ys ! (l * N + i)"
  shows "xs ! i mod sc_total_modulus C = ys ! i mod sc_total_modulus C"
proof (rule residues_inject [OF S C])
  show "residues (sc_first_moduli C) (xs ! i) = residues (sc_first_moduli C) (ys ! i)"
    using eq i nth_rns_array [of _ "sc_first_moduli C" i xs] nth_rns_array [of _ "sc_first_moduli C" i ys]
    by (intro nth_equalityI) (simp_all add: residues_def)
qed

text \<open>Masking and clearing, on the level of the coefficients.\<close>

lemma mask_and_clear:
  fixes I :: MVPPrivImpl and K :: nat
  defines "C \<equiv> priv_ctx I" and "R \<equiv> priv_rt I" and "g \<equiv> slot_stride (2 ^ K) (mi_nrows (priv_config I))"
  assumes L: "lib_ok (priv_seal_rt I)" and deg: "sc_degree C = 2 ^ K" and K: "K \<le> 64"
    and n: "0 < mi_nrows (priv_config I)" "mi_nrows (priv_config I) \<le> 2 ^ K"
    and sk: "decrypt_ok (priv_seal_rt I) (sc_first_moduli C) sk"
    and ct: "ct_coeff_ok R (sc_first_moduli C) ct" "decrypt_coeffs R ct sk = Inr d"
      "pt_data d = rns_array (sc_first_moduli C) ys" "length ys = 2 ^ K"
    and m: "pt_data m = rns_array (sc_first_moduli C) ms" "length ms = 2 ^ K"
  shows "\<exists>ct1 ct2 d2 zs. add_plain_inplace R ct m = Inr ct1 \<and> DropUnusedCoeffs I ct1 = Inr ct2 \<and>
    \<not> ct_is_ntt_form ct \<and> ct_parms_id ct2 = ct_parms_id ct \<and> decrypt_coeffs R ct2 sk = Inr d2 \<and>
    pt_data d2 = rns_array (sc_first_moduli C) zs \<and> length zs = 2 ^ K \<and>
    (\<forall>i < 2 ^ K. g dvd i \<longrightarrow> zs ! i = (ys ! i + ms ! i) mod sc_total_modulus C)"
proof -
  let ?qs = "sc_first_moduli C" and ?N = "2 ^ K :: nat"
  have S: "seal_arith_ok (sr_arith R)" and CC: "seal_context_ok C" using L by (simp_all add: lib_ok_def C_def R_def)
  have valid: "\<forall>q \<in> set ?qs. valid_modulus q" using first_moduli_valid [OF CC] by blast
  have RC: "sr_ctx R = C" by (simp add: R_def C_def)
  have mo: "rns_ok (sc_degree (sr_ctx R)) ?qs (pt_data m)" using rns_ok_rns_array [OF valid m(2)] by (simp add: m(1) RC deg)
  have D: "\<forall>q \<in> set ?qs. ntt_ok R (sc_degree (sr_ctx R)) q" "metadata_ok R" "length ?qs * sc_degree (sr_ctx R) \<le> length (pt_data sk)"
    using sk by (simp_all add: decrypt_ok_def R_def C_def)
  obtain ct1 where ct1: "add_plain_inplace R ct m = Inr ct1"
      "decrypt_coeffs R ct1 sk = Inr (d\<lparr>pt_data := rns_add R ?N ?qs (pt_data d) (pt_data m)\<rparr>)"
    using decrypt_add_plain_lemma [OF S D(1,2) ct(1) D(3) mo ct(2)] by (auto simp: RC deg)
  have sum: "rns_add R ?N ?qs (pt_data d) (pt_data m) = rns_array ?qs (map2 (+) ys ms)"
    unfolding ct(3) m(1) by (rule rns_add_rns_array [OF S valid ct(4) m(2)])
  note ok1 = add_plain_ct_ok [OF S valid ct(1) mo ct1(1)]
  obtain ct2 d2 where c2: "DropUnusedCoeffs I ct1 = Inr ct2" "ct_parms_id ct2 = ct_parms_id ct1"
      "decrypt_coeffs R ct2 sk = Inr d2" "rns_ok ?N ?qs (pt_data d2)"
      "\<forall>l < length ?qs. \<forall>i < ?N. g dvd i \<longrightarrow> pt_data d2 ! (l * ?N + i) = rns_array ?qs (map2 (+) ys ms) ! (l * ?N + i)"
    using DropUnusedCoeffs_lemma [OF _ _ K n, of ?qs sk ct1] S sk ok1(1) ct1(2) deg sum
    unfolding R_def C_def g_def by (auto simp del: map2_map_map)
  obtain zs where zs: "length zs = ?N" "\<forall>z \<in> set zs. z < sc_total_modulus C" "pt_data d2 = rns_array ?qs zs"
    by (rule residues_of_numbers [OF CC c2(4)])
  have "zs ! i = (ys ! i + ms ! i) mod sc_total_modulus C" if i: "i < ?N" "g dvd i" for i
  proof -
    have "zs ! i mod sc_total_modulus C = map2 (+) ys ms ! i mod sc_total_modulus C"
      using c2(5) i ct(4) m(2) zs(1,3) by (intro rns_array_agree [OF S CC i(1)]) simp_all
    then show ?thesis using zs(1,2) i ct(4) m(2) by simp
  qed
  moreover have "\<not> ct_is_ntt_form ct" using ct(1) by (simp add: ct_coeff_ok_def)
  ultimately show ?thesis using ct1(1) c2(1-3) ok1(2) zs(1,3) by auto
qed

text \<open>The two shares of a product: what the client decrypts, what the server keeps, and the product itself.\<close>

definition shares_of :: "nat \<Rightarrow> nat list \<Rightarrow> u64 list \<Rightarrow> u64 list \<Rightarrow> bool" where
  "shares_of Q vs client server \<longleftrightarrow> length client = length vs \<and> length server = length vs \<and>
     (\<forall>i < length vs. \<exists>c \<in> {-1, 0, 1}.
        (int (unat (client ! i)) + int (unat (server ! i))) mod 2 ^ 64 = (int (down_value Q 64 (vs ! i)) + c) mod 2 ^ 64)"

lemma masked_shares:
  assumes C: "seal_context_ok C" and Q: "Q = sc_total_modulus C" and len: "length vs = n" "n \<le> length rs"
    and vs: "\<forall>v \<in> set vs. v < Q" and rs: "\<forall>r \<in> set rs. r < Q"
  shows "shares_of Q vs (map (\<lambda>i. of_nat (down_value Q 64 ((vs ! i + rs ! i) mod Q))) [0..<n])
    (map (\<lambda>i. server_share C 64 (rs ! i)) [0..<n])"
  unfolding shares_of_def
proof (intro conjI allI impI)
  fix i
  assume i: "i < length vs"
  then have less: "vs ! i < sc_total_modulus C" "rs ! i < sc_total_modulus C" using vs rs len Q by simp_all
  define A :: u64 where "A = of_nat (down_value Q 64 ((vs ! i + rs ! i) mod Q))"
  define R :: u64 where "R = of_nat (down_value Q 64 (rs ! i))"
  define V :: u64 where "V = of_nat (down_value Q 64 (vs ! i))"
  obtain c where c: "c \<in> {-1, 0, 1}" "(int (unat A) - int (unat R)) mod 2 ^ 64 = (int (unat V) + c) mod 2 ^ 64"
    using down_mask [OF C order_refl less] unfolding A_def R_def V_def Q by blast
  have neg: "int (unat (- R)) mod 2 ^ 64 = - int (unat R) mod 2 ^ 64"
    using uint_word_ariths(4) [of R] by simp
  have w: "int (unat V) mod 2 ^ 64 = int (down_value Q 64 (vs ! i)) mod 2 ^ 64"
    by (simp add: V_def unat_of_nat zmod_int)
  have "(int (unat A) + int (unat (- R))) mod 2 ^ 64 = (int (unat A) + - int (unat R)) mod 2 ^ 64"
    by (rule mod_add_cong [OF refl neg])
  also have "\<dots> = (int (unat V) + c) mod 2 ^ 64" using c(2) by (simp only: diff_conv_add_uminus)
  also have "\<dots> = (int (down_value Q 64 (vs ! i)) + c) mod 2 ^ 64" by (rule mod_add_cong [OF w refl])
  finally have "(int (unat (of_nat (down_value Q 64 ((vs ! i + rs ! i) mod Q)) :: u64)) + int (unat (server_share C 64 (rs ! i)))) mod 2 ^ 64
      = (int (down_value Q 64 (vs ! i)) + c) mod 2 ^ 64"
    by (simp only: A_def R_def server_share_def Q)
  then show "\<exists>c \<in> {-1, 0, 1}. (int (unat (map (\<lambda>i. of_nat (down_value Q 64 ((vs ! i + rs ! i) mod Q)) :: u64) [0..<n] ! i)) +
      int (unat (map (\<lambda>i. server_share C 64 (rs ! i)) [0..<n] ! i))) mod 2 ^ 64 = (int (down_value Q 64 (vs ! i)) + c) mod 2 ^ 64"
    using c(1) i len(1) by (intro bexI [of _ c]) simp_all
qed (use len in simp_all)

text \<open>The server side of a call whose guards have passed, and the client that receives the result.\<close>

definition matvec_ready :: "MVPPrivImpl \<Rightarrow> nat \<Rightarrow> secret_key \<Rightarrow> bool" where
  "matvec_ready I K sk \<longleftrightarrow> lib_ok (priv_seal_rt I) \<and> ms_wf (priv_ms_helper I) (priv_ctx I) 64 \<and>
     sc_degree (priv_ctx I) = 2 ^ K \<and> K \<le> 64 \<and> mi_base_mod_nbits (priv_config I) = 64 \<and>
     0 < mi_nrows (priv_config I) \<and> mi_nrows (priv_config I) \<le> 2 ^ K \<and>
     decrypt_ok (priv_seal_rt I) (sc_first_moduli (priv_ctx I)) sk \<and> (\<forall>ct. \<exists>s. sl_ct_save (priv_seal_rt I) ct = Inr s)"

definition client_of :: "MVPPrivImpl \<Rightarrow> MVPPublicImpl \<Rightarrow> string \<Rightarrow> rlwe_ct \<Rightarrow> bool" where
  "client_of I J s ct \<longleftrightarrow> impl_ok J 64 \<and> pub_rt J = priv_rt I \<and> mi_nrows (pub_config J) = mi_nrows (priv_config I) \<and>
     sl_ct_load (pub_seal_rt J) s = Inr ct"

lemma masked_product_lemma:
  fixes I :: MVPPrivImpl and K :: nat
  defines "C \<equiv> priv_ctx I" and "n \<equiv> mi_nrows (priv_config I)"
  assumes ready: "matvec_ready I K sk" and b: "vb_wf b" "vb_len b = n"
    and mask: "sample_mask_program I (Some b) s = (Inr (), mask_poly, Some b', s')"
    and ct: "ct_coeff_ok (priv_rt I) (sc_first_moduli C) ct" "decrypt_coeffs (priv_rt I) ct sk = Inr d"
      "pt_data d = rns_array (sc_first_moduli C) ys" "length ys = 2 ^ K" "\<forall>y \<in> set ys. y < sc_total_modulus C"
  shows "\<exists>out ct'. finish_product I (Some b') mask_poly ct = Inr [out] \<and> sl_ct_save (priv_seal_rt I) ct' = Inr out \<and>
    (\<forall>J. client_of I J out ct' \<longrightarrow> (\<exists>client. Decrypt J [out] sk n = Inr client \<and>
      shares_of (sc_total_modulus C) (map (\<lambda>i. ys ! (i * slot_stride (2 ^ K) n)) [0..<n]) client (vb_data b')))"
proof -
  let ?qs = "sc_first_moduli C" and ?Q = "sc_total_modulus C" and ?g = "slot_stride (2 ^ K) n"
  have L: "lib_ok (priv_seal_rt I)" and h: "ms_wf (priv_ms_helper I) C 64" and deg: "sc_degree C = 2 ^ K" "K \<le> 64"
    and n: "0 < n" "n \<le> 2 ^ K" and sk: "decrypt_ok (priv_seal_rt I) ?qs sk"
    using ready by (simp_all add: matvec_ready_def C_def n_def)
  have C: "seal_context_ok C" and S: "seal_arith_ok (sl_arith (priv_seal_rt I))" using L by (simp_all add: lib_ok_def C_def)
  obtain rs where rs: "length rs = NextPow2 n" "\<forall>r \<in> set rs. r < ?Q"
      "pt_data mask_poly = rns_array ?qs (at_slots (2 ^ K) rs)"
    and b': "b' = b\<lparr>vb_data := map (\<lambda>i. server_share C 64 (rs ! i)) [0..<n]\<rparr>"
    using sample_mask_program_ok [OF L h [unfolded C_def] _ b(1) _ _ mask, of K] ready n b(2) deg
    by (auto simp: C_def priv_poly_degree_def base_mask_def matvec_ready_def)
  obtain j where j: "NextPow2 n = 2 ^ j" "n \<le> 2 ^ j" by (rule NextPow2_power [OF n(1)])
  have "(2 :: nat) ^ j \<le> 2 ^ K" using NextPow2_mono_pow2 [OF n] j by simp
  then have dvd: "length rs dvd 2 ^ K" by (simp add: rs(1) j(1) le_imp_power_dvd)
  define m where "m = mask_poly\<lparr>pt_scale := ct_scale ct\<rparr>"
  have m: "pt_data m = rns_array ?qs (at_slots (2 ^ K) rs)" by (simp add: m_def rs(3))
  obtain ct1 ct2 d2 zs where fin: "add_plain_inplace (priv_rt I) ct m = Inr ct1" "DropUnusedCoeffs I ct1 = Inr ct2"
      "\<not> ct_is_ntt_form ct" "ct_parms_id ct2 = ct_parms_id ct" "decrypt_coeffs (priv_rt I) ct2 sk = Inr d2"
      "pt_data d2 = rns_array ?qs zs" "length zs = 2 ^ K"
      "\<forall>i < 2 ^ K. ?g dvd i \<longrightarrow> zs ! i = (ys ! i + at_slots (2 ^ K) rs ! i) mod ?Q"
    using mask_and_clear [OF L deg [unfolded C_def] n [unfolded n_def] sk [unfolded C_def] ct(1-4) [unfolded C_def] m [unfolded C_def]]
    unfolding C_def n_def by auto
  obtain out where out: "sl_ct_save (priv_seal_rt I) ct2 = Inr out" using ready by (auto simp: matvec_ready_def)
  have product: "finish_product I (Some b') mask_poly ct = Inr [out]"
    using fin(1-3) out by (simp add: finish_product_def EncodeSEALObject_def m_def)
  have zs: "zs ! (i * ?g) = (ys ! (i * ?g) + rs ! i) mod ?Q" if "i < n" for i
    using fin(8) stride_in_range(1) [OF n that] at_slots_nth [OF _ dvd, of i] that j rs(1) by (simp add: slot_stride_def)
  let ?vs = "map (\<lambda>i. ys ! (i * ?g)) [0..<n]"
  have "Decrypt J [out] sk n = Inr (map (\<lambda>i. of_nat (down_value ?Q 64 ((?vs ! i + rs ! i) mod ?Q))) [0..<n])"
    if J: "client_of I J out ct2" for J
  proof -
    have I: "impl_ok J 64" "sc_degree (pub_ctx J) = 2 ^ K" "n = mi_nrows (pub_config J)" "sl_ct_load (pub_seal_rt J) out = Inr ct2"
      "sr_context_moduli (pub_rt J) (ct_parms_id ct2) = Some (sc_first_moduli (pub_ctx J))" "pub_ctx J = C"
      using J deg ct(1) fin(4) by (simp_all add: client_of_def C_def n_def ct_coeff_ok_def)
    have R: "pub_rt J = priv_rt I" using J by (simp add: client_of_def)
    have hJ: "ms_wf (pub_ms_helper J) C 64" using I(1,6) by (simp add: impl_ok_def)
    let ?ws = "map (\<lambda>i. zs ! (i * ?g)) [0..<n]"
    have "Decrypt J [out] sk n = ModulusDownRNS (sl_arith (pub_seal_rt J)) (pub_ms_helper J) (rns_array ?qs ?ws) n"
      using Decrypt_eq [OF I(1-3) n I(4,5), of sk d2 zs] fin(5-7) I(6) by (simp add: R)
    also have "\<dots> = Inr (map (\<lambda>y. of_nat (down_value ?Q 64 y)) ?ws)"
    proof -
      have "\<forall>y \<in> set ?ws. y < ?Q" using zs total_modulus_bounds(1) [OF C] by auto
      then show ?thesis using ModulusDownRNS_rns_array [OF _ hJ, of "sl_arith (pub_seal_rt J)" ?ws] S by (simp add: R)
    qed
    finally show ?thesis using zs by simp
  qed
  moreover have "shares_of ?Q ?vs (map (\<lambda>i. of_nat (down_value ?Q 64 ((?vs ! i + rs ! i) mod ?Q))) [0..<n])
      (map (\<lambda>i. server_share C 64 (rs ! i)) [0..<n])"
  proof (rule masked_shares [OF C refl _ _ _ rs(2)])
    show "\<forall>v \<in> set ?vs. v < ?Q" using ct(4,5) stride_in_range(1) [OF n] by auto
  qed (use rs(1) j in simp_all)
  ultimately show ?thesis using product out b' by auto
qed

text \<open>
  C2. What client and server hold after a masked \<open>MatVec\<close>: when the mask has been sampled and the ciphertext of the
  product carries the coefficients \<open>ys\<close>, the last stage succeeds with one ciphertext; every implementation that
  loads it decrypts it, and each entry it gets and the entry the server has kept in its buffer add up modulo \<open>2 ^ 64\<close>
  to the product scaled down, at most one off, whatever the mask was.
\<close>

theorem masked_product_shares:
  assumes "matvec_ready I K sk" "vb_wf b" "vb_len b = mi_nrows (priv_config I)"
    and "sample_mask_program I (Some b) s = (Inr (), mask_poly, Some b', s')"
    and "ct_coeff_ok (priv_rt I) (sc_first_moduli (priv_ctx I)) ct" "decrypt_coeffs (priv_rt I) ct sk = Inr d"
    and "pt_data d = rns_array (sc_first_moduli (priv_ctx I)) ys" "length ys = 2 ^ K"
    and "\<forall>y \<in> set ys. y < sc_total_modulus (priv_ctx I)"
  shows "\<exists>out ct'. finish_product I (Some b') mask_poly ct = Inr [out] \<and> sl_ct_save (priv_seal_rt I) ct' = Inr out \<and>
    (\<forall>J. client_of I J out ct' \<longrightarrow> (\<exists>client. Decrypt J [out] sk (mi_nrows (priv_config I)) = Inr client \<and>
      shares_of (sc_total_modulus (priv_ctx I))
        (map (\<lambda>i. ys ! (i * slot_stride (2 ^ K) (mi_nrows (priv_config I)))) [0..<mi_nrows (priv_config I)])
        client (vb_data b')))"
  using assms by (rule masked_product_lemma)

section \<open>The masked product at a concrete context\<close>

text \<open>A byte stream of zeros gives a mask of zeros.\<close>

lemma u64_of_zeros: "\<forall>b \<in> set bs. b = 0 \<Longrightarrow> u64_of_bytes bs = 0"
  by (induction bs) simp_all

lemma words_of_zeros: "words_of_bytes (replicate (n * 8) 0) = replicate n 0"
proof -
  have "u64_of_bytes (slice (replicate (n * 8) 0) (8 * i, 8)) = 0" for i
    by (rule u64_of_zeros) (auto simp: slice_def dest: in_set_takeD in_set_dropD)
  then show ?thesis by (simp add: words_of_bytes_def map_replicate_const)
qed

lemma sample_words_zero:
  assumes "seal_arith_ok S" "valid_modulus q"
  shows "sample_words S streams q (replicate n 0) s = Inr (replicate n 0, s)"
proof (induction n)
  case (Suc n)
  have "0 < unat (sample_bound S q)" using sample_bound_value [OF assms] by linarith
  then have "0 < sample_bound S q" by (simp add: word_less_nat_alt)
  then have "resample streams (sample_bound S q) 0 s = Some (Inr (0, s))" by (subst resample.simps) simp
  moreover have "unat (barrett_reduce_64 S 0 q) = 0" by (simp add: seal_modD(1) [OF assms])
  then have "barrett_reduce_64 S 0 q = 0" by (simp only: unat_eq_zero)
  ultimately show ?case using Suc by (simp add: or_loops_def)
qed simp

lemma sample_limbs_zero:
  assumes S: "seal_arith_ok S" and n: "0 < n" "n * 8 < kMaxBytes"
  shows "\<forall>q \<in> set qs. valid_modulus q \<Longrightarrow>
    \<exists>s'. sample_limbs S (\<lambda>g i. 0) n qs s = Inr (replicate (length qs * n) 0, s')"
proof (induction qs arbitrary: s)
  case (Cons q qs)
  have "\<exists>c s1. CPRNG (\<lambda>g i. 0) (n * 8) True s = Inr (c, replicate (n * 8) 0, s1)"
    using n by (simp add: CPRNG_def Let_def map_replicate_const split: prod.split)
  then obtain c s1 where c: "CPRNG (\<lambda>g i. 0) (n * 8) True s = Inr (c, replicate (n * 8) 0, s1)" by blast
  then have "sample_limb S (\<lambda>g i. 0) n q s = Inr (replicate n 0, s1)"
    using sample_words_zero [OF S] Cons.prems by (simp add: sample_limb_def words_of_zeros)
  moreover obtain s' where "sample_limbs S (\<lambda>g i. 0) n qs s1 = Inr (replicate (length qs * n) 0, s')"
    using Cons.IH [of s1] Cons.prems by auto
  ultimately show ?case by (simp add: replicate_add)
qed simp

lemma concat_zeros: "concat (replicate m (replicate n x)) = replicate (m * n) x"
  by (induction m) (simp_all add: replicate_add)

lemma sample_mask_zero:
  assumes L: "lib_ok (priv_seal_rt I)" and h: "ms_wf (priv_ms_helper I) (priv_ctx I) k"
    and b: "vb_wf b" "0 < vb_len b" "vb_len b dvd priv_poly_degree I" "vb_len b * 8 < kMaxBytes"
    and prng: "sl_prng (priv_seal_rt I) = (\<lambda>g i. 0)"
  shows "\<exists>m b' s'. sample_mask_program I (Some b) s = (Inr (), m, Some b', s')"
proof -
  let ?C = "priv_ctx I" and ?S = "sl_arith (priv_seal_rt I)"
  have S: "seal_arith_ok ?S" and C: "seal_context_ok ?C" using L by (simp_all add: lib_ok_def)
  obtain s1 where s1: "sample_limbs ?S (sl_prng (priv_seal_rt I)) (vb_len b) (sc_first_moduli ?C) s
      = Inr (replicate (length (sc_first_moduli ?C) * vb_len b) 0, s1)"
    using sample_limbs_zero [OF S b(2,4), of "sc_first_moduli ?C"] first_moduli_valid [OF C] prng by auto
  have "replicate (length (sc_first_moduli ?C) * vb_len b) 0 = rns_array (sc_first_moduli ?C) (replicate (vb_len b) 0)"
    by (simp add: rns_array_map map_replicate_const concat_zeros)
  moreover have "0 < sc_total_modulus ?C" using total_modulus_bounds(1) [OF C] by simp
  ultimately have "\<exists>share. ModulusDownRNS ?S (priv_ms_helper I) (replicate (length (sc_first_moduli ?C) * vb_len b) 0) (vb_len b) = Inr share"
    using ModulusDownRNS_rns_array [OF S h, of "replicate (vb_len b) 0"] by simp
  then obtain share where "ModulusDownRNS ?S (priv_ms_helper I) (replicate (length (sc_first_moduli ?C) * vb_len b) 0) (vb_len b) = Inr share" ..
  moreover have "vb_data b \<noteq> []" using b(1,2) by (auto simp: vb_wf_def)
  ultimately show ?thesis using s1 b C
    by (auto simp: sample_mask_program_def RandomVector_def Let_def seal_context_ok_def dvd_eq_mod_eq_0)
qed

definition priv_of :: "MVPPublicImpl \<Rightarrow> MVPPrivImpl" where
  "priv_of J = \<lparr>priv_is_proper_config = True, priv_config = (pub_config J)\<lparr>mi_nrows := 2\<rparr>,
     priv_ms_helper = pub_ms_helper J, priv_seal_rt = pub_seal_rt J\<rparr>"

theorem masked_product_shares_witness:
  "\<exists>I J m b out client. finish_product I (Some b) m (carry_ct [7, 77]) = Inr [out] \<and> Decrypt J [out] sk_ref 2 = Inr client \<and>
    shares_of 297462825791059918849 [7, 77] client (vb_data b)"
proof -
  obtain rt I0 where I0: "pub_seal_rt I0 = lib_ref (carry_ct [7, 77])" "pub_config I0 = meta_ref" "impl_ok I0 64"
    by (rule ref_context)
  define I where "I = priv_of I0"
  have I: "priv_seal_rt I = lib_ref (carry_ct [7, 77])" "priv_config I = meta_ref\<lparr>mi_nrows := 2\<rparr>"
    "ms_wf (priv_ms_helper I) (priv_ctx I) 64"
    using I0 by (simp_all add: I_def priv_of_def impl_ok_def)
  have L: "lib_ok (priv_seal_rt I)" unfolding I(1) by (rule lib_ok_ref)
  have deg: "sc_degree (priv_ctx I) = 2" by (simp add: I(1))
  have ready: "matvec_ready I 1 sk_ref"
    using L I(3) deg decrypt_ok_ref [of "butlast kModulus"]
    by (simp add: matvec_ready_def I(1,2) ref_moduli meta_ref_def) (simp add: lib_ref_def)
  have len: "length [7, 77 :: nat] = 2" by simp
  obtain d where d: "decrypt_coeffs (priv_rt I) (carry_ct [7, 77]) sk_ref = Inr d"
      "pt_data d = rns_array (sc_first_moduli (priv_ctx I)) [7, 77]"
    using decrypt_carry_ct [OF len] by (auto simp: I ref_moduli)
  have np: "NextPow2 2 = 2" using NextPow2_pow2 [of 1] by simp
  let ?b = "VecBuffer_new 2" and ?s = "\<lparr>cp_prng = None, cp_bytes_gen = 0, cp_created = 0\<rparr>"
  have b: "vb_wf ?b" "vb_len ?b = 2" using VecBuffer_new_wf by blast+
  obtain m b' s' where run: "sample_mask_program I (Some ?b) ?s = (Inr (), m, Some b', s')"
    using sample_mask_zero [OF L I(3) b(1), of ?s] b(2) deg
    by (auto simp: priv_poly_degree_def kMaxBytes_def I(1)) (auto simp: lib_ref_def)
  have "\<exists>out ct'. finish_product I (Some b') m (carry_ct [7, 77]) = Inr [out] \<and> sl_ct_save (priv_seal_rt I) ct' = Inr out \<and>
    (\<forall>J. client_of I J out ct' \<longrightarrow> (\<exists>client. Decrypt J [out] sk_ref (mi_nrows (priv_config I)) = Inr client \<and>
      shares_of (sc_total_modulus (priv_ctx I))
        (map (\<lambda>i. [7, 77] ! (i * slot_stride (2 ^ 1) (mi_nrows (priv_config I)))) [0..<mi_nrows (priv_config I)])
        client (vb_data b')))"
    by (rule masked_product_shares [OF ready b(1) _ run _ d])
      (use carry_ct_ok [OF len] b(2) in \<open>simp_all add: I meta_ref_def ref_moduli kModulus_values\<close>)
  then obtain out ct' where out: "finish_product I (Some b') m (carry_ct [7, 77]) = Inr [out]" "sl_ct_save (priv_seal_rt I) ct' = Inr out"
    and J: "\<And>J. client_of I J out ct' \<Longrightarrow> \<exists>client. Decrypt J [out] sk_ref 2 = Inr client \<and>
      shares_of 297462825791059918849 [7, 77] client (vb_data b')"
    by (auto simp: I meta_ref_def ref_moduli slot_stride_def upt_rec np kModulus_values)
  obtain rt2 J0 where J0: "pub_seal_rt J0 = lib_ref ct'" "pub_config J0 = meta_ref" "impl_ok J0 64" by (rule ref_context)
  define J2 where "J2 = J0\<lparr>pub_config := meta_ref\<lparr>mi_nrows := 2\<rparr>\<rparr>"
  have "client_of I J2 out ct'" using J0 by (simp add: client_of_def J2_def impl_ok_def I) (simp add: lib_ref_def)
  from J [OF this] obtain client where "Decrypt J2 [out] sk_ref 2 = Inr client"
      "shares_of 297462825791059918849 [7, 77] client (vb_data b')" by (elim exE conjE)
  with out(1) show ?thesis by blast
qed

end
