(* ===== verification/Keys.thy ===== *)
theory Keys
  imports Context
begin

text \<open>
  \<open>api_impl.cc\<close>: making and converting secret keys, deriving the evaluation keys (a version header, the Galois
  keys and the public key, in one string), and setting them up in a context and on the card.
\<close>

section \<open>The version header\<close>

definition version_bytes :: "MVPVersion \<Rightarrow> string" where
  "version_bytes v = map (\<lambda>b. char_of (unat b)) [ver_major v, ver_minor v, ver_patch v, ver_tweak v]"

text \<open>Reading over an object that holds the current version: bytes that are not read keep their values.\<close>

definition read_version :: "istringviewstream \<Rightarrow> (MVPVersion \<times> istringviewstream) outcome" where
  "read_version ins =
     obind (stream_read 4 ins) (\<lambda>(got, ins).
       let ver = current_version; b = (\<lambda>i old. if i < length got then of_nat (of_char (got ! i)) else old)
       in Inr (\<lparr>ver_major = b 0 (ver_major ver), ver_minor = b 1 (ver_minor ver),
                ver_patch = b 2 (ver_patch ver), ver_tweak = b 3 (ver_tweak ver)\<rparr>, ins))"

definition IsCompatiableVer :: "MVPVersion \<Rightarrow> bool" where
  "IsCompatiableVer ver \<longleftrightarrow> ver_major ver = ver_major current_version \<and> ver_minor ver = ver_minor current_version"

section \<open>Evaluation keys as strings\<close>

definition EncodeEvalKey :: "seal_lib \<Rightarrow> galois_keys \<Rightarrow> public_key \<Rightarrow> string list outcome" where
  "EncodeEvalKey L gk pk =
     (let os = version_bytes current_version in
      obind (catch_seal (sl_gk_save L gk)) (\<lambda>g.
      obind (catch_seal (sl_pk_save L pk)) (\<lambda>p. Inr [os @ g @ p])))"

definition DecodeEvalKey :: "seal_lib \<Rightarrow> StrBufView \<Rightarrow> (galois_keys \<times> public_key) outcome" where
  "DecodeEvalKey L str_data =
     requires (sc_parameters_set (sl_ctx L)) (Failed FAILED_PRECONDITION ''invalid seal context'')
     (requires (length str_data = 1) (Failed INVALID_ARGUMENT ''str_data.size()'')
     (obind (read_version (istringviewstream_new (str_data ! 0))) (\<lambda>(ver, ins).
      requires (IsCompatiableVer ver) (Failed INVALID_ARGUMENT ''evk version mismatch'')
      (obind (catch_seal (sl_gk_load L ins)) (\<lambda>(gk, ins).
       obind (catch_seal (sl_pk_load L ins)) (\<lambda>(pk, ins).
       Inr (gk, pk)))))))"

section \<open>Secret keys\<close>

definition no_context :: "'a outcome" where
  "no_context = Inl (Failed FAILED_PRECONDITION ''MVPContext'')"

text \<open>The generator makes the key in its constructor, outside the macro that catches.\<close>

definition GenerateKey :: "MVPContext option \<Rightarrow> nat \<Rightarrow> secret_key outcome" where
  "GenerateKey rt i =
     (case rt of None \<Rightarrow> no_context
      | Some rt \<Rightarrow> obind (sl_keygen (cx_seal_context rt) i) (\<lambda>sk. catch_seal (Inr sk)))"

text \<open>
  The loop of the conversion, from the last modulus to the first: the coefficients of the key lie where the
  residues of the first modulus go, and every pass reads them there.
\<close>

definition convert_limb :: "seal_runtime \<Rightarrow> nat \<Rightarrow> u64 list \<Rightarrow> nat \<Rightarrow> u64 list \<Rightarrow> u64 list" where
  "convert_limb R N moduli l data =
     (let neg_one = moduli ! l - 1; src_sk = take N data;
          dst_sk = map (\<lambda>s. if 1 < s then neg_one else s) src_sk
      in overwrite data (l * N) (sr_ntt R (moduli ! l) dst_sk))"

definition ConvertUserKey :: "MVPContext option \<Rightarrow> secret_key \<Rightarrow> seal_lib \<Rightarrow> secret_key \<Rightarrow> secret_key outcome" where
  "ConvertUserKey rt user_key user mvp_key =
     (case rt of None \<Rightarrow> no_context
      | Some rt \<Rightarrow>
          requires (sc_parameters_set (sl_ctx user)) (Failed FAILED_PRECONDITION ''invalid user context'')
          (requires (sl_sk_valid user user_key) (Failed FAILED_PRECONDITION ''invalid user key for the specified seal context'')
          (let R = sl_rt (cx_seal_context rt); U = sl_rt user in
           if sr_key_parms_id U = sr_key_parms_id R then Inr user_key
           else if sc_degree (sr_ctx U) \<noteq> kPolyDegree
             then Inl (Failed INVALID_ARGUMENT ''user's seal context is incompatible with MVP context'')
           else let moduli = sc_key_moduli (sr_ctx R); N = sc_degree (sr_ctx R); L = length moduli
             in if 2 ^ 64 \<le> N * L then Inl (Throws (Logic_error ''unsigned overflow''))
                else if length (pt_data user_key) < N \<or> sc_key_moduli (sr_ctx U) = [] \<or> L = 0 then Inl (Undefined ''copy_n'')
                else let data = vec_resize (N * L) (pt_data mvp_key);
                         data = overwrite data 0 (take N (pt_data user_key));
                         data = overwrite data 0 (sr_intt U (sc_key_moduli (sr_ctx U) ! 0) (take N data));
                         data = fold (convert_limb R N moduli) (rev [0..<L]) data
                     in Inr (mvp_key\<lparr>pt_data := data, pt_parms_id := sr_key_parms_id R\<rparr>))))"

section \<open>Deriving and installing evaluation keys\<close>

definition galois_elts :: "nat list" where
  "galois_elts = map (\<lambda>i. 2 ^ i + 1) [1..<Suc kLogPolyDegree]"

definition DeriveEvalKey :: "MVPContext option \<Rightarrow> secret_key \<Rightarrow> nat \<Rightarrow> string list outcome" where
  "DeriveEvalKey rt sk i =
     (case rt of None \<Rightarrow> no_context
      | Some rt \<Rightarrow>
          let L = cx_seal_context rt in
          requires (sl_sk_valid L sk) (Failed INVALID_ARGUMENT ''invalid secret key for the specified SEALContext'')
          (obind (sl_create_public_key L i sk) (\<lambda>public_key.
           obind (sl_create_galois_keys L i sk galois_elts) (\<lambda>galois_key.
           EncodeEvalKey L galois_key public_key))))"

definition SetupEvalKey :: "fpga_env \<Rightarrow> MVPContext option \<Rightarrow> StrBufView \<Rightarrow> unit outcome \<times> MVPContext option" where
  "SetupEvalKey E rt eval_key =
     (case rt of None \<Rightarrow> (no_context, None)
      | Some rt \<Rightarrow>
          (case DecodeEvalKey (cx_seal_context rt) eval_key of
             Inl e \<Rightarrow> (Inl e, Some rt)
           | Inr (galois_keys, public_key) \<Rightarrow>
               (case SetupPublicKey rt public_key of
                  (Inl e, rt) \<Rightarrow> (Inl e, Some rt)
                | (Inr _, rt) \<Rightarrow>
                    let (r, h) = InitFPGAKernel E galois_keys (cx_fpga_handler rt)
                    in (r, Some (rt\<lparr>cx_fpga_handler := h\<rparr>)))))"

definition ReleaseFPGA :: "MVPContext option \<Rightarrow> unit outcome \<times> MVPContext option" where
  "ReleaseFPGA rt =
     (case rt of None \<Rightarrow> (no_context, None)
      | Some rt \<Rightarrow> let (r, h) = FPGAHandler_Release (cx_fpga_handler rt) in (r, Some (rt\<lparr>cx_fpga_handler := h\<rparr>)))"

section \<open>The codec of evaluation keys\<close>

lemma u8_mod_256: "(of_nat (unat b mod 256) :: u8) = b"
proof -
  have "unat b < 256" using unsigned_less [of b] by simp
  then show ?thesis by simp
qed

lemma length_version_bytes [simp]: "length (version_bytes v) = 4"
  by (simp add: version_bytes_def)

interpretation header: stream_codec version_bytes read_version "\<lambda>_. True"
proof
  fix v :: MVPVersion and a c
  show "read_version (stream_at (a @ version_bytes v @ c) (length a))
      = Inr (v, stream_at (a @ version_bytes v @ c) (length a + length (version_bytes v)))"
    using stream_read_at [of "version_bytes v" a c]
    by (simp add: read_version_def Let_def) (simp add: version_bytes_def u8_mod_256 numeral_2_eq_2 numeral_3_eq_3)
qed

lemma version_compatible: "IsCompatiableVer current_version"
  by (simp add: IsCompatiableVer_def)

text \<open>The key codecs of SEAL: what they write is what they read back, from anywhere in a stream.\<close>

definition keys_ok :: "seal_lib \<Rightarrow> (galois_keys \<Rightarrow> bool) \<Rightarrow> (public_key \<Rightarrow> bool) \<Rightarrow> bool" where
  "keys_ok L gk_ok pk_ok \<longleftrightarrow> sc_parameters_set (sl_ctx L) \<and>
     (\<exists>gk_save pk_save. stream_codec gk_save (sl_gk_load L) gk_ok \<and> stream_codec pk_save (sl_pk_load L) pk_ok \<and>
        (\<forall>gk. gk_ok gk \<longrightarrow> sl_gk_save L gk = Inr (gk_save gk)) \<and> (\<forall>pk. pk_ok pk \<longrightarrow> sl_pk_save L pk = Inr (pk_save pk)))"

lemma eval_key_roundtrip_lemma:
  assumes "keys_ok L gk_ok pk_ok" "gk_ok gk" "pk_ok pk"
  shows "\<exists>s. EncodeEvalKey L gk pk = Inr [s] \<and> (\<forall>rest. DecodeEvalKey L [s @ rest] = Inr (gk, pk))"
proof -
  obtain gk_save pk_save where c: "stream_codec gk_save (sl_gk_load L) gk_ok" "stream_codec pk_save (sl_pk_load L) pk_ok"
      "sl_gk_save L gk = Inr (gk_save gk)" "sl_pk_save L pk = Inr (pk_save pk)" "sc_parameters_set (sl_ctx L)"
    using assms by (auto simp: keys_ok_def)
  let ?v = "version_bytes current_version" and ?g = "gk_save gk" and ?p = "pk_save pk"
  have "DecodeEvalKey L [(?v @ ?g @ ?p) @ rest] = Inr (gk, pk)" for rest
  proof -
    let ?str = "?v @ ?g @ ?p @ rest"
    have "read_version (istringviewstream_new ?str) = Inr (current_version, stream_at ?str (length ?v))"
      using header.load_alone [of current_version "?g @ ?p @ rest"] by simp
    moreover have "sl_gk_load L (stream_at ?str (length ?v)) = Inr (gk, stream_at ?str (length ?v + length ?g))"
      using stream_codec.load_save [OF c(1), of gk ?v "?p @ rest"] assms(2) by simp
    moreover have "sl_pk_load L (stream_at ?str (length ?v + length ?g)) = Inr (pk, stream_at ?str (length ?v + length ?g + length ?p))"
      using stream_codec.load_save [OF c(2), of pk "?v @ ?g" rest] assms(3) by simp
    ultimately show ?thesis using c(5) version_compatible by (simp add: DecodeEvalKey_def)
  qed
  moreover have "EncodeEvalKey L gk pk = Inr [?v @ ?g @ ?p]" using c(3,4) by (simp add: EncodeEvalKey_def)
  ultimately show ?thesis by blast
qed

lemma derived_keys_lemma:
  assumes "ctx_ok rt" "fe_probe E = Probe_ok" "fe_ready E 0 \<noteq> None"
    and "sl_sk_valid (cx_seal_context rt) sk" "keys_ok (cx_seal_context rt) gk_ok pk_ok" "gk_ok gk" "pk_ok pk"
    and "sl_create_public_key (cx_seal_context rt) i sk = Inr pk" "sl_pk_data_valid (cx_seal_context rt) pk"
    and "sl_create_galois_keys (cx_seal_context rt) i sk galois_elts = Inr gk"
    and "\<forall>e \<in> set galois_elts. \<exists>k1 k2. gk e = Some [k1, k2] \<and> key_ok k1 \<and> key_ok k2"
  shows "\<exists>s rt'. DeriveEvalKey (Some rt) sk i = Inr [s] \<and>
    (\<forall>rest. SetupEvalKey E (Some rt) [s @ rest] = (Inr (), Some rt')) \<and> IsFPGAEnabled rt' \<and> ctx_ok rt' \<and>
    MVPContext_public_key rt' = Inr pk"
proof -
  let ?L = "cx_seal_context rt"
  obtain s where s: "EncodeEvalKey ?L gk pk = Inr [s]" "\<forall>rest. DecodeEvalKey ?L [s @ rest] = Inr (gk, pk)"
    using eval_key_roundtrip_lemma [OF assms(5-7)] by blast
  have "\<forall>i \<in> {1..12}. \<exists>k1 k2. gk (2 ^ i + 1) = Some [k1, k2] \<and> key_ok k1 \<and> key_ok k2"
  proof
    fix j :: nat
    assume "j \<in> {1..12}"
    then have "2 ^ j + 1 \<in> set galois_elts" by (simp add: galois_elts_def kLogPolyDegree_def del: upt_Suc)
    then show "\<exists>k1 k2. gk (2 ^ j + 1) = Some [k1, k2] \<and> key_ok k1 \<and> key_ok k2" using assms(11) by blast
  qed
  then have init: "fst (InitFPGAKernel E gk (cx_fpga_handler rt)) = Inr ()"
      "fh_is_initialized (snd (InitFPGAKernel E gk (cx_fpga_handler rt)))"
    using InitFPGAKernel_lemma [OF assms(2,3), of gk "cx_fpga_handler rt"] by simp_all
  define rt' where "rt' = rt\<lparr>cx_public_key := Some pk, cx_fpga_handler := snd (InitFPGAKernel E gk (cx_fpga_handler rt))\<rparr>"
  have "SetupPublicKey rt pk = (Inr (), rt\<lparr>cx_public_key := Some pk\<rparr>)"
    using assms(1,9) by (simp add: SetupPublicKey_def ctx_ok_def lib_ok_def seal_context_ok_def)
  then have "SetupEvalKey E (Some rt) [s @ rest] = (Inr (), Some rt')" for rest
    using s(2) init by (simp add: SetupEvalKey_def rt'_def prod_eq_iff split: prod.splits)
  moreover have "DeriveEvalKey (Some rt) sk i = Inr [s]"
    using assms(4,8,10) s(1) by (simp add: DeriveEvalKey_def)
  moreover have "IsFPGAEnabled rt'" "ctx_ok rt'" "MVPContext_public_key rt' = Inr pk"
    using assms(1) init by (simp_all add: rt'_def IsFPGAEnabled_def ctx_ok_def MVPContext_public_key_def)
  ultimately show ?thesis by blast
qed

text \<open>
  From keys to an enabled card: on a well-formed context with a card that is found and readable, for a valid
  secret key for which SEAL makes a valid public key and two well-formed keys for each of the elements asked
  for, \<open>DeriveEvalKey\<close> gives one string; \<open>SetupEvalKey\<close> accepts this string on every such context, whatever follows
  in it, enables the card and hands out that public key. The elements asked for are the ones the card needs.
\<close>

theorem derived_keys_enable_card:
  assumes "ctx_ok rt" "fe_probe E = Probe_ok" "fe_ready E 0 \<noteq> None"
    and "sl_sk_valid (cx_seal_context rt) sk" "keys_ok (cx_seal_context rt) gk_ok pk_ok" "gk_ok gk" "pk_ok pk"
    and "sl_create_public_key (cx_seal_context rt) i sk = Inr pk" "sl_pk_data_valid (cx_seal_context rt) pk"
    and "sl_create_galois_keys (cx_seal_context rt) i sk galois_elts = Inr gk"
    and "\<forall>e \<in> set galois_elts. \<exists>k1 k2. gk e = Some [k1, k2] \<and> key_ok k1 \<and> key_ok k2"
  shows "\<exists>s rt'. DeriveEvalKey (Some rt) sk i = Inr [s] \<and>
    (\<forall>rest. SetupEvalKey E (Some rt) [s @ rest] = (Inr (), Some rt')) \<and> IsFPGAEnabled rt' \<and> ctx_ok rt' \<and>
    MVPContext_public_key rt' = Inr pk"
  by (rule derived_keys_lemma) (fact assms)+

text \<open>
  C38. What a failed \<open>SetupEvalKey\<close> leaves behind: it succeeds exactly when the keys decode, the public key is valid and
  the card accepts the Galois keys; the card stays as it was otherwise, but when only the card refused, the
  context already holds the new public key.
\<close>

theorem SetupEvalKey_effect:
  assumes "SetupEvalKey E (Some rt) eval_key = (r, Some rt')"
  shows "case DecodeEvalKey (cx_seal_context rt) eval_key of
      Inl e \<Rightarrow> r = Inl e \<and> rt' = rt
    | Inr (gk, pk) \<Rightarrow>
        if sc_parameters_set (sl_ctx (cx_seal_context rt)) \<and> sl_pk_data_valid (cx_seal_context rt) pk
        then r = fst (InitFPGAKernel E gk (cx_fpga_handler rt)) \<and> cx_public_key rt' = Some pk \<and>
             IsFPGAEnabled rt' = (r = Inr () \<or> IsFPGAEnabled rt) \<and> cx_seal_context rt' = cx_seal_context rt
        else r \<noteq> Inr () \<and> rt' = rt"
proof -
  have flag: "fh_is_initialized (snd (InitFPGAKernel E gk h)) = (fst (InitFPGAKernel E gk h) = Inr () \<or> fh_is_initialized h)" for gk h
    by (auto simp: InitFPGAKernel_def Let_def split: sum.splits)
  show ?thesis
    using assms flag
    by (auto simp: SetupEvalKey_def SetupPublicKey_def IsFPGAEnabled_def prod_eq_iff split: sum.splits prod.splits if_splits)
qed

section \<open>Converting a user's key\<close>

definition key_residue :: "u64 \<Rightarrow> u64 \<Rightarrow> u64" where
  "key_residue q c = (if 1 < c then q - 1 else c)"

lemma nth_limb_overwrite:
  assumes "length xs = N" "l * N + N \<le> length data" "m * N + N \<le> length data"
  shows "limb N (overwrite data (l * N) xs) m = (if m = l then xs else limb N data m)"
proof (cases "m = l")
  case True
  then show ?thesis using assms by (simp add: slice_def overwrite_def min_def)
next
  case False
  then have apart: "m * N + N \<le> l * N \<or> l * N + N \<le> m * N"
  proof -
    have "Suc m \<le> l \<or> Suc l \<le> m" using False by linarith
    then show ?thesis using mult_le_mono1 [of "Suc m" l N] mult_le_mono1 [of "Suc l" m N] by auto
  qed
  show ?thesis
    using False assms apart by (intro nth_equalityI) (auto simp: slice_def nth_overwrite)
qed

lemma convert_loop:
  assumes q: "\<forall>l < length moduli. ntt_ok R N (moduli ! l) \<and> (\<forall>c \<in> set cs. key_residue (moduli ! l) c < moduli ! l)"
    and len: "length cs = N"
  shows "j \<le> length moduli \<Longrightarrow> length data = length moduli * N \<Longrightarrow> 0 < j \<Longrightarrow> limb N data 0 = cs \<Longrightarrow>
    length (fold (convert_limb R N moduli) (rev [0..<j]) data) = length moduli * N \<and>
    (\<forall>l < length moduli. limb N (fold (convert_limb R N moduli) (rev [0..<j]) data) l
      = (if l < j then sr_ntt R (moduli ! l) (map (key_residue (moduli ! l)) cs) else limb N data l))"
proof (induction j arbitrary: data)
  case (Suc j)
  let ?r = "sr_ntt R (moduli ! j) (map (key_residue (moduli ! j)) cs)"
  have j: "j < length moduli" using Suc.prems(1) by simp
  have "reduced (moduli ! j) (map (key_residue (moduli ! j)) cs)" using q j by (simp add: reduced_def)
  then have r: "length ?r = N" using q j len by (simp add: ntt_ok_def)
  have "take N data = cs" using Suc.prems(4) by (simp add: slice_def)
  then have step: "convert_limb R N moduli j data = overwrite data (j * N) ?r"
    by (simp add: convert_limb_def key_residue_def [abs_def])
  have fits: "l * N + N \<le> length data" if "l < length moduli" for l
  proof -
    have "Suc l * N \<le> length moduli * N" using that by (intro mult_le_mono1) simp
    then show ?thesis using Suc.prems(2) by simp
  qed
  let ?data = "overwrite data (j * N) ?r"
  have new: "limb N ?data l = (if l = j then ?r else limb N data l)" if "l < length moduli" for l
    by (rule nth_limb_overwrite [OF r fits [OF j] fits [OF that]])
  have len': "length ?data = length moduli * N" using fits [OF j] r Suc.prems(2) by simp
  show ?case
  proof (cases "j = 0")
    case True
    then show ?thesis using step new len' by simp
  next
    case False
    then have "limb N ?data 0 = cs" using new [of 0] Suc.prems(4) j by (cases moduli) simp_all
    then have "length (fold (convert_limb R N moduli) (rev [0..<j]) ?data) = length moduli * N \<and>
      (\<forall>l < length moduli. limb N (fold (convert_limb R N moduli) (rev [0..<j]) ?data) l
        = (if l < j then sr_ntt R (moduli ! l) (map (key_residue (moduli ! l)) cs) else limb N ?data l))"
      using Suc.IH [OF _ len'] j False by simp
    then show ?thesis using step new by (auto simp: less_Suc_eq)
  qed
qed simp

text \<open>
  Converting a user's secret key: when the user's context differs from that of the SDK and has its degree, and
  the first residue polynomial of the key has the coefficients \<open>cs\<close>, the converted key has, for every modulus, the
  transform of these coefficients where 0 and 1 stay and everything else, which is -1 in a ternary key,
  becomes -1 for that modulus; a key of the same context is handed on unchanged.
\<close>

theorem ConvertUserKey_residues:
  assumes "lib_ok (cx_seal_context rt)" "sc_parameters_set (sl_ctx user)" "sl_sk_valid user user_key"
    and "sc_degree (sl_ctx user) = kPolyDegree" "sc_key_moduli (sl_ctx user) = q0 # qs"
    and "N = sc_degree (sl_ctx (cx_seal_context rt))" "N \<le> length (pt_data user_key)"
    and "sr_intt (sl_rt user) q0 (take N (pt_data user_key)) = cs" "length cs = N"
    and "\<forall>q \<in> set (sc_key_moduli (sl_ctx (cx_seal_context rt))). ntt_ok (sl_rt (cx_seal_context rt)) N q"
  shows "\<exists>key. ConvertUserKey (Some rt) user_key user mvp_key = Inr key \<and>
    (if sr_key_parms_id (sl_rt user) = sr_key_parms_id (sl_rt (cx_seal_context rt)) then key = user_key
     else pt_parms_id key = sr_key_parms_id (sl_rt (cx_seal_context rt)) \<and>
       (\<forall>l < length (sc_key_moduli (sl_ctx (cx_seal_context rt))).
          limb N (pt_data key) l = sr_ntt (sl_rt (cx_seal_context rt)) (sc_key_moduli (sl_ctx (cx_seal_context rt)) ! l)
            (map (key_residue (sc_key_moduli (sl_ctx (cx_seal_context rt)) ! l)) cs)))"
proof (cases "sr_key_parms_id (sl_rt user) = sr_key_parms_id (sl_rt (cx_seal_context rt))")
  case True
  then show ?thesis using assms(2,3) by (simp add: ConvertUserKey_def)
next
  case False
  let ?R = "sl_rt (cx_seal_context rt)" and ?ms = "sc_key_moduli (sl_ctx (cx_seal_context rt))"
  define data where "data = overwrite (overwrite (vec_resize (N * length ?ms) (pt_data mvp_key)) 0 (take N (pt_data user_key))) 0 cs"
  have L: "0 < length ?ms" using assms(1) by (auto simp: lib_ok_def seal_context_ok_def)
  have fits: "N \<le> N * length ?ms" using L by (cases "?ms") simp_all
  have data: "length data = length ?ms * N" "limb N data 0 = cs"
    using fits assms(7,9) by (simp_all add: data_def slice_def overwrite_def mult.commute)
  have res: "\<forall>l < length ?ms. ntt_ok ?R N (?ms ! l) \<and> (\<forall>c \<in> set cs. key_residue (?ms ! l) c < ?ms ! l)"
  proof (intro allI impI conjI ballI)
    fix l c
    assume l: "l < length ?ms"
    then show "ntt_ok ?R N (?ms ! l)" using assms(10) by simp
    then have q: "1 < ?ms ! l" by (simp add: ntt_ok_def valid_modulus_def word_less_nat_alt)
    then have "?ms ! l - 1 < ?ms ! l" by (metis less_trans measure_unat word_le_less_eq word_not_simps(1) word_less_nat_alt word_neq_0_conv)
    then show "key_residue (?ms ! l) c < ?ms ! l" using q by (auto simp: key_residue_def not_less intro: le_less_trans)
  qed
  let ?out = "fold (convert_limb ?R N ?ms) (rev [0..<length ?ms]) data"
  have "ConvertUserKey (Some rt) user_key user mvp_key = Inr (mvp_key\<lparr>pt_data := ?out, pt_parms_id := sr_key_parms_id ?R\<rparr>)"
  proof -
    have "N * length ?ms < 2 ^ 64" using assms(1,6) by (simp add: lib_ok_def mult.commute)
    moreover have "take N (overwrite (vec_resize (N * length ?ms) (pt_data mvp_key)) 0 (take N (pt_data user_key))) = take N (pt_data user_key)"
      using assms(7) by (simp add: overwrite_def)
    ultimately show ?thesis
      using False assms(2-9) L by (simp add: ConvertUserKey_def Let_def data_def)
  qed
  moreover have "\<forall>l < length ?ms. limb N ?out l = sr_ntt ?R (?ms ! l) (map (key_residue (?ms ! l)) cs)"
    using convert_loop [OF res assms(9), of "length ?ms" data] data L by simp
  ultimately show ?thesis using False by simp
qed

section \<open>Concrete keys\<close>

definition gk_ones :: galois_keys where
  "gk_ones = (\<lambda>_. Some (replicate 2 \<lparr>ct_parms_id = parms_id 3, ct_is_ntt_form = True, ct_degree = 4096,
     ct_coeff_modulus_size = 3, ct_polys = [replicate 12288 1, replicate 12288 1], ct_scale = 1\<rparr>))"

text \<open>A library that makes and loads one pair of evaluation keys.\<close>

definition lib_keys :: "galois_keys \<Rightarrow> seal_lib" where
  "lib_keys gk = (lib_ref (zero_ct (parms_id 2) 2))\<lparr>sl_create_galois_keys := (\<lambda>i sk elts. Inr gk),
     sl_gk_load := load_char (CHR ''G'') gk\<rparr>"

lemma lib_ok_keys: "lib_ok (lib_keys gk)"
  using lib_ok_ref [of "zero_ct (parms_id 2) 2"] by (simp add: lib_ok_def lib_keys_def)

lemma load_char_codec: "stream_codec (\<lambda>_. [ch]) (load_char ch x) (\<lambda>y. y = x)"
proof
  fix y and a c :: string
  assume "y = x"
  then show "load_char ch x (stream_at (a @ [ch] @ c) (length a)) = Inr (y, stream_at (a @ [ch] @ c) (length a + length [ch]))"
    using stream_read_at [of "[ch]" a c] by (simp add: load_char_def)
qed

lemma keys_ok_ref: "keys_ok (lib_keys gk) (\<lambda>g. g = gk) (\<lambda>p. p = zero_ct (parms_id 3) 3)"
  unfolding keys_ok_def
proof (intro conjI exI)
  show "stream_codec (\<lambda>_. ''G'') (sl_gk_load (lib_keys gk)) (\<lambda>g. g = gk)"
    using load_char_codec [of "CHR ''G''" gk] by (simp add: lib_keys_def)
  show "stream_codec (\<lambda>_. ''P'') (sl_pk_load (lib_keys gk)) (\<lambda>p. p = zero_ct (parms_id 3) 3)"
    using load_char_codec [of "CHR ''P''" "zero_ct (parms_id 3) 3"] by (simp add: lib_keys_def lib_ref_def)
qed (use lib_ok_keys in \<open>simp_all add: lib_ok_def seal_context_ok_def\<close>, simp_all add: lib_keys_def lib_ref_def)

lemma rt_of_keys:
  obtains rt where "ctx_ok rt" "cx_seal_context rt = lib_keys gk" "\<not> IsFPGAEnabled rt"
  using MVPContext_new_ok [OF lib_ok_keys, of gk 1] that by blast

lemma env_ready: "fe_probe (env_ref 1 3) = Probe_ok" "fe_ready (env_ref 1 3) 0 \<noteq> None"
  by (simp_all add: env_ref_def)

theorem derived_keys_enable_card_witness:
  "\<exists>rt s rt'. \<not> IsFPGAEnabled rt \<and> DeriveEvalKey (Some rt) (pt_ref [1, 0]) 0 = Inr [s] \<and>
    SetupEvalKey (env_ref 1 3) (Some rt) [s] = (Inr (), Some rt') \<and> IsFPGAEnabled rt'"
proof -
  obtain rt where rt: "ctx_ok rt" "cx_seal_context rt = lib_keys gk_ones" "\<not> IsFPGAEnabled rt" by (rule rt_of_keys)
  have "\<exists>s rt'. DeriveEvalKey (Some rt) (pt_ref [1, 0]) 0 = Inr [s] \<and>
    (\<forall>rest. SetupEvalKey (env_ref 1 3) (Some rt) [s @ rest] = (Inr (), Some rt')) \<and> IsFPGAEnabled rt' \<and> ctx_ok rt' \<and>
    MVPContext_public_key rt' = Inr (zero_ct (parms_id 3) 3)"
    by (rule derived_keys_enable_card [OF rt(1) env_ready _ keys_ok_ref [of gk_ones, folded rt(2)] refl refl])
      (use all_ones_key_ok in \<open>simp_all add: rt(2) lib_keys_def lib_ref_def gk_ones_def numeral_2_eq_2\<close>)
  then show ?thesis using rt(3) by (metis append_Nil2)
qed

lemma SetupEvalKey_keeps_context: "\<exists>r rt'. SetupEvalKey E (Some rt) keys = (r, Some rt')"
  by (auto simp: SetupEvalKey_def split: sum.splits prod.splits)

theorem SetupEvalKey_effect_witness:
  "\<exists>rt s r rt'. SetupEvalKey (env_ref 1 3) (Some rt) [s] = (r, Some rt') \<and> cx_public_key rt = None \<and> r \<noteq> Inr () \<and>
    cx_public_key rt' = Some (zero_ct (parms_id 3) 3) \<and> \<not> IsFPGAEnabled rt'"
proof -
  obtain rt where rt: "ctx_ok rt" "cx_seal_context rt = lib_keys (\<lambda>_. None)" "\<not> IsFPGAEnabled rt" "cx_public_key rt = None"
    using MVPContext_new_ok [OF lib_ok_keys, of "\<lambda>_. None" 1] by blast
  obtain s where s: "DecodeEvalKey (cx_seal_context rt) [s] = Inr (\<lambda>_. None, zero_ct (parms_id 3) 3)"
    using eval_key_roundtrip_lemma [OF keys_ok_ref [of "\<lambda>_. None"] refl refl] by (metis append_Nil2 rt(2))
  obtain r rt' where st: "SetupEvalKey (env_ref 1 3) (Some rt) [s] = (r, Some rt')"
    using SetupEvalKey_keeps_context by blast
  have "sc_parameters_set (sl_ctx (cx_seal_context rt))" "sl_pk_data_valid (cx_seal_context rt) (zero_ct (parms_id 3) 3)"
    using rt(1) by (simp_all add: ctx_ok_def lib_ok_def seal_context_ok_def) (simp add: rt(2) lib_keys_def lib_ref_def)
  then have e: "r = fst (InitFPGAKernel (env_ref 1 3) (\<lambda>_. None) (cx_fpga_handler rt))" "cx_public_key rt' = Some (zero_ct (parms_id 3) 3)"
      "IsFPGAEnabled rt' = (r = Inr () \<or> IsFPGAEnabled rt)"
    using SetupEvalKey_effect [OF st] s by simp_all
  moreover have "r \<noteq> Inr ()"
    using InitFPGAKernel_lemma [OF env_ready, of "\<lambda>_. None" "cx_fpga_handler rt"] e(1) by auto
  ultimately show ?thesis using st rt(3,4) by auto
qed

definition lib_user :: seal_lib where
  "lib_user = (lib_ref (zero_ct (parms_id 2) 2))\<lparr>sl_rt := rt_ref\<lparr>sr_ctx := (sr_ctx rt_ref)\<lparr>sc_degree := 4096\<rparr>,
     sr_key_parms_id := parms_id 9\<rparr>\<rparr>"

theorem ConvertUserKey_residues_witness:
  "\<exists>rt key. ConvertUserKey (Some rt) (pt_ref [1, 17314086912]) lib_user (pt_ref []) = Inr key \<and>
    limb 2 (pt_data key) 1 = [1, 17180393472]"
proof -
  obtain rt where rt: "ctx_ok rt" "cx_seal_context rt = lib_keys gk_ones" by (rule rt_of_keys)
  have sel: "sl_rt (lib_keys gk_ones) = rt_ref" by (simp add: lib_keys_def)
  have "valid_modulus q" if "q \<in> set kModulus" for q using that by (auto simp: kModulus_values valid_modulus_def)
  then have ntt: "\<forall>q \<in> set (sc_key_moduli (sl_ctx (cx_seal_context rt))). ntt_ok (sl_rt (cx_seal_context rt)) 2 q"
    using ntt_ok_ref by (simp add: rt(2) sel) (simp add: rt_ref_def mvp_ctx_def)
  have key: "sc_key_moduli (sr_ctx rt_ref) = [17314086913, 17180393473, 274886295553]"
    by (simp add: rt_ref_def mvp_ctx_def kModulus_values)
  have "\<exists>key. ConvertUserKey (Some rt) (pt_ref [1, 17314086912]) lib_user (pt_ref []) = Inr key \<and>
    (if sr_key_parms_id (sl_rt lib_user) = sr_key_parms_id (sl_rt (cx_seal_context rt)) then key = pt_ref [1, 17314086912]
     else pt_parms_id key = sr_key_parms_id (sl_rt (cx_seal_context rt)) \<and>
       (\<forall>l < length (sc_key_moduli (sl_ctx (cx_seal_context rt))).
          limb 2 (pt_data key) l = sr_ntt (sl_rt (cx_seal_context rt)) (sc_key_moduli (sl_ctx (cx_seal_context rt)) ! l)
            (map (key_residue (sc_key_moduli (sl_ctx (cx_seal_context rt)) ! l)) [1, 17314086912])))"
    by (rule ConvertUserKey_residues [OF _ _ _ _ _ _ _ _ _ ntt, where ?q0.0 = 17314086913 and qs = "[17180393473, 274886295553]"])
      (use lib_ok_keys [of gk_ones] in \<open>simp_all add: rt(2) sel lib_user_def key pt_ref_def kPolyDegree_def\<close>,
       simp_all add: lib_ref_def rt_ref_def mvp_ctx_def)
  moreover have "sr_key_parms_id (sl_rt lib_user) \<noteq> sr_key_parms_id rt_ref" by (simp add: lib_user_def rt_ref_def)
  ultimately obtain k where k: "ConvertUserKey (Some rt) (pt_ref [1, 17314086912]) lib_user (pt_ref []) = Inr k"
      "\<forall>l < 3. limb 2 (pt_data k) l = sr_ntt rt_ref ([17314086913, 17180393473, 274886295553] ! l)
            (map (key_residue ([17314086913, 17180393473, 274886295553] ! l)) [1, 17314086912])"
    by (auto simp: rt(2) sel key numeral_3_eq_3)
  have "limb 2 (pt_data k) 1 = [1, 17180393472]" using k(2) [rule_format, of 1] by (simp add: rt_ref_def key_residue_def)
  with k(1) show ?thesis by blast
qed

end
