(* ===== verification/Pool.thy ===== *)
theory Pool
  imports Prelude "HOL-Library.Multiset"
begin

text \<open>
  \<open>util/ThreadPool.h\<close> as a step relation: the queue of tasks, the worker threads, the notifications of the condition
  variable that are still to come, and the destructor. A task is a number. A worker that waits is blocked until
  a notification makes it test its predicate again; it tests the predicate and takes the task while it holds
  the mutex, in one step.
\<close>

section \<open>States and steps\<close>

datatype worker = Checking | Blocked | Running nat | Exited

record pool =
  pl_tasks :: "nat list"
  pl_stop :: bool
  pl_notified :: bool
  pl_pending :: nat
  pl_workers :: "worker list"
  pl_enqueued :: "nat list"
  pl_started :: "nat list"
  pl_done :: "nat list"

definition ThreadPool_new :: "nat \<Rightarrow> pool" where
  "ThreadPool_new threads = \<lparr>pl_tasks = [], pl_stop = False, pl_notified = False, pl_pending = 0,
     pl_workers = replicate threads Checking, pl_enqueued = [], pl_started = [], pl_done = []\<rparr>"

text \<open>The part of \<open>enqueue\<close> under the mutex; the notification of one worker follows later.\<close>

definition enqueue :: "nat \<Rightarrow> pool \<Rightarrow> pool outcome" where
  "enqueue task p =
     (if pl_stop p then Inl (Throws (Runtime_error ''enqueue on stopped ThreadPool''))
      else Inr (p\<lparr>pl_tasks := pl_tasks p @ [task], pl_enqueued := pl_enqueued p @ [task], pl_pending := Suc (pl_pending p)\<rparr>))"

definition worker_check :: "nat \<Rightarrow> pool \<Rightarrow> pool" where
  "worker_check i p =
     (if \<not> pl_stop p \<and> pl_tasks p = [] then p\<lparr>pl_workers := (pl_workers p)[i := Blocked]\<rparr>
      else case pl_tasks p of
        [] \<Rightarrow> p\<lparr>pl_workers := (pl_workers p)[i := Exited]\<rparr>
      | task # tasks \<Rightarrow> p\<lparr>pl_tasks := tasks, pl_workers := (pl_workers p)[i := Running task], pl_started := pl_started p @ [task]\<rparr>)"

definition worker_finish :: "nat \<Rightarrow> nat \<Rightarrow> pool \<Rightarrow> pool" where
  "worker_finish i task p = p\<lparr>pl_workers := (pl_workers p)[i := Checking], pl_done := pl_done p @ [task]\<rparr>"

inductive pool_step :: "pool \<Rightarrow> pool \<Rightarrow> bool" where
  Enqueue: "enqueue task p = Inr q \<Longrightarrow> pool_step p q"
| Notify_one: "0 < pl_pending p \<Longrightarrow> i < length (pl_workers p) \<Longrightarrow> pl_workers p ! i = Blocked \<Longrightarrow>
    pool_step p (p\<lparr>pl_pending := pl_pending p - 1, pl_workers := (pl_workers p)[i := Checking]\<rparr>)"
| Notify_none: "0 < pl_pending p \<Longrightarrow> Blocked \<notin> set (pl_workers p) \<Longrightarrow> pool_step p (p\<lparr>pl_pending := pl_pending p - 1\<rparr>)"
| Check: "i < length (pl_workers p) \<Longrightarrow> pl_workers p ! i = Checking \<Longrightarrow> pool_step p (worker_check i p)"
| Finish: "i < length (pl_workers p) \<Longrightarrow> pl_workers p ! i = Running task \<Longrightarrow> pool_step p (worker_finish i task p)"
| Stop: "\<not> pl_stop p \<Longrightarrow> pool_step p (p\<lparr>pl_stop := True\<rparr>)"
| Notify_all: "pl_stop p \<Longrightarrow> \<not> pl_notified p \<Longrightarrow>
    pool_step p (p\<lparr>pl_notified := True, pl_workers := map (\<lambda>w. if w = Blocked then Checking else w) (pl_workers p)\<rparr>)"

inductive_cases pool_stepE: "pool_step p q"

text \<open>\<open>join\<close> of the destructor returns when every worker has left its loop.\<close>

definition joined :: "pool \<Rightarrow> bool" where
  "joined p \<longleftrightarrow> pl_stop p \<and> pl_notified p \<and> set (pl_workers p) \<subseteq> {Exited}"

section \<open>The invariant\<close>

fun running :: "worker \<Rightarrow> nat multiset" where
  "running (Running task) = {#task#}"
| "running _ = {#}"

definition in_progress :: "pool \<Rightarrow> nat multiset" where
  "in_progress p = sum_list (map running (pl_workers p))"

definition pool_inv :: "nat \<Rightarrow> pool \<Rightarrow> bool" where
  "pool_inv n p \<longleftrightarrow> length (pl_workers p) = n \<and> 0 < n \<and>
     pl_enqueued p = pl_started p @ pl_tasks p \<and>
     mset (pl_started p) = mset (pl_done p) + in_progress p \<and>
     (Exited \<in> set (pl_workers p) \<longrightarrow> pl_stop p \<and> pl_tasks p = []) \<and>
     (pl_tasks p \<noteq> [] \<longrightarrow> pl_notified p \<or> 0 < pl_pending p \<or> (\<exists>w \<in> set (pl_workers p). w \<noteq> Blocked)) \<and>
     (pl_notified p \<longrightarrow> pl_stop p \<and> Blocked \<notin> set (pl_workers p))"

lemma in_progress_update:
  assumes "i < length ws"
  shows "sum_list (map running (ws[i := w])) + running (ws ! i) = sum_list (map running ws) + running w"
  using assms
proof (induction ws arbitrary: i)
  case (Cons v ws)
  then show ?case by (cases i) (simp_all add: union_ac)
qed simp

lemma in_progress_neutral:
  assumes "i < length ws" "running (ws ! i) = {#}" "running w = {#}"
  shows "sum_list (map running (ws[i := w])) = sum_list (map running ws)"
  using in_progress_update [OF assms(1), of w] assms(2,3) by simp

lemma some_worker: "0 < length ws \<Longrightarrow> \<exists>w. w \<in> set ws"
  by (cases ws) auto

lemma pool_inv_step:
  assumes inv: "pool_inv n p" and step: "pool_step p q"
  shows "pool_inv n q"
  using step
proof (cases rule: pool_step.cases)
  case (Enqueue task)
  then show ?thesis using inv
    by (auto simp: enqueue_def pool_inv_def in_progress_def split: if_splits)
next
  case (Notify_one i)
  then show ?thesis using inv in_progress_neutral [of i "pl_workers p" Checking]
    by (auto simp: pool_inv_def in_progress_def set_update_memI dest!: set_update_subset_insert [THEN subsetD] intro!: bexI [of _ Checking])
next
  case Notify_none
  then show ?thesis using inv some_worker [of "pl_workers p"] by (auto simp: pool_inv_def in_progress_def)
next
  case (Check i)
  have i: "i < length (pl_workers p)" "pl_workers p ! i = Checking" using Check by simp_all
  show ?thesis
  proof (cases "pl_tasks p")
    case Nil
    then show ?thesis
      using inv Check in_progress_neutral [OF i(1), of Blocked] in_progress_neutral [OF i(1), of Exited]
      by (auto simp: worker_check_def pool_inv_def in_progress_def dest: set_update_subset_insert [THEN subsetD])
  next
    case (Cons task tasks)
    have "sum_list (map running ((pl_workers p)[i := Running task])) = sum_list (map running (pl_workers p)) + {#task#}"
      using in_progress_update [OF i(1), of "Running task"] i(2) by simp
    moreover have "Running task \<in> set ((pl_workers p)[i := Running task])" using i(1) by (simp add: set_update_memI)
    ultimately show ?thesis
      using inv Check Cons
      by (auto simp: worker_check_def pool_inv_def in_progress_def dest: set_update_subset_insert [THEN subsetD] intro: bexI [of _ "Running task"])
  qed
next
  case (Finish i task)
  have i: "i < length (pl_workers p)" "pl_workers p ! i = Running task" using Finish by simp_all
  have "sum_list (map running ((pl_workers p)[i := Checking])) + {#task#} = sum_list (map running (pl_workers p))"
    using in_progress_update [OF i(1), of Checking] i(2) by simp
  moreover have "Checking \<in> set ((pl_workers p)[i := Checking])" using i(1) by (simp add: set_update_memI)
  ultimately show ?thesis
    using inv Finish
    by (auto simp: worker_finish_def pool_inv_def in_progress_def union_ac dest: set_update_subset_insert [THEN subsetD]
        intro: bexI [of _ Checking])
next
  case Stop
  then show ?thesis using inv by (auto simp: pool_inv_def in_progress_def)
next
  case Notify_all
  moreover have "sum_list (map running (map (\<lambda>w. if w = Blocked then Checking else w) ws)) = sum_list (map running ws)" for ws
    by (induction ws) auto
  ultimately show ?thesis using inv by (auto simp: pool_inv_def in_progress_def)
qed

lemma pool_inv_init: "p = ThreadPool_new n \<and> 0 < n \<Longrightarrow> pool_inv n p"
proof -
  have "sum_list (map running (replicate n Checking)) = {#}" by (induction n) simp_all
  then show "p = ThreadPool_new n \<and> 0 < n \<Longrightarrow> pool_inv n p"
    by (auto simp: ThreadPool_new_def pool_inv_def in_progress_def)
qed

interpretation thread_pool: invariant_system "\<lambda>p. p = ThreadPool_new n \<and> 0 < n" pool_step "pool_inv n" for n
  by unfold_locales (auto intro: pool_inv_init pool_inv_step)

section \<open>Properties\<close>

text \<open>
  C22. The pool runs the tasks in the order they were enqueued, each at most once, and \<open>join\<close> returns only when
  all of them are done: in every reachable state of a pool with a worker, the tasks that were started, followed
  by those in the queue, are the enqueued ones in their order; those done are among the started ones; and when
  the destructor has joined the workers every enqueued task is done.
\<close>

theorem pool_runs_every_task:
  assumes "0 < n" "pool_step\<^sup>*\<^sup>* (ThreadPool_new n) p"
  shows "pl_enqueued p = pl_started p @ pl_tasks p \<and> mset (pl_done p) \<subseteq># mset (pl_started p) \<and>
    (joined p \<longrightarrow> mset (pl_done p) = mset (pl_enqueued p))"
proof -
  have inv: "pool_inv n p" using thread_pool.inv_reachable [of "ThreadPool_new n" n p] assms by simp
  have "in_progress p = {#} \<and> pl_tasks p = []" if "joined p"
  proof -
    have "pl_workers p \<noteq> []" "\<forall>w \<in> set (pl_workers p). w = Exited" using inv that by (auto simp: pool_inv_def joined_def)
    moreover have "\<forall>w \<in> set ws. w = Exited \<Longrightarrow> sum_list (map running ws) = {#}" for ws by (induction ws) auto
    ultimately show ?thesis using inv by (cases "pl_workers p") (auto simp: pool_inv_def in_progress_def)
  qed
  then show ?thesis using inv by (auto simp: pool_inv_def)
qed

text \<open>What is left to do before the destructor returns.\<close>

fun worker_measure :: "worker \<Rightarrow> nat" where
  "worker_measure Exited = 0"
| "worker_measure Checking = 1"
| "worker_measure (Running _) = 2"
| "worker_measure Blocked = 2"

definition drain_measure :: "pool \<Rightarrow> nat" where
  "drain_measure p = 2 * length (pl_tasks p) + sum_list (map worker_measure (pl_workers p)) + pl_pending p"

lemma worker_measure_update:
  assumes "i < length ws"
  shows "sum_list (map worker_measure (ws[i := w])) + worker_measure (ws ! i) = sum_list (map worker_measure ws) + worker_measure w"
  using assms
proof (induction ws arbitrary: i)
  case (Cons v ws)
  then show ?case by (cases i) simp_all
qed simp

lemma drain_step:
  assumes inv: "pool_inv n p" and stop: "pl_notified p" and step: "pool_step p q"
  shows "drain_measure q < drain_measure p"
  using step
proof (cases rule: pool_step.cases)
  case (Check i)
  then show ?thesis
    using inv stop worker_measure_update [of i "pl_workers p" Exited] worker_measure_update [of i "pl_workers p" "Running (hd (pl_tasks p))"]
    by (cases "pl_tasks p") (auto simp: worker_check_def drain_measure_def pool_inv_def)
next
  case (Finish i task)
  then show ?thesis
    using worker_measure_update [of i "pl_workers p" Checking] by (simp add: worker_finish_def drain_measure_def)
next
  case (Notify_one i)
  then have "Blocked \<in> set (pl_workers p)" by (metis nth_mem)
  then show ?thesis using inv stop by (simp add: pool_inv_def)
next
  case Notify_none
  then show ?thesis by (simp add: drain_measure_def)
qed (use inv stop in \<open>auto simp: enqueue_def pool_inv_def\<close>)

lemma drain_progress:
  assumes inv: "pool_inv n p" and stop: "pl_notified p" and stuck: "\<nexists>q. pool_step p q"
  shows "joined p"
proof -
  have "w = Exited" if w: "w \<in> set (pl_workers p)" for w
  proof (cases w)
    case Checking
    then obtain i where "i < length (pl_workers p)" "pl_workers p ! i = Checking" using w by (auto simp: in_set_conv_nth)
    then have "pool_step p (worker_check i p)" by (rule pool_step.Check)
    then show ?thesis using stuck by blast
  next
    case Blocked
    then show ?thesis using w inv stop by (simp add: pool_inv_def)
  next
    case (Running task)
    then obtain i where "i < length (pl_workers p)" "pl_workers p ! i = Running task" using w by (auto simp: in_set_conv_nth)
    then have "pool_step p (worker_finish i task p)" by (rule pool_step.Finish)
    then show ?thesis using stuck by blast
  qed
  then show ?thesis using inv stop by (auto simp: joined_def pool_inv_def)
qed

text \<open>
  C23. No task is forgotten and the destructor ends: in a reachable state with tasks in the queue, a worker is about to
  take one, busy, or about to be notified; after the destructor has notified the workers, every step decreases
  a measure, and as long as not all workers have left, some step is possible. So \<open>join\<close> returns.
\<close>

theorem pool_join_returns:
  assumes "0 < n" "pool_step\<^sup>*\<^sup>* (ThreadPool_new n) p"
  shows "(pl_tasks p \<noteq> [] \<longrightarrow> pl_notified p \<or> 0 < pl_pending p \<or> (\<exists>w \<in> set (pl_workers p). w \<noteq> Blocked)) \<and>
    (pl_notified p \<longrightarrow> (\<forall>q. pool_step p q \<longrightarrow> drain_measure q < drain_measure p) \<and> (joined p \<or> (\<exists>q. pool_step p q)))"
proof -
  have inv: "pool_inv n p" using thread_pool.inv_reachable [of "ThreadPool_new n" n p] assms by simp
  then show ?thesis using drain_step [OF inv] drain_progress [OF inv] unfolding pool_inv_def by blast
qed

text \<open>One worker and one task: enqueued, taken, the pool stopped, the task done, the worker gone.\<close>

definition sample_pool :: "nat list \<Rightarrow> bool \<Rightarrow> bool \<Rightarrow> worker \<Rightarrow> nat list \<Rightarrow> nat list \<Rightarrow> pool" where
  "sample_pool tasks stop notified w started finished = \<lparr>pl_tasks = tasks, pl_stop = stop, pl_notified = notified, pl_pending = 1,
     pl_workers = [w], pl_enqueued = [7], pl_started = started, pl_done = finished\<rparr>"

lemma sample_run:
  "pool_step\<^sup>*\<^sup>* (ThreadPool_new 1) (sample_pool [] True True (Running 7) [7] [])"
  "pool_step\<^sup>*\<^sup>* (ThreadPool_new 1) (sample_pool [] True True Exited [7] [7])"
proof -
  have "pool_step (ThreadPool_new 1) (sample_pool [7] False False Checking [] [])"
    by (rule pool_step.Enqueue [of 7]) (simp add: enqueue_def ThreadPool_new_def sample_pool_def)
  moreover have "pool_step (sample_pool [7] False False Checking [] []) (sample_pool [] False False (Running 7) [7] [])"
    using pool_step.Check [of 0 "sample_pool [7] False False Checking [] []"] by (simp add: worker_check_def sample_pool_def)
  moreover have "pool_step (sample_pool [] False False (Running 7) [7] []) (sample_pool [] True False (Running 7) [7] [])"
    using pool_step.Stop [of "sample_pool [] False False (Running 7) [7] []"] by (simp add: sample_pool_def)
  moreover have "pool_step (sample_pool [] True False (Running 7) [7] []) (sample_pool [] True True (Running 7) [7] [])"
    using pool_step.Notify_all [of "sample_pool [] True False (Running 7) [7] []"] by (simp add: sample_pool_def)
  ultimately show run: "pool_step\<^sup>*\<^sup>* (ThreadPool_new 1) (sample_pool [] True True (Running 7) [7] [])"
    by (meson converse_rtranclp_into_rtranclp rtranclp.rtrancl_refl)
  have "pool_step (sample_pool [] True True (Running 7) [7] []) (sample_pool [] True True Checking [7] [7])"
    using pool_step.Finish [of 0 "sample_pool [] True True (Running 7) [7] []"] by (simp add: worker_finish_def sample_pool_def)
  moreover have "pool_step (sample_pool [] True True Checking [7] [7]) (sample_pool [] True True Exited [7] [7])"
    using pool_step.Check [of 0 "sample_pool [] True True Checking [7] [7]"] by (simp add: worker_check_def sample_pool_def)
  ultimately show "pool_step\<^sup>*\<^sup>* (ThreadPool_new 1) (sample_pool [] True True Exited [7] [7])"
    using run by (meson rtranclp.rtrancl_into_rtrancl)
qed

theorem pool_runs_every_task_witness:
  "joined (sample_pool [] True True Exited [7] [7]) \<and>
   mset (pl_done (sample_pool [] True True Exited [7] [7])) = mset (pl_enqueued (sample_pool [] True True Exited [7] [7]))"
proof -
  have "joined (sample_pool [] True True Exited [7] [7])" by (simp add: joined_def sample_pool_def)
  then show ?thesis using pool_runs_every_task [OF _ sample_run(2)] by simp
qed

theorem pool_join_returns_witness: "\<exists>q. pool_step (sample_pool [] True True (Running 7) [7] []) q"
  using pool_join_returns [OF _ sample_run(1)] by (auto simp: joined_def sample_pool_def)

end
