(* ===== verification/Semaphores.thy ===== *)
theory Semaphores
  imports Fpga
begin

text \<open>
  The three named semaphores that every process using the card shares (\<open>KernelInit\<close> and \<open>KernelRun\<close> in
  mvp_fpga_lib.h): \<open>mvp_fpga\<close> guards the registers, \<open>mvp_fpga_buffer\<close> admits two runs at a time, and
  \<open>mvp_fpga_index\<close> is tried to pick the input slot. The two functions are step relations over the counters
  and the program counters of the processes, interleaved in any order. What a process does between two
  semaphore operations is in theory \<open>Fpga\<close>.
\<close>

section \<open>Semaphore operations of a process\<close>

record semaphores =
  sem_fpga :: nat
  sem_buffer :: nat
  sem_index :: nat
  leaked :: nat

text \<open>
  The last field is not in the code: it counts the returns of \<open>KernelInit\<close> that keep \<open>mvp_fpga\<close>. The initial
  values are the ones given to \<open>sem_open\<close>.
\<close>

definition sems_open :: semaphores where
  "sems_open = \<lparr>sem_fpga = 1, sem_buffer = 2, sem_index = 1, leaked = 0\<rparr>"

text \<open>
  Where a process stands: outside, in \<open>KernelInit\<close> with the registers, in \<open>KernelRun\<close> before the choice of
  the slot, uploading into a slot, running the kernel, reading the result back, and between the post of the
  buffer semaphore and the post of the slot semaphore.
\<close>

datatype pc = Outside | Init_regs | Choose_slot | Upload nat | Run_regs nat | Read_back nat | Post_index

inductive move :: "pc \<Rightarrow> semaphores \<Rightarrow> pc \<Rightarrow> semaphores \<Rightarrow> bool" where
  init_wait: "0 < sem_fpga s \<Longrightarrow> move Outside s Init_regs (s\<lparr>sem_fpga := sem_fpga s - 1\<rparr>)"
| init_post: "move Init_regs s Outside (s\<lparr>sem_fpga := sem_fpga s + 1\<rparr>)"
| init_no_device: "move Init_regs s Outside (s\<lparr>leaked := leaked s + 1\<rparr>)"
| buffer_wait: "0 < sem_buffer s \<Longrightarrow> move Outside s Choose_slot (s\<lparr>sem_buffer := sem_buffer s - 1\<rparr>)"
| index_taken: "0 < sem_index s \<Longrightarrow> move Choose_slot s (Upload 0) (s\<lparr>sem_index := sem_index s - 1\<rparr>)"
| index_busy: "sem_index s = 0 \<Longrightarrow> move Choose_slot s (Upload 1) s"
| run_wait: "0 < sem_fpga s \<Longrightarrow> move (Upload b) s (Run_regs b) (s\<lparr>sem_fpga := sem_fpga s - 1\<rparr>)"
| run_post: "move (Run_regs b) s (Read_back b) (s\<lparr>sem_fpga := sem_fpga s + 1\<rparr>)"
| buffer_post: "move (Read_back b) s (if b = 0 then Post_index else Outside) (s\<lparr>sem_buffer := sem_buffer s + 1\<rparr>)"
| index_post: "move Post_index s Outside (s\<lparr>sem_index := sem_index s + 1\<rparr>)"

code_pred (modes: i \<Rightarrow> i \<Rightarrow> o \<Rightarrow> o \<Rightarrow> bool, i \<Rightarrow> i \<Rightarrow> i \<Rightarrow> i \<Rightarrow> bool) move .

inductive_simps move_simps:
  "move Outside s q t" "move Init_regs s q t" "move Choose_slot s q t" "move (Upload b) s q t"
  "move (Run_regs b) s q t" "move (Read_back b) s q t" "move Post_index s q t"

section \<open>The processes together\<close>

record fpga_system =
  sems :: semaphores
  procs :: "pc list"

definition sys_init :: "fpga_system \<Rightarrow> bool" where
  "sys_init S \<longleftrightarrow> sems S = sems_open \<and> list_all (\<lambda>p. p = Outside) (procs S)"

inductive sys_step :: "fpga_system \<Rightarrow> fpga_system \<Rightarrow> bool" where
  sys_move: "i < length (procs S) \<Longrightarrow> move (procs S ! i) (sems S) q t
    \<Longrightarrow> sys_step S \<lparr>sems = t, procs = (procs S)[i := q]\<rparr>"

inductive_cases sys_stepE: "sys_step S T"

section \<open>Counting the processes\<close>

definition how_many :: "(pc \<Rightarrow> bool) \<Rightarrow> fpga_system \<Rightarrow> nat" where
  "how_many P S = length (filter P (procs S))"

definition at_registers :: "pc \<Rightarrow> bool" where
  "at_registers p \<longleftrightarrow> p = Init_regs \<or> (\<exists>b. p = Run_regs b)"

definition in_slot :: "nat \<Rightarrow> pc \<Rightarrow> bool" where
  "in_slot b p \<longleftrightarrow> p = Upload b \<or> p = Run_regs b \<or> p = Read_back b"

definition in_buffer :: "pc \<Rightarrow> bool" where
  "in_buffer p \<longleftrightarrow> p = Choose_slot \<or> (\<exists>b. in_slot b p)"

lemmas pc_defs = at_registers_def in_slot_def in_buffer_def

lemma length_filter_update:
  "i < length xs \<Longrightarrow>
     length (filter P (xs[i := y])) + of_bool (P (xs ! i)) = length (filter P xs) + of_bool (P y)"
proof (induction xs arbitrary: i)
  case (Cons x xs)
  then show ?case by (cases i) (force split: if_splits)+
qed simp

lemma how_many_update:
  "i < length (procs S) \<Longrightarrow>
     how_many P \<lparr>sems = t, procs = (procs S)[i := q]\<rparr> + of_bool (P (procs S ! i)) = how_many P S + of_bool (P q)"
  by (simp add: how_many_def length_filter_update)

lemma how_many_pos: "i < length (procs S) \<Longrightarrow> P (procs S ! i) \<Longrightarrow> 0 < how_many P S"
  by (auto simp: how_many_def filter_empty_conv)

lemma how_many_posD: "0 < how_many P S \<Longrightarrow> \<exists>i < length (procs S). P (procs S ! i)"
  by (auto simp: how_many_def filter_empty_conv in_set_conv_nth)

lemma move_counts:
  assumes "move p s q t"
  shows "sem_fpga t + leaked t + of_bool (at_registers q) = sem_fpga s + leaked s + of_bool (at_registers p)"
    and "sem_buffer t + of_bool (in_buffer q) = sem_buffer s + of_bool (in_buffer p)"
    and "sem_index t + of_bool (in_slot 0 q \<or> q = Post_index) = sem_index s + of_bool (in_slot 0 p \<or> p = Post_index)"
    and "\<forall>b. in_slot b p \<longrightarrow> b < 2 \<Longrightarrow> \<forall>b. in_slot b q \<longrightarrow> b < 2"
  using assms by (cases p; auto simp: move_simps pc_defs split: if_splits)+

section \<open>The invariant\<close>

text \<open>Each counter and the processes that hold it add up to the value it was opened with.\<close>

definition sems_inv :: "fpga_system \<Rightarrow> bool" where
  "sems_inv S \<longleftrightarrow>
     sem_fpga (sems S) + how_many at_registers S + leaked (sems S) = 1 \<and>
     sem_buffer (sems S) + how_many in_buffer S = 2 \<and>
     sem_index (sems S) + how_many (\<lambda>p. in_slot 0 p \<or> p = Post_index) S = 1 \<and>
     (\<forall>p \<in> set (procs S). \<forall>b. in_slot b p \<longrightarrow> b < 2)"

lemma sems_inv_init: "sys_init S \<Longrightarrow> sems_inv S"
proof -
  assume init: "sys_init S"
  then have none: "how_many P S = 0" if "\<not> P Outside" for P
    using that by (auto simp: how_many_def sys_init_def list_all_iff filter_empty_conv)
  have "procs S ! i = Outside" if "i < length (procs S)" for i
    using init that by (simp add: sys_init_def list_all_length)
  then show ?thesis
    using init none [of at_registers] none [of in_buffer] none [of "\<lambda>p. in_slot 0 p \<or> p = Post_index"]
    by (auto simp: sems_inv_def sems_open_def sys_init_def pc_defs list_all_iff)
qed

lemma sems_inv_step: "sems_inv S \<Longrightarrow> sys_step S T \<Longrightarrow> sems_inv T"
proof (elim sys_stepE)
  fix i q t
  assume inv: "sems_inv S" and T: "T = \<lparr>sems = t, procs = (procs S)[i := q]\<rparr>"
    and i: "i < length (procs S)" and m: "move (procs S ! i) (sems S) q t"
  note upd = how_many_update [OF i, of at_registers t q] how_many_update [OF i, of in_buffer t q]
    how_many_update [OF i, of "\<lambda>p. in_slot 0 p \<or> p = Post_index" t q]
  have slots: "\<forall>b. in_slot b (procs S ! i) \<longrightarrow> b < 2"
    using inv nth_mem [OF i] unfolding sems_inv_def by blast
  have "\<forall>b. in_slot b q \<longrightarrow> b < 2"
    using move_counts(4) [OF m slots] .
  moreover have "set (procs T) \<subseteq> insert q (set (procs S))"
    by (simp add: T set_update_subset_insert)
  ultimately have "\<forall>p \<in> set (procs T). \<forall>b. in_slot b p \<longrightarrow> b < 2"
    using inv by (auto simp: sems_inv_def)
  moreover have "sem_fpga t + how_many at_registers T + leaked t = 1"
    using move_counts(1) [OF m] upd(1) inv by (simp add: sems_inv_def T)
  moreover have "sem_buffer t + how_many in_buffer T = 2"
    using move_counts(2) [OF m] upd(2) inv by (simp add: sems_inv_def T)
  moreover have "sem_index t + how_many (\<lambda>p. in_slot 0 p \<or> p = Post_index) T = 1"
    using move_counts(3) [OF m] upd(3) inv by (simp add: sems_inv_def T)
  ultimately show ?thesis by (simp add: sems_inv_def T)
qed

interpretation fpga_sems: invariant_system sys_init sys_step sems_inv
  by unfold_locales (fact sems_inv_init, fact sems_inv_step)

lemma sys_invs:
  assumes "sys_init S" "sys_step\<^sup>*\<^sup>* S T"
  shows "sem_fpga (sems T) + how_many at_registers T + leaked (sems T) = 1"
    and "sem_buffer (sems T) + how_many in_buffer T = 2"
    and "sem_index (sems T) + how_many (\<lambda>p. in_slot 0 p \<or> p = Post_index) T = 1"
    and "i < length (procs T) \<Longrightarrow> in_slot b (procs T ! i) \<Longrightarrow> b < 2"
  using fpga_sems.inv_reachable [OF assms] nth_mem [of i "procs T"] unfolding sems_inv_def by blast+

lemma how_many_mono: "(\<And>p. P p \<Longrightarrow> Q p) \<Longrightarrow> how_many P S \<le> how_many Q S"
proof -
  assume "\<And>p. P p \<Longrightarrow> Q p"
  then have "filter P (procs S) = filter P (filter Q (procs S))" by (auto intro: filter_cong)
  then show ?thesis unfolding how_many_def by (metis length_filter_le)
qed

text \<open>
  C12. Mutual exclusion at the card, for any number of processes and any interleaving: at most one process
  drives the registers, at most two runs are between upload and read-back, and at most one of them uses
  slot 0, whose addresses are the second ones of the register file.
\<close>

theorem fpga_mutual_exclusion:
  assumes "sys_init S" "sys_step\<^sup>*\<^sup>* S T"
  shows "how_many at_registers T \<le> 1 \<and> how_many in_buffer T \<le> 2 \<and> how_many (in_slot 0) T \<le> 1"
proof -
  have "how_many (in_slot 0) T \<le> how_many (\<lambda>p. in_slot 0 p \<or> p = Post_index) T"
    by (rule how_many_mono) simp
  with sys_invs [OF assms] show ?thesis by linarith
qed

definition three_processes :: fpga_system where
  "three_processes = \<lparr>sems = sems_open, procs = [Outside, Outside, Outside]\<rparr>"

lemma sys_init_three: "sys_init three_processes"
  by (simp add: sys_init_def three_processes_def)

lemma run_moves:
  "sys_step\<^sup>*\<^sup>* S \<lparr>sems = s, procs = ps\<rparr> \<Longrightarrow> i < length ps \<Longrightarrow> move (ps ! i) s q t
    \<Longrightarrow> ps' = ps[i := q] \<Longrightarrow> sys_step\<^sup>*\<^sup>* S \<lparr>sems = t, procs = ps'\<rparr>"
  using sys_move [of i "\<lparr>sems = s, procs = ps\<rparr>" q t] by (auto intro: rtranclp.rtrancl_into_rtrancl)

theorem fpga_mutual_exclusion_witness:
  "\<exists>T. sys_step\<^sup>*\<^sup>* three_processes T \<and> procs T = [Run_regs 0, Upload 1, Outside] \<and>
     how_many at_registers T = 1 \<and> how_many in_buffer T = 2 \<and> how_many (in_slot 0) T = 1 \<and>
     how_many at_registers T \<le> 1 \<and> how_many in_buffer T \<le> 2 \<and> how_many (in_slot 0) T \<le> 1"
proof -
  let ?S = "\<lambda>f b i ps. \<lparr>sems = \<lparr>sem_fpga = f, sem_buffer = b, sem_index = i, leaked = 0\<rparr>, procs = ps\<rparr>"
  have "sys_step\<^sup>*\<^sup>* three_processes (?S 1 2 1 [Outside, Outside, Outside])"
    by (simp add: three_processes_def sems_open_def)
  then have "sys_step\<^sup>*\<^sup>* three_processes (?S 1 1 1 [Choose_slot, Outside, Outside])"
    by (rule run_moves [where i = 0 and q = "Choose_slot"]) (simp_all add: move_simps)
  then have "sys_step\<^sup>*\<^sup>* three_processes (?S 1 1 0 [Upload 0, Outside, Outside])"
    by (rule run_moves [where i = 0 and q = "Upload 0"]) (simp_all add: move_simps)
  then have "sys_step\<^sup>*\<^sup>* three_processes (?S 1 0 0 [Upload 0, Choose_slot, Outside])"
    by (rule run_moves [where i = 1 and q = "Choose_slot"]) (simp_all add: move_simps)
  then have "sys_step\<^sup>*\<^sup>* three_processes (?S 1 0 0 [Upload 0, Upload 1, Outside])"
    by (rule run_moves [where i = 1 and q = "Upload 1"]) (simp_all add: move_simps)
  then have run: "sys_step\<^sup>*\<^sup>* three_processes (?S 0 0 0 [Run_regs 0, Upload 1, Outside])" (is "sys_step\<^sup>*\<^sup>* _ ?T")
    by (rule run_moves [where i = 0 and q = "Run_regs 0"]) (simp_all add: move_simps)
  have "how_many at_registers ?T = 1" "how_many in_buffer ?T = 2" "how_many (in_slot 0) ?T = 1"
    by (simp_all add: how_many_def pc_defs)
  with run fpga_mutual_exclusion [OF sys_init_three run] show ?thesis by (intro exI [of _ ?T]) simp
qed

section \<open>The second slot\<close>

text \<open>
  Slot 1 is not exclusive. \<open>KernelRun\<close> posts the buffer semaphore before the slot semaphore, and two
  processes that enter in between both find the slot taken and both choose slot 1: a state is reachable
  where both upload their operands to the same addresses.
\<close>

theorem slot_1_shared:
  "\<exists>T. sys_step\<^sup>*\<^sup>* three_processes T \<and> procs T = [Post_index, Upload 1, Upload 1] \<and>
     slot_addresses 1 = (FIRST_INPUT_DATA_DEV_BASE_ADDR, FIRST_OUTPUT_DATA_DEV_BASE_ADDR)"
proof -
  let ?S = "\<lambda>f b i ps. \<lparr>sems = \<lparr>sem_fpga = f, sem_buffer = b, sem_index = i, leaked = 0\<rparr>, procs = ps\<rparr>"
  have "sys_step\<^sup>*\<^sup>* three_processes (?S 1 2 1 [Outside, Outside, Outside])"
    by (simp add: three_processes_def sems_open_def)
  then have "sys_step\<^sup>*\<^sup>* three_processes (?S 1 1 1 [Choose_slot, Outside, Outside])"
    by (rule run_moves [where i = 0 and q = "Choose_slot"]) (simp_all add: move_simps)
  then have "sys_step\<^sup>*\<^sup>* three_processes (?S 1 1 0 [Upload 0, Outside, Outside])"
    by (rule run_moves [where i = 0 and q = "Upload 0"]) (simp_all add: move_simps)
  then have "sys_step\<^sup>*\<^sup>* three_processes (?S 0 1 0 [Run_regs 0, Outside, Outside])"
    by (rule run_moves [where i = 0 and q = "Run_regs 0"]) (simp_all add: move_simps)
  then have "sys_step\<^sup>*\<^sup>* three_processes (?S 1 1 0 [Read_back 0, Outside, Outside])"
    by (rule run_moves [where i = 0 and q = "Read_back 0"]) (simp_all add: move_simps)
  then have "sys_step\<^sup>*\<^sup>* three_processes (?S 1 0 0 [Read_back 0, Choose_slot, Outside])"
    by (rule run_moves [where i = 1 and q = "Choose_slot"]) (simp_all add: move_simps)
  then have "sys_step\<^sup>*\<^sup>* three_processes (?S 1 0 0 [Read_back 0, Upload 1, Outside])"
    by (rule run_moves [where i = 1 and q = "Upload 1"]) (simp_all add: move_simps)
  then have "sys_step\<^sup>*\<^sup>* three_processes (?S 1 1 0 [Post_index, Upload 1, Outside])"
    by (rule run_moves [where i = 0 and q = "Post_index"]) (simp_all add: move_simps)
  then have "sys_step\<^sup>*\<^sup>* three_processes (?S 1 0 0 [Post_index, Upload 1, Choose_slot])"
    by (rule run_moves [where i = 2 and q = "Choose_slot"]) (simp_all add: move_simps)
  then have "sys_step\<^sup>*\<^sup>* three_processes (?S 1 0 0 [Post_index, Upload 1, Upload 1])"
    by (rule run_moves [where i = 2 and q = "Upload 1"]) (simp_all add: move_simps)
  then show ?thesis by (auto simp: slot_addresses_def)
qed

section \<open>Progress and the leaked semaphore\<close>

lemma leaked_step: "sys_step S T \<Longrightarrow> leaked (sems S) \<le> leaked (sems T)"
  by (elim sys_stepE move.cases) simp_all

lemma leaked_mono: "sys_step\<^sup>*\<^sup>* S T \<Longrightarrow> leaked (sems S) \<le> leaked (sems T)"
  by (induction rule: rtranclp_induct) (auto intro: le_trans leaked_step)

text \<open>
  C36. \<open>KernelInit\<close> returns -1 without posting \<open>mvp_fpga\<close> when no device is found. From then on the semaphore
  stays at zero: in every later state, of every process, no key is loaded and no kernel runs.
\<close>

theorem leak_blocks_card:
  assumes "sys_init S" "sys_step\<^sup>*\<^sup>* S T" "0 < leaked (sems T)" "sys_step\<^sup>*\<^sup>* T U"
  shows "how_many at_registers U = 0 \<and> sem_fpga (sems U) = 0"
proof -
  have "sys_step\<^sup>*\<^sup>* S U" using assms(2,4) by simp
  then show ?thesis using sys_invs(1) [OF assms(1)] leaked_mono [OF assms(4)] assms(3) by fastforce
qed

theorem leak_blocks_card_witness:
  "\<exists>T. sys_step\<^sup>*\<^sup>* three_processes T \<and> procs T = procs three_processes \<and> (\<forall>U. sys_step\<^sup>*\<^sup>* T U \<longrightarrow> sem_fpga (sems U) = 0)"
proof -
  let ?S = "\<lambda>f l ps. \<lparr>sems = \<lparr>sem_fpga = f, sem_buffer = 2, sem_index = 1, leaked = l\<rparr>, procs = ps\<rparr>"
  have "sys_step\<^sup>*\<^sup>* three_processes (?S 1 0 [Outside, Outside, Outside])"
    by (simp add: three_processes_def sems_open_def)
  then have "sys_step\<^sup>*\<^sup>* three_processes (?S 0 0 [Init_regs, Outside, Outside])"
    by (rule run_moves [where i = 0 and q = Init_regs]) (simp_all add: move_simps)
  then have T: "sys_step\<^sup>*\<^sup>* three_processes (?S 0 1 [Outside, Outside, Outside])"
    by (rule run_moves [where i = 0 and q = Outside]) (simp_all add: move_simps)
  then have "sem_fpga (sems U) = 0" if "sys_step\<^sup>*\<^sup>* (?S 0 1 [Outside, Outside, Outside]) U" for U
    using leak_blocks_card [OF sys_init_three T _ that] by simp
  with T show ?thesis by (auto simp: three_processes_def)
qed

fun steps_left :: "pc \<Rightarrow> nat" where
  "steps_left Outside = 0"
| "steps_left Init_regs = 1"
| "steps_left Choose_slot = 5"
| "steps_left (Upload _) = 4"
| "steps_left (Run_regs _) = 3"
| "steps_left (Read_back _) = 2"
| "steps_left Post_index = 1"

lemma some_move:
  assumes "p \<noteq> Outside" "at_registers p \<or> 0 < sem_fpga s"
  shows "\<exists>q t. move p s q t \<and> leaked t = leaked s \<and> steps_left q < steps_left p"
proof (cases p)
  case Choose_slot
  then show ?thesis by (cases "sem_index s = 0") (auto simp: move_simps intro: exI [of _ "Upload 0"] exI [of _ "Upload 1"])
next
  case Init_regs
  then show ?thesis by (intro exI [of _ Outside] exI [of _ "s\<lparr>sem_fpga := sem_fpga s + 1\<rparr>"]) (simp add: move_simps)
qed (use assms in \<open>auto simp: move_simps pc_defs\<close>)

lemma sum_list_update_less:
  fixes xs :: "nat list"
  shows "i < length xs \<Longrightarrow> y < xs ! i \<Longrightarrow> sum_list (xs[i := y]) < sum_list xs"
proof (induction xs arbitrary: i)
  case (Cons x xs)
  then show ?case by (cases i) auto
qed simp

lemma quiescent_init:
  assumes "sems_inv T" "leaked (sems T) = 0" "\<forall>p \<in> set (procs T). p = Outside"
  shows "sys_init T"
proof -
  have "how_many P T = 0" if "\<not> P Outside" for P
    using that assms(3) by (auto simp: how_many_def filter_empty_conv)
  then have "sems T = sems_open"
    using assms(1,2) by (cases "sems T") (simp add: sems_inv_def sems_open_def pc_defs)
  then show ?thesis using assms(3) by (simp add: sys_init_def list_all_iff)
qed

text \<open>
  No deadlock while no semaphore is leaked: from every reachable state the processes inside can finish, in
  some order, and leave the semaphores at the values they were opened with.
\<close>

theorem fpga_can_finish:
  assumes "sys_init S" "sys_step\<^sup>*\<^sup>* S T" "leaked (sems T) = 0"
  shows "\<exists>U. sys_step\<^sup>*\<^sup>* T U \<and> sys_init U \<and> length (procs U) = length (procs T)"
  using fpga_sems.inv_reachable [OF assms(1,2)] assms(3)
proof (induction "sum_list (map steps_left (procs T))" arbitrary: T rule: less_induct)
  case less
  show ?case
  proof (cases "\<forall>p \<in> set (procs T). p = Outside")
    case True
    then show ?thesis using quiescent_init [OF less.prems] by blast
  next
    case False
    have "\<exists>i < length (procs T). procs T ! i \<noteq> Outside \<and> (at_registers (procs T ! i) \<or> 0 < sem_fpga (sems T))"
    proof (cases "how_many at_registers T = 0")
      case True
      then have "0 < sem_fpga (sems T)" using less.prems by (simp add: sems_inv_def)
      then show ?thesis using False by (auto simp: in_set_conv_nth)
    next
      case False
      then show ?thesis using how_many_posD [of at_registers T] by (auto simp: pc_defs)
    qed
    then obtain i q t where i: "i < length (procs T)" and m: "move (procs T ! i) (sems T) q t"
      and l: "leaked t = leaked (sems T)" and dec: "steps_left q < steps_left (procs T ! i)"
      using some_move by blast
    let ?T = "\<lparr>sems = t, procs = (procs T)[i := q]\<rparr>"
    have st: "sys_step T ?T" using sys_move [OF i m] .
    have "sum_list (map steps_left (procs ?T)) < sum_list (map steps_left (procs T))"
      using i dec by (simp add: map_update sum_list_update_less)
    from less.hyps [OF this sems_inv_step [OF less.prems(1) st]] l less.prems(2)
    obtain U where "sys_step\<^sup>*\<^sup>* ?T U" "sys_init U" "length (procs U) = length (procs T)" by auto
    then show ?thesis using st by (meson converse_rtranclp_into_rtranclp)
  qed
qed

theorem fpga_can_finish_witness:
  "\<exists>T U. sys_step\<^sup>*\<^sup>* three_processes T \<and> procs T ! 0 = Init_regs \<and> sys_step\<^sup>*\<^sup>* T U \<and> sys_init U"
proof -
  let ?T = "\<lparr>sems = \<lparr>sem_fpga = 0, sem_buffer = 2, sem_index = 1, leaked = 0\<rparr>, procs = [Init_regs, Outside, Outside]\<rparr>"
  have "sys_step\<^sup>*\<^sup>* three_processes \<lparr>sems = sems_open, procs = [Outside, Outside, Outside]\<rparr>"
    by (simp add: three_processes_def)
  then have "sys_step\<^sup>*\<^sup>* three_processes ?T"
    unfolding sems_open_def by (rule run_moves [where i = 0 and q = Init_regs]) (simp_all add: move_simps)
  then show ?thesis using fpga_can_finish [OF sys_init_three, of ?T] by fastforce
qed

end
