(* ===== verification/Jobs.thy ===== *)
theory Jobs
  imports MatVec "HOL-Library.Multiset"
begin

text \<open>
  The threaded encoder of theory \<open>MatVec\<close>: steps of different jobs commute, because they write different cells
  of the shared array, so every schedule in which all jobs get to finish has the effect of the jobs run one
  after the other.
\<close>

section \<open>One cell touches one plaintext\<close>

definition cell_index :: "ecd_job \<Rightarrow> nat \<times> nat \<Rightarrow> nat" where
  "cell_index J cell = fst cell * ej_num_col_blks J + snd cell"

text \<open>What a cell does, from its own plaintext and the size of the array alone.\<close>

definition cell_effect ::
    "MVPPrivImpl \<Rightarrow> MatView \<Rightarrow> ecd_job \<Rightarrow> nat \<times> nat \<Rightarrow> u64 list \<Rightarrow> nat \<Rightarrow> rlwe_pt
      \<Rightarrow> unit outcome \<times> u64 list \<times> rlwe_pt option" where
  "cell_effect I mat J cell coeffs n old =
     (case encode_block mat (fst (ej_shape J)) (snd (ej_shape J))
             (bit_reversed_rows (sr_arith (priv_rt I)) (row_base (ej_num_row_blks J) (ej_nrows J) (fst cell))
               (ej_log2_nrows J) (fst (ej_shape J))) (snd cell) coeffs of
        Inl e \<Rightarrow> (Inl e, coeffs, None)
      | Inr coeffs \<Rightarrow>
          if n \<le> cell_index J cell then (Inl (Throws (Out_of_range ''vector::at'')), coeffs, None)
          else let (r, pt) = priv_Vec2Poly I coeffs old encode_weight (MVP_VERSION \<noteq> ''1.2.0'') in (r, coeffs, Some pt))"

definition put :: "nat \<Rightarrow> 'a option \<Rightarrow> 'a list \<Rightarrow> 'a list" where
  "put i x xs = (case x of None \<Rightarrow> xs | Some v \<Rightarrow> xs[i := v])"

lemma length_put [simp]: "length (put i x xs) = length xs"
  by (simp add: put_def split: option.split)

lemma nth_put: "i \<noteq> k \<Longrightarrow> put i x xs ! k = xs ! k"
  by (simp add: put_def split: option.split)

lemma put_swap: "i \<noteq> k \<Longrightarrow> put i x (put k y xs) = put k y (put i x xs)"
  by (simp add: put_def list_update_swap split: option.split)

lemma ecd_cell_effect:
  "ecd_cell I mat J cell (coeffs, pts) =
     (let (r, coeffs, pt) = cell_effect I mat J cell coeffs (length pts) (pts ! cell_index J cell)
      in (r, coeffs, put (cell_index J cell) pt pts))"
  by (cases cell; cases "ej_shape J")
    (simp add: ecd_cell_def cell_effect_def cell_index_def put_def Let_def split: sum.split prod.split)

section \<open>Steps of different jobs commute\<close>

definition apart :: "ecd_job \<Rightarrow> ecd_task list \<times> rlwe_pt list \<Rightarrow> bool" where
  "apart J st \<longleftrightarrow> (\<forall>j < length (fst st). \<forall>k < length (fst st). j \<noteq> k \<longrightarrow>
     (\<forall>c \<in> set (et_cells (fst st ! j)). \<forall>d \<in> set (et_cells (fst st ! k)). cell_index J c \<noteq> cell_index J d))"

definition turn :: "MVPPrivImpl \<Rightarrow> MatView \<Rightarrow> ecd_job \<Rightarrow> ecd_task \<Rightarrow> nat \<Rightarrow> rlwe_pt list \<Rightarrow> ecd_task \<times> rlwe_pt option" where
  "turn I mat J t i pts =
     (let (r, coeffs, pt) = cell_effect I mat J (hd (et_cells t)) (et_coeffs t) (length pts) (pts ! i)
      in (\<lparr>et_cells = (case r of Inl e \<Rightarrow> [] | Inr _ \<Rightarrow> tl (et_cells t)), et_coeffs = coeffs, et_status = r\<rparr>, pt))"

lemma task_step_turn:
  assumes "j < length tasks" "et_cells (tasks ! j) \<noteq> []" "i = cell_index J (hd (et_cells (tasks ! j)))"
  shows "task_step I mat J j (tasks, pts) =
     (tasks[j := fst (turn I mat J (tasks ! j) i pts)], put i (snd (turn I mat J (tasks ! j) i pts)) pts)"
proof -
  obtain cell cells where cells: "et_cells (tasks ! j) = cell # cells" using assms(2) by (cases "et_cells (tasks ! j)") auto
  then show ?thesis using assms(1,3)
    by (simp add: task_step_def turn_def ecd_cell_effect Let_def split_def cells cong: sum.case_cong)
qed

lemma task_step_idle: "length tasks \<le> j \<or> et_cells (tasks ! j) = [] \<Longrightarrow> task_step I mat J j (tasks, pts) = (tasks, pts)"
  by (auto simp: task_step_def)

lemma turn_other: "length ps = length pts \<Longrightarrow> ps ! i = pts ! i \<Longrightarrow> turn I mat J t i ps = turn I mat J t i pts"
  by (simp add: turn_def)

lemma turn_cells: "set (et_cells (fst (turn I mat J t i pts))) \<subseteq> set (et_cells t)"
  by (cases "et_cells t") (auto simp: turn_def Let_def split: prod.splits sum.splits)

lemma task_step_cells:
  "length (fst (task_step I mat J j st)) = length (fst st) \<and>
   (\<forall>k < length (fst st). set (et_cells (fst (task_step I mat J j st) ! k)) \<subseteq> set (et_cells (fst st ! k)))"
proof (cases "length (fst st) \<le> j \<or> et_cells (fst st ! j) = []")
  case True
  then show ?thesis by (cases st) (simp add: task_step_idle)
next
  case False
  then show ?thesis using turn_cells
    by (cases st) (auto simp: task_step_turn nth_list_update)
qed

lemma apart_step: "apart J st \<Longrightarrow> apart J (task_step I mat J j st)"
proof -
  assume st: "apart J st"
  have len: "length (fst (task_step I mat J j st)) = length (fst st)"
    and sub: "\<forall>k < length (fst st). set (et_cells (fst (task_step I mat J j st) ! k)) \<subseteq> set (et_cells (fst st ! k))"
    using task_step_cells by blast+
  show ?thesis unfolding apart_def len
  proof (intro allI impI ballI)
    fix a b c d
    assume a: "a < length (fst st)" "b < length (fst st)" "a \<noteq> b"
      and cd: "c \<in> set (et_cells (fst (task_step I mat J j st) ! a))" "d \<in> set (et_cells (fst (task_step I mat J j st) ! b))"
    have "c \<in> set (et_cells (fst st ! a))" "d \<in> set (et_cells (fst st ! b))" using sub a(1,2) cd by blast+
    then show "cell_index J c \<noteq> cell_index J d" using st a unfolding apart_def by blast
  qed
qed

lemma two_turns:
  fixes tasks pts and J :: ecd_job
  defines "i \<equiv> \<lambda>j. cell_index J (hd (et_cells (tasks ! j)))"
  assumes "j \<noteq> k" "j < length tasks" "et_cells (tasks ! j) \<noteq> []" "k < length tasks" "et_cells (tasks ! k) \<noteq> []" "i j \<noteq> i k"
  shows "task_step I mat J j (task_step I mat J k (tasks, pts)) =
    (tasks[k := fst (turn I mat J (tasks ! k) (i k) pts), j := fst (turn I mat J (tasks ! j) (i j) pts)],
     put (i j) (snd (turn I mat J (tasks ! j) (i j) pts)) (put (i k) (snd (turn I mat J (tasks ! k) (i k) pts)) pts))"
proof -
  let ?t = "fst (turn I mat J (tasks ! k) (i k) pts)" and ?p = "put (i k) (snd (turn I mat J (tasks ! k) (i k) pts)) pts"
  have "task_step I mat J k (tasks, pts) = (tasks[k := ?t], ?p)"
    using assms(5,6) unfolding i_def by (rule task_step_turn) (rule refl)
  moreover have "task_step I mat J j (tasks[k := ?t], ?p) =
      (tasks[k := ?t, j := fst (turn I mat J (tasks ! j) (i j) ?p)], put (i j) (snd (turn I mat J (tasks ! j) (i j) ?p)) ?p)"
    using task_step_turn [of j "tasks[k := ?t]" "i j" J I mat ?p] assms(2-4) by (simp add: i_def)
  moreover have "turn I mat J (tasks ! j) (i j) ?p = turn I mat J (tasks ! j) (i j) pts"
    using assms(7) by (intro turn_other) (simp_all add: nth_put)
  ultimately show ?thesis by (simp only:)
qed

lemma idle_commutes:
  assumes "length tasks \<le> j \<or> et_cells (tasks ! j) = []" "j \<noteq> k"
  shows "task_step I mat J j (task_step I mat J k (tasks, pts)) = task_step I mat J k (task_step I mat J j (tasks, pts))"
proof (cases "length tasks \<le> k \<or> et_cells (tasks ! k) = []")
  case False
  then have "task_step I mat J k (tasks, pts) = (tasks[k := fst (turn I mat J (tasks ! k) (cell_index J (hd (et_cells (tasks ! k)))) pts)],
      put (cell_index J (hd (et_cells (tasks ! k)))) (snd (turn I mat J (tasks ! k) (cell_index J (hd (et_cells (tasks ! k)))) pts)) pts)"
    by (intro task_step_turn) simp_all
  then show ?thesis using assms by (simp only: task_step_idle) (rule task_step_idle, simp)
qed (use assms in \<open>simp only: task_step_idle\<close>)

lemma task_step_commute:
  assumes "apart J st"
  shows "task_step I mat J j (task_step I mat J k st) = task_step I mat J k (task_step I mat J j st)"
proof (cases "j = k")
  case False
  obtain tasks pts where st: "st = (tasks, pts)" by (cases st)
  let ?idle = "\<lambda>j. length tasks \<le> j \<or> et_cells (tasks ! j) = []"
  show ?thesis
  proof (cases "?idle j \<or> ?idle k")
    case True
    then show ?thesis using idle_commutes [of tasks j k] idle_commutes [of tasks k j] False unfolding st by metis
  next
    case busy: False
    let ?i = "\<lambda>j. cell_index J (hd (et_cells (tasks ! j)))"
    have b: "j < length tasks" "et_cells (tasks ! j) \<noteq> []" "k < length tasks" "et_cells (tasks ! k) \<noteq> []"
      using busy by simp_all
    have "hd (et_cells (tasks ! j)) \<in> set (et_cells (tasks ! j))" "hd (et_cells (tasks ! k)) \<in> set (et_cells (tasks ! k))"
      using b by simp_all
    then have i: "?i j \<noteq> ?i k" using assms b(1,3) False unfolding apart_def st fst_conv by blast
    show ?thesis
      using two_turns [OF False b i] two_turns [OF False [symmetric] b(3,4,1,2) i [symmetric]]
      by (simp only: st put_swap [OF i] list_update_swap [OF False])
  qed
qed simp

section \<open>Every complete schedule\<close>

text \<open>The jobs one after the other, with all their statuses.\<close>

fun ecd_jobs :: "MVPPrivImpl \<Rightarrow> MatView \<Rightarrow> ecd_job \<Rightarrow> (nat \<times> nat) list \<Rightarrow> rlwe_pt list \<Rightarrow> unit outcome list \<times> rlwe_pt list" where
  "ecd_jobs I mat J [] pts = ([], pts)"
| "ecd_jobs I mat J (rng # rngs) pts =
     (let (r, pts) = ecd_program I mat J rng pts; (rs, pts) = ecd_jobs I mat J rngs pts in (r # rs, pts))"

lemma ecd_jobs_append:
  "ecd_jobs I mat J (xs @ ys) pts =
     (let (rs, pts) = ecd_jobs I mat J xs pts; (qs, pts) = ecd_jobs I mat J ys pts in (rs @ qs, pts))"
  by (induction xs arbitrary: pts) (simp_all add: Let_def split: prod.split)

lemma length_ecd_jobs: "length (fst (ecd_jobs I mat J rngs pts)) = length rngs"
  by (induction rngs arbitrary: pts) (simp_all add: Let_def split_def)

lemma ecd_serial_jobs:
  "\<forall>r \<in> set (fst (ecd_jobs I mat J rngs pts)). r = Inr () \<Longrightarrow>
    ecd_serial I mat J rngs pts = Inr (snd (ecd_jobs I mat J rngs pts))"
  by (induction rngs arbitrary: pts) (auto simp: Let_def drop_status_def split: prod.splits)

text \<open>Enough turns in a row finish a job.\<close>

lemma run_one_job:
  assumes "j < length tasks"
  shows "et_cells (tasks ! j) = cells \<Longrightarrow> et_status (tasks ! j) = Inr () \<Longrightarrow> length cells \<le> n \<Longrightarrow>
    \<exists>t. (task_step I mat J j ^^ n) (tasks, pts) = (tasks[j := t], snd (snd (ecd_cells I mat J cells (et_coeffs (tasks ! j), pts)))) \<and>
      et_cells t = [] \<and> et_status t = fst (ecd_cells I mat J cells (et_coeffs (tasks ! j), pts))"
  using assms
proof (induction n arbitrary: tasks pts cells)
  case 0
  then show ?case by (intro exI [of _ "tasks ! j"]) simp
next
  case (Suc n)
  have still: "(task_step I mat J j ^^ m) (ts, ps) = (ts, ps)" if "et_cells (ts ! j) = []" for m ts ps
    by (induction m) (simp_all add: that task_step_idle)
  show ?case
  proof (cases cells)
    case Nil
    then show ?thesis using Suc.prems still [of tasks "Suc n" pts]
      by (intro exI [of _ "tasks ! j"]) simp
  next
    case (Cons c cs)
    obtain r coeffs ps where cell: "ecd_cell I mat J c (et_coeffs (tasks ! j), pts) = (r, coeffs, ps)"
      by (metis prod_cases3)
    define t where "t = \<lparr>et_cells = (case r of Inl e \<Rightarrow> [] | Inr _ \<Rightarrow> cs), et_coeffs = coeffs, et_status = r\<rparr>"
    have step: "task_step I mat J j (tasks, pts) = (tasks[j := t], ps)"
      using Suc.prems Cons cell by (simp add: task_step_def t_def)
    have pow: "(task_step I mat J j ^^ Suc n) (tasks, pts) = (task_step I mat J j ^^ n) (tasks[j := t], ps)"
      by (simp add: funpow_Suc_right step del: funpow.simps)
    show ?thesis
    proof (cases r)
      case (Inl e)
      then show ?thesis using still [of "tasks[j := t]" n ps] Suc.prems(4) pow cell Cons
        by (intro exI [of _ t]) (simp add: t_def)
    next
      case (Inr u)
      have "\<exists>t'. (task_step I mat J j ^^ n) (tasks[j := t], ps)
          = (tasks[j := t, j := t'], snd (snd (ecd_cells I mat J cs (et_coeffs (tasks[j := t] ! j), ps)))) \<and>
          et_cells t' = [] \<and> et_status t' = fst (ecd_cells I mat J cs (et_coeffs (tasks[j := t] ! j), ps))"
        using Suc.prems Cons Inr by (intro Suc.IH) (simp_all add: t_def)
      then show ?thesis using Suc.prems(4) pow cell Cons Inr by (simp add: t_def)
    qed
  qed
qed

text \<open>Turns may be taken in any order: only how many each job gets matters.\<close>

lemma fold_turns:
  assumes "apart J st" "mset xs = mset ys"
  shows "fold (task_step I mat J) xs st = fold (task_step I mat J) ys st"
proof -
  define f where "f j st = (if apart J st then task_step I mat J j st else st)" for j st
  have plain: "apart J st \<Longrightarrow> fold f zs st = fold (task_step I mat J) zs st" for zs st
    by (induction zs arbitrary: st) (simp_all add: f_def apart_step)
  have "f x \<circ> f y = f y \<circ> f x" for x y
  proof
    fix st
    show "(f x \<circ> f y) st = (f y \<circ> f x) st"
      using task_step_commute [of J st I mat x y] by (simp add: f_def apart_step)
  qed
  then have "fold f xs = fold f ys" by (intro fold_multiset_equiv) (use assms(2) in auto)
  then show ?thesis using plain assms(1) by metis
qed

definition grouped :: "nat \<Rightarrow> nat list \<Rightarrow> nat list" where
  "grouped n xs = concat (map (\<lambda>j. replicate (count_list xs j) j) [0..<n])"

lemma count_grouped: "count_list (grouped n xs) j = (if j < n then count_list xs j else 0)"
proof (induction n)
  case (Suc n)
  have "count_list (replicate c n) j = (if j = n then c else 0)" for c by (induction c) auto
  then show ?case using Suc by (auto simp: grouped_def count_list_append)
qed (simp add: grouped_def)

lemma mset_grouped: "mset xs = mset (grouped n xs @ filter (\<lambda>j. n \<le> j) xs)"
proof (rule multiset_eqI)
  fix j
  have "count_list (filter (\<lambda>j. n \<le> j) xs) j = (if n \<le> j then count_list xs j else 0)"
    by (induction xs) auto
  then show "count (mset xs) j = count (mset (grouped n xs @ filter (\<lambda>j. n \<le> j) xs)) j"
    using count_grouped [of n xs j] by (simp flip: count_mset)
qed

lemma fold_same: "fold f (replicate n x) s = (f x ^^ n) s"
  by (induction n arbitrary: s) (simp_all add: funpow_swap1)

text \<open>The jobs that a list of ranges stands for.\<close>

lemma launch_nth:
  assumes "j < length rngs"
  shows "et_cells (launch_tasks I J rngs ! j) = job_cells (ej_num_col_blks J) (rngs ! j)"
    "et_status (launch_tasks I J rngs ! j) = Inr ()"
    "et_coeffs (launch_tasks I J rngs ! j) = replicate (priv_poly_degree I) 0"
  using assms by (simp_all add: launch_tasks_def)

lemma run_jobs:
  assumes turns: "\<forall>j < length rngs. length (job_cells (ej_num_col_blks J) (rngs ! j)) \<le> count_list sched j"
  shows "m \<le> length rngs \<Longrightarrow> \<exists>tasks. fold (task_step I mat J) (grouped m sched) (launch_tasks I J rngs, pts)
      = (tasks, snd (ecd_jobs I mat J (take m rngs) pts)) \<and> length tasks = length rngs \<and>
    (\<forall>j < m. et_cells (tasks ! j) = [] \<and> et_status (tasks ! j) = fst (ecd_jobs I mat J (take m rngs) pts) ! j) \<and>
    (\<forall>j. m \<le> j \<longrightarrow> tasks ! j = launch_tasks I J rngs ! j)"
proof (induction m)
  case 0
  then show ?case by (simp add: grouped_def launch_tasks_def)
next
  case (Suc m)
  then have m: "m < length rngs" by simp
  obtain tasks where t: "fold (task_step I mat J) (grouped m sched) (launch_tasks I J rngs, pts)
      = (tasks, snd (ecd_jobs I mat J (take m rngs) pts))" "length tasks = length rngs"
    "\<forall>j < m. et_cells (tasks ! j) = [] \<and> et_status (tasks ! j) = fst (ecd_jobs I mat J (take m rngs) pts) ! j"
    "\<forall>j. m \<le> j \<longrightarrow> tasks ! j = launch_tasks I J rngs ! j"
    using Suc by auto
  let ?ps = "snd (ecd_jobs I mat J (take m rngs) pts)" and ?cells = "job_cells (ej_num_col_blks J) (rngs ! m)"
  have job: "ecd_program I mat J (rngs ! m) ?ps = (fst (ecd_cells I mat J ?cells (et_coeffs (tasks ! m), ?ps)),
      snd (snd (ecd_cells I mat J ?cells (et_coeffs (tasks ! m), ?ps))))"
    using t(4) launch_nth(3) [OF m] by (simp add: ecd_program_def split_def Let_def)
  obtain t' where t': "(task_step I mat J m ^^ count_list sched m) (tasks, ?ps) = (tasks[m := t'], snd (ecd_program I mat J (rngs ! m) ?ps))"
      "et_cells t' = []" "et_status t' = fst (ecd_program I mat J (rngs ! m) ?ps)"
    using run_one_job [of m tasks ?cells "count_list sched m" I mat J ?ps] m t(2,4) launch_nth [OF m, of I J] turns
    unfolding job by auto
  have tk: "take (Suc m) rngs = take m rngs @ [rngs ! m]" using m by (simp add: take_Suc_conv_app_nth)
  have jobs: "ecd_jobs I mat J (take (Suc m) rngs) pts
      = (fst (ecd_jobs I mat J (take m rngs) pts) @ [fst (ecd_program I mat J (rngs ! m) ?ps)], snd (ecd_program I mat J (rngs ! m) ?ps))"
    unfolding tk ecd_jobs_append by (simp add: Let_def split_def)
  have len: "length (fst (ecd_jobs I mat J (take m rngs) pts)) = m" using m by (simp add: length_ecd_jobs)
  have "fold (task_step I mat J) (grouped (Suc m) sched) (launch_tasks I J rngs, pts) = (tasks[m := t'], snd (ecd_program I mat J (rngs ! m) ?ps))"
    using t(1) t'(1) by (simp add: grouped_def fold_same)
  then show ?case unfolding jobs using t(2-4) t'(2,3) m len
    by (intro exI [of _ "tasks[m := t']"]) (auto simp: nth_append nth_list_update less_Suc_eq)
qed

text \<open>Cells of different jobs have different places in the array.\<close>

lemma cell_index_inj:
  assumes "snd c < ej_num_col_blks J" "snd d < ej_num_col_blks J" "cell_index J c = cell_index J d"
  shows "c = d"
  using mixed_radix_inj [of "fst c" 1 "ej_num_col_blks J" 0 "snd c" "fst d" 0 "snd d"] assms
  by (simp add: cell_index_def prod_eq_iff)

lemma launch_apart: "apart J (launch_tasks I J (thread_ranges n t), pts)"
  unfolding apart_def fst_conv
proof (intro allI impI ballI)
  fix j k c d
  let ?l = "CeilDiv n t"
  assume jk: "j < length (launch_tasks I J (thread_ranges n t))" "k < length (launch_tasks I J (thread_ranges n t))" "j \<noteq> k"
    and c: "c \<in> set (et_cells (launch_tasks I J (thread_ranges n t) ! j))"
    and d: "d \<in> set (et_cells (launch_tasks I J (thread_ranges n t) ! k))"
  have jk': "j < length (thread_ranges n t)" "k < length (thread_ranges n t)" using jk by (simp_all add: launch_tasks_def)
  then have at: "thread_ranges n t ! i = (i * ?l, min (i * ?l + ?l) n)" if "i = j \<or> i = k" for i
    using that by (auto simp: thread_ranges_def Let_def)
  have cd: "fst c \<in> {j * ?l..<j * ?l + ?l}" "snd c < ej_num_col_blks J" "fst d \<in> {k * ?l..<k * ?l + ?l}" "snd d < ej_num_col_blks J"
    using c d launch_nth(1) [OF jk'(1), of I J] launch_nth(1) [OF jk'(2), of I J] at by (auto simp: job_cells_def)
  have "fst c div ?l = j" "fst d div ?l = k" using cd(1,3) by (auto intro!: div_nat_eqI simp: algebra_simps)
  then have "c \<noteq> d" using jk(3) by auto
  then show "cell_index J c \<noteq> cell_index J d" using cell_index_inj cd(2,4) by blast
qed

text \<open>
  C16. The threaded encoder of the matrix has the effect of the serial one: for every order in which the worker
  threads take their turns, if every job gets at least as many turns as it has cells, the call returns what the
  jobs leave when they are run one after the other, or the error of the first job that failed. In particular
  when it succeeds the loop of the version without threads gives the same plaintexts.
\<close>

theorem encode_matrix_MT_schedules:
  assumes "ecd_setup mat shape = Inr J" "rngs = thread_ranges (ej_num_row_blks J) (thread_pool_size rt)"
    and "\<forall>j < length rngs. length (job_cells (ej_num_col_blks J) (rngs ! j)) \<le> count_list sched j"
    and "ecd_jobs I mat J rngs (replicate (ej_num_row_blks J * ej_num_col_blks J) fresh_ptx) = (statuses, pt_mat)"
  shows "encode_matrix_MT sched rt I mat shape = obind (omap id statuses) (\<lambda>_. Inr pt_mat) \<and>
    (\<forall>pts. encode_matrix_MT sched rt I mat shape = Inr pts \<longrightarrow> encode_matrix rt I mat shape = Inr pts)"
proof -
  let ?pts = "replicate (ej_num_row_blks J * ej_num_col_blks J) fresh_ptx"
  let ?st = "(launch_tasks I J rngs, ?pts)" and ?n = "length rngs"
  obtain tasks where t: "fold (task_step I mat J) (grouped ?n sched) ?st = (tasks, pt_mat)" "length tasks = ?n"
    "\<forall>j < ?n. et_cells (tasks ! j) = [] \<and> et_status (tasks ! j) = statuses ! j"
    using run_jobs [OF assms(3), of ?n I mat ?pts] assms(4) by auto
  have late: "fold (task_step I mat J) (filter (\<lambda>j. ?n \<le> j) sched) (tasks, pt_mat) = (tasks, pt_mat)"
    by (induction sched) (simp_all add: task_step_idle t(2))
  have "run_tasks I mat J sched ?st = fold (task_step I mat J) (grouped ?n sched @ filter (\<lambda>j. ?n \<le> j) sched) ?st"
    unfolding run_tasks_def by (rule fold_turns [OF _ mset_grouped]) (simp add: assms(2) launch_apart)
  then have run: "run_tasks I mat J sched ?st = (tasks, pt_mat)" using t(1) late by simp
  have stat: "length statuses = ?n" using length_ecd_jobs [of I mat J rngs ?pts] assms(4) by simp
  have "map et_status tasks = statuses" using t(2,3) stat by (intro nth_equalityI) simp_all
  moreover have "omap (\<lambda>t. if et_cells t \<noteq> [] then Inl (Undefined ''does not return'')
      else case et_status t of
        Inl e \<Rightarrow> Inl (if list_all (\<lambda>t. et_cells t = []) tasks then e else Undefined ''pt_mat'')
      | Inr _ \<Rightarrow> Inr ()) tasks = omap id (map et_status tasks)"
  proof -
    have "\<forall>t \<in> set tasks. et_cells t = []" using t(2,3) by (auto simp: in_set_conv_nth)
    then show ?thesis unfolding omap_map by (intro omap_cong) (simp add: list_all_iff split: sum.split)
  qed
  ultimately have MT: "encode_matrix_MT sched rt I mat shape = obind (omap id statuses) (\<lambda>_. Inr pt_mat)"
    using run by (simp add: encode_matrix_MT_def assms(1) flip: assms(2))
  moreover have "encode_matrix rt I mat shape = Inr pts" if ok: "encode_matrix_MT sched rt I mat shape = Inr pts" for pts
  proof -
    obtain us where us: "omap id statuses = Inr us" "pts = pt_mat" using MT ok by (cases "omap id statuses") auto
    then have "\<forall>r \<in> set statuses. r = Inr ()" by (auto simp: omap_Inr_iff in_set_conv_nth)
    then show ?thesis using ecd_serial_jobs [of I mat J rngs ?pts] assms(4) us(2)
      by (simp add: encode_matrix_def assms(1) flip: assms(2))
  qed
  ultimately show ?thesis by blast
qed

text \<open>Two jobs of one cell each, taking turns in either order.\<close>

definition two_by_two :: MatView where
  "two_by_two = \<lparr>mv_data = [1, 2, 3, 4], mv_nrows = 2, mv_ncols = 2\<rparr>"

theorem encode_matrix_MT_schedules_witness:
  "\<exists>rt I statuses pts. thread_pool_size rt = 2 \<and>
    ecd_jobs I two_by_two \<lparr>ej_log2_nrows = 0, ej_nrows = 2, ej_shape = (1, 2), ej_num_row_blks = 2, ej_num_col_blks = 1\<rparr>
      (thread_ranges 2 2) [fresh_ptx, fresh_ptx] = (statuses, pts) \<and>
    encode_matrix_MT [1, 0] rt I two_by_two (1, 2) = obind (omap id statuses) (\<lambda>_. Inr pts) \<and>
    encode_matrix_MT [1, 0] rt I two_by_two (1, 2) = encode_matrix_MT [0, 1, 0] rt I two_by_two (1, 2)"
proof -
  let ?J = "\<lparr>ej_log2_nrows = 0, ej_nrows = 2, ej_shape = (1, 2), ej_num_row_blks = 2, ej_num_col_blks = 1\<rparr>"
  obtain rt where rt: "thread_pool_size rt = 2"
    using MVPContext_new_ok [OF lib_ok_ref, of "zero_ct (parms_id 2) 2" 2]
    by (auto simp: thread_pool_size_def numeral_2_eq_2)
  define I where "I = \<lparr>priv_is_proper_config = True,
     priv_config = \<lparr>mi_is_transposed = False, mi_base_mod_nbits = 64, mi_nrows = 2, mi_ncols = 2\<rparr>,
     priv_ms_helper = \<lparr>ms_base_mod_bitlen = 64, ms_t = 0, ms_t_half = 0, ms_Q_mod_t = 0, ms_Q_div_t_mod_qi = [], ms_context = mvp_ctx\<rparr>,
     priv_seal_rt = lib_ref (zero_ct (parms_id 2) 2)\<rparr>"
  obtain statuses pts where jobs: "ecd_jobs I two_by_two ?J (thread_ranges 2 2) [fresh_ptx, fresh_ptx] = (statuses, pts)"
    by (metis surj_pair)
  have rep: "replicate 2 fresh_ptx = [fresh_ptx, fresh_ptx]" by (simp add: numeral_2_eq_2)
  have two: "NextPow2 2 = 2" using NextPow2_pow2 [of 1] by simp
  have ranges: "thread_ranges 2 2 = [(0, 1), (1, 2)]"
    by (simp add: thread_ranges_def Let_def CeilDiv_eq upt_rec)
  have job: "ecd_setup two_by_two (1, 2) = Inr ?J"
    using Log2_pow2 [of 0] by (simp add: ecd_setup_def two_by_two_def two CeilDiv_eq Let_def)
  have "encode_matrix_MT s rt I two_by_two (1, 2) = obind (omap id statuses) (\<lambda>_. Inr pts) \<and>
    (\<forall>ps. encode_matrix_MT s rt I two_by_two (1, 2) = Inr ps \<longrightarrow> encode_matrix rt I two_by_two (1, 2) = Inr ps)"
    if "s = [1, 0] \<or> s = [0, 1, 0]" for s
    by (rule encode_matrix_MT_schedules [OF job, where rngs = "[(0, 1), (1, 2)]"])
      (use that jobs rep in \<open>auto simp: rt ranges job_cells_def less_Suc_eq\<close>)
  from this [of "[1, 0]"] this [of "[0, 1, 0]"] show ?thesis
    using rt jobs by (intro exI [of _ rt] exI [of _ I] exI [of _ statuses] exI [of _ pts]) simp
qed

end
