(* ===== verification/SlotfulNtt.thy ===== *)
theory SlotfulNtt
  imports Layout
begin

text \<open>
  \<open>util/slotful_ntt.cc\<close>: the repository's own negacyclic transforms with lazy reduction. A pointer into the operand is
  its position, the pointer into the table of twiddle factors the position there. The tables come from SEAL
  and are a parameter.
\<close>

section \<open>Tables\<close>

text \<open>
  \<open>seal::util::MultiplyUIntModOperand\<close> and \<open>seal::util::NTTTables\<close>, with the two routines of SEAL on words that the
  transforms call beside those of \<open>seal_arith\<close>: the high word of a product, and \<open>set\<close> of an operand.
\<close>

record mum =
  mum_operand :: u64
  mum_quotient :: u64

record ntt_tables =
  nt_arith :: seal_arith
  nt_coeff_count_power :: nat
  nt_modulus :: u64
  nt_bit_count :: nat
  nt_root_powers :: "mum list"
  nt_inv_root_powers :: "mum list"
  nt_inv_degree :: mum
  nt_multiply_hw64 :: "u64 \<Rightarrow> u64 \<Rightarrow> u64"
  nt_set_operand :: "u64 \<Rightarrow> u64 \<Rightarrow> mum"

section \<open>Butterflies\<close>

record SlothfulNTT =
  sn_tables :: ntt_tables
  sn_p :: u64
  sn_Lp :: u64

definition SlothfulNTT_new :: "ntt_tables \<Rightarrow> u64 \<Rightarrow> SlothfulNTT outcome" where
  "SlothfulNTT_new T L =
     (if push_bit 59 1 \<le> nt_modulus T then Inl (Throws (Logic_error ''SlothfulNTT requires 59-bit modulus most''))
      else Inr \<lparr>sn_tables = T, sn_p = nt_modulus T, sn_Lp = L * nt_modulus T\<rparr>)"

text \<open>Zero when the condition holds, else \<open>b\<close>, without a branch.\<close>

definition select :: "u64 \<Rightarrow> bool \<Rightarrow> u64" where
  "select b cond = (let c = (if cond then 1 else 0) in xor (b AND - c) b)"

definition mulmod_lazy :: "SlothfulNTT \<Rightarrow> u64 \<Rightarrow> mum \<Rightarrow> u64" where
  "mulmod_lazy B x y =
     (let q = nt_multiply_hw64 (sn_tables B) x (mum_quotient y) in x * mum_operand y - q * sn_p B)"

definition mulmod :: "SlothfulNTT \<Rightarrow> u64 \<Rightarrow> mum \<Rightarrow> u64" where
  "mulmod B x y = (let x = mulmod_lazy B x y in x - select (sn_p B) (x < sn_p B))"

definition reduce_barrett_lazy :: "SlothfulNTT \<Rightarrow> u64 \<Rightarrow> u64" where
  "reduce_barrett_lazy B x = barrett_reduce_64 (nt_arith (sn_tables B)) x (nt_modulus (sn_tables B))"

type_synonym butterfly = "u64 \<Rightarrow> u64 \<Rightarrow> u64 \<times> u64"

definition forward_lazy :: "SlothfulNTT \<Rightarrow> mum \<Rightarrow> butterfly" where
  "forward_lazy B w x0 x1 = (let u = x0; v = mulmod_lazy B x1 w in (u + v, u - v + sn_Lp B))"

definition forward_last_lazy :: "SlothfulNTT \<Rightarrow> mum \<Rightarrow> butterfly" where
  "forward_last_lazy B w x0 x1 =
     (let u = reduce_barrett_lazy B x0; v = mulmod_lazy B x1 w in (u + v, u - v + sn_Lp B))"

definition backward_corr_lazy :: "SlothfulNTT \<Rightarrow> mum \<Rightarrow> butterfly" where
  "backward_corr_lazy B w x0 x1 =
     (let u = reduce_barrett_lazy B x0; v = reduce_barrett_lazy B x1
      in (u + v, mulmod_lazy B (u + sn_Lp B - v) w))"

definition backward_lazy :: "SlothfulNTT \<Rightarrow> mum \<Rightarrow> butterfly" where
  "backward_lazy B w x0 x1 =
     (let u = x0; v = x1; t = u + v; t = t - select (sn_Lp B) (t < sn_Lp B)
      in (t, mulmod_lazy B (u - v + sn_Lp B) w))"

definition backward_last_lazy :: "SlothfulNTT \<Rightarrow> mum \<Rightarrow> mum \<Rightarrow> butterfly" where
  "backward_last_lazy B inv_n inv_n_w x0 x1 =
     (let u = x0; v = x1; t = u + v; t = t - select (sn_Lp B) (t < sn_Lp B)
      in (mulmod_lazy B t inv_n, mulmod_lazy B (u - v + sn_Lp B) inv_n_w))"

section \<open>Loops over the operand\<close>

definition at_pointers :: "butterfly \<Rightarrow> nat \<Rightarrow> nat \<Rightarrow> u64 list \<Rightarrow> u64 list" where
  "at_pointers f x0 x1 a = (let (u, v) = f (a ! x0) (a ! x1) in a[x0 := u, x1 := v])"

text \<open>The loop unrolled four times: the counter, the two pointers and the operand.\<close>

function unrolled :: "butterfly \<Rightarrow> nat \<Rightarrow> nat \<times> nat \<times> nat \<times> u64 list \<Rightarrow> nat \<times> nat \<times> nat \<times> u64 list" where
  "unrolled f stop (i, x0, x1, a) =
     (if i < stop
      then let a = at_pointers f x0 x1 a;
               a = at_pointers f (x0 + 1) (x1 + 1) a;
               a = at_pointers f (x0 + 2) (x1 + 2) a;
               a = at_pointers f (x0 + 3) (x1 + 3) a
           in unrolled f stop (i + 4, x0 + 4, x1 + 4, a)
      else (i, x0, x1, a))"
  by pat_completeness auto

termination by (relation "measure (\<lambda>(f, stop, i, _). stop - i)") auto

declare unrolled.simps [simp del]

text \<open>
  One layer: the groups of one twiddle factor each, for \<open>h \<ge> 4\<close>. A group is a prefix of \<open>corr\<close> positions with the
  first butterfly, then the others up to \<open>h\<close> with the second one.
\<close>

definition group_loop :: "butterfly \<Rightarrow> butterfly \<Rightarrow> nat \<Rightarrow> nat \<Rightarrow> nat \<times> nat \<times> u64 list \<Rightarrow> nat \<times> nat \<times> u64 list" where
  "group_loop f g corr h st =
     (let (x0, x1, a) = st;
          (i, x0, x1, a) = unrolled f corr (0, x0, x1, a);
          (i, x0, x1, a) = unrolled g h (i, x0, x1, a)
      in (x0 + h, x1 + h, a))"

definition wide_layer :: "(mum \<Rightarrow> butterfly) \<Rightarrow> (mum \<Rightarrow> butterfly) \<Rightarrow> nat \<Rightarrow> mum list \<Rightarrow> nat \<Rightarrow> nat \<Rightarrow> nat \<Rightarrow> u64 list \<Rightarrow> u64 list" where
  "wide_layer f g corr W w m h a =
     (let (x0, x1, a) = fold (\<lambda>r. group_loop (f (W ! (w + r))) (g (W ! (w + r))) corr h) [0..<m] (0, h, a) in a)"

definition layer_two :: "(mum \<Rightarrow> butterfly) \<Rightarrow> mum list \<Rightarrow> nat \<Rightarrow> nat \<Rightarrow> u64 list \<Rightarrow> u64 list" where
  "layer_two f W w m a =
     (let (x0, x1, a) = fold (\<lambda>r (x0, x1, a).
            let a = at_pointers (f (W ! (w + r))) x0 x1 a;
                a = at_pointers (f (W ! (w + r))) (x0 + 1) (x1 + 1) a
            in (x0 + 1 + 3, x1 + 1 + 3, a)) [0..<m] (0, 2, a) in a)"

definition layer_one :: "(mum \<Rightarrow> butterfly) \<Rightarrow> mum list \<Rightarrow> nat \<Rightarrow> nat \<Rightarrow> u64 list \<Rightarrow> u64 list" where
  "layer_one f W w m a =
     (let (x0, x1, a) = fold (\<lambda>r (x0, x1, a). (x0 + 2, x1 + 2, at_pointers (f (W ! (w + r))) x0 x1 a)) [0..<m] (0, 1, a)
      in a)"

section \<open>The transforms\<close>

function forward_main :: "SlothfulNTT \<Rightarrow> mum list \<Rightarrow> nat \<Rightarrow> nat \<Rightarrow> nat \<Rightarrow> u64 list \<Rightarrow> nat \<times> nat \<times> u64 list" where
  "forward_main B W m h w a =
     (if 2 < h
      then forward_main B W (2 * m) (h div 2) (w + m) (wide_layer (forward_lazy B) (forward_lazy B) 0 W w m h a)
      else (m, w, a))"
  by pat_completeness auto

termination by (relation "measure (\<lambda>(B, W, m, h, w, a). h)") auto

declare forward_main.simps [simp del]

text \<open>For fewer than four coefficients the layer with \<open>h = 2\<close> leaves the operand.\<close>

definition slotful_ntt_lazy :: "ntt_tables \<Rightarrow> u64 list \<Rightarrow> (int \<times> u64 list) outcome" where
  "slotful_ntt_lazy T operand =
     (let n = 2 ^ nt_coeff_count_power T; W = nt_root_powers T in
      if length operand \<noteq> n then Inr (- 1, operand)
      else obind (SlothfulNTT_new T 2) (\<lambda>ntt_body.
        if n < 4 then Inl (Undefined ''operand[2]'')
        else let (m, w, operand) = forward_main ntt_body W 1 (n div 2) 1 operand;
                 operand = layer_two (forward_lazy ntt_body) W w m operand;
                 w = w + m; m = 2 * m;
                 operand = layer_one (forward_last_lazy ntt_body) W w m operand
             in Inr (0, operand)))"

text \<open>
  The two main loops of the inverse. \<open>nL\<close> is at least 2 whenever there are coefficients, since \<open>L\<close> is at
  most half their number; without the test for 0 the first loop would not end.
\<close>

function backward_main :: "SlothfulNTT \<Rightarrow> mum list \<Rightarrow> nat \<Rightarrow> nat \<Rightarrow> nat \<Rightarrow> nat \<Rightarrow> u64 list \<Rightarrow> nat \<times> nat \<times> nat \<times> u64 list" where
  "backward_main B W nL m h w a =
     (if nL \<le> m \<and> 0 < nL
      then backward_main B W nL (m div 2) (2 * h) (w + m) (wide_layer (backward_lazy B) (backward_lazy B) 0 W w m h a)
      else (m, h, w, a))"
  by pat_completeness auto

termination by (relation "measure (\<lambda>(B, W, nL, m, h, w, a). m)") auto

declare backward_main.simps [simp del]

function backward_tail :: "SlothfulNTT \<Rightarrow> mum list \<Rightarrow> nat \<Rightarrow> nat \<Rightarrow> nat \<Rightarrow> nat \<Rightarrow> u64 list \<Rightarrow> nat \<times> u64 list" where
  "backward_tail B W nL m h w a =
     (if 1 < m
      then backward_tail B W nL (m div 2) (2 * h) (w + m)
             (wide_layer (backward_corr_lazy B) (backward_lazy B) (nL div (2 * m)) W w m h a)
      else (w, a))"
  by pat_completeness auto

termination by (relation "measure (\<lambda>(B, W, nL, m, h, w, a). m)") auto

declare backward_tail.simps [simp del]

text \<open>
  For fewer than eight coefficients the code divides by zero, leaves the operand, or reads past the table of
  twiddle factors.
\<close>

definition slotful_intt_lazy :: "ntt_tables \<Rightarrow> u64 list \<Rightarrow> (int \<times> u64 list) outcome" where
  "slotful_intt_lazy T operand =
     (let n = 2 ^ nt_coeff_count_power T; W = nt_inv_root_powers T in
      if length operand \<noteq> n then Inr (- 1, operand)
      else let L = min (n div 2) (2 ^ (64 - nt_bit_count T - 1)) in
        obind (SlothfulNTT_new T (of_nat L)) (\<lambda>intt_body.
        if n < 8 then Inl (Undefined ''n / L'')
        else let w = 1; m = n div 2;
                 operand = layer_one (backward_corr_lazy intt_body) W w m operand;
                 w = w + m; m = n div 4;
                 operand = layer_two (backward_lazy intt_body) W w m operand;
                 w = w + m; nL = n div L;
                 (m, h, w, operand) = backward_main intt_body W nL (n div 8) 4 w operand;
                 (w, operand) = backward_tail intt_body W nL m h w operand;
                 inv_n = nt_inv_degree T;
                 inv_n_w = nt_set_operand T (multiply_uint_mod (nt_arith T) (mum_operand inv_n) (mum_operand (W ! w)) (nt_modulus T))
                             (nt_modulus T);
                 operand = fold (\<lambda>i. at_pointers (backward_last_lazy intt_body inv_n inv_n_w) i (n div 2 + i))
                             [0..<n - n div 2] operand
             in Inr (0, operand)))"

end
