(* ===== verification/SlotfulCorrect.thy ===== *)
theory SlotfulCorrect
  imports SlotfulNtt "HOL-Library.Multiset"
begin

text \<open>
  Correctness of the lazy transforms of theory \<open>SlotfulNtt\<close>: the pointer loops apply one butterfly to every pair
  of positions of a layer; no word overflows; the forward transform evaluates the polynomial at the odd powers of the
  root, in bit-reversed order, and the inverse undoes it.
\<close>

section \<open>A layer as a function of positions\<close>

definition steps :: "nat \<Rightarrow> (nat \<times> butterfly) list \<Rightarrow> u64 list \<Rightarrow> u64 list" where
  "steps h ps = fold (\<lambda>(x, g). at_pointers g x (x + h)) ps"

lemma steps_Nil [simp]: "steps h [] a = a"
  by (simp add: steps_def)

lemma steps_Cons [simp]: "steps h ((x, g) # ps) a = steps h ps (at_pointers g x (x + h) a)"
  by (simp add: steps_def)

lemma steps_append [simp]: "steps h (ps @ qs) a = steps h qs (steps h ps a)"
  by (simp add: steps_def)

lemma length_at_pointers [simp]: "length (at_pointers g x y a) = length a"
  by (simp add: at_pointers_def split_def Let_def)

lemma length_steps [simp]: "length (steps h ps a) = length a"
  by (induction ps arbitrary: a) auto

lemma at_pointers_nth:
  assumes "x < y" "y < length a"
  shows "at_pointers g x y a ! k = (if k = y then snd (g (a ! x) (a ! y)) else if k = x then fst (g (a ! x) (a ! y)) else a ! k)"
  using assms by (simp add: at_pointers_def split_def Let_def nth_list_update)

text \<open>The first halves of the blocks of \<open>2 h\<close> positions are where the butterflies start.\<close>

lemma lower_upper:
  assumes "x mod (2 * h) < h"
  shows "\<not> (x + h) mod (2 * h) < (h :: nat)" and "(x + h) div (2 * h) = x div (2 * h)"
proof -
  have "x mod (2 * h) + h < 2 * h" using assms by simp
  then have m: "(x + h) mod (2 * h) = x mod (2 * h) + h"
    by (metis mod_add_left_eq mod_less)
  then show "\<not> (x + h) mod (2 * h) < h" by simp
  have "x + h = (x div (2 * h)) * (2 * h) + (x mod (2 * h) + h)" by (simp add: mult.commute)
  then show "(x + h) div (2 * h) = x div (2 * h)"
    using \<open>x mod (2 * h) + h < 2 * h\<close> by (intro div_nat_eqI) (simp_all add: algebra_simps)
qed

lemma steps_other:
  assumes "\<forall>(x, g) \<in> set ps. x + h < length a \<and> 0 < h" "\<forall>(x, g) \<in> set ps. k \<noteq> x \<and> k \<noteq> x + h"
  shows "steps h ps a ! k = a ! k"
  using assms
proof (induction ps arbitrary: a)
  case (Cons p ps)
  obtain x g where p: "p = (x, g)" by (cases p)
  have "steps h ps (at_pointers g x (x + h) a) ! k = at_pointers g x (x + h) a ! k"
    using Cons.prems by (intro Cons.IH) (auto simp: p)
  then show ?case using Cons.prems by (simp add: p at_pointers_nth)
qed simp

lemma steps_at:
  assumes "distinct (map fst ps)" "\<forall>(x, g) \<in> set ps. x mod (2 * h) < h \<and> x + h < length a" "(x, g) \<in> set ps"
  shows "steps h ps a ! x = fst (g (a ! x) (a ! (x + h)))" and "steps h ps a ! (x + h) = snd (g (a ! x) (a ! (x + h)))"
proof -
  obtain qs rs where ps: "ps = qs @ (x, g) # rs" using assms(3) by (meson split_list)
  have h: "0 < h" "x + h < length a" "x mod (2 * h) < h" using assms(2,3) by auto
  have other: "x \<noteq> y \<and> x \<noteq> y + h \<and> x + h \<noteq> y \<and> x + h \<noteq> y + h" if "(y, g') \<in> set qs \<or> (y, g') \<in> set rs" for y g'
  proof -
    have "y \<noteq> x" using assms(1) that by (force simp: ps)
    moreover have "y mod (2 * h) < h" using assms(2) that by (auto simp: ps)
    ultimately show ?thesis using lower_upper(1) h(3) by auto
  qed
  have fits: "\<forall>(y, g') \<in> set qs. y + h < length a \<and> 0 < h" "\<forall>(y, g') \<in> set rs. y + h < length a \<and> 0 < h"
    using assms(2) h(1) by (auto simp: ps)
  have apart: "\<forall>(y, g') \<in> set qs. k \<noteq> y \<and> k \<noteq> y + h" "\<forall>(y, g') \<in> set rs. k \<noteq> y \<and> k \<noteq> y + h" if "k = x \<or> k = x + h" for k
    using other that by fast+
  have before: "steps h qs a ! k = a ! k" if "k = x \<or> k = x + h" for k
    by (rule steps_other [OF fits(1) apart(1) [OF that]])
  have after: "steps h rs b ! k = b ! k" if "k = x \<or> k = x + h" "length b = length a" for k b
    by (rule steps_other [OF _ apart(2) [OF that(1)]]) (use fits(2) that(2) in simp)
  show "steps h ps a ! x = fst (g (a ! x) (a ! (x + h)))" and "steps h ps a ! (x + h) = snd (g (a ! x) (a ! (x + h)))"
    using h before by (simp_all add: ps after at_pointers_nth)
qed

text \<open>All positions of a layer of \<open>m\<close> blocks, with the butterfly of each.\<close>

definition layer_ps :: "nat \<Rightarrow> nat \<Rightarrow> (nat \<Rightarrow> nat \<Rightarrow> butterfly) \<Rightarrow> (nat \<times> butterfly) list" where
  "layer_ps h m G = concat (map (\<lambda>r. map (\<lambda>i. (2 * h * r + i, G r i)) [0..<h]) [0..<m])"

definition layer :: "nat \<Rightarrow> nat \<Rightarrow> (nat \<Rightarrow> nat \<Rightarrow> butterfly) \<Rightarrow> u64 list \<Rightarrow> u64 list" where
  "layer h m G a = map (\<lambda>k. let r = k div (2 * h); i = k mod (2 * h) in
     if i < h then fst (G r i (a ! k) (a ! (k + h))) else snd (G r (i - h) (a ! (k - h)) (a ! k))) [0..<2 * h * m]"

lemma layer_ps_Suc: "layer_ps h (Suc m) G = layer_ps h m G @ map (\<lambda>i. (2 * h * m + i, G m i)) [0..<h]"
  by (simp add: layer_ps_def)

lemma set_layer_ps: "(x, g) \<in> set (layer_ps h m G) \<longleftrightarrow> (\<exists>r < m. \<exists>i < h. x = 2 * h * r + i \<and> g = G r i)"
proof -
  have "(x, g) \<in> set (layer_ps h m G) \<longleftrightarrow> (\<exists>r \<in> {0..<m}. \<exists>i \<in> {0..<h}. (x, g) = (2 * h * r + i, G r i))"
    by (simp add: layer_ps_def image_iff)
  then show ?thesis by (simp add: Bex_def)
qed

lemma distinct_layer_ps: "distinct (map fst (layer_ps h m G))"
proof (induction m)
  case (Suc m)
  have "x < 2 * h * m" if mem: "x \<in> fst ` set (layer_ps h m G)" for x
  proof -
    obtain p where "p \<in> set (layer_ps h m G)" "x = fst p" using mem by blast
    then have "(x, snd p) \<in> set (layer_ps h m G)" by simp
    then obtain r i where r: "r < m" "i < h" "x = 2 * h * r + i" unfolding set_layer_ps by blast
    have "2 * h * Suc r \<le> 2 * h * m" using r(1) by (intro mult_le_mono2) simp
    then show ?thesis using r by simp
  qed
  then show ?case using Suc by (fastforce simp: layer_ps_Suc distinct_map inj_on_def)
qed (simp add: layer_ps_def)

lemma steps_layer:
  assumes len: "length a = 2 * h * m" and h: "0 < h"
  shows "steps h (layer_ps h m G) a = layer h m G a"
proof (rule nth_equalityI)
  have "x mod (2 * h) < h \<and> x + h < length a" if mem: "(x, g) \<in> set (layer_ps h m G)" for x g
  proof -
    obtain r i where r: "r < m" "i < h" "x = 2 * h * r + i" using mem unfolding set_layer_ps by blast
    have "2 * h * Suc r \<le> 2 * h * m" using r(1) by (intro mult_le_mono2) simp
    then show ?thesis using r len by simp
  qed
  then have ok: "\<forall>(x, g) \<in> set (layer_ps h m G). x mod (2 * h) < h \<and> x + h < length a" by auto
  fix k
  assume "k < length (steps h (layer_ps h m G) a)"
  then have k: "k < 2 * h * m" by (simp add: len)
  then have r: "k div (2 * h) < m" using h by (simp add: div_less_iff_less_mult mult.commute mult.left_commute)
  have kk: "2 * h * (k div (2 * h)) + k mod (2 * h) = k" by simp
  show "steps h (layer_ps h m G) a ! k = layer h m G a ! k"
  proof (cases "k mod (2 * h) < h")
    case True
    then have "(k, G (k div (2 * h)) (k mod (2 * h))) \<in> set (layer_ps h m G)"
      unfolding set_layer_ps using r kk by metis
    then show ?thesis using steps_at(1) [OF distinct_layer_ps ok] k True by (simp add: layer_def Let_def)
  next
    case False
    let ?i = "k mod (2 * h) - h"
    have i: "?i < h" using h mod_less_divisor [of "2 * h" k] by linarith
    have "k - h = 2 * h * (k div (2 * h)) + ?i" "h \<le> k" using kk False by linarith+
    then have "(k - h, G (k div (2 * h)) ?i) \<in> set (layer_ps h m G)" unfolding set_layer_ps using r i by blast
    from steps_at(2) [OF distinct_layer_ps ok this] show ?thesis using k False \<open>h \<le> k\<close> by (simp add: layer_def Let_def)
  qed
qed (simp add: layer_def len)

section \<open>The loops run over layers\<close>

lemma unrolled_steps:
  "stop \<le> i + 4 * c \<Longrightarrow> i + 4 * c < stop + 4 \<Longrightarrow>
    unrolled f stop (i, x0, x0 + h, a) = (i + 4 * c, x0 + 4 * c, x0 + 4 * c + h, steps h (map (\<lambda>j. (x0 + j, f)) [0..<4 * c]) a)"
proof (induction c arbitrary: i x0 a)
  case 0
  then show ?case by (subst unrolled.simps) simp
next
  case (Suc c)
  have "[0..<4] = [0, 1, 2, 3 :: nat]" by (simp add: upt_rec)
  moreover have "[4..<4 + 4 * c] = map (\<lambda>j. j + 4) [0..<4 * c]" by (simp add: map_add_upt add.commute)
  ultimately have "[0..<4 * Suc c] = [0, 1, 2, 3] @ map (\<lambda>j. j + 4) [0..<4 * c]"
    using upt_add_eq_append [of 0 4 "4 * c"] by simp
  then have ps: "map (\<lambda>j. (x0 + j, f)) [0..<4 * Suc c]
      = [(x0, f), (x0 + 1, f), (x0 + 2, f), (x0 + 3, f)] @ map (\<lambda>j. (x0 + 4 + j, f)) [0..<4 * c]"
    by (simp add: comp_def algebra_simps)
  define b where "b = at_pointers f (x0 + 3) (x0 + h + 3) (at_pointers f (x0 + 2) (x0 + h + 2)
    (at_pointers f (x0 + 1) (x0 + h + 1) (at_pointers f x0 (x0 + h) a)))"
  have "unrolled f stop (i + 4, x0 + 4, x0 + 4 + h, b) = (i + 4 + 4 * c, x0 + 4 + 4 * c, x0 + 4 + 4 * c + h,
      steps h (map (\<lambda>j. (x0 + 4 + j, f)) [0..<4 * c]) b)"
    using Suc.prems by (intro Suc.IH) simp_all
  moreover have "unrolled f stop (i, x0, x0 + h, a) = unrolled f stop (i + 4, x0 + 4, x0 + h + 4, b)"
    using Suc.prems by (subst unrolled.simps) (simp add: Let_def b_def)
  moreover have "steps h (map (\<lambda>j. (x0 + j, f)) [0..<4 * Suc c]) a = steps h (map (\<lambda>j. (x0 + 4 + j, f)) [0..<4 * c]) b"
    unfolding ps by (simp add: ac_simps b_def)
  moreover have "x0 + h + 4 = x0 + 4 + h" "x0 + 4 + 4 * c = x0 + 4 * Suc c" "i + 4 + 4 * c = i + 4 * Suc c" by simp_all
  ultimately show ?case by metis
qed

lemma group_loop_steps:
  assumes "h = 4 * d" "corr \<le> h"
  shows "group_loop f g corr h (x0, x0 + h, a) = (x0 + 2 * h, x0 + 2 * h + h,
    steps h (map (\<lambda>i. (x0 + i, if i < 4 * ((corr + 3) div 4) then f else g)) [0..<h]) a)"
proof -
  define c where "c = (corr + 3) div 4"
  have "corr + 3 = 4 * c + (corr + 3) mod 4" "(corr + 3) mod 4 < 4" by (simp_all add: c_def)
  then have c: "corr \<le> 4 * c" "4 * c < corr + 4" by linarith+
  then have "4 * c < 4 * d + 4" using assms by linarith
  then have "4 * c \<le> h" using assms(1) by simp
  note c = c this
  define e where "e = d - c"
  have h: "h = 4 * c + 4 * e" using c(3) assms(1) by (simp add: e_def)
  have one: "unrolled f corr (0, x0, x0 + h, a) = (4 * c, x0 + 4 * c, x0 + 4 * c + h, steps h (map (\<lambda>j. (x0 + j, f)) [0..<4 * c]) a)"
    using unrolled_steps [of corr 0 c f x0 h a] c by simp
  have two: "unrolled g h (4 * c, x0 + 4 * c, x0 + 4 * c + h, b)
      = (h, x0 + h, x0 + h + h, steps h (map (\<lambda>j. (x0 + 4 * c + j, g)) [0..<4 * e]) b)" for b
    using unrolled_steps [of h "4 * c" e g "x0 + 4 * c" h b] h by (simp add: add.assoc)
  have "[0..<h] = [0..<4 * c] @ map (\<lambda>j. j + 4 * c) [0..<4 * e]" using upt_add_eq_append [of 0 "4 * c" "4 * e"] by (simp add: map_add_upt add.commute flip: h)
  then have "map (\<lambda>i. (x0 + i, if i < 4 * c then f else g)) [0..<h]
      = map (\<lambda>i. (x0 + i, if i < 4 * c then f else g)) [0..<4 * c] @ map (\<lambda>j. (x0 + (j + 4 * c), if j + 4 * c < 4 * c then f else g)) [0..<4 * e]"
    by (simp only: map_append map_map comp_def)
  also have "map (\<lambda>i. (x0 + i, if i < 4 * c then f else g)) [0..<4 * c] = map (\<lambda>j. (x0 + j, f)) [0..<4 * c]"
    by (intro map_cong) simp_all
  also have "map (\<lambda>j. (x0 + (j + 4 * c), if j + 4 * c < 4 * c then f else g)) [0..<4 * e] = map (\<lambda>j. (x0 + 4 * c + j, g)) [0..<4 * e]"
    by (intro map_cong) simp_all
  finally have ps: "map (\<lambda>i. (x0 + i, if i < 4 * c then f else g)) [0..<h]
      = map (\<lambda>j. (x0 + j, f)) [0..<4 * c] @ map (\<lambda>j. (x0 + 4 * c + j, g)) [0..<4 * e]" .
  show ?thesis
    unfolding group_loop_def split Let_def one two c_def [symmetric] ps steps_append by simp
qed

lemma wide_layer_eq:
  assumes "h = 4 * d" "0 < d" "corr \<le> h" "length a = 2 * h * m"
  shows "wide_layer f g corr W w m h a
    = layer h m (\<lambda>r i. if i < 4 * ((corr + 3) div 4) then f (W ! (w + r)) else g (W ! (w + r))) a"
proof -
  let ?G = "\<lambda>r i. if i < 4 * ((corr + 3) div 4) then f (W ! (w + r)) else g (W ! (w + r))"
  have "fold (\<lambda>r. group_loop (f (W ! (w + r))) (g (W ! (w + r))) corr h) [0..<n] (0, h, a)
      = (2 * h * n, 2 * h * n + h, steps h (layer_ps h n ?G) a)" for n
  proof (induction n)
    case (Suc n)
    then show ?case
      by (simp add: layer_ps_Suc group_loop_steps [OF assms(1,3)])
  qed (simp add: layer_ps_def)
  then have "wide_layer f g corr W w m h a = steps h (layer_ps h m ?G) a" by (simp add: wide_layer_def)
  then show ?thesis using steps_layer [OF assms(4)] assms(1,2) by simp
qed

lemma layer_two_eq: "length a = 4 * m \<Longrightarrow> layer_two f W w m a = layer 2 m (\<lambda>r i. f (W ! (w + r))) a"
proof -
  let ?G = "\<lambda>r i. f (W ! (w + r))"
  assume len: "length a = 4 * m"
  have two: "[0..<2] = [0, 1 :: nat]" by (simp add: upt_rec)
  have "fold (\<lambda>r (x0, x1, a).
            let a = at_pointers (f (W ! (w + r))) x0 x1 a;
                a = at_pointers (f (W ! (w + r))) (x0 + 1) (x1 + 1) a
            in (x0 + 1 + 3, x1 + 1 + 3, a)) [0..<n] (0, 2, a)
      = (4 * n, 4 * n + 2, steps 2 (layer_ps 2 n ?G) a)" for n
    by (induction n) (simp_all add: layer_ps_Suc two Let_def, simp add: layer_ps_def)
  then have "layer_two f W w m a = steps 2 (layer_ps 2 m ?G) a" by (simp add: layer_two_def)
  then show ?thesis using steps_layer [of a 2 m] len by simp
qed

lemma layer_one_eq: "length a = 2 * m \<Longrightarrow> layer_one f W w m a = layer 1 m (\<lambda>r i. f (W ! (w + r))) a"
proof -
  let ?G = "\<lambda>r i. f (W ! (w + r))"
  assume len: "length a = 2 * m"
  have "fold (\<lambda>r (x0, x1, a). (x0 + 2, x1 + 2, at_pointers (f (W ! (w + r))) x0 x1 a)) [0..<n] (0, 1, a)
      = (2 * n, 2 * n + 1, steps 1 (layer_ps 1 n ?G) a)" for n
    by (induction n) (simp_all add: layer_ps_Suc, simp add: layer_ps_def)
  then have "layer_one f W w m a = steps 1 (layer_ps 1 m ?G) a" by (simp add: layer_one_def)
  then show ?thesis using steps_layer [of a 1 m] len by simp
qed

lemma last_loop_eq:
  assumes "length a = 2 * h" "0 < h"
  shows "fold (\<lambda>i. at_pointers f i (h + i)) [0..<h] a = layer h 1 (\<lambda>r i. f) a"
proof -
  have "steps h (map (\<lambda>i. (i, f)) is) b = fold (\<lambda>i. at_pointers f i (h + i)) is b" for "is" b
    by (induction "is" arbitrary: b) (simp_all add: add.commute)
  then have "fold (\<lambda>i. at_pointers f i (h + i)) [0..<h] a = steps h (layer_ps h 1 (\<lambda>r i. f)) a"
    by (simp add: layer_ps_def)
  then show ?thesis using steps_layer [of a h 1] assms by simp
qed

section \<open>Twiddle factors\<close>

text \<open>A factor with the quotient of Shoup's trick, below the modulus.\<close>

definition mum_ok :: "u64 \<Rightarrow> mum \<Rightarrow> bool" where
  "mum_ok p y \<longleftrightarrow> unat (mum_operand y) < unat p \<and> unat (mum_quotient y) = unat (mum_operand y) * 2 ^ 64 div unat p"

text \<open>Words as integers, so that congruences are about integers only.\<close>

definition val :: "u64 \<Rightarrow> int" where
  "val x = int (unat x)"

lemma val_nat: "unat x = n \<Longrightarrow> val x = int n"
  by (simp only: val_def)

lemma int_unat: "int (unat x) = val x"
  by (simp only: val_def)

definition factor :: "mum \<Rightarrow> int" where
  "factor y = val (mum_operand y)"

text \<open>
  What SEAL documents of its tables for the degree \<open>2 ^ K\<close> and a primitive root \<open>\<psi>\<close> of order \<open>2 ^ (K + 1)\<close>: the powers of
  the root in bit-reversed order, the powers of its inverse in the order in which the inverse transform reads them,
  and the inverse of the degree.
\<close>

definition tables_ok :: "ntt_tables \<Rightarrow> nat \<Rightarrow> int \<Rightarrow> bool" where
  "tables_ok T K \<psi> \<longleftrightarrow>
     (let p = val (nt_modulus T) in
      nt_coeff_count_power T = K \<and> seal_arith_ok (nt_arith T) \<and> valid_modulus (nt_modulus T) \<and>
      0 < nt_bit_count T \<and> unat (nt_modulus T) < 2 ^ nt_bit_count T \<and> 2 ^ (nt_bit_count T - 1) \<le> unat (nt_modulus T) \<and>
      (\<forall>x y. unat (nt_multiply_hw64 T x y) = unat x * unat y div 2 ^ 64) \<and>
      (\<forall>x. x < nt_modulus T \<longrightarrow> mum_ok (nt_modulus T) (nt_set_operand T x (nt_modulus T)) \<and>
         mum_operand (nt_set_operand T x (nt_modulus T)) = x) \<and>
      \<psi> ^ 2 ^ K mod p = - 1 mod p \<and>
      (\<forall>k. 0 < k \<and> k < 2 ^ K \<longrightarrow> mum_ok (nt_modulus T) (nt_root_powers T ! k) \<and>
         factor (nt_root_powers T ! k) mod p = \<psi> ^ rev_bits K k mod p) \<and>
      (\<forall>s < 2 ^ K - 1. mum_ok (nt_modulus T) (nt_inv_root_powers T ! Suc s) \<and>
         factor (nt_inv_root_powers T ! Suc s) * \<psi> ^ Suc (rev_bits K s) mod p = 1 mod p) \<and>
      mum_ok (nt_modulus T) (nt_inv_degree T) \<and> factor (nt_inv_degree T) * 2 ^ K mod p = 1 mod p)"

section \<open>Butterflies do not overflow\<close>

lemma shoup_bound:
  fixes X w P q :: nat
  assumes X: "X < 2 ^ 64" and P: "0 < P" and q: "q = X * (w * 2 ^ 64 div P) div 2 ^ 64"
  shows "q * P \<le> X * w \<and> X * w - q * P < 2 * P"
proof -
  define w' where "w' = w * 2 ^ 64 div P"
  define \<rho> where "\<rho> = w * 2 ^ 64 mod P"
  define \<sigma> where "\<sigma> = X * w' mod 2 ^ 64"
  have r: "w * 2 ^ 64 = w' * P + \<rho>" "\<rho> < P" using P by (simp_all add: w'_def \<rho>_def)
  have "q = X * w' div 2 ^ 64" unfolding w'_def by (rule q)
  then have s: "X * w' = q * 2 ^ 64 + \<sigma>" "\<sigma> < 2 ^ 64" by (simp_all only: \<sigma>_def div_mult_mod_eq) simp
  have "X * w * 2 ^ 64 = X * w' * P + X * \<rho>" using r(1) by (simp add: algebra_simps)
  then have eq: "X * w * 2 ^ 64 = q * P * 2 ^ 64 + (\<sigma> * P + X * \<rho>)" unfolding s(1) by (simp add: algebra_simps)
  have "\<sigma> * P \<le> 2 ^ 64 * P" "X * \<rho> \<le> 2 ^ 64 * \<rho>" "2 ^ 64 * \<rho> < 2 ^ 64 * P"
    using s(2) X r(2) by (auto intro: mult_le_mono1 simp del: power_numeral)
  then have "\<sigma> * P + X * \<rho> < 2 ^ 64 * P + 2 ^ 64 * P" by linarith
  then have "\<sigma> * P + X * \<rho> < 2 ^ 64 * (2 * P)" by simp
  then have "X * w * 2 ^ 64 < (q * P + 2 * P) * 2 ^ 64" "q * P * 2 ^ 64 \<le> X * w * 2 ^ 64" unfolding eq by (simp_all add: algebra_simps)
  then have "X * w < q * P + 2 * P" "q * P \<le> X * w" by simp_all
  then show ?thesis by linarith
qed

text \<open>A body made by the constructor over good tables.\<close>

definition body_ok :: "SlothfulNTT \<Rightarrow> nat \<Rightarrow> bool" where
  "body_ok B Lp \<longleftrightarrow> (let T = sn_tables B in
     seal_arith_ok (nt_arith T) \<and> valid_modulus (nt_modulus T) \<and> (\<forall>x y. unat (nt_multiply_hw64 T x y) = unat x * unat y div 2 ^ 64) \<and>
     sn_p B = nt_modulus T \<and> unat (sn_Lp B) = Lp \<and> 2 * unat (nt_modulus T) \<le> Lp \<and> Lp < 2 ^ 63)"

lemma mulmod_lazy_ok:
  assumes B: "body_ok B Lp" and y: "mum_ok (sn_p B) y"
  shows "unat (mulmod_lazy B x y) < 2 * unat (sn_p B)"
    and "val (mulmod_lazy B x y) mod val (sn_p B) = val x * factor y mod val (sn_p B)"
proof -
  let ?P = "unat (sn_p B)" and ?w = "unat (mum_operand y)"
  define q where "q = nt_multiply_hw64 (sn_tables B) x (mum_quotient y)"
  have P: "1 < ?P" "?P < 2 ^ 61" using B by (simp_all add: body_ok_def valid_modulus_def Let_def)
  have "unat q = unat x * (?w * 2 ^ 64 div ?P) div 2 ^ 64" using B y by (simp add: body_ok_def mum_ok_def q_def Let_def)
  then have b: "unat q * ?P \<le> unat x * ?w" "unat x * ?w - unat q * ?P < 2 * ?P"
    using shoup_bound [OF unat64_less, of ?P "unat q" x ?w] P by auto
  define e where "e = unat x * ?w - unat q * ?P"
  have "x * mum_operand y - q * sn_p B = of_nat (unat x * ?w) - of_nat (unat q * ?P)" by simp
  also have "\<dots> = of_nat e" using b(1) by (simp add: e_def of_nat_diff)
  finally have m: "mulmod_lazy B x y = of_nat e" by (simp add: mulmod_lazy_def q_def)
  have e: "e < 2 * ?P" using b(2) by (simp add: e_def)
  moreover have "2 * ?P < 2 ^ 64" using P(2) by simp
  ultimately have "e < 2 ^ 64" by (rule order.strict_trans)
  then have u: "unat (mulmod_lazy B x y) = e" by (simp add: m unat_of_nat)
  then show "unat (mulmod_lazy B x y) < 2 * ?P" using e by simp
  have "int e = val x * factor y - val q * val (sn_p B)"
    unfolding e_def of_nat_diff [OF b(1)] by (simp only: of_nat_mult int_unat factor_def)
  then show "val (mulmod_lazy B x y) mod val (sn_p B) = val x * factor y mod val (sn_p B)"
    using mod_diff_cong [of "val x * factor y" "val (sn_p B)" _ "val q * val (sn_p B)" 0] by (simp add: val_nat [OF u])
qed

lemma select_eq: "select b c = (if c then 0 else b)"
  by (simp add: select_def)

lemma unat_plus: "unat x + unat y < 2 ^ 64 \<Longrightarrow> unat (x + y :: u64) = unat x + unat y"
  by (simp add: unat_plus_if_size word_size)

lemma unat_minus_plus: "unat v \<le> unat u + unat l \<Longrightarrow> unat u + unat l < 2 ^ 64 \<Longrightarrow> unat (u - v + l :: u64) = unat u + unat l - unat v"
proof -
  assume a: "unat v \<le> unat u + unat l" "unat u + unat l < 2 ^ 64"
  have "unat (u + l) = unat u + unat l" by (rule unat_plus) fact
  then have "unat (u + l - v) = unat u + unat l - unat v" using a by (simp add: unat_sub word_le_nat_alt)
  moreover have "u - v + l = u + l - v" by simp
  ultimately show ?thesis by (simp only:)
qed

text \<open>A butterfly on words below \<open>B\<close> that computes \<open>\<beta>\<close> modulo \<open>p\<close>, with words below \<open>B'\<close> as result.\<close>

definition realizes :: "int \<Rightarrow> nat \<Rightarrow> nat \<Rightarrow> butterfly \<Rightarrow> (int \<Rightarrow> int \<Rightarrow> int \<times> int) \<Rightarrow> bool" where
  "realizes p b b' g \<beta> \<longleftrightarrow> (\<forall>u v x y. unat u < b \<longrightarrow> unat v < b \<longrightarrow>
     val u mod p = x mod p \<longrightarrow> val v mod p = y mod p \<longrightarrow>
     unat (fst (g u v)) < b' \<and> unat (snd (g u v)) < b' \<and>
     val (fst (g u v)) mod p = fst (\<beta> x y) mod p \<and>
     val (snd (g u v)) mod p = snd (\<beta> x y) mod p)"

definition fwd_op :: "int \<Rightarrow> int \<Rightarrow> int \<Rightarrow> int \<times> int" where
  "fwd_op w x y = (x + w * y, x - w * y)"

definition bwd_op :: "int \<Rightarrow> int \<Rightarrow> int \<Rightarrow> int \<times> int" where
  "bwd_op w x y = (x + y, (x - y) * w)"

lemma forward_value:
  assumes B: "body_ok B (2 * unat (sn_p B))" and w: "mum_ok (sn_p B) w"
    and small: "unat u + 2 * unat (sn_p B) < 2 ^ 64"
    and x: "val u mod val (sn_p B) = x mod val (sn_p B)"
    and y: "val v mod val (sn_p B) = y mod val (sn_p B)"
  defines "m \<equiv> mulmod_lazy B v w"
  shows "unat (u + m) < unat u + 2 * unat (sn_p B)" "unat (u - m + sn_Lp B) \<le> unat u + 2 * unat (sn_p B)"
    "val (u + m) mod val (sn_p B) = (x + factor w * y) mod val (sn_p B)"
    "val (u - m + sn_Lp B) mod val (sn_p B) = (x - factor w * y) mod val (sn_p B)"
proof -
  let ?p = "val (sn_p B)"
  have m: "unat m < 2 * unat (sn_p B)" "val m mod ?p = val v * factor w mod ?p"
    unfolding m_def by (rule mulmod_lazy_ok [OF B w])+
  have L: "unat (sn_Lp B) = 2 * unat (sn_p B)" using B by (simp add: body_ok_def Let_def)
  have s: "unat (u + m) = unat u + unat m" using small m(1) by (intro unat_plus) simp
  have d: "unat (u - m + sn_Lp B) = unat u + 2 * unat (sn_p B) - unat m"
    using small m(1) L unat_minus_plus [of m u "sn_Lp B"] by simp
  show "unat (u + m) < unat u + 2 * unat (sn_p B)" "unat (u - m + sn_Lp B) \<le> unat u + 2 * unat (sn_p B)"
    using s d m(1) by simp_all
  have my: "val m mod ?p = factor w * y mod ?p"
    using m(2) mod_mult_cong [OF y refl, of "factor w"] by (simp add: mult.commute)
  show "val (u + m) mod ?p = (x + factor w * y) mod ?p"
    using mod_add_cong [OF x my] by (simp only: val_nat [OF s] of_nat_add int_unat)
  have "val (u - m + sn_Lp B) = val u - val m + 2 * ?p"
  proof -
    have "unat m \<le> unat u + 2 * unat (sn_p B)" using m(1) by simp
    then show ?thesis unfolding val_nat [OF d] by (simp only: of_nat_diff of_nat_add of_nat_mult int_unat of_nat_numeral)
  qed
  then show "val (u - m + sn_Lp B) mod ?p = (x - factor w * y) mod ?p"
    using mod_diff_cong [OF x my] by simp
qed

lemma forward_lazy_ok:
  assumes "body_ok B (2 * unat (sn_p B))" "mum_ok (sn_p B) w" "b + 2 * unat (sn_p B) \<le> 2 ^ 64"
  shows "realizes (val (sn_p B)) b (b + 2 * unat (sn_p B)) (forward_lazy B w) (fwd_op (factor w))"
  unfolding realizes_def
proof (intro allI impI)
  fix u v x y
  assume a: "unat u < b" "unat v < b" "val u mod val (sn_p B) = x mod val (sn_p B)"
    "val v mod val (sn_p B) = y mod val (sn_p B)"
  have "unat u + 2 * unat (sn_p B) < 2 ^ 64" using a(1) assms(3) by linarith
  note f = forward_value [OF assms(1,2) this a(3,4)]
  show "unat (fst (forward_lazy B w u v)) < b + 2 * unat (sn_p B) \<and> unat (snd (forward_lazy B w u v)) < b + 2 * unat (sn_p B) \<and>
     val (fst (forward_lazy B w u v)) mod val (sn_p B) = fst (fwd_op (factor w) x y) mod val (sn_p B) \<and>
     val (snd (forward_lazy B w u v)) mod val (sn_p B) = snd (fwd_op (factor w) x y) mod val (sn_p B)"
    using f a(1) by (simp add: forward_lazy_def fwd_op_def Let_def)
qed

lemma reduce_barrett_lazy_ok:
  assumes "body_ok B Lp"
  shows "unat (reduce_barrett_lazy B x) = unat x mod unat (sn_p B)" "unat (reduce_barrett_lazy B x) < unat (sn_p B)"
proof -
  have "1 < unat (sn_p B)" using assms by (simp add: body_ok_def valid_modulus_def Let_def)
  moreover show "unat (reduce_barrett_lazy B x) = unat x mod unat (sn_p B)"
    using assms by (simp add: body_ok_def reduce_barrett_lazy_def seal_arith_ok_def seal_mod_ok_def Let_def)
  ultimately show "unat (reduce_barrett_lazy B x) < unat (sn_p B)" by simp
qed

lemma val_barrett: "body_ok B Lp \<Longrightarrow> val (reduce_barrett_lazy B x) mod val (sn_p B) = val x mod val (sn_p B)"
  by (simp only: val_nat [OF reduce_barrett_lazy_ok(1)] zmod_int int_unat mod_mod_trivial)

lemma forward_last_lazy_ok:
  assumes B: "body_ok B (2 * unat (sn_p B))" and w: "mum_ok (sn_p B) w"
  shows "realizes (val (sn_p B)) b (4 * unat (sn_p B)) (forward_last_lazy B w) (fwd_op (factor w))"
  unfolding realizes_def
proof (intro allI impI)
  fix u v x y
  let ?u = "reduce_barrett_lazy B u"
  assume a: "unat u < b" "unat v < b" "val u mod val (sn_p B) = x mod val (sn_p B)"
    "val v mod val (sn_p B) = y mod val (sn_p B)"
  have r: "unat ?u < unat (sn_p B)" "val ?u mod val (sn_p B) = x mod val (sn_p B)"
    using reduce_barrett_lazy_ok(2) [OF B, of u] val_barrett [OF B, of u] a(3) by simp_all
  have "unat (sn_p B) < 2 ^ 61" using B by (simp add: body_ok_def valid_modulus_def Let_def)
  then have "unat ?u + 2 * unat (sn_p B) < 2 ^ 64" using r(1) by simp
  note f = forward_value [OF B w this r(2) a(4)]
  show "unat (fst (forward_last_lazy B w u v)) < 4 * unat (sn_p B) \<and> unat (snd (forward_last_lazy B w u v)) < 4 * unat (sn_p B) \<and>
     val (fst (forward_last_lazy B w u v)) mod val (sn_p B) = fst (fwd_op (factor w) x y) mod val (sn_p B) \<and>
     val (snd (forward_last_lazy B w u v)) mod val (sn_p B) = snd (fwd_op (factor w) x y) mod val (sn_p B)"
    using f r(1) by (simp add: forward_last_lazy_def fwd_op_def Let_def)
qed

text \<open>The difference and the sum of the inverse transform, on words below \<open>Lp\<close>.\<close>

lemma backward_parts:
  assumes B: "body_ok B Lp" and u: "unat u < Lp" "unat v < Lp"
    and x: "val u mod val (sn_p B) = x mod val (sn_p B)"
    and y: "val v mod val (sn_p B) = y mod val (sn_p B)"
    and Lp: "unat (sn_p B) dvd Lp"
  defines "t \<equiv> u + v"
  shows "unat (t - select (sn_Lp B) (t < sn_Lp B)) < Lp"
    "val (t - select (sn_Lp B) (t < sn_Lp B)) mod val (sn_p B) = (x + y) mod val (sn_p B)"
    "val (u - v + sn_Lp B) mod val (sn_p B) = (x - y) mod val (sn_p B)"
proof -
  let ?p = "val (sn_p B)"
  have L: "unat (sn_Lp B) = Lp" "Lp < 2 ^ 63" using B by (simp_all add: body_ok_def Let_def)
  have z: "int Lp mod ?p = 0" using Lp by (simp only: val_def zmod_int [symmetric] dvd_eq_mod_eq_0 of_nat_0)
  have t: "unat t = unat u + unat v" using u L(2) unfolding t_def by (intro unat_plus) simp
  show "unat (t - select (sn_Lp B) (t < sn_Lp B)) < Lp"
    using t u L by (auto simp: select_eq word_less_nat_alt unat_sub_if_size)
  have "val (t - select (sn_Lp B) (t < sn_Lp B)) mod ?p = (val u + val v) mod ?p"
  proof (cases "t < sn_Lp B")
    case False
    then have d: "unat (t - sn_Lp B) = unat u + unat v - Lp" "Lp \<le> unat u + unat v"
      using t L by (simp_all add: word_less_nat_alt unat_sub_if_size)
    then have "val (t - sn_Lp B) = val u + val v - int Lp"
      unfolding val_nat [OF d(1)] by (simp only: of_nat_diff of_nat_add int_unat)
    then show ?thesis using mod_diff_cong [OF refl, of "int Lp" ?p 0 "val u + val v"] z False by (simp add: select_eq)
  next
    case True
    then show ?thesis by (simp only: select_eq if_True diff_zero val_nat [OF t] int_unat of_nat_add)
  qed
  then show "val (t - select (sn_Lp B) (t < sn_Lp B)) mod ?p = (x + y) mod ?p"
    using mod_add_cong [OF x y] by simp
  have d: "unat (u - v + sn_Lp B) = unat u + Lp - unat v" using unat_minus_plus [of v u "sn_Lp B"] u L by simp
  have "unat v \<le> unat u + Lp" using u by simp
  then have "val (u - v + sn_Lp B) = val u - val v + int Lp"
    unfolding val_nat [OF d] by (simp only: of_nat_diff of_nat_add int_unat)
  then have "val (u - v + sn_Lp B) mod ?p = (val u - val v) mod ?p"
    using mod_add_cong [OF refl, of "int Lp" ?p 0 "val u - val v"] z by simp
  then show "val (u - v + sn_Lp B) mod ?p = (x - y) mod ?p" using mod_diff_cong [OF x y] by simp
qed

lemma backward_lazy_ok:
  assumes B: "body_ok B Lp" and Lp: "unat (sn_p B) dvd Lp" and w: "mum_ok (sn_p B) w"
  shows "realizes (val (sn_p B)) Lp Lp (backward_lazy B w) (bwd_op (factor w))"
  unfolding realizes_def
proof (intro allI impI)
  fix u v x y
  assume a: "unat u < Lp" "unat v < Lp" "val u mod val (sn_p B) = x mod val (sn_p B)"
    "val v mod val (sn_p B) = y mod val (sn_p B)"
  note b = backward_parts [OF B a Lp]
  have "2 * unat (sn_p B) \<le> Lp" using B by (simp add: body_ok_def Let_def)
  then show "unat (fst (backward_lazy B w u v)) < Lp \<and> unat (snd (backward_lazy B w u v)) < Lp \<and>
     val (fst (backward_lazy B w u v)) mod val (sn_p B) = fst (bwd_op (factor w) x y) mod val (sn_p B) \<and>
     val (snd (backward_lazy B w u v)) mod val (sn_p B) = snd (bwd_op (factor w) x y) mod val (sn_p B)"
    using b mulmod_lazy_ok [OF B w, of "u - v + sn_Lp B"] mod_mult_cong [OF b(3) refl, of "factor w"]
    by (simp add: backward_lazy_def bwd_op_def Let_def)
qed

lemma backward_corr_lazy_ok:
  assumes B: "body_ok B Lp" and Lp: "unat (sn_p B) dvd Lp" and w: "mum_ok (sn_p B) w"
  shows "realizes (val (sn_p B)) b Lp (backward_corr_lazy B w) (bwd_op (factor w))"
  unfolding realizes_def
proof (intro allI impI)
  fix u v x y
  let ?p = "val (sn_p B)" and ?u = "reduce_barrett_lazy B u" and ?v = "reduce_barrett_lazy B v"
  assume a: "unat u < b" "unat v < b" "val u mod ?p = x mod ?p" "val v mod ?p = y mod ?p"
  have r: "unat ?u < unat (sn_p B)" "val ?u mod ?p = x mod ?p" "unat ?v < unat (sn_p B)" "val ?v mod ?p = y mod ?p"
    using reduce_barrett_lazy_ok(2) [OF B] val_barrett [OF B] a(3,4) by simp_all
  have L: "2 * unat (sn_p B) \<le> Lp" "Lp < 2 ^ 63" "unat (sn_Lp B) = Lp" using B by (simp_all add: body_ok_def Let_def)
  have s: "unat (?u + ?v) = unat ?u + unat ?v" using r(1,3) L by (intro unat_plus) simp
  have "val (?u + ?v) mod ?p = (x + y) mod ?p"
    using mod_add_cong [OF r(2,4)] by (simp only: val_nat [OF s] of_nat_add int_unat)
  moreover have c: "?u + sn_Lp B - ?v = ?u - ?v + sn_Lp B" by simp
  moreover have "val (?u - ?v + sn_Lp B) mod ?p = (x - y) mod ?p"
    using backward_parts(3) [OF B _ _ r(2,4) Lp] r(1,3) L(1) by simp
  ultimately show "unat (fst (backward_corr_lazy B w u v)) < Lp \<and> unat (snd (backward_corr_lazy B w u v)) < Lp \<and>
     val (fst (backward_corr_lazy B w u v)) mod ?p = fst (bwd_op (factor w) x y) mod ?p \<and>
     val (snd (backward_corr_lazy B w u v)) mod ?p = snd (bwd_op (factor w) x y) mod ?p"
    using r(1,3) L(1) s mulmod_lazy_ok [OF B w, of "?u - ?v + sn_Lp B"] mod_mult_cong [of "val (?u - ?v + sn_Lp B)" ?p "x - y" "factor w" "factor w"]
    by (simp add: backward_corr_lazy_def bwd_op_def Let_def c)
qed

text \<open>The last layer also multiplies by the inverse of the degree.\<close>

lemma backward_last_lazy_ok:
  assumes B: "body_ok B Lp" and Lp: "unat (sn_p B) dvd Lp" and w: "mum_ok (sn_p B) i" "mum_ok (sn_p B) iw"
  shows "realizes (val (sn_p B)) Lp (2 * unat (sn_p B)) (backward_last_lazy B i iw)
    (\<lambda>x y. ((x + y) * factor i, (x - y) * factor iw))"
  unfolding realizes_def
proof (intro allI impI)
  fix u v x y
  assume a: "unat u < Lp" "unat v < Lp" "val u mod val (sn_p B) = x mod val (sn_p B)"
    "val v mod val (sn_p B) = y mod val (sn_p B)"
  note b = backward_parts [OF B a Lp]
  show "unat (fst (backward_last_lazy B i iw u v)) < 2 * unat (sn_p B) \<and> unat (snd (backward_last_lazy B i iw u v)) < 2 * unat (sn_p B) \<and>
     val (fst (backward_last_lazy B i iw u v)) mod val (sn_p B) = fst ((x + y) * factor i, (x - y) * factor iw) mod val (sn_p B) \<and>
     val (snd (backward_last_lazy B i iw u v)) mod val (sn_p B) = snd ((x + y) * factor i, (x - y) * factor iw) mod val (sn_p B)"
    using mulmod_lazy_ok [OF B w(2), of "u - v + sn_Lp B"] mod_mult_cong [OF b(3) refl, of "factor iw"]
      mulmod_lazy_ok [OF B w(1), of "u + v - select (sn_Lp B) (u + v < sn_Lp B)"] mod_mult_cong [OF b(2) refl, of "factor i"]
    by (simp add: backward_last_lazy_def Let_def)
qed

end
