(* ===== verification/SlotfulRoots.thy ===== *)
theory SlotfulRoots
  imports SlotfulCorrect
begin

text \<open>
  The lazy transforms of theory \<open>SlotfulNtt\<close> as a whole: every layer computes, modulo the prime, a layer of the integer
  transform; the forward layers evaluate at the odd powers of the root, the inverse layers undo them one by one.
\<close>

section \<open>Layers on integers\<close>

definition represents :: "int \<Rightarrow> nat \<Rightarrow> nat \<Rightarrow> u64 list \<Rightarrow> (nat \<Rightarrow> int) \<Rightarrow> bool" where
  "represents p b n a A \<longleftrightarrow> length a = n \<and> (\<forall>k < n. unat (a ! k) < b \<and> val (a ! k) mod p = A k mod p)"

definition abs_layer :: "nat \<Rightarrow> (nat \<Rightarrow> int \<Rightarrow> int \<Rightarrow> int \<times> int) \<Rightarrow> (nat \<Rightarrow> int) \<Rightarrow> nat \<Rightarrow> int" where
  "abs_layer h \<beta> A k = (let r = k div (2 * h) in
     if k mod (2 * h) < h then fst (\<beta> r (A k) (A (k + h))) else snd (\<beta> r (A (k - h)) (A k)))"

lemma block_bounds:
  assumes "k < 2 * h * m" "0 < (h :: nat)"
  shows "k div (2 * h) < m" "k mod (2 * h) < h \<Longrightarrow> k + h < 2 * h * m" "\<not> k mod (2 * h) < h \<Longrightarrow> h \<le> k \<and> k mod (2 * h) - h < h"
proof -
  show r: "k div (2 * h) < m" using assms by (simp add: div_less_iff_less_mult mult.commute mult.left_commute)
  have k: "k = 2 * h * (k div (2 * h)) + k mod (2 * h)" by simp
  have "2 * h * Suc (k div (2 * h)) \<le> 2 * h * m" using r by (intro mult_le_mono2) simp
  then have "2 * h * (k div (2 * h)) + 2 * h \<le> 2 * h * m" by simp
  then show "k mod (2 * h) < h \<Longrightarrow> k + h < 2 * h * m" using k by linarith
  have "k mod (2 * h) < 2 * h" using assms(2) by simp
  then show "\<not> k mod (2 * h) < h \<Longrightarrow> h \<le> k \<and> k mod (2 * h) - h < h" using k by linarith
qed

lemma layer_sim:
  assumes a: "represents p b (2 * h * m) a A" and h: "0 < h"
    and G: "\<And>r i. r < m \<Longrightarrow> i < h \<Longrightarrow> realizes p b b' (G r i) (\<beta> r)"
  shows "represents p b' (2 * h * m) (layer h m G a) (abs_layer h \<beta> A)"
  unfolding represents_def
proof (intro conjI allI impI)
  fix k
  assume k: "k < 2 * h * m"
  note b = block_bounds [OF k h]
  have at: "unat (a ! i) < b" "val (a ! i) mod p = A i mod p" if "i < 2 * h * m" for i
    using a that by (simp_all add: represents_def)
  show "unat (layer h m G a ! k) < b'" "val (layer h m G a ! k) mod p = abs_layer h \<beta> A k mod p"
  proof (atomize (full), cases "k mod (2 * h) < h")
    case True
    have "realizes p b b' (G (k div (2 * h)) (k mod (2 * h))) (\<beta> (k div (2 * h)))" using G b(1) True by blast
    then show "unat (layer h m G a ! k) < b' \<and> val (layer h m G a ! k) mod p = abs_layer h \<beta> A k mod p"
      using at [OF k] at [OF b(2) [OF True]] k True by (simp add: layer_def abs_layer_def Let_def realizes_def)
  next
    case False
    have "realizes p b b' (G (k div (2 * h)) (k mod (2 * h) - h)) (\<beta> (k div (2 * h)))" using G b(1) b(3) [OF False] by blast
    moreover have "k - h < 2 * h * m" using k by simp
    ultimately show "unat (layer h m G a ! k) < b' \<and> val (layer h m G a ! k) mod p = abs_layer h \<beta> A k mod p"
      using at [OF k] at k False by (simp add: layer_def abs_layer_def Let_def realizes_def)
  qed
qed (simp add: layer_def)

lemma realizes_fwd_cong: "realizes p b b' g (fwd_op w) \<Longrightarrow> w mod p = w' mod p \<Longrightarrow> realizes p b b' g (fwd_op w')"
proof -
  assume r: "realizes p b b' g (fwd_op w)" and w: "w mod p = w' mod p"
  have "(x + w * y) mod p = (x + w' * y) mod p" "(x - w * y) mod p = (x - w' * y) mod p" for x y
    using mod_add_cong [OF refl mod_mult_cong [OF w refl]] mod_diff_cong [OF refl mod_mult_cong [OF w refl]] by blast+
  then show ?thesis using r by (simp add: realizes_def fwd_op_def)
qed

section \<open>The forward transform\<close>

fun fwd :: "nat \<Rightarrow> int \<Rightarrow> nat \<Rightarrow> (nat \<Rightarrow> int) \<Rightarrow> nat \<Rightarrow> int" where
  "fwd K \<psi> 0 A = A"
| "fwd K \<psi> (Suc l) A = abs_layer (2 ^ (K - Suc l)) (\<lambda>r. fwd_op (\<psi> ^ rev_bits K (2 ^ l + r))) (fwd K \<psi> l A)"

lemma tables_okD:
  assumes "tables_ok T K \<psi>"
  shows "nt_coeff_count_power T = K" "1 < unat (nt_modulus T)" "\<psi> ^ 2 ^ K mod val (nt_modulus T) = - 1 mod val (nt_modulus T)"
    "\<And>k. 0 < k \<Longrightarrow> k < 2 ^ K \<Longrightarrow> mum_ok (nt_modulus T) (nt_root_powers T ! k)"
    "\<And>k. 0 < k \<Longrightarrow> k < 2 ^ K \<Longrightarrow> factor (nt_root_powers T ! k) mod val (nt_modulus T) = \<psi> ^ rev_bits K k mod val (nt_modulus T)"
    "\<And>s. s < 2 ^ K - 1 \<Longrightarrow> mum_ok (nt_modulus T) (nt_inv_root_powers T ! Suc s)"
    "\<And>s. s < 2 ^ K - 1 \<Longrightarrow> factor (nt_inv_root_powers T ! Suc s) * \<psi> ^ Suc (rev_bits K s) mod val (nt_modulus T) = 1 mod val (nt_modulus T)"
    "mum_ok (nt_modulus T) (nt_inv_degree T)" "factor (nt_inv_degree T) * 2 ^ K mod val (nt_modulus T) = 1 mod val (nt_modulus T)"
    "seal_arith_ok (nt_arith T)" "valid_modulus (nt_modulus T)"
  using assms unfolding tables_ok_def Let_def int_unat by (auto simp: valid_modulus_def)

lemma two_pow_split: "l < K \<Longrightarrow> 2 * 2 ^ (K - Suc l) * 2 ^ l = (2 :: nat) ^ K"
  by (simp flip: power_Suc power_add)

lemma forward_layer:
  assumes T: "tables_ok (sn_tables B) K \<psi>" and B: "body_ok B (2 * unat (sn_p B))" and p: "sn_p B = nt_modulus (sn_tables B)"
    and l: "l < K" and b: "b + 2 * unat (sn_p B) \<le> 2 ^ 64"
    and a: "represents (val (sn_p B)) b (2 ^ K) a (fwd K \<psi> l A)"
  shows "represents (val (sn_p B)) (b + 2 * unat (sn_p B)) (2 ^ K)
    (layer (2 ^ (K - Suc l)) (2 ^ l) (\<lambda>r i. forward_lazy B (nt_root_powers (sn_tables B) ! (2 ^ l + r))) a) (fwd K \<psi> (Suc l) A)"
proof -
  have "realizes (val (sn_p B)) b (b + 2 * unat (sn_p B)) (forward_lazy B (nt_root_powers (sn_tables B) ! (2 ^ l + r)))
      (fwd_op (\<psi> ^ rev_bits K (2 ^ l + r)))" if "r < 2 ^ l" for r
  proof -
    have "2 ^ l + r < 2 * 2 ^ l" using that by simp
    also have "\<dots> \<le> (2 :: nat) ^ K" using l by (metis Suc_leI power_Suc power_increasing one_le_numeral)
    finally have k: "0 < 2 ^ l + r" "2 ^ l + r < (2 :: nat) ^ K" by simp_all
    show ?thesis
      by (rule realizes_fwd_cong [OF forward_lazy_ok [OF B _ b]])
        (use tables_okD(4,5) [OF T k] p in simp_all)
  qed
  then show ?thesis
    using layer_sim [of "val (sn_p B)" b "2 ^ (K - Suc l)" "2 ^ l" a "fwd K \<psi> l A"] a two_pow_split [OF l] by simp
qed

lemma forward_last_layer:
  assumes T: "tables_ok (sn_tables B) K \<psi>" and B: "body_ok B (2 * unat (sn_p B))" and p: "sn_p B = nt_modulus (sn_tables B)"
    and K: "K = Suc l" and a: "represents (val (sn_p B)) b (2 ^ K) a (fwd K \<psi> l A)"
  shows "represents (val (sn_p B)) (4 * unat (sn_p B)) (2 ^ K)
    (layer 1 (2 ^ l) (\<lambda>r i. forward_last_lazy B (nt_root_powers (sn_tables B) ! (2 ^ l + r))) a) (fwd K \<psi> K A)"
proof -
  have "realizes (val (sn_p B)) b (4 * unat (sn_p B)) (forward_last_lazy B (nt_root_powers (sn_tables B) ! (2 ^ l + r)))
      (fwd_op (\<psi> ^ rev_bits K (2 ^ l + r)))" if "r < 2 ^ l" for r
  proof -
    have k: "0 < 2 ^ l + r" "2 ^ l + r < (2 :: nat) ^ K" using that by (simp_all add: K)
    show ?thesis
      by (rule realizes_fwd_cong [OF forward_last_lazy_ok [OF B]]) (use tables_okD(4,5) [OF T k] p in simp_all)
  qed
  then show ?thesis
    using layer_sim [of "val (sn_p B)" b 1 "2 ^ l" a "fwd K \<psi> l A"] a by (simp add: K)
qed

lemma forward_main_run:
  assumes T: "tables_ok (sn_tables B) K \<psi>" and B: "body_ok B (2 * unat (sn_p B))" and p: "sn_p B = nt_modulus (sn_tables B)"
    and small: "unat (sn_p B) * (2 * K + 2) \<le> 2 ^ 64"
  shows "l + d + 2 = K \<Longrightarrow> represents (val (sn_p B)) (unat (sn_p B) * (2 * l + 4)) (2 ^ K) a (fwd K \<psi> l A) \<Longrightarrow>
    \<exists>a'. forward_main B (nt_root_powers (sn_tables B)) (2 ^ l) (2 ^ (K - Suc l)) (2 ^ l) a = (2 ^ (K - 2), 2 ^ (K - 2), a') \<and>
      represents (val (sn_p B)) (unat (sn_p B) * (2 * (K - 2) + 4)) (2 ^ K) a' (fwd K \<psi> (K - 2) A)"
proof (induction d arbitrary: l a)
  case 0
  then have "K - Suc l = 1" "l = K - 2" by simp_all
  then show ?case using 0(2) by (subst forward_main.simps) simp
next
  case (Suc d)
  let ?W = "nt_root_powers (sn_tables B)" and ?h = "2 ^ (K - Suc l) :: nat"
  have l: "l < K" "K - Suc l = Suc (Suc (K - Suc (Suc (Suc l))))" using Suc.prems(1) by simp_all
  then have h: "?h = 4 * 2 ^ (K - Suc (Suc (Suc l)))" by simp
  have len: "length a = 2 * ?h * 2 ^ l" using Suc.prems(2) two_pow_split [OF l(1)] by (simp add: represents_def)
  define a1 where "a1 = wide_layer (forward_lazy B) (forward_lazy B) 0 ?W (2 ^ l) (2 ^ l) ?h a"
  have a1: "a1 = layer ?h (2 ^ l) (\<lambda>r i. forward_lazy B (?W ! (2 ^ l + r))) a"
    using wide_layer_eq [OF h _ _ len] by (simp add: a1_def)
  have "unat (sn_p B) * (2 * l + 4) + 2 * unat (sn_p B) \<le> unat (sn_p B) * (2 * K + 2)"
    using Suc.prems(1) mult_le_mono2 [of "2 * l + 6" "2 * K + 2" "unat (sn_p B)"] by (simp add: algebra_simps)
  then have "unat (sn_p B) * (2 * l + 4) + 2 * unat (sn_p B) \<le> 2 ^ 64" using small by linarith
  from forward_layer [OF T B p l(1) this Suc.prems(2)]
  have "represents (val (sn_p B)) (unat (sn_p B) * (2 * Suc l + 4)) (2 ^ K) a1 (fwd K \<psi> (Suc l) A)"
    by (simp add: a1 algebra_simps)
  moreover have "Suc l + d + 2 = K" using Suc.prems(1) by simp
  moreover have "forward_main B ?W (2 ^ l) ?h (2 ^ l) a = forward_main B ?W (2 ^ Suc l) (2 ^ (K - Suc (Suc l))) (2 ^ Suc l) a1"
  proof -
    have "K - Suc (Suc l) = Suc (K - Suc (Suc (Suc l)))" using l(2) by simp
    moreover have "1 \<le> (2 :: nat) ^ (K - Suc (Suc (Suc l)))" by simp
    ultimately have "?h div 2 = 2 ^ (K - Suc (Suc l))" "2 < ?h" unfolding h by (simp, linarith)
    then show ?thesis by (subst forward_main.simps) (simp add: a1_def mult_2)
  qed
  ultimately show ?case using Suc.IH [of "Suc l" a1] by simp
qed

lemma slotful_ntt_lazy_run:
  assumes T: "tables_ok T K \<psi>" and K: "2 \<le> K" "K \<le> 15" and p: "nt_modulus T < 2 ^ 59"
    and a: "represents (val (nt_modulus T)) (4 * unat (nt_modulus T)) (2 ^ K) a A"
  shows "\<exists>out. slotful_ntt_lazy T a = Inr (0, out) \<and> represents (val (nt_modulus T)) (4 * unat (nt_modulus T)) (2 ^ K) out (fwd K \<psi> K A)"
proof -
  let ?p = "unat (nt_modulus T)"
  define B where "B = \<lparr>sn_tables = T, sn_p = nt_modulus T, sn_Lp = 2 * nt_modulus T\<rparr>"
  have B': "sn_tables B = T" "sn_p B = nt_modulus T" by (simp_all add: B_def)
  have p59: "?p < 2 ^ 59" using p by (simp add: word_less_nat_alt unat_two_power)
  have "unat (2 * nt_modulus T) = 2 * ?p" using p59 by (simp add: unat_mult_lem [THEN iffD1])
  then have B: "body_ok B (2 * unat (sn_p B))" using T p59 by (simp add: body_ok_def B_def tables_ok_def Let_def)
  have new: "SlothfulNTT_new T 2 = Inr B" using p by (simp add: SlothfulNTT_new_def B_def not_le)
  have "?p * (2 * K + 2) \<le> 2 ^ 59 * 32" using p59 K(2) by (intro mult_le_mono) simp_all
  then have small: "?p * (2 * K + 2) \<le> 2 ^ 64" by simp
  obtain a1 where a1: "forward_main B (nt_root_powers T) 1 (2 ^ (K - 1)) 1 a = (2 ^ (K - 2), 2 ^ (K - 2), a1)"
      "represents (val (nt_modulus T)) (?p * (2 * (K - 2) + 4)) (2 ^ K) a1 (fwd K \<psi> (K - 2) A)"
    using forward_main_run [of B K \<psi> 0 "K - 2" a A] T B B' small a K(1) by (force simp: mult.commute)
  obtain j where j: "K = Suc (Suc j)" using K(1) by (metis One_nat_def Suc_1 Suc_le_D Suc_le_mono)
  have "?p * (2 * j + 4) + 2 * ?p \<le> ?p * (2 * K + 2)" by (simp add: j algebra_simps)
  then have b: "?p * (2 * j + 4) + 2 * ?p \<le> 2 ^ 64" using small by linarith
  define a2 where "a2 = layer_two (forward_lazy B) (nt_root_powers T) (2 ^ j) (2 ^ j) a1"
  have "a2 = layer 2 (2 ^ j) (\<lambda>r i. forward_lazy B (nt_root_powers T ! (2 ^ j + r))) a1"
    unfolding a2_def using a1(2) by (intro layer_two_eq) (simp add: represents_def j)
  then have a2: "represents (val (nt_modulus T)) (?p * (2 * j + 4) + 2 * ?p) (2 ^ K) a2 (fwd K \<psi> (Suc j) A)"
    using forward_layer [of B K \<psi> j "?p * (2 * j + 4)" a1 A] T B B' b a1(2) by (simp add: j)
  define a3 where "a3 = layer_one (forward_last_lazy B) (nt_root_powers T) (2 ^ Suc j) (2 ^ Suc j) a2"
  have "a3 = layer 1 (2 ^ Suc j) (\<lambda>r i. forward_last_lazy B (nt_root_powers T ! (2 ^ Suc j + r))) a2"
    unfolding a3_def using a2 by (intro layer_one_eq) (simp add: represents_def j)
  then have a3: "represents (val (nt_modulus T)) (4 * ?p) (2 ^ K) a3 (fwd K \<psi> K A)"
    using forward_last_layer [of B K \<psi> "Suc j" _ a2 A] T B B' a2 j by simp
  have "length a = 2 ^ K" using a by (simp add: represents_def)
  moreover have "\<not> (2 :: nat) ^ K < 4" using one_le_power [of "2 :: nat" j] by (simp add: j)
  moreover have "(2 :: nat) ^ K div 2 = 2 ^ (K - 1)" "2 * 2 ^ (K - 2) = (2 :: nat) ^ Suc j" "K - 2 = j" by (simp_all add: j)
  ultimately have "slotful_ntt_lazy T a = Inr (0, a3)"
    using new a1(1) tables_okD(1) [OF T] by (simp add: slotful_ntt_lazy_def Let_def a3_def a2_def flip: mult_2)
  then show ?thesis using a3 by blast
qed

section \<open>What the forward layers compute\<close>

lemma rev_bits_double: "k < 2 ^ K \<Longrightarrow> rev_bits (Suc K) k = 2 * rev_bits K k"
  using rev_bits_scale [of K "Suc K" k] by simp

lemma rev_bits_top: "r < 2 ^ K \<Longrightarrow> rev_bits (Suc K) (2 ^ K + r) = Suc (2 * rev_bits K r)"
proof (induction K arbitrary: r)
  case (Suc K)
  have "rev_bits (Suc K) (2 ^ K + r div 2) = Suc (2 * rev_bits K (r div 2))" using Suc.prems by (intro Suc.IH) simp
  moreover have "(2 ^ Suc K + r) div 2 = 2 ^ K + r div 2" "(2 ^ Suc K + r) mod 2 = r mod 2" by simp_all
  ultimately have "rev_bits (Suc (Suc K)) (2 ^ Suc K + r) = (r mod 2) * 2 ^ Suc K + Suc (2 * rev_bits K (r div 2))"
    by (simp only: rev_bits.simps(2) [of "Suc K"])
  then show ?case by simp
qed simp

lemma sum_mod_cong: "(\<And>i. i \<in> S \<Longrightarrow> f i mod p = g i mod p) \<Longrightarrow> sum f S mod p = sum g S mod (p :: int)"
  by (metis (mono_tags, lifting) mod_sum_eq sum.cong)

lemma power_mod_cong: "a mod p = b mod p \<Longrightarrow> a ^ n mod p = b ^ n mod (p :: int)"
  by (metis power_mod)

lemma sum_split_half: "(\<Sum>i<h + n. f i) = (\<Sum>i<h. f i) + (\<Sum>i<n. f (h + i :: nat) :: int)"
  by (induction n) simp_all

text \<open>One layer, evaluated at a root of the lower or of the upper half of a block.\<close>

lemma layer_eval:
  assumes h: "0 < h" and s: "s = 1 \<or> s = - 1" and z: "z ^ h mod p = s * w r mod (p :: int)" and u: "u = (if s = 1 then 0 else h)"
  shows "(\<Sum>i<h. abs_layer h (\<lambda>r. fwd_op (w r)) A (2 * h * r + u + i) * z ^ i) mod p
    = (\<Sum>i<2 * h. A (2 * h * r + i) * z ^ i) mod p"
proof -
  have val: "abs_layer h (\<lambda>r. fwd_op (w r)) A (2 * h * r + u + i) = A (2 * h * r + i) + s * w r * A (2 * h * r + h + i)" if "i < h" for i
  proof -
    have ui: "u + i < 2 * h" using that u by auto
    have k: "2 * h * r + u + i = u + i + r * (2 * h)" by simp
    have d: "(2 * h * r + u + i) div (2 * h) = r" "(2 * h * r + u + i) mod (2 * h) = u + i"
      unfolding k using ui by simp_all
    show ?thesis
    proof (cases "s = 1")
      case True
      then have "2 * h * r + u + i + h = 2 * h * r + h + i" "2 * h * r + u + i = 2 * h * r + i" using u by simp_all
      moreover have "A (2 * h * r + i + h) = A (2 * h * r + h + i)" by (rule arg_cong [where f = A]) simp
      ultimately show ?thesis using d that u True by (simp add: abs_layer_def fwd_op_def Let_def)
    next
      case False
      then have "s = - 1" "2 * h * r + u + i - h = 2 * h * r + i" "2 * h * r + u + i = 2 * h * r + h + i" using u s by simp_all
      then show ?thesis using d that u by (simp add: abs_layer_def fwd_op_def Let_def)
    qed
  qed
  have "(\<Sum>i<h. abs_layer h (\<lambda>r. fwd_op (w r)) A (2 * h * r + u + i) * z ^ i) mod p
      = (\<Sum>i<h. A (2 * h * r + i) * z ^ i + A (2 * h * r + h + i) * (z ^ h * z ^ i)) mod p"
  proof (rule sum_mod_cong)
    fix i
    assume "i \<in> {..<h}"
    then have i: "i < h" by simp
    have "s * w r * (A (2 * h * r + h + i) * z ^ i) mod p = z ^ h * (A (2 * h * r + h + i) * z ^ i) mod p"
      by (rule mod_mult_cong [OF z [symmetric] refl])
    from mod_add_cong [OF refl this]
    show "abs_layer h (\<lambda>r. fwd_op (w r)) A (2 * h * r + u + i) * z ^ i mod p
      = (A (2 * h * r + i) * z ^ i + A (2 * h * r + h + i) * (z ^ h * z ^ i)) mod p"
      unfolding val [OF i] by (simp add: algebra_simps)
  qed
  also have "(\<Sum>i<h. A (2 * h * r + i) * z ^ i + A (2 * h * r + h + i) * (z ^ h * z ^ i))
      = (\<Sum>i<h. A (2 * h * r + i) * z ^ i) + (\<Sum>i<h. A (2 * h * r + (h + i)) * z ^ (h + i))"
    by (simp add: sum.distrib power_add add.assoc)
  also have "\<dots> = (\<Sum>i<h + h. A (2 * h * r + i) * z ^ i)"
    by (simp only: sum_split_half)
  finally show ?thesis by (simp add: mult_2)
qed

lemma fwd_eval:
  assumes \<psi>: "\<psi> ^ 2 ^ K mod p = - 1 mod p"
  shows "l \<le> K \<Longrightarrow> r < 2 ^ l \<Longrightarrow> z ^ 2 ^ (K - l) mod p = \<psi> ^ rev_bits (Suc K) (2 ^ l + r) mod p \<Longrightarrow>
    (\<Sum>i<2 ^ (K - l). fwd K \<psi> l A (2 ^ (K - l) * r + i) * z ^ i) mod p = (\<Sum>j<2 ^ K. A j * z ^ j) mod p"
proof (induction l arbitrary: r z)
  case 0
  then show ?case by simp
next
  case (Suc l)
  let ?h = "2 ^ (K - Suc l) :: nat" and ?k = "2 ^ l + r div 2" and ?w = "\<lambda>r. \<psi> ^ rev_bits K (2 ^ l + r)"
  have l: "l < K" "K - l = Suc (K - Suc l)" using Suc.prems(1) by simp_all
  have k: "?k < 2 ^ K"
  proof -
    have "?k < 2 * 2 ^ l" using Suc.prems(2) by simp
    also have "\<dots> \<le> (2 :: nat) ^ K" using l(1) by (metis Suc_leI power_Suc power_increasing one_le_numeral)
    finally show ?thesis .
  qed
  have "2 ^ Suc l + r = 2 * ?k + r mod 2" by simp
  then have rev: "rev_bits (Suc K) (2 ^ Suc l + r) = (r mod 2) * 2 ^ K + rev_bits K ?k"
    by (simp add: rev_bits.simps(2) [of K] del: power_Suc)
  define s where "s = (if even r then 1 else - 1 :: int)"
  have z: "z ^ ?h mod p = s * ?w (r div 2) mod p"
  proof (cases "even r")
    case True
    then show ?thesis using Suc.prems(3) rev by (simp add: s_def)
  next
    case False
    then have "r mod 2 = 1" by presburger
    then have "z ^ ?h mod p = (\<psi> ^ 2 ^ K * ?w (r div 2)) mod p" using Suc.prems(3) rev by (simp add: power_add)
    also have "\<dots> = (- 1 * ?w (r div 2)) mod p" by (rule mod_mult_cong [OF \<psi> refl])
    finally show ?thesis using False by (simp add: s_def)
  qed
  have zz: "z ^ 2 ^ (K - l) mod p = \<psi> ^ rev_bits (Suc K) ?k mod p"
  proof -
    have "z ^ 2 ^ (K - l) = (z ^ ?h) ^ 2" by (simp only: l(2) power_Suc power_even_eq)
    also have "\<dots> mod p = (s * ?w (r div 2)) ^ 2 mod p" by (rule power_mod_cong [OF z])
    also have "(s * ?w (r div 2)) ^ 2 = \<psi> ^ (2 * rev_bits K ?k)"
      by (auto simp: s_def power_mult_distrib power_mult [symmetric] mult.commute)
    finally show ?thesis by (simp only: rev_bits_double [OF k])
  qed
  have "(\<Sum>i<?h. abs_layer ?h (\<lambda>r. fwd_op (?w r)) (fwd K \<psi> l A) (2 * ?h * (r div 2) + (if s = 1 then 0 else ?h) + i) * z ^ i) mod p
      = (\<Sum>i<2 * ?h. fwd K \<psi> l A (2 * ?h * (r div 2) + i) * z ^ i) mod p"
    by (rule layer_eval [where w = ?w and r = "r div 2" and s = s]) (use z in \<open>simp_all add: s_def\<close>)
  also have "\<dots> = (\<Sum>j<2 ^ K. A j * z ^ j) mod p"
    using Suc.IH [of "r div 2" z] Suc.prems(1,2) zz by (simp add: l(2))
  finally have "(\<Sum>i<?h. fwd K \<psi> (Suc l) A (2 * ?h * (r div 2) + (if s = 1 then 0 else ?h) + i) * z ^ i) mod p
      = (\<Sum>j<2 ^ K. A j * z ^ j) mod p" by simp
  moreover have "2 * ?h * (r div 2) + (if s = 1 then 0 else ?h) = ?h * r"
  proof -
    have "?h * r = ?h * (2 * (r div 2) + r mod 2)" by simp
    also have "\<dots> = 2 * ?h * (r div 2) + ?h * (r mod 2)" by (simp only: distrib_left mult.assoc mult.left_commute)
    finally show ?thesis by (auto simp: s_def odd_iff_mod_2_eq_one)
  qed
  ultimately show ?case by (simp only:)
qed

text \<open>The odd powers of the root, in bit-reversed order.\<close>

lemma fwd_values:
  assumes "\<psi> ^ 2 ^ K mod p = - 1 mod p" "r < 2 ^ K"
  shows "fwd K \<psi> K A r mod p = (\<Sum>j<2 ^ K. A j * \<psi> ^ ((2 * rev_bits K r + 1) * j)) mod p"
proof -
  let ?z = "\<psi> ^ (2 * rev_bits K r + 1)"
  have "?z ^ 2 ^ (K - K) mod p = \<psi> ^ rev_bits (Suc K) (2 ^ K + r) mod p" by (simp add: rev_bits_top [OF assms(2)] del: rev_bits.simps)
  from fwd_eval [OF assms(1) order_refl assms(2) this, of A]
  have "fwd K \<psi> K A r mod p = (\<Sum>j<2 ^ K. A j * ?z ^ j) mod p" by simp
  then show ?thesis by (simp only: power_mult)
qed

section \<open>The inverse transform\<close>

text \<open>The layers of the inverse, from the blocks of two on, with the factors \<open>\<iota> l r\<close> of layer \<open>l\<close>.\<close>

fun bwd :: "nat \<Rightarrow> (nat \<Rightarrow> nat \<Rightarrow> int) \<Rightarrow> nat \<Rightarrow> (nat \<Rightarrow> int) \<Rightarrow> nat \<Rightarrow> int" where
  "bwd K \<iota> 0 B = B"
| "bwd K \<iota> (Suc t) B = abs_layer (2 ^ t) (\<lambda>r. bwd_op (\<iota> (K - Suc t) r)) (bwd K \<iota> t B)"

definition inverse_of :: "nat \<Rightarrow> (nat \<Rightarrow> nat \<Rightarrow> int) \<Rightarrow> int \<Rightarrow> (nat \<Rightarrow> int) \<Rightarrow> nat \<Rightarrow> int" where
  "inverse_of K \<iota> c B = abs_layer (2 ^ (K - 1)) (\<lambda>r x y. ((x + y) * c, (x - y) * (c * \<iota> 0 0))) (bwd K \<iota> (K - 1) B)"

lemma pow_split: "t < K \<Longrightarrow> 2 * 2 ^ t * 2 ^ (K - Suc t) = (2 :: nat) ^ K"
  by (simp flip: power_Suc power_add)

text \<open>Where the factors of layer \<open>l\<close> stand in the table, and that they are the inverses of the forward ones.\<close>

definition inv_pos :: "nat \<Rightarrow> nat \<Rightarrow> nat \<Rightarrow> nat" where
  "inv_pos K l r = 2 ^ K - 2 ^ Suc l + r"

lemma inv_pos_less: "l < K \<Longrightarrow> r < 2 ^ l \<Longrightarrow> inv_pos K l r < 2 ^ K - 1"
proof -
  assume a: "l < K" "r < 2 ^ l"
  have "(2 :: nat) ^ Suc l \<le> 2 ^ K" using a(1) by (intro power_increasing) simp_all
  moreover have "Suc r < 2 * 2 ^ l \<or> r = 0" using a(2) by linarith
  moreover have "(2 :: nat) \<le> 2 ^ Suc l" by simp
  ultimately show ?thesis using a(2) unfolding inv_pos_def power_Suc by linarith
qed

lemma rev_bits_inv_pos: "l < K \<Longrightarrow> r < 2 ^ l \<Longrightarrow> Suc (rev_bits K (inv_pos K l r)) = rev_bits K (2 ^ l + r)"
proof (induction l arbitrary: K r)
  case 0
  obtain k where K: "K = Suc k" using 0 by (cases K) auto
  have ones: "Suc (rev_bits n (2 ^ n - 1)) = 2 ^ n" for n
  proof (induction n)
    case (Suc n)
    have "(2 ^ Suc n - 1 :: nat) = 1 + 2 * (2 ^ n - 1)" using one_le_power [of "2 :: nat" n] unfolding power_Suc by linarith
    then have "(2 ^ Suc n - 1 :: nat) div 2 = 2 ^ n - 1" "(2 ^ Suc n - 1 :: nat) mod 2 = 1" by presburger+
    then have "rev_bits (Suc n) (2 ^ Suc n - 1) = 2 ^ n + rev_bits n (2 ^ n - 1)" by (simp only: rev_bits.simps(2))
    then show ?case using Suc by simp
  qed simp
  have "(2 ^ Suc k - 2 :: nat) div 2 = 2 ^ k - 1" "even (2 ^ Suc k - 2 :: nat)" by simp_all
  then have "rev_bits K (inv_pos K 0 r) = rev_bits k (2 ^ k - 1)" using 0 by (simp add: K inv_pos_def)
  moreover have "rev_bits k 0 = 0" by (induction k) simp_all
  then have "rev_bits K (2 ^ 0 + r) = 2 ^ k" using 0 by (simp add: K)
  ultimately show ?case using ones by simp
next
  case (Suc l)
  obtain k where K: "K = Suc k" "l < k" using Suc.prems(1) by (cases K) auto
  have "(2 :: nat) ^ Suc l \<le> 2 ^ k" using K(2) by (intro power_increasing) simp_all
  then have e: "inv_pos K (Suc l) r = 2 * (2 ^ k - 2 ^ Suc l) + r" by (simp add: K inv_pos_def)
  have "inv_pos K (Suc l) r div 2 = inv_pos k l (r div 2)" "inv_pos K (Suc l) r mod 2 = r mod 2"
    unfolding e by (simp_all add: inv_pos_def)
  moreover have "(2 ^ Suc l + r) div 2 = 2 ^ l + r div 2" "(2 ^ Suc l + r) mod 2 = r mod 2" by simp_all
  moreover have "Suc (rev_bits k (inv_pos k l (r div 2))) = rev_bits k (2 ^ l + r div 2)"
    using Suc.prems(2) K(2) by (intro Suc.IH) simp_all
  ultimately show ?case by (simp only: K rev_bits.simps(2))
qed

definition inv_factor :: "ntt_tables \<Rightarrow> nat \<Rightarrow> nat \<Rightarrow> nat \<Rightarrow> int" where
  "inv_factor T K l r = factor (nt_inv_root_powers T ! Suc (inv_pos K l r))"

lemma backward_layer:
  assumes T: "tables_ok (sn_tables B) K \<psi>" and p: "sn_p B = nt_modulus (sn_tables B)" and t: "t < K"
    and G: "\<And>r i. r < 2 ^ (K - Suc t) \<Longrightarrow> mum_ok (sn_p B) (nt_inv_root_powers (sn_tables B) ! Suc (inv_pos K (K - Suc t) r)) \<Longrightarrow>
      realizes (val (sn_p B)) b b' (G r i) (bwd_op (inv_factor (sn_tables B) K (K - Suc t) r))"
    and a: "represents (val (sn_p B)) b (2 ^ K) a (bwd K (inv_factor (sn_tables B) K) t A)"
  shows "represents (val (sn_p B)) b' (2 ^ K) (layer (2 ^ t) (2 ^ (K - Suc t)) G a) (bwd K (inv_factor (sn_tables B) K) (Suc t) A)"
proof -
  have "realizes (val (sn_p B)) b b' (G r i) (bwd_op (inv_factor (sn_tables B) K (K - Suc t) r))" if "r < 2 ^ (K - Suc t)" for r i
  proof (rule G [OF that])
    have "inv_pos K (K - Suc t) r < 2 ^ K - 1" using t that by (intro inv_pos_less) simp_all
    then show "mum_ok (sn_p B) (nt_inv_root_powers (sn_tables B) ! Suc (inv_pos K (K - Suc t) r))"
      using tables_okD(6) [OF T] p by simp
  qed
  then show ?thesis
    using layer_sim [of "val (sn_p B)" b "2 ^ t" "2 ^ (K - Suc t)" a] a pow_split [OF t] by simp
qed

text \<open>The position of the table pointer after \<open>t\<close> layers.\<close>

definition table_pos :: "nat \<Rightarrow> nat \<Rightarrow> nat" where
  "table_pos K t = Suc (2 ^ K - 2 ^ (K - t))"

lemma table_pos_step: "t < K \<Longrightarrow> table_pos K t + 2 ^ (K - Suc t) = table_pos K (Suc t)"
  "t < K \<Longrightarrow> table_pos K t + r = Suc (inv_pos K (K - Suc t) r)"
proof -
  assume t: "t < K"
  then have k: "K - t = Suc (K - Suc t)" by simp
  have "(2 :: nat) ^ (K - t) \<le> 2 ^ K" by (intro power_increasing) simp_all
  then show "table_pos K t + 2 ^ (K - Suc t) = table_pos K (Suc t)" "table_pos K t + r = Suc (inv_pos K (K - Suc t) r)"
    by (simp_all add: table_pos_def inv_pos_def k)
qed

text \<open>One wide layer, whatever part of each group is corrected.\<close>

lemma backward_wide:
  assumes T: "tables_ok (sn_tables B) K \<psi>" and B: "body_ok B Lp" and p: "sn_p B = nt_modulus (sn_tables B)" and Lp: "unat (sn_p B) dvd Lp"
    and t: "2 \<le> t" "t < K" and corr: "corr \<le> 2 ^ t" and f: "f = backward_lazy B \<or> f = backward_corr_lazy B"
    and a: "represents (val (sn_p B)) Lp (2 ^ K) a (bwd K (inv_factor (sn_tables B) K) t A)"
  shows "represents (val (sn_p B)) Lp (2 ^ K)
    (wide_layer f (backward_lazy B) corr (nt_inv_root_powers (sn_tables B)) (table_pos K t) (2 ^ (K - Suc t)) (2 ^ t) a)
    (bwd K (inv_factor (sn_tables B) K) (Suc t) A)"
proof -
  let ?W = "nt_inv_root_powers (sn_tables B)"
  have h: "(2 :: nat) ^ t = 4 * 2 ^ (t - 2)" by (subst le_add_diff_inverse [OF t(1), symmetric]) (simp only: power_add, simp)
  have len: "length a = 2 * 2 ^ t * 2 ^ (K - Suc t)" using a pow_split [OF t(2)] by (simp add: represents_def)
  have "realizes (val (sn_p B)) Lp Lp (f w) (bwd_op (factor w))" "realizes (val (sn_p B)) Lp Lp (backward_lazy B w) (bwd_op (factor w))"
    if "mum_ok (sn_p B) w" for w
    using backward_lazy_ok [OF B Lp that] backward_corr_lazy_ok [OF B Lp that] f by auto
  then show ?thesis unfolding wide_layer_eq [OF h _ corr len, simplified]
    by (intro backward_layer [OF T p t(2) _ a]) (simp add: table_pos_step(2) [OF t(2)] inv_factor_def)
qed

lemma backward_main_run:
  assumes T: "tables_ok (sn_tables B) K \<psi>" and B: "body_ok B Lp" and p: "sn_p B = nt_modulus (sn_tables B)" and Lp: "unat (sn_p B) dvd Lp"
    and nL: "2 \<le> nL"
  shows "2 \<le> t \<Longrightarrow> t + d + 1 = K \<Longrightarrow> represents (val (sn_p B)) Lp (2 ^ K) a (bwd K (inv_factor (sn_tables B) K) t A) \<Longrightarrow>
    \<exists>t' a'. backward_main B (nt_inv_root_powers (sn_tables B)) nL (2 ^ (K - Suc t)) (2 ^ t) (table_pos K t) a
        = (2 ^ (K - Suc t'), 2 ^ t', table_pos K t', a') \<and> 2 \<le> t' \<and> t' < K \<and>
      represents (val (sn_p B)) Lp (2 ^ K) a' (bwd K (inv_factor (sn_tables B) K) t' A)"
proof (induction d arbitrary: t a)
  case 0
  then have "K - Suc t = 0" by simp
  then show ?case using 0 nL by (subst backward_main.simps) auto
next
  case (Suc d)
  let ?W = "nt_inv_root_powers (sn_tables B)"
  have t: "t < K" "K - Suc t = Suc (K - Suc (Suc t))" using Suc.prems(2) by simp_all
  define a1 where "a1 = wide_layer (backward_lazy B) (backward_lazy B) 0 ?W (table_pos K t) (2 ^ (K - Suc t)) (2 ^ t) a"
  have a1: "represents (val (sn_p B)) Lp (2 ^ K) a1 (bwd K (inv_factor (sn_tables B) K) (Suc t) A)"
    unfolding a1_def using Suc.prems by (intro backward_wide [OF T B p Lp]) simp_all
  show ?case
  proof (cases "nL \<le> 2 ^ (K - Suc t)")
    case True
    have "2 ^ (K - Suc t) div 2 = (2 :: nat) ^ (K - Suc (Suc t))" unfolding t(2) by simp
    then have "backward_main B ?W nL (2 ^ (K - Suc t)) (2 ^ t) (table_pos K t) a
        = backward_main B ?W nL (2 ^ (K - Suc (Suc t))) (2 ^ Suc t) (table_pos K (Suc t)) a1"
      using True nL table_pos_step(1) [OF t(1)] by (subst backward_main.simps) (simp add: a1_def)
    moreover have "2 \<le> Suc t" "Suc t + d + 1 = K" using Suc.prems(1,2) by simp_all
    ultimately show ?thesis using Suc.IH [of "Suc t" a1] a1 by simp
  next
    case False
    then show ?thesis using Suc.prems t(1)
      by (subst backward_main.simps) auto
  qed
qed

lemma backward_tail_run:
  assumes T: "tables_ok (sn_tables B) K \<psi>" and B: "body_ok B Lp" and p: "sn_p B = nt_modulus (sn_tables B)" and Lp: "unat (sn_p B) dvd Lp"
    and nL: "nL \<le> 2 ^ K"
  shows "2 \<le> t \<Longrightarrow> t + d + 1 = K \<Longrightarrow> represents (val (sn_p B)) Lp (2 ^ K) a (bwd K (inv_factor (sn_tables B) K) t A) \<Longrightarrow>
    \<exists>a'. backward_tail B (nt_inv_root_powers (sn_tables B)) nL (2 ^ (K - Suc t)) (2 ^ t) (table_pos K t) a = (table_pos K (K - 1), a') \<and>
      represents (val (sn_p B)) Lp (2 ^ K) a' (bwd K (inv_factor (sn_tables B) K) (K - 1) A)"
proof (induction d arbitrary: t a)
  case 0
  then have "K - Suc t = 0" "t = K - 1" by simp_all
  then show ?case using 0 by (subst backward_tail.simps) simp
next
  case (Suc d)
  let ?W = "nt_inv_root_powers (sn_tables B)" and ?m = "2 ^ (K - Suc t) :: nat"
  have t: "t < K" "K - Suc t = Suc (K - Suc (Suc t))" using Suc.prems(2) by simp_all
  have "nL div (2 * ?m) \<le> 2 ^ K div (2 * ?m)" using nL by (rule div_le_mono)
  also have "\<dots> = 2 ^ t" by (simp flip: pow_split [OF t(1)])
  finally have corr: "nL div (2 * ?m) \<le> 2 ^ t" .
  define a1 where "a1 = wide_layer (backward_corr_lazy B) (backward_lazy B) (nL div (2 * ?m)) ?W (table_pos K t) ?m (2 ^ t) a"
  have a1: "represents (val (sn_p B)) Lp (2 ^ K) a1 (bwd K (inv_factor (sn_tables B) K) (Suc t) A)"
    unfolding a1_def using Suc.prems corr by (intro backward_wide [OF T B p Lp]) simp_all
  have "?m div 2 = 2 ^ (K - Suc (Suc t))" unfolding t(2) by simp
  moreover have "1 < ?m" unfolding t(2) power_Suc using one_le_power [of "2 :: nat" "K - Suc (Suc t)"] by linarith
  ultimately have "backward_tail B ?W nL ?m (2 ^ t) (table_pos K t) a
      = backward_tail B ?W nL (2 ^ (K - Suc (Suc t))) (2 ^ Suc t) (table_pos K (Suc t)) a1"
    using table_pos_step(1) [OF t(1)] by (subst backward_tail.simps) (simp add: a1_def)
  moreover have "2 \<le> Suc t" "Suc t + d + 1 = K" using Suc.prems(1,2) by simp_all
  ultimately show ?case using Suc.IH [of "Suc t" a1] a1 by simp
qed

lemma realizes_snd_cong:
  assumes "realizes p b b' g \<beta>" "\<And>x y. fst (\<beta>' x y) = fst (\<beta> x y)" "\<And>x y. snd (\<beta>' x y) mod p = snd (\<beta> x y) mod p"
  shows "realizes p b b' g \<beta>'"
  using assms by (simp add: realizes_def)

text \<open>The constructor's constant of the inverse, and how many groups it leaves uncorrected.\<close>

lemma inverse_body:
  assumes T: "tables_ok T K \<psi>" and K: "3 \<le> K" and p: "nt_modulus T < 2 ^ 59"
  defines "L \<equiv> min (2 ^ K div 2) (2 ^ (64 - nt_bit_count T - 1))"
  shows "\<exists>B. SlothfulNTT_new T (of_nat L) = Inr B \<and> sn_tables B = T \<and> sn_p B = nt_modulus T \<and>
      body_ok B (L * unat (nt_modulus T))" and "2 \<le> 2 ^ K div L" "2 ^ K div L \<le> 2 ^ K"
proof -
  let ?b = "nt_bit_count T" and ?p = "unat (nt_modulus T)"
  have b: "0 < ?b" "?p < 2 ^ ?b" "2 ^ (?b - 1) \<le> ?p" using T by (simp_all add: tables_ok_def Let_def)
  have p59: "?p < 2 ^ 59" using p by (simp add: word_less_nat_alt unat_two_power)
  then have "(2 :: nat) ^ (?b - 1) < 2 ^ 59" using b(3) by linarith
  then have "?b - 1 < 59" by (rule power_less_imp_less_exp [rotated]) simp
  then have b59: "?b \<le> 59" by simp
  have four: "4 \<le> (2 :: nat) ^ K div 2" using power_increasing [OF K, of "2 :: nat"] by simp
  have "(2 :: nat) ^ 4 \<le> 2 ^ (64 - ?b - 1)" using b59 by (intro power_increasing) simp_all
  then have L: "4 \<le> L" "L \<le> 2 ^ K div 2" "L \<le> 2 ^ (63 - ?b)" using four by (simp_all add: L_def)
  have "L * ?p < 2 ^ (63 - ?b) * 2 ^ ?b" using L(1,3) b(2) by (intro mult_le_less_imp_less) simp_all
  also have "\<dots> = 2 ^ 63" using b59 by (simp flip: power_add)
  finally have Lp: "L * ?p < 2 ^ 63" .
  have "1 < ?p" using tables_okD(2) [OF T] .
  then have "L * 1 \<le> L * ?p" by (intro mult_le_mono2) simp
  from le_less_trans [OF this Lp] have "L < 2 ^ 64" by simp
  then have uL: "unat (of_nat L :: u64) = L" by (simp add: unat_of_nat)
  then have "unat (of_nat L * nt_modulus T) = L * ?p" using Lp by (simp add: unat_mult_lem [THEN iffD1])
  moreover have "2 * ?p \<le> L * ?p" using L(1) by (intro mult_le_mono1) simp
  ultimately have "body_ok \<lparr>sn_tables = T, sn_p = nt_modulus T, sn_Lp = of_nat L * nt_modulus T\<rparr> (L * ?p)"
    using T Lp by (simp add: body_ok_def tables_ok_def Let_def)
  moreover have "SlothfulNTT_new T (of_nat L) = Inr \<lparr>sn_tables = T, sn_p = nt_modulus T, sn_Lp = of_nat L * nt_modulus T\<rparr>"
    using p by (simp add: SlothfulNTT_new_def not_le)
  ultimately show "\<exists>B. SlothfulNTT_new T (of_nat L) = Inr B \<and> sn_tables B = T \<and> sn_p B = nt_modulus T \<and> body_ok B (L * ?p)" by auto
  have "2 * L \<le> 2 ^ K" using L(2) by simp
  then show "2 \<le> 2 ^ K div L" using L(1) by (simp add: less_eq_div_iff_mult_less_eq)
  show "2 ^ K div L \<le> 2 ^ K" by (rule div_le_dividend)
qed

lemma slotful_intt_lazy_run:
  assumes T: "tables_ok T K \<psi>" and K: "3 \<le> K" and p: "nt_modulus T < 2 ^ 59"
    and a: "represents (val (nt_modulus T)) b (2 ^ K) a A"
  shows "\<exists>out. slotful_intt_lazy T a = Inr (0, out) \<and> represents (val (nt_modulus T)) (2 * unat (nt_modulus T)) (2 ^ K) out
    (inverse_of K (inv_factor T K) (factor (nt_inv_degree T)) A)"
proof -
  let ?W = "nt_inv_root_powers T" and ?q = "val (nt_modulus T)" and ?\<iota> = "inv_factor T K"
  define L :: nat where "L = min (2 ^ K div 2) (2 ^ (64 - nt_bit_count T - 1))"
  obtain B where new: "SlothfulNTT_new T (of_nat L) = Inr B" and B: "sn_tables B = T" "sn_p B = nt_modulus T"
      "body_ok B (L * unat (nt_modulus T))" and nL: "2 \<le> 2 ^ K div L" "2 ^ K div L \<le> 2 ^ K"
    using inverse_body [OF T K p] unfolding L_def by blast
  have Lp: "unat (sn_p B) dvd L * unat (nt_modulus T)" by (simp add: B)
  obtain j where j: "K = Suc (Suc (Suc j))" using K by (metis Suc_le_D numeral_3_eq_3 Suc_le_mono)
  note w = backward_layer [of B K \<psi>, unfolded B(1,2), OF T refl]
  define a1 where "a1 = layer_one (backward_corr_lazy B) ?W 1 (2 ^ (K - 1)) a"
  have "a1 = layer 1 (2 ^ (K - 1)) (\<lambda>r i. backward_corr_lazy B (?W ! (1 + r))) a"
    unfolding a1_def using a by (intro layer_one_eq) (simp add: represents_def j)
  then have a1: "represents ?q (L * unat (nt_modulus T)) (2 ^ K) a1 (bwd K ?\<iota> 1 A)"
    using w [of 0 b "L * unat (nt_modulus T)" "\<lambda>r i. backward_corr_lazy B (?W ! (1 + r))" a A] a
      backward_corr_lazy_ok [OF B(3) Lp, unfolded B(2)] table_pos_step(2) [of 0 K]
    by (simp add: j inv_factor_def table_pos_def)
  define a2 where "a2 = layer_two (backward_lazy B) ?W (1 + 2 ^ (K - 1)) (2 ^ (K - 2)) a1"
  have pos: "1 + 2 ^ (K - 1) = table_pos K 1" "1 + 2 ^ (K - 1) + 2 ^ (K - 2) = table_pos K 2"
    using table_pos_step(1) [of 0 K] table_pos_step(1) [of 1 K] by (simp_all add: j table_pos_def numeral_2_eq_2)
  have "a2 = layer 2 (2 ^ (K - 2)) (\<lambda>r i. backward_lazy B (?W ! (table_pos K 1 + r))) a1"
    unfolding a2_def pos(1) using a1 by (intro layer_two_eq) (simp add: represents_def j)
  then have a2: "represents ?q (L * unat (nt_modulus T)) (2 ^ K) a2 (bwd K ?\<iota> 2 A)"
    using w [of 1 "L * unat (nt_modulus T)" "L * unat (nt_modulus T)" "\<lambda>r i. backward_lazy B (?W ! (table_pos K 1 + r))" a1 A] a1
      backward_lazy_ok [OF B(3) Lp, unfolded B(2)] table_pos_step(2) [of 1 K]
    by (simp add: j inv_factor_def numeral_2_eq_2)
  have d: "2 + j + 1 = K" "K - Suc 2 = j" by (simp_all add: j)
  obtain t a3 where a3: "backward_main B ?W (2 ^ K div L) (2 ^ j) (2 ^ 2) (table_pos K 2) a2 = (2 ^ (K - Suc t), 2 ^ t, table_pos K t, a3)"
      "2 \<le> t" "t < K" "represents ?q (L * unat (nt_modulus T)) (2 ^ K) a3 (bwd K ?\<iota> t A)"
    using backward_main_run [of B K \<psi>, unfolded B(1,2), OF T B(3) refl Lp [unfolded B(2)] nL(1) order_refl d(1) a2] unfolding d(2) by blast
  have "t + (K - Suc t) + 1 = K" using a3(3) by simp
  then obtain a4 where a4: "backward_tail B ?W (2 ^ K div L) (2 ^ (K - Suc t)) (2 ^ t) (table_pos K t) a3 = (table_pos K (K - 1), a4)"
      "represents ?q (L * unat (nt_modulus T)) (2 ^ K) a4 (bwd K ?\<iota> (K - 1) A)"
    using backward_tail_run [of B K \<psi>, unfolded B(1,2), OF T B(3) refl Lp [unfolded B(2)] nL(2) a3(2) _ a3(4)] by blast
  have wp: "table_pos K (K - 1) = Suc (inv_pos K 0 0)" using table_pos_step(2) [of "K - 1" K 0] by (simp add: j)
  define x where "x = multiply_uint_mod (nt_arith T) (mum_operand (nt_inv_degree T)) (mum_operand (?W ! table_pos K (K - 1))) (nt_modulus T)"
  define iw where "iw = nt_set_operand T x (nt_modulus T)"
  have x: "unat x = unat (mum_operand (nt_inv_degree T)) * unat (mum_operand (?W ! table_pos K (K - 1))) mod unat (nt_modulus T)"
    using tables_okD(10,11) [OF T] by (simp add: x_def seal_arith_ok_def seal_mod_ok_def)
  then have "unat x < unat (nt_modulus T)" using tables_okD(2) [OF T] by simp
  then have "x < nt_modulus T" by (simp only: word_less_nat_alt)
  then have iw: "mum_ok (nt_modulus T) iw" "factor iw = val x" using T by (simp_all add: tables_ok_def Let_def iw_def factor_def)
  have fx: "factor iw mod ?q = factor (nt_inv_degree T) * ?\<iota> 0 0 mod ?q"
    unfolding iw(2) val_nat [OF x] by (simp only: zmod_int of_nat_mult int_unat mod_mod_trivial factor_def inv_factor_def wp)
  define a5 where "a5 = layer (2 ^ (K - 1)) 1 (\<lambda>r i. backward_last_lazy B (nt_inv_degree T) iw) a4"
  have "realizes ?q (L * unat (nt_modulus T)) (2 * unat (nt_modulus T)) (backward_last_lazy B (nt_inv_degree T) iw)
      (\<lambda>x y. ((x + y) * factor (nt_inv_degree T), (x - y) * (factor (nt_inv_degree T) * ?\<iota> 0 0)))"
    using backward_last_lazy_ok [OF B(3) Lp, unfolded B(2), OF tables_okD(8) [OF T] iw(1)] fx
    by (elim realizes_snd_cong) (auto intro: mod_mult_cong)
  then have a5: "represents ?q (2 * unat (nt_modulus T)) (2 ^ K) a5 (inverse_of K ?\<iota> (factor (nt_inv_degree T)) A)"
    using layer_sim [of ?q "L * unat (nt_modulus T)" "2 ^ (K - 1)" 1 a4 "bwd K ?\<iota> (K - 1) A" "2 * unat (nt_modulus T)"
        "\<lambda>r i. backward_last_lazy B (nt_inv_degree T) iw"
        "\<lambda>r x y. ((x + y) * factor (nt_inv_degree T), (x - y) * (factor (nt_inv_degree T) * ?\<iota> 0 0))"] a4(2)
    unfolding a5_def inverse_of_def by (simp add: j)
  have half: "(2 :: nat) ^ K div 2 = 2 ^ (K - 1)" "(2 :: nat) ^ K div 4 = 2 ^ (K - 2)" "(2 :: nat) ^ K div 8 = 2 ^ j"
    "(2 :: nat) ^ K - 2 ^ (K - 1) = 2 ^ (K - 1)" by (simp_all add: j)
  have "length a4 = 2 * 2 ^ (K - 1)" using a4(2) by (simp add: represents_def j)
  then have last: "fold (\<lambda>i. at_pointers (backward_last_lazy B (nt_inv_degree T) iw) i (2 ^ (K - 1) + i)) [0..<2 ^ (K - 1)] a4 = a5"
    unfolding a5_def by (rule last_loop_eq) simp
  have "\<not> (2 :: nat) ^ K < 8" using power_increasing [OF K, of "2 :: nat"] by simp
  moreover have "length a = 2 ^ K" using a by (simp add: represents_def)
  moreover have "table_pos K (Suc 0) + 2 ^ (K - 2) = table_pos K 2" using pos by simp
  moreover have "layer_two (backward_lazy B) ?W (table_pos K (Suc 0)) (2 ^ (K - 2)) a1 = a2"
    unfolding a2_def using pos by simp
  moreover have "nt_set_operand T (multiply_uint_mod (nt_arith T) (mum_operand (nt_inv_degree T))
      (mum_operand (?W ! table_pos K (K - Suc 0))) (nt_modulus T)) (nt_modulus T) = iw"
    by (simp add: iw_def x_def)
  ultimately have "slotful_intt_lazy T a = Inr (0, a5)"
    using new a3(1) a4(1) last tables_okD(1) [OF T]
    by (simp only: slotful_intt_lazy_def Let_def half L_def [symmetric, unfolded half] not_True_eq_False if_False obind_Inr a1_def [symmetric] a2_def [symmetric] pos split
      simp_thms) (simp add: a1_def [symmetric])
  then show ?thesis using a5 by blast
qed

end
