(* ===== verification/SlotfulTransforms.thy ===== *)
theory SlotfulTransforms
  imports SlotfulRoots
begin

text \<open>
  The inverse layers undo the forward ones, and what the two lazy transforms return: the values at the odd powers of the
  root, and the coefficients again.
\<close>

section \<open>Undoing a layer\<close>

lemma abs_layer_at:
  assumes "i < h"
  shows "abs_layer h \<beta> A (2 * h * r + i) = fst (\<beta> r (A (2 * h * r + i)) (A (2 * h * r + h + i)))"
    "abs_layer h \<beta> A (2 * h * r + h + i) = snd (\<beta> r (A (2 * h * r + i)) (A (2 * h * r + h + i)))"
proof -
  have d: "(j + 2 * h * r) div (2 * h) = r" "(j + 2 * h * r) mod (2 * h) = j" if "j < 2 * h" for j
    using that by simp_all
  have low: "(2 * h * r + i) div (2 * h) = r" "(2 * h * r + i) mod (2 * h) = i"
    and high: "(2 * h * r + h + i) div (2 * h) = r" "(2 * h * r + h + i) mod (2 * h) = h + i"
    using d [of i] d [of "h + i"] assms by (simp_all add: ac_simps)
  have "A (2 * h * r + i + h) = A (2 * h * r + h + i)" "A (2 * h * r + h + i - h) = A (2 * h * r + i)"
    by (rule arg_cong [where f = A], simp)+
  then show "abs_layer h \<beta> A (2 * h * r + i) = fst (\<beta> r (A (2 * h * r + i)) (A (2 * h * r + h + i)))"
    "abs_layer h \<beta> A (2 * h * r + h + i) = snd (\<beta> r (A (2 * h * r + i)) (A (2 * h * r + h + i)))"
    using assms by (simp_all only: abs_layer_def low high Let_def if_True if_False not_less_iff_gr_or_eq) simp_all
qed

lemma block_cases:
  assumes "k < 2 * h * m" "0 < (h :: nat)"
  obtains r i where "r < m" "i < h" "k = 2 * h * r + i" | r i where "r < m" "i < h" "k = 2 * h * r + h + i"
proof -
  have k: "k = 2 * h * (k div (2 * h)) + k mod (2 * h)" by simp
  note b = block_bounds [OF assms]
  show thesis
  proof (cases "k mod (2 * h) < h")
    case True
    then show thesis using that(1) [OF b(1)] k by blast
  next
    case False
    then have "k = 2 * h * (k div (2 * h)) + h + (k mod (2 * h) - h)" using k by linarith
    then show thesis using that(2) [OF b(1)] b(3) [OF False] by blast
  qed
qed

lemma block_less: "r < m \<Longrightarrow> i < h \<Longrightarrow> 2 * h * r + i < 2 * h * m \<and> 2 * h * r + h + i < 2 * h * (m :: nat)"
proof -
  assume a: "r < m" "i < h"
  then have "2 * h * Suc r \<le> 2 * h * m" by (intro mult_le_mono2) simp
  then have "2 * h * r + 2 * h \<le> 2 * h * m" by simp
  then show ?thesis using a(2) by linarith
qed

lemma undo_layer:
  assumes h: "0 < h" and inv: "\<And>r. r < m \<Longrightarrow> \<iota> r * w r mod p = 1 mod (p :: int)"
    and B: "\<And>k. k < 2 * h * m \<Longrightarrow> B k mod p = c * abs_layer h (\<lambda>r. fwd_op (w r)) A k mod p"
    and k: "k < 2 * h * m"
  shows "abs_layer h (\<lambda>r x y. ((x + y) * d, (x - y) * (d * \<iota> r))) B k mod p = d * (2 * c) * A k mod p"
proof -
  have low: "B (2 * h * r + i) mod p = c * (A (2 * h * r + i) + w r * A (2 * h * r + h + i)) mod p"
    and high: "B (2 * h * r + h + i) mod p = c * (A (2 * h * r + i) - w r * A (2 * h * r + h + i)) mod p"
    if "r < m" "i < h" for r i
    using B [of "2 * h * r + i"] B [of "2 * h * r + h + i"] block_less [OF that]
    unfolding abs_layer_at [OF that(2)] fwd_op_def by simp_all
  from k h show ?thesis
  proof (cases rule: block_cases)
    case (1 r i)
    let ?x = "A (2 * h * r + i)" and ?y = "A (2 * h * r + h + i)"
    have "(B (2 * h * r + i) + B (2 * h * r + h + i)) * d mod p = (c * (?x + w r * ?y) + c * (?x - w r * ?y)) * d mod p"
      by (intro mod_mult_cong mod_add_cong refl low high 1)
    also have "(c * (?x + w r * ?y) + c * (?x - w r * ?y)) * d = d * (2 * c) * ?x" by (simp add: algebra_simps)
    finally show ?thesis unfolding 1(3) abs_layer_at [OF 1(2)] by simp
  next
    case (2 r i)
    let ?x = "A (2 * h * r + i)" and ?y = "A (2 * h * r + h + i)"
    have "(B (2 * h * r + i) - B (2 * h * r + h + i)) * (d * \<iota> r) mod p
        = (c * (?x + w r * ?y) - c * (?x - w r * ?y)) * (d * \<iota> r) mod p"
      by (intro mod_mult_cong mod_diff_cong refl low high 2)
    also have "(c * (?x + w r * ?y) - c * (?x - w r * ?y)) * (d * \<iota> r) = \<iota> r * w r * (d * (2 * c) * ?y)" by (simp add: algebra_simps)
    also have "\<dots> mod p = 1 * (d * (2 * c) * ?y) mod p" by (intro mod_mult_cong inv 2 refl)
    finally show ?thesis unfolding 2(3) abs_layer_at [OF 2(2)] by simp
  qed
qed

lemma bwd_fwd:
  assumes inv: "\<And>l r. l < K \<Longrightarrow> r < 2 ^ l \<Longrightarrow> \<iota> l r * \<psi> ^ rev_bits K (2 ^ l + r) mod p = 1 mod (p :: int)"
  shows "t \<le> K \<Longrightarrow> k < 2 ^ K \<Longrightarrow> (\<And>k. k < 2 ^ K \<Longrightarrow> B k mod p = fwd K \<psi> K A k mod p) \<Longrightarrow>
    bwd K \<iota> t B k mod p = 2 ^ t * fwd K \<psi> (K - t) A k mod p"
proof (induction t arbitrary: k)
  case (Suc t)
  then have t: "K - t = Suc (K - Suc t)" "K - Suc (K - Suc t) = t" "t < K" by simp_all
  note s = pow_split [OF t(3)]
  have "abs_layer (2 ^ t) (\<lambda>r x y. ((x + y) * 1, (x - y) * (1 * \<iota> (K - Suc t) r))) (bwd K \<iota> t B) k mod p
      = 1 * (2 * 2 ^ t) * fwd K \<psi> (K - Suc t) A k mod p"
  proof (rule undo_layer)
    show "\<iota> (K - Suc t) r * \<psi> ^ rev_bits K (2 ^ (K - Suc t) + r) mod p = 1 mod p" if "r < 2 ^ (K - Suc t)" for r
      using t(3) that by (intro inv) simp_all
    show "bwd K \<iota> t B k mod p = 2 ^ t * abs_layer (2 ^ t) (\<lambda>r. fwd_op (\<psi> ^ rev_bits K (2 ^ (K - Suc t) + r))) (fwd K \<psi> (K - Suc t) A) k mod p"
      if "k < 2 * 2 ^ t * 2 ^ (K - Suc t)" for k
      using Suc.IH [of k] Suc.prems(3) that t by (simp add: s)
  qed (use Suc.prems(2) in \<open>simp_all only: s\<close>, simp)
  then show ?case by (simp add: bwd_op_def [abs_def])
qed simp

lemma inverse_of_fwd:
  assumes inv: "\<And>l r. l < K \<Longrightarrow> r < 2 ^ l \<Longrightarrow> \<iota> l r * \<psi> ^ rev_bits K (2 ^ l + r) mod p = 1 mod (p :: int)"
    and K: "0 < K" and c: "c * 2 ^ K mod p = 1 mod p"
    and B: "\<And>k. k < 2 ^ K \<Longrightarrow> B k mod p = fwd K \<psi> K A k mod p" and k: "k < 2 ^ K"
  shows "inverse_of K \<iota> c B k mod p = A k mod p"
proof -
  have two: "2 * 2 ^ (K - 1) = (2 :: nat) ^ K" "2 * 2 ^ (K - 1) = (2 :: int) ^ K" using K by (simp_all flip: power_Suc)
  have "abs_layer (2 ^ (K - 1)) (\<lambda>r x y. ((x + y) * c, (x - y) * (c * \<iota> 0 0))) (bwd K \<iota> (K - 1) B) k mod p
      = c * (2 * 2 ^ (K - 1)) * A k mod p"
  proof (rule undo_layer [where m = 1])
    show "\<iota> 0 0 * \<psi> ^ rev_bits K (2 ^ 0 + 0) mod p = 1 mod p" using K by (intro inv) simp_all
    show "bwd K \<iota> (K - 1) B k mod p = 2 ^ (K - 1) * abs_layer (2 ^ (K - 1)) (\<lambda>r. fwd_op (\<psi> ^ rev_bits K (2 ^ 0 + 0))) A k mod p"
      if "k < 2 * 2 ^ (K - 1) * 1" for k
    proof -
      have "k < 2 ^ K" using that by (simp only: mult_1_right two)
      then have "bwd K \<iota> (K - 1) B k mod p = 2 ^ (K - 1) * fwd K \<psi> (K - (K - 1)) A k mod p"
        using bwd_fwd [OF inv _ _ B] by (metis diff_le_self)
      moreover have "fwd K \<psi> (K - (K - 1)) A k = abs_layer (2 ^ (K - 1)) (\<lambda>r. fwd_op (\<psi> ^ rev_bits K (2 ^ 0 + r))) A k"
        using K by simp
      moreover have "\<dots> = abs_layer (2 ^ (K - 1)) (\<lambda>r. fwd_op (\<psi> ^ rev_bits K (2 ^ 0 + 0))) A k"
        using that by (simp add: abs_layer_def div_less)
      ultimately show ?thesis by simp
    qed
  qed (use k in \<open>simp_all only: two mult_1_right zero_less_power zero_less_numeral\<close>)
  also have "\<dots> = 1 * A k mod p" unfolding two using c by (intro mod_mult_cong refl)
  finally show ?thesis by (simp add: inverse_of_def)
qed


section \<open>The transforms\<close>

lemma representsI:
  "length a = n \<Longrightarrow> (\<forall>x \<in> set a. unat x < b) \<Longrightarrow> represents p b n a (\<lambda>k. val (a ! k))"
  by (simp add: represents_def)

lemma inv_factors:
  assumes T: "tables_ok T K \<psi>" and l: "l < K" "r < 2 ^ l"
  shows "inv_factor T K l r * \<psi> ^ rev_bits K (2 ^ l + r) mod val (nt_modulus T) = 1 mod val (nt_modulus T)"
  using tables_okD(7) [OF T inv_pos_less [OF l]] by (simp only: inv_factor_def rev_bits_inv_pos [OF l])

text \<open>
  C18. \<open>slotful_ntt_lazy\<close>: with the tables of a \<open>2^(K+1)\<close>-th primitive root of unity \<open>\<psi>\<close> modulo a prime below
  \<open>2^59\<close>, for \<open>2^2\<close> to \<open>2^15\<close> coefficients below \<open>4p\<close>, no addition of the lazy butterflies wraps round; the routine returns 0,
  every output word is below \<open>4p\<close> again, and the word at position \<open>r\<close> is congruent to the value of the polynomial
  at the odd power of \<open>\<psi>\<close> that the bit reversal of \<open>r\<close> names.
\<close>

theorem slotful_ntt_lazy_evaluates:
  assumes "tables_ok T K \<psi>" "2 \<le> K" "K \<le> 15" "nt_modulus T < 2 ^ 59"
    and "length a = 2 ^ K" "\<forall>x \<in> set a. unat x < 4 * unat (nt_modulus T)"
  shows "\<exists>out. slotful_ntt_lazy T a = Inr (0, out) \<and> length out = 2 ^ K \<and>
    (\<forall>r < 2 ^ K. unat (out ! r) < 4 * unat (nt_modulus T) \<and>
      val (out ! r) mod val (nt_modulus T)
        = (\<Sum>j<2 ^ K. val (a ! j) * \<psi> ^ ((2 * rev_bits K r + 1) * j)) mod val (nt_modulus T))"
proof -
  obtain out where "slotful_ntt_lazy T a = Inr (0, out)"
      "represents (val (nt_modulus T)) (4 * unat (nt_modulus T)) (2 ^ K) out (fwd K \<psi> K (\<lambda>k. val (a ! k)))"
    using slotful_ntt_lazy_run [OF assms(1-4) representsI [OF assms(5,6)]] by blast
  then show ?thesis by (auto simp: represents_def fwd_values [OF tables_okD(3) [OF assms(1)]])
qed

text \<open>
  C17. \<open>slotful_intt_lazy\<close> after \<open>slotful_ntt_lazy\<close>: for \<open>2^3\<close> to \<open>2^15\<close> coefficients below \<open>4p\<close>
  both routines return 0, whatever number of groups the constant \<open>L\<close> of the inverse leaves uncorrected, and the
  result has words below \<open>2p\<close> congruent to the coefficients of the start.
\<close>

theorem slotful_transforms_round_trip:
  assumes T: "tables_ok T K \<psi>" and K: "3 \<le> K" "K \<le> 15" and p: "nt_modulus T < 2 ^ 59"
    and a: "length a = 2 ^ K" "\<forall>x \<in> set a. unat x < 4 * unat (nt_modulus T)"
  shows "\<exists>b out. slotful_ntt_lazy T a = Inr (0, b) \<and> slotful_intt_lazy T b = Inr (0, out) \<and> length out = 2 ^ K \<and>
    (\<forall>k < 2 ^ K. unat (out ! k) < 2 * unat (nt_modulus T) \<and>
      val (out ! k) mod val (nt_modulus T) = val (a ! k) mod val (nt_modulus T))"
proof -
  have "2 \<le> K" using K(1) by simp
  from slotful_ntt_lazy_run [OF T this K(2) p representsI [OF a]]
  obtain b where b: "slotful_ntt_lazy T a = Inr (0, b)"
      "represents (val (nt_modulus T)) (4 * unat (nt_modulus T)) (2 ^ K) b (fwd K \<psi> K (\<lambda>k. val (a ! k)))" by blast
  from slotful_intt_lazy_run [OF T K(1) p b(2)]
  obtain out where out: "slotful_intt_lazy T b = Inr (0, out)"
      "represents (val (nt_modulus T)) (2 * unat (nt_modulus T)) (2 ^ K) out
        (inverse_of K (inv_factor T K) (factor (nt_inv_degree T)) (fwd K \<psi> K (\<lambda>k. val (a ! k))))" by blast
  have "inverse_of K (inv_factor T K) (factor (nt_inv_degree T)) (fwd K \<psi> K (\<lambda>k. val (a ! k))) k mod val (nt_modulus T)
      = val (a ! k) mod val (nt_modulus T)" if "k < 2 ^ K" for k
    by (rule inverse_of_fwd [OF inv_factors [OF T] _ tables_okD(9) [OF T] refl that]) (use K(1) in simp_all)
  then show ?thesis using b(1) out by (auto simp: represents_def)
qed

section \<open>Tables of eight coefficients modulo 17\<close>

definition mum_of :: "nat \<Rightarrow> mum" where
  "mum_of x = \<lparr>mum_operand = of_nat x, mum_quotient = of_nat (x * 2 ^ 64 div 17)\<rparr>"

definition tables8 :: ntt_tables where
  "tables8 = \<lparr>nt_arith = seal_ref, nt_coeff_count_power = 3, nt_modulus = 17, nt_bit_count = 5,
     nt_root_powers = map (\<lambda>k. mum_of (3 ^ rev_bits 3 k mod 17)) [0..<8],
     nt_inv_root_powers = mum_of 1 # map (\<lambda>s. mum_of (6 ^ Suc (rev_bits 3 s) mod 17)) [0..<7],
     nt_inv_degree = mum_of 15,
     nt_multiply_hw64 = (\<lambda>x y. of_nat (unat x * unat y div 2 ^ 64)),
     nt_set_operand = (\<lambda>x p. mum_of (unat x))\<rparr>"

lemma mum_of_ok: "x < 17 \<Longrightarrow> mum_ok 17 (mum_of x)" "x < 17 \<Longrightarrow> factor (mum_of x) = int x"
proof -
  assume x: "x < 17"
  then have "x * 2 ^ 64 div 17 < 2 ^ 64" by (simp add: div_less_iff_less_mult)
  then show "mum_ok 17 (mum_of x)" using x by (simp add: mum_ok_def mum_of_def unat_of_nat)
  show "factor (mum_of x) = int x" using x by (simp add: factor_def mum_of_def val_def unat_of_nat)
qed

lemma hw64_ref: "unat (of_nat (unat (x :: u64) * unat (y :: u64) div 2 ^ 64) :: u64) = unat x * unat y div 2 ^ 64"
proof -
  have "unat x * unat y < 2 ^ 64 * 2 ^ 64" by (intro mult_strict_mono unat64_less) simp_all
  then have "unat x * unat y div 2 ^ 64 < 2 ^ 64" by (simp add: div_less_iff_less_mult)
  then show ?thesis by (simp add: unat_of_nat)
qed

lemma tables8_ok: "tables_ok tables8 3 3"
proof -
  have three: "k < 8 \<Longrightarrow> k \<in> set [0, 1, 2, 3, 4, 5, 6, 7]" for k :: nat by (simp, presburger)
  have root: "mum_ok 17 (nt_root_powers tables8 ! k) \<and> factor (nt_root_powers tables8 ! k) mod 17 = 3 ^ rev_bits 3 k mod 17"
    if "k < 8" for k
  proof -
    have e: "nt_root_powers tables8 ! k = mum_of (3 ^ rev_bits 3 k mod 17)" using that by (simp add: tables8_def)
    show ?thesis unfolding e by (simp add: mum_of_ok zmod_int)
  qed
  have inv: "mum_ok 17 (nt_inv_root_powers tables8 ! Suc s) \<and>
      factor (nt_inv_root_powers tables8 ! Suc s) * 3 ^ Suc (rev_bits 3 s) mod 17 = 1 mod 17" if "s < 7" for s
  proof -
    have e: "nt_inv_root_powers tables8 ! Suc s = mum_of (6 ^ Suc (rev_bits 3 s) mod 17)" using that by (simp add: tables8_def)
    have "int (6 ^ Suc n mod 17) * 3 ^ Suc n mod 17 = (6 * 3) ^ Suc n mod 17" for n
      by (simp only: zmod_int of_nat_power of_nat_numeral mod_mult_left_eq power_mult_distrib)
    also have "(6 * 3) ^ Suc n mod (17 :: int) = (18 mod 17) ^ Suc n mod 17" for n by (simp only: power_mod) simp
    finally show ?thesis unfolding e by (simp add: mum_of_ok)
  qed
  have "mum_operand (mum_of (unat x)) = x" "mum_ok 17 (mum_of (unat x))" if "x < 17" for x :: u64
    using that mum_of_ok(1) [of "unat x"] by (simp_all add: mum_of_def word_less_nat_alt)
  then show ?thesis
    using root inv mum_of_ok [of 15] seal_arith_ok_ref
    unfolding tables_ok_def Let_def
    by (simp add: tables8_def valid_modulus_def hw64_ref [simplified] val_def)
qed

lemma slotful_ntt_lazy_evaluates_witness:
  "\<exists>out. slotful_ntt_lazy tables8 [67, 1, 2, 3, 4, 5, 6, 7] = Inr (0, out) \<and> length out = 2 ^ 3 \<and>
    (\<forall>r < 2 ^ 3. unat (out ! r) < 4 * unat (nt_modulus tables8) \<and>
      val (out ! r) mod val (nt_modulus tables8)
        = (\<Sum>j<2 ^ 3. val ([67, 1, 2, 3, 4, 5, 6, 7] ! j) * 3 ^ ((2 * rev_bits 3 r + 1) * j)) mod val (nt_modulus tables8))"
  by (rule slotful_ntt_lazy_evaluates [OF tables8_ok]) (simp_all add: tables8_def)

lemma slotful_transforms_round_trip_witness:
  "\<exists>b out. slotful_ntt_lazy tables8 [67, 1, 2, 3, 4, 5, 6, 7] = Inr (0, b) \<and> slotful_intt_lazy tables8 b = Inr (0, out) \<and>
    length out = 2 ^ 3 \<and>
    (\<forall>k < 2 ^ 3. unat (out ! k) < 2 * unat (nt_modulus tables8) \<and>
      val (out ! k) mod val (nt_modulus tables8) = val ([67, 1, 2, 3, 4, 5, 6, 7] ! k) mod val (nt_modulus tables8))"
  by (rule slotful_transforms_round_trip [OF tables8_ok]) (simp_all add: tables8_def)

end
