(* ===== verification/Doubles.thy ===== *)
theory Doubles
  imports Views "HOL-Library.Log_Nat" Complex_Main
begin

text \<open>
  Fixed-point conversion of the Python module (\<open>RealTo2k\<close> and \<open>U2kToReal\<close> in \<open>src/mvp_sdk/python/wrapper.cc\<close>). A
  finite \<open>double\<close> or \<open>float\<close> is a mantissa and an exponent of two; what the operations of IEEE arithmetic round is
  written out, to the nearest number of \<open>p\<close> significant bits, ties to even. Exponents are unbounded; a number
  that is not finite stands for infinities and NaN.
\<close>

section \<open>Numbers and rounding\<close>

datatype double = Finite int int | Nonfinite

definition round_even :: "int \<Rightarrow> int \<Rightarrow> int" where
  "round_even n d = (let q = n div d; r = n mod d
     in if 2 * r < d \<or> 2 * r = d \<and> even q then q else q + 1)"

text \<open>The quotient \<open>n / d * 2 ^ e\<close> with \<open>p\<close> significant bits.\<close>

definition quotient_at :: "int \<Rightarrow> int \<Rightarrow> int \<Rightarrow> int \<times> int" where
  "quotient_at n d t = (n * 2 ^ nat (- t), d * 2 ^ nat t)"

definition round_ratio :: "nat \<Rightarrow> int \<Rightarrow> int \<Rightarrow> int \<Rightarrow> double" where
  "round_ratio p n d e =
     (if n = 0 then Finite 0 0
      else let t = int (floorlog 2 (nat \<bar>n\<bar>)) - int (floorlog 2 (nat d)) - int p;
               (num, den) = quotient_at \<bar>n\<bar> d t;
               t = (if 2 ^ p * den \<le> num then t + 1 else t);
               (num, den) = quotient_at \<bar>n\<bar> d t
           in Finite (sgn n * round_even num den) (e + t))"

fun double_mult :: "double \<Rightarrow> double \<Rightarrow> double" where
  "double_mult (Finite m e) (Finite n f) = round_ratio 53 (m * n) 1 (e + f)"
| "double_mult _ _ = Nonfinite"

fun double_divide :: "double \<Rightarrow> double \<Rightarrow> double" where
  "double_divide (Finite m e) (Finite n f) =
     (if n = 0 then Nonfinite else round_ratio 53 (m * sgn n) \<bar>n\<bar> (e - f))"
| "double_divide _ _ = Nonfinite"

fun float_of_double :: "double \<Rightarrow> double" where
  "float_of_double (Finite m e) = round_ratio 24 m 1 e"
| "float_of_double Nonfinite = Nonfinite"

text \<open>\<open>std::roundf\<close>: to the nearest integer, halves away from zero.\<close>

definition round_away :: "int \<Rightarrow> int \<Rightarrow> int" where
  "round_away m e =
     (if 0 \<le> e then m * 2 ^ nat e
      else sgn m * ((2 * \<bar>m\<bar> + 2 ^ nat (- e)) div (2 * 2 ^ nat (- e))))"

text \<open>The cast to \<open>int64_t\<close> is undefined outside its range.\<close>

fun int64_of_rounded :: "double \<Rightarrow> u64 outcome" where
  "int64_of_rounded (Finite m e) =
     (let v = round_away m e
      in if - (2 ^ 63) \<le> v \<and> v < 2 ^ 63 then Inr (word_of_int v) else Inl (Undefined ''static_cast<int64_t>''))"
| "int64_of_rounded Nonfinite = Inl (Undefined ''static_cast<int64_t>'')"

definition RealTo2k :: "double \<Rightarrow> double \<Rightarrow> u64 outcome" where
  "RealTo2k r scale = int64_of_rounded (float_of_double (double_mult r scale))"

definition U2kToReal :: "u64 \<Rightarrow> double \<Rightarrow> double" where
  "U2kToReal r scale = double_divide (round_ratio 53 (sint r) 1 0) scale"

section \<open>Rounding errors\<close>

definition value_of :: "int \<Rightarrow> int \<Rightarrow> real" where
  "value_of m e = of_int m * 2 powi e"

lemma round_even_error:
  assumes "0 < d"
  shows "2 * \<bar>n - d * round_even n d\<bar> \<le> d"
proof -
  define q where "q = n div d"
  define r where "r = n mod d"
  have n: "n = d * q + r" "0 \<le> r" "r < d" using assms by (simp_all add: q_def r_def)
  have "d * (q + 1) = d * q + d" by (simp add: algebra_simps)
  then show ?thesis using n by (auto simp: round_even_def Let_def simp flip: q_def r_def)
qed

lemma quotient_at_value:
  assumes "quotient_at n d t = (num, den)" "0 < d"
  shows "0 < den" "of_int num = (of_int n / of_int d :: real) * 2 powi (- t) * of_int den"
proof -
  show "0 < den" using assms by (auto simp: quotient_at_def)
  have e: "num = n * 2 ^ nat (- t)" "den = d * 2 ^ nat t" using assms(1) by (simp_all add: quotient_at_def)
  have "(2 :: real) powi (- t) * 2 ^ nat t = 2 ^ nat (- t)"
    by (cases "0 \<le> t") (simp_all add: power_int_def power_one_over)
  then show "of_int num = (of_int n / of_int d :: real) * 2 powi (- t) * of_int den"
    using assms(2) by (simp add: e)
qed

text \<open>The chosen exponent leaves at least \<open>p\<close> bits before the point.\<close>

lemma quotient_bits:
  assumes n: "0 < n" and d: "0 < d" and t: "t = int (floorlog 2 (nat n)) - int (floorlog 2 (nat d)) - int p"
    and q: "quotient_at n d t = (num, den)"
  shows "2 ^ p * den \<le> 2 * num"
proof -
  let ?l = "floorlog 2 (nat n)" and ?k = "floorlog 2 (nat d)"
  have "nat d < 2 ^ ?k" "2 ^ (?l - 1) \<le> nat n" using floorlog_bounds [of "nat d" 2] floorlog_bounds [of "nat n" 2] n d by simp_all
  moreover have "0 < ?l" using n by (simp add: floorlog_def)
  ultimately have "2 ^ ?l \<le> 2 * nat n" by (cases ?l) simp_all
  then have b: "2 ^ ?l \<le> 2 * n" "d \<le> 2 ^ ?k" using \<open>nat d < 2 ^ ?k\<close> n d by (simp_all add: nat_less_iff flip: of_nat_le_iff [where 'a = int])
  have "2 ^ p * den \<le> 2 ^ p * (2 ^ ?k * 2 ^ nat t)" using q b(2) by (auto simp: quotient_at_def)
  also have "\<dots> = 2 ^ (p + ?k + nat t)" by (simp add: power_add)
  also have "p + ?k + nat t = ?l + nat (- t)" using t by linarith
  also have "(2 :: int) ^ (?l + nat (- t)) = 2 ^ ?l * 2 ^ nat (- t)" by (simp add: power_add)
  also have "\<dots> \<le> 2 * n * 2 ^ nat (- t)" using b(1) by (intro mult_right_mono) simp_all
  finally show ?thesis using q by (auto simp: quotient_at_def)
qed

lemma quotient_bits_next:
  assumes q: "quotient_at n d t = (num, den)" "2 ^ p * den \<le> num" and q': "quotient_at n d (t + 1) = (num', den')"
  shows "2 ^ p * den' \<le> 2 * num'"
proof (cases "0 \<le> t")
  case True
  then have "nat (t + 1) = Suc (nat t)" by simp
  then show ?thesis using q q' True by (auto simp: quotient_at_def)
next
  case False
  then have "nat (- t) = Suc (nat (- (t + 1)))" "nat (t + 1) = 0" "nat t = 0" by simp_all
  then show ?thesis using q q' by (auto simp: quotient_at_def)
qed

lemma round_ratio_error:
  assumes d: "0 < d" and r: "round_ratio p n d e = Finite m f"
  shows "2 ^ p * \<bar>value_of m f - of_int n / of_int d * 2 powi e\<bar> \<le> \<bar>of_int n / of_int d * 2 powi e :: real\<bar>"
proof (cases "n = 0")
  case True
  then show ?thesis using r by (simp add: round_ratio_def value_of_def)
next
  case False
  define t0 where "t0 = int (floorlog 2 (nat \<bar>n\<bar>)) - int (floorlog 2 (nat d)) - int p"
  obtain num0 den0 where q0: "quotient_at \<bar>n\<bar> d t0 = (num0, den0)" by fastforce
  define t where "t = (if 2 ^ p * den0 \<le> num0 then t0 + 1 else t0)"
  obtain num den where q: "quotient_at \<bar>n\<bar> d t = (num, den)" by fastforce
  have mf: "m = sgn n * round_even num den" "f = e + t"
    using r False q0 q by (simp_all add: round_ratio_def Let_def flip: t0_def t_def)
  have bits: "2 ^ p * den \<le> 2 * num"
  proof (cases "2 ^ p * den0 \<le> num0")
    case True
    then show ?thesis using quotient_bits_next [OF q0 True] q by (simp add: t_def)
  next
    case False
    then have "num = num0 \<and> den = den0" using q q0 by (simp add: t_def)
    then show ?thesis using quotient_bits [OF _ d t0_def q0] \<open>n \<noteq> 0\<close> by simp
  qed
  note v = quotient_at_value [OF q d]
  define R where "R = round_even num den"
  define X where "X = (of_int \<bar>n\<bar> / of_int d :: real) * 2 powi (- t)"
  have num: "of_int num = X * of_int den" using v(2) by (simp add: X_def)
  have "2 * \<bar>num - den * R\<bar> \<le> den" unfolding R_def by (rule round_even_error [OF v(1)])
  then have "2 * \<bar>of_int num - of_int den * of_int R\<bar> \<le> (of_int den :: real)" by (simp flip: of_int_mult of_int_diff of_int_abs)
  moreover have "of_int num - of_int den * of_int R = of_int den * (X - of_int R)" by (simp add: num algebra_simps)
  ultimately have "of_int den * (2 * \<bar>of_int R - X\<bar>) \<le> of_int den * (1 :: real)"
    using v(1) by (simp add: abs_mult abs_minus_commute)
  then have err: "2 * \<bar>of_int R - X\<bar> \<le> 1" using v(1) by (simp only: mult_le_cancel_left_pos of_int_0_less_iff)
  have "of_int (2 ^ p * den) \<le> (of_int (2 * num) :: real)" using bits by (simp only: of_int_le_iff)
  then have "of_int den * 2 ^ p \<le> of_int den * (2 * X)" by (simp add: num mult.commute mult.left_commute)
  then have big: "2 ^ p \<le> 2 * X" using v(1) by (simp only: mult_le_cancel_left_pos of_int_0_less_iff)
  have "2 ^ p * (2 * \<bar>of_int R - X\<bar>) \<le> 2 * X * 1" by (rule mult_mono [OF big err]) (use big in \<open>simp_all add: order.trans [OF _ big]\<close>)
  then have rel: "2 ^ p * \<bar>of_int R - X\<bar> \<le> X" by simp
  have "(2 :: real) powi f = 2 powi e * 2 powi t" by (simp add: mf(2) power_int_add)
  moreover have "of_int n / of_int d * 2 powi e = sgn (of_int n) * X * (2 powi e * 2 powi t)"
  proof -
    have "(of_int n :: real) = sgn (of_int n) * \<bar>of_int n\<bar>" by (simp add: sgn_mult_abs)
    then show ?thesis by (simp add: X_def power_int_minus field_simps)
  qed
  ultimately have "value_of m f - of_int n / of_int d * 2 powi e = sgn (of_int n) * (of_int R - X) * (2 powi e * 2 powi t)"
    by (simp add: value_of_def mf(1) R_def algebra_simps sgn_if)
  moreover have "\<bar>of_int n / of_int d * 2 powi e\<bar> = X * (2 powi e * 2 powi t)"
    using d by (simp add: X_def power_int_minus field_simps abs_mult)
  ultimately show ?thesis using rel False by (simp add: abs_mult sgn_if mult_right_mono del: of_int_abs)
qed


lemma round_away_error: "\<bar>of_int (round_away m e) - value_of m e\<bar> \<le> 1 / 2"
proof (cases "0 \<le> e")
  case True
  then show ?thesis by (simp add: round_away_def value_of_def power_int_def)
next
  case False
  define g :: int where "g = 2 ^ nat (- e)"
  have g: "0 < g" "2 powi e = (1 / of_int g :: real)" using False by (simp_all add: g_def power_int_def power_one_over inverse_eq_divide)
  define q where "q = (2 * \<bar>m\<bar> + g) div (2 * g)"
  define r where "r = (2 * \<bar>m\<bar> + g) mod (2 * g)"
  have "2 * \<bar>m\<bar> + g = 2 * (g * q) + r" by (simp add: q_def r_def mult.assoc [symmetric])
  moreover have "0 \<le> r" "r < 2 * g" using g(1) by (simp_all add: r_def)
  ultimately have "2 * (g * q) - 2 * \<bar>m\<bar> \<le> g" "2 * \<bar>m\<bar> - 2 * (g * q) \<le> g" by linarith+
  then have "2 * \<bar>g * q - \<bar>m\<bar>\<bar> \<le> g" by (auto simp: abs_if)
  then have "of_int (2 * \<bar>g * q - \<bar>m\<bar>\<bar>) \<le> (of_int g :: real)" by (simp only: of_int_le_iff)
  moreover have "of_int (2 * \<bar>g * q - \<bar>m\<bar>\<bar>) = of_int g * (2 * \<bar>of_int q - of_int \<bar>m\<bar> / of_int g :: real\<bar>)"
  proof -
    have "of_int g * (of_int q - of_int \<bar>m\<bar> / of_int g :: real) = of_int (g * q - \<bar>m\<bar>)" using g(1) by (simp add: right_diff_distrib)
    then have "\<bar>of_int g :: real\<bar> * \<bar>of_int q - of_int \<bar>m\<bar> / of_int g :: real\<bar> = \<bar>of_int (g * q - \<bar>m\<bar>)\<bar>"
      by (simp only: abs_mult [symmetric])
    then show ?thesis using g(1) by simp
  qed
  ultimately have "of_int g * (2 * \<bar>of_int q - of_int \<bar>m\<bar> / of_int g :: real\<bar>) \<le> of_int g * 1" by simp
  then have "2 * \<bar>of_int q - of_int \<bar>m\<bar> / of_int g :: real\<bar> \<le> 1" using g(1) by (simp only: mult_le_cancel_left_pos of_int_0_less_iff)
  moreover have "of_int (sgn m) * \<bar>of_int m :: real\<bar> = of_int m" by (simp add: sgn_if)
  then have "of_int (round_away m e) - value_of m e = of_int (sgn m) * (of_int q - of_int \<bar>m\<bar> / of_int g)"
    using False g(2) by (simp add: round_away_def value_of_def q_def right_diff_distrib mult_sgn_abs flip: g_def of_int_mult)
  ultimately show ?thesis by (auto simp: abs_mult sgn_if)
qed

text \<open>
  C29. \<open>RealTo2k\<close>: whenever the conversion of a finite number is defined, the signed word differs from the exact
  product of number and scale by the rounding to an integer, and by the roundings of the product to a \<open>double\<close> and, since
  the code rounds with \<open>roundf\<close>, to a \<open>float\<close>: half a unit plus less than \<open>2 ^ -23\<close> of the product.
\<close>

theorem RealTo2k_accuracy:
  assumes "RealTo2k (Finite m e) (Finite n f) = Inr w"
  shows "\<bar>of_int (sint w) - value_of m e * value_of n f\<bar> \<le> 1 / 2 + \<bar>value_of m e * value_of n f\<bar> / 2 ^ 23"
proof -
  let ?x = "value_of m e * value_of n f :: real"
  have x: "?x = of_int (m * n) / of_int 1 * 2 powi (e + f)" by (simp add: value_of_def power_int_add)
  obtain m1 e1 where d: "round_ratio 53 (m * n) 1 (e + f) = Finite m1 e1"
    using assms by (cases "round_ratio 53 (m * n) 1 (e + f)") (simp_all add: RealTo2k_def)
  obtain m2 e2 where s: "round_ratio 24 m1 1 e1 = Finite m2 e2"
    using assms d by (cases "round_ratio 24 m1 1 e1") (simp_all add: RealTo2k_def)
  have w: "sint w = round_away m2 e2"
    using assms d s by (auto simp: RealTo2k_def Let_def sint_sbintrunc' signed_take_bit_int_eq_self split: if_splits)
  have 1: "2 ^ 53 * \<bar>value_of m1 e1 - ?x\<bar> \<le> \<bar>?x\<bar>" unfolding x using round_ratio_error [OF _ d] by simp
  have 2: "2 ^ 24 * \<bar>value_of m2 e2 - value_of m1 e1\<bar> \<le> \<bar>value_of m1 e1\<bar>"
    using round_ratio_error [OF _ s] by (simp add: value_of_def)
  have 3: "\<bar>of_int (sint w) - value_of m2 e2\<bar> \<le> 1 / 2" unfolding w by (rule round_away_error)
  define d1 d2 d3 where "d1 = \<bar>value_of m1 e1 - ?x\<bar>" and "d2 = \<bar>value_of m2 e2 - value_of m1 e1\<bar>"
    and "d3 = \<bar>of_int (sint w) - value_of m2 e2\<bar>"
  have "d1 * 9007199254740992 \<le> \<bar>?x\<bar>" "d2 * 16777216 \<le> \<bar>value_of m1 e1\<bar>" "d3 \<le> 1 / 2"
    using 1 2 3 by (simp_all add: d1_def d2_def d3_def mult.commute)
  moreover have "\<bar>of_int (sint w) - ?x\<bar> \<le> d3 + (d2 + d1)" "\<bar>value_of m1 e1\<bar> \<le> \<bar>?x\<bar> + d1"
    unfolding d1_def d2_def d3_def by linarith+
  moreover have "1 / 2 + \<bar>?x\<bar> / 2 ^ 23 = 1 / 2 + \<bar>?x\<bar> / 8388608" by simp
  moreover have "0 \<le> \<bar>?x\<bar>" by simp
  ultimately show ?thesis by linarith
qed

text \<open>With the usual scale \<open>2 ^ 15\<close>, 0.75 is exact; \<open>2 ^ 24 + 1\<close> with scale 1 is not.\<close>

theorem RealTo2k_accuracy_witness:
  "RealTo2k (Finite 3 (- 2)) (Finite 1 15) = Inr 24576 \<and>
   \<bar>of_int (sint (24576 :: u64)) - value_of 3 (- 2) * value_of 1 15\<bar> \<le> 1 / 2 + \<bar>value_of 3 (- 2) * value_of 1 15\<bar> / 2 ^ 23"
proof -
  have "RealTo2k (Finite 3 (- 2)) (Finite 1 15) = Inr 24576"
    by (simp add: RealTo2k_def round_ratio_def compute_floorlog quotient_at_def round_even_def round_away_def Let_def)
  then show ?thesis using RealTo2k_accuracy [of 3 "- 2" 1 15 24576] by blast
qed

lemma RealTo2k_loses: "RealTo2k (Finite 16777217 0) (Finite 1 0) = Inr 16777216"
  by (simp add: RealTo2k_def round_ratio_def compute_floorlog quotient_at_def round_even_def round_away_def Let_def)

end
