(* ===== verification/Framing.thy ===== *)
theory Framing
  imports Views Shapes
begin

text \<open>
  The string format in which the Python module (\<open>src/mvp_sdk/python/wrapper.cc\<close>) keeps the ciphertexts of a
  product: for each block of rows the length, printed as a decimal number of ten digits, then the bytes. The reader
  passes the end of a record as the second argument of \<open>substr\<close>, which is a length.
\<close>

section \<open>Library functions on strings\<close>

text \<open>\<open>std::to_string\<close> and \<open>atoi\<close>: a number that \<open>int\<close> does not hold is undefined.\<close>

definition digit_char :: "nat \<Rightarrow> char" where
  "digit_char d = char_of (48 + d)"

fun to_string :: "nat \<Rightarrow> string" where
  "to_string n = (if n < 10 then [digit_char n] else to_string (n div 10) @ [digit_char (n mod 10)])"

declare to_string.simps [simp del]

definition is_digit :: "char \<Rightarrow> bool" where
  "is_digit c \<longleftrightarrow> 48 \<le> (of_char c :: nat) \<and> (of_char c :: nat) \<le> 57"

definition is_space :: "char \<Rightarrow> bool" where
  "is_space c \<longleftrightarrow> c = CHR '' '' \<or> 9 \<le> (of_char c :: nat) \<and> (of_char c :: nat) \<le> 13"

definition digits_value :: "string \<Rightarrow> nat" where
  "digits_value ds = foldl (\<lambda>v c. 10 * v + (of_char c - 48)) 0 ds"

definition atoi :: "string \<Rightarrow> int outcome" where
  "atoi s =
     (let s = dropWhile is_space s;
          neg = (s \<noteq> [] \<and> hd s = CHR ''-'');
          s = (if s \<noteq> [] \<and> (hd s = CHR ''-'' \<or> hd s = CHR ''+'') then tl s else s);
          v = int (digits_value (takeWhile is_digit s));
          v = (if neg then - v else v)
      in if - (2 ^ 31) \<le> v \<and> v < 2 ^ 31 then Inr v else Inl (Undefined ''atoi''))"

definition substr :: "string \<Rightarrow> nat \<Rightarrow> nat \<Rightarrow> string outcome" where
  "substr s pos n = (if length s < pos then Inl (Throws (Out_of_range ''basic_string::substr'')) else Inr (take n (drop pos s)))"

section \<open>Records\<close>

definition frame_record :: "string \<Rightarrow> string" where
  "frame_record str_tmp = to_string (or (length str_tmp) (push_bit 30 1)) @ str_tmp"

definition merge_records :: "string list \<Rightarrow> string" where
  "merge_records strs = foldl (\<lambda>mvp_merge str_tmp. mvp_merge @ frame_record str_tmp) [] strs"

text \<open>
  One record read at \<open>buffer_ptr\<close>, a 32-bit number: what is handed on, and the position after it. The length is masked
  to 20 bits.
\<close>

definition read_record :: "string \<Rightarrow> nat \<Rightarrow> (string \<times> nat) outcome" where
  "read_record cipher_buffer buffer_ptr =
     obind (substr cipher_buffer buffer_ptr ((buffer_ptr + 10) mod 2 ^ 32)) (\<lambda>len_string.
     obind (atoi (takeWhile (\<lambda>c. c \<noteq> CHR 0x00) len_string)) (\<lambda>v.
       let rec_length = nat (v mod 2 ^ 20) in
     obind (substr cipher_buffer ((buffer_ptr + 10) mod 2 ^ 32) ((buffer_ptr + 10) mod 2 ^ 32 + rec_length)) (\<lambda>ct_in.
       Inr (ct_in, ((buffer_ptr + 10) mod 2 ^ 32 + rec_length) mod 2 ^ 32))))"

fun read_records :: "string \<Rightarrow> nat \<Rightarrow> nat \<Rightarrow> (string list \<times> nat) outcome" where
  "read_records cipher_buffer 0 buffer_ptr = Inr ([], buffer_ptr)"
| "read_records cipher_buffer (Suc n) buffer_ptr =
     obind (read_record cipher_buffer buffer_ptr) (\<lambda>(ct, buffer_ptr).
     obind (read_records cipher_buffer n buffer_ptr) (\<lambda>(cts, buffer_ptr). Inr (ct # cts, buffer_ptr)))"

section \<open>Printing and reading numbers\<close>

lemma of_digit_char: "d < 10 \<Longrightarrow> (of_char (digit_char d) :: nat) = 48 + d"
  by (simp add: digit_char_def of_char_of take_bit_nat_eq_self)

lemma digits_value_snoc: "digits_value (ds @ [c]) = 10 * digits_value ds + (of_char c - 48)"
  by (simp add: digits_value_def)

lemma digits_value_to_string: "digits_value (to_string n) = n"
proof (induction n rule: to_string.induct)
  case (1 n)
  show ?case
  proof (cases "n < 10")
    case True
    then show ?thesis by (simp add: to_string.simps [of n] digits_value_def of_digit_char)
  next
    case False
    then show ?thesis using 1
      by (subst to_string.simps) (simp add: digits_value_snoc of_digit_char)
  qed
qed

lemma digits_to_string: "c \<in> set (to_string n) \<Longrightarrow> is_digit c"
proof (induction n rule: to_string.induct)
  case (1 n)
  then show ?case
    by (subst (asm) (2) to_string.simps) (auto simp: is_digit_def of_digit_char split: if_splits)
qed

lemma to_string_nonempty: "to_string n \<noteq> []"
  by (subst to_string.simps) simp

lemma length_to_string: "10 ^ k \<le> n \<Longrightarrow> n < 10 ^ Suc k \<Longrightarrow> length (to_string n) = Suc k"
proof (induction k arbitrary: n)
  case 0
  then show ?case by (simp add: to_string.simps [of n])
next
  case (Suc k)
  have "10 ^ k \<le> n div 10" using Suc.prems(1) by (simp add: less_eq_div_iff_mult_less_eq mult.commute)
  moreover have "n div 10 < 10 ^ Suc k" using Suc.prems(2) by (simp add: div_less_iff_less_mult mult.commute)
  moreover have "\<not> n < 10" using Suc.prems(1) one_le_power [of "10 :: nat" k] by (simp add: not_less order.trans [of 10 "10 * 10 ^ k"])
  ultimately show ?case using Suc.IH [of "n div 10"] by (subst to_string.simps) simp
qed

lemma digit_not_special: "is_digit c \<Longrightarrow> \<not> is_space c \<and> c \<noteq> CHR ''-'' \<and> c \<noteq> CHR ''+'' \<and> c \<noteq> CHR 0x00"
  by (auto simp: is_digit_def is_space_def)

text \<open>\<open>atoi\<close> reads a printed number back when no digit follows.\<close>

lemma atoi_to_string:
  assumes "n < 2 ^ 31" "rest = [] \<or> \<not> is_digit (hd rest)"
  shows "atoi (takeWhile (\<lambda>c. c \<noteq> CHR 0x00) (to_string n @ rest)) = Inr (int n)"
proof -
  let ?t = "takeWhile (\<lambda>c. c \<noteq> CHR 0x00) rest"
  have all: "\<forall>c \<in> set (to_string n). is_digit c" using digits_to_string by blast
  then have cut: "takeWhile (\<lambda>c. c \<noteq> CHR 0x00) (to_string n @ rest) = to_string n @ ?t"
    using digit_not_special by (intro takeWhile_append2) blast
  obtain d ds where d: "to_string n = d # ds" using to_string_nonempty by (cases "to_string n") auto
  then have "is_digit d" using all by simp
  then have d': "\<not> is_space d" "d \<noteq> CHR ''-''" "d \<noteq> CHR ''+''" using digit_not_special by blast+
  have "?t = [] \<or> \<not> is_digit (hd ?t)" using assms(2) by (cases rest) auto
  then have "takeWhile is_digit (to_string n @ ?t) = to_string n"
    using all by (cases ?t) (simp_all add: takeWhile_append2)
  moreover define z where "z = to_string n @ ?t"
  ultimately have "takeWhile is_digit z = to_string n" "z \<noteq> []" "hd z = d" "dropWhile is_space z = z"
    using d d'(1) by (simp_all add: z_def del: takeWhile_eq_all_conv)
  then show ?thesis using assms(1) d'(2,3) unfolding cut z_def [symmetric] by (simp add: atoi_def digits_value_to_string)
qed

lemma or_bit_30: "n < 2 ^ 30 \<Longrightarrow> or n (push_bit 30 1) = 2 ^ 30 + (n :: nat)"
proof -
  assume n: "n < 2 ^ 30"
  have "and n (2 ^ 30) = 0" using n by (simp only: and_exp_eq_0_iff_not_bit bit_iff_odd div_less not_False_eq_True even_zero not_not)
  then have "n + 2 ^ 30 = or n (2 ^ 30)" by (simp add: disjunctive_add_eq_or)
  then show ?thesis by (simp add: push_bit_eq_mult)
qed

section \<open>Reading the records back\<close>

lemma frame_record_eq:
  assumes "length s < 2 ^ 30"
  shows "frame_record s = to_string (2 ^ 30 + length s) @ s" and "length (to_string (2 ^ 30 + length s)) = 10"
    and "length (frame_record s) = 10 + length s"
proof -
  show f: "frame_record s = to_string (2 ^ 30 + length s) @ s" unfolding frame_record_def or_bit_30 [OF assms] ..
  show l: "length (to_string (2 ^ 30 + length s)) = 10"
    using length_to_string [of 9 "2 ^ 30 + length s"] assms by simp
  show "length (frame_record s) = 10 + length s" unfolding f length_append l ..
qed

text \<open>The condition on the strings: shorter than \<open>2 ^ 20\<close>, and the first byte is not a decimal digit.\<close>

definition record_ok :: "string \<Rightarrow> bool" where
  "record_ok s \<longleftrightarrow> s \<noteq> [] \<and> length s < 2 ^ 20 \<and> \<not> is_digit (hd s)"

lemma read_record_ok:
  assumes s: "record_ok s" and room: "length (pre @ frame_record s @ post) + 10 < 2 ^ 32"
  shows "read_record (pre @ frame_record s @ post) (length pre)
    = Inr (take (length pre + 10 + length s) (s @ post), length (pre @ frame_record s))"
proof -
  let ?buf = "pre @ frame_record s @ post" and ?n = "2 ^ 30 + length s"
  have len: "length s < 2 ^ 30" "length s < 2 ^ 20" using s by (simp_all add: record_ok_def)
  note f = frame_record_eq [OF len(1)]
  have small: "(length pre + 10) mod 2 ^ 32 = length pre + 10" "(length pre + 10 + length s) mod 2 ^ 32 = length pre + 10 + length s"
    using room f(3) by simp_all
  define rest where "rest = take (length pre) (s @ post)"
  have "rest = [] \<or> hd rest = hd s" using s by (cases s; cases "length pre") (auto simp: rest_def record_ok_def)
  then have rest: "rest = [] \<or> \<not> is_digit (hd rest)" using s by (auto simp: record_ok_def)
  have "substr ?buf (length pre) (length pre + 10) = Inr (to_string ?n @ rest)"
    using f(2) by (simp add: substr_def f(1) rest_def)
  moreover have "atoi (takeWhile (\<lambda>c. c \<noteq> CHR 0x00) (to_string ?n @ rest)) = Inr (int ?n)"
    using len(2) by (intro atoi_to_string rest) simp
  moreover have "nat (int ?n mod 2 ^ 20) = length s" using len(2) by (simp add: nat_mod_distrib mod_add_left_eq [symmetric] flip: of_nat_add)
  moreover have "substr ?buf (length pre + 10) (length pre + 10 + length s) = Inr (take (length pre + 10 + length s) (s @ post))"
    using f(2) by (simp add: substr_def f(1))
  ultimately show ?thesis using small f(3) by (simp add: read_record_def Let_def add.assoc)
qed

lemma merge_records_concat: "merge_records strs = concat (map frame_record strs)"
proof -
  have "foldl (\<lambda>m s. m @ frame_record s) acc strs = acc @ concat (map frame_record strs)" for acc
    by (induction strs arbitrary: acc) simp_all
  then show ?thesis by (simp add: merge_records_def)
qed

lemma read_records_from:
  assumes "\<forall>s \<in> set strs. record_ok s" "length (pre @ merge_records strs) + 10 < 2 ^ 32"
  shows "\<exists>cts. read_records (pre @ merge_records strs) (length strs) (length pre)
      = Inr (cts, length (pre @ merge_records strs)) \<and> length cts = length strs \<and>
    (\<forall>i < length strs. \<exists>more. cts ! i = strs ! i @ more)"
  using assms
proof (induction strs arbitrary: pre)
  case Nil
  then show ?case by (simp add: merge_records_def)
next
  case (Cons s strs)
  define pre' where "pre' = pre @ frame_record s"
  have buf: "pre @ merge_records (s # strs) = pre @ frame_record s @ merge_records strs"
    and buf': "pre @ frame_record s @ merge_records strs = pre' @ merge_records strs"
    by (simp_all add: merge_records_concat pre'_def)
  obtain cts where cts: "read_records (pre' @ merge_records strs) (length strs) (length pre') = Inr (cts, length (pre' @ merge_records strs))"
      "length cts = length strs" "\<forall>i < length strs. \<exists>more. cts ! i = strs ! i @ more"
    using Cons.IH [of pre'] Cons.prems unfolding buf buf' by auto
  define ct where "ct = take (length pre + 10 + length s) (s @ merge_records strs)"
  have "read_record (pre' @ merge_records strs) (length pre) = Inr (ct, length pre')"
    using read_record_ok [of s pre "merge_records strs"] Cons.prems unfolding buf buf' pre'_def [symmetric] ct_def by simp
  then have "read_records (pre' @ merge_records strs) (length (s # strs)) (length pre) = Inr (ct # cts, length (pre' @ merge_records strs))"
    using cts(1) by simp
  moreover have "ct = s @ take (length pre + 10) (merge_records strs)" by (simp add: ct_def)
  then have "\<forall>i < length (s # strs). \<exists>more. (ct # cts) ! i = (s # strs) ! i @ more"
    using cts(3) by (auto simp: All_less_Suc2)
  moreover have "length (ct # cts) = length (s # strs)" using cts(2) by simp
  ultimately show ?case unfolding buf buf' by blast
qed

text \<open>
  C99. The string of a product read back: when every ciphertext is shorter than \<open>2 ^ 20\<close> bytes and does not begin
  with a digit, reading as many records as were merged succeeds, ends at the end of the string, and the \<open>i\<close>-th piece
  begins with the \<open>i\<close>-th ciphertext; what follows it are bytes of the later records, since the second argument of
  \<open>substr\<close> is a length.
\<close>

theorem records_round_trip:
  assumes "\<forall>s \<in> set strs. record_ok s" "length (merge_records strs) + 10 < 2 ^ 32"
  shows "\<exists>cts. read_records (merge_records strs) (length strs) 0 = Inr (cts, length (merge_records strs)) \<and>
    length cts = length strs \<and> (\<forall>i < length strs. \<exists>more. cts ! i = strs ! i @ more)"
  using read_records_from [of strs "[]"] assms by simp

theorem records_round_trip_witness:
  "\<exists>cts. read_records (merge_records [''^ab'', ''^c'']) 2 0 = Inr (cts, length (merge_records [''^ab'', ''^c''])) \<and>
    length cts = 2 \<and> (\<forall>i < 2. \<exists>more. cts ! i = [''^ab'', ''^c''] ! i @ more)"
proof -
  have "\<forall>s \<in> set [''^ab'', ''^c'']. record_ok s" by (simp add: record_ok_def is_digit_def)
  moreover have "length (merge_records [''^ab'', ''^c'']) + 10 < 2 ^ 32"
    by (simp add: merge_records_concat frame_record_eq(3))
  ultimately show ?thesis using records_round_trip [of "[''^ab'', ''^c'']"] by (simp add: numeral_2_eq_2)
qed

end
