(* ===== verification/Wrapper.thy ===== *)
theory Wrapper
  imports Doubles Framing Keys MatVec
begin

text \<open>
  The Python module (\<open>src/mvp_sdk/python/wrapper.cc\<close>, \<open>wrapper.h\<close>): a client object that cuts long vectors and large
  matrices into blocks, calls the api for each block, and joins the results. Methods carry the prefix \<open>py_\<close>.
  The overloads for a Python list and for a numpy array differ only in that an element of a list may fail to
  convert to a number; the array is the list of which every element converts.
\<close>

section \<open>Objects\<close>

definition BLK_NROWS :: nat where "BLK_NROWS = 4096"
definition BLK_NCOLS :: nat where "BLK_NCOLS = 8192"

record MVPEncryptedVec =
  ev_data :: "string list"
  ev_len :: nat

record MVPMatVecProd =
  pr_data :: string
  pr_len :: nat
  pr_scale :: double

text \<open>The constant \<open>1e-5\<close> as the nearest \<open>double\<close>.\<close>

fun double_less :: "double \<Rightarrow> double \<Rightarrow> bool" where
  "double_less (Finite m e) (Finite n f) = (m * 2 ^ nat (e - f) < n * 2 ^ nat (f - e))"
| "double_less _ _ = False"

definition scale_down :: "MVPMatVecProd \<Rightarrow> double \<Rightarrow> MVPMatVecProd" where
  "scale_down p factor =
     (if double_less factor (Finite 5902958103587057 (- 69)) then p
      else p\<lparr>pr_scale := double_mult (pr_scale p) factor\<rparr>)"

definition scale_down_set :: "MVPMatVecProd list \<Rightarrow> double \<Rightarrow> MVPMatVecProd list" where
  "scale_down_set ps factor =
     (if double_less factor (Finite 5902958103587057 (- 69)) then ps else map (\<lambda>p. scale_down p factor) ps)"

record MVPProtocol =
  mp_threads :: int
  mp_scale :: double
  mp_context :: "MVPContext option"
  mp_secret_key :: "secret_key option"

definition MVPProtocol_new :: "int \<Rightarrow> double \<Rightarrow> MVPProtocol" where
  "MVPProtocol_new threads scale = \<lparr>mp_threads = threads, mp_scale = scale, mp_context = None, mp_secret_key = None\<rparr>"

definition not_activated :: "'a outcome" where
  "not_activated = Inl (Throws (Runtime_error ''MVPProtocol is not activated yet''))"

text \<open>An error status of the api becomes an exception.\<close>

definition throw_status :: "string \<Rightarrow> 'a outcome \<Rightarrow> 'a outcome" where
  "throw_status msg r =
     (case r of Inl (Failed c m) \<Rightarrow> Inl (Throws (Runtime_error (msg @ status_ToString (mk_status c m)))) | _ \<Rightarrow> r)"

section \<open>Keys\<close>

text \<open>The status of the key generation is dropped, so the default key stays when it fails.\<close>

definition py_Activate ::
    "(scheme_type \<Rightarrow> nat \<Rightarrow> u64 list \<Rightarrow> seal_lib outcome) \<Rightarrow> nat \<Rightarrow> MVPProtocol \<Rightarrow> bool \<Rightarrow> unit outcome \<times> MVPProtocol" where
  "py_Activate seal_new i P gen_secret_key =
     (case MVPContext_Create seal_new (if gen_secret_key then 1 else nat (mp_threads P mod 2 ^ 64)) of
        Inl e \<Rightarrow> (Inl e, P)
      | Inr rt \<Rightarrow>
          let P = P\<lparr>mp_context := Some rt\<rparr> in
          if gen_secret_key
          then case GenerateKey (Some rt) i of
                 Inr sk \<Rightarrow> (Inr (), P\<lparr>mp_secret_key := Some sk\<rparr>)
               | Inl (Failed c m) \<Rightarrow> (Inr (), P\<lparr>mp_secret_key := Some fresh_ptx\<rparr>)
               | Inl e \<Rightarrow> (Inl e, P\<lparr>mp_secret_key := Some fresh_ptx\<rparr>)
          else (Inr (), P\<lparr>mp_secret_key := None\<rparr>))"

definition py_GenEvalKey :: "nat \<Rightarrow> MVPProtocol \<Rightarrow> string outcome" where
  "py_GenEvalKey i P =
     (if mp_context P = None then not_activated
      else case mp_secret_key P of
        None \<Rightarrow> Inl (Undefined ''*secret_key_'')
      | Some sk \<Rightarrow>
          obind (throw_status ''GenEvalKey failed: '' (DeriveEvalKey (mp_context P) sk i)) (\<lambda>evk.
            if evk = [] then Inl (Undefined ''evk[0]'') else Inr (hd evk)))"

definition py_SetupEvalKey :: "fpga_env \<Rightarrow> MVPProtocol \<Rightarrow> string \<Rightarrow> unit outcome \<times> MVPProtocol" where
  "py_SetupEvalKey E P eval_keys =
     (if mp_context P = None then (not_activated, P)
      else let (r, rt) = SetupEvalKey E (mp_context P) [eval_keys]
           in (throw_status ''SetupEvalKey failed: '' r, P\<lparr>mp_context := rt\<rparr>))"

section \<open>Blocks of a vector\<close>

text \<open>An element of a list that is not a number has no value.\<close>

definition to_fixed :: "double \<Rightarrow> double option list \<Rightarrow> u64 list outcome" where
  "to_fixed scale xs =
     omap (\<lambda>x. case x of None \<Rightarrow> Inl (Throws (Runtime_error ''Unable to cast Python instance'')) | Some r \<Rightarrow> RealTo2k r scale) xs"

definition col_dims :: "nat \<Rightarrow> nat \<Rightarrow> nat" where
  "col_dims n ite = (if n < ite + BLK_NCOLS then n - ite else BLK_NCOLS)"

text \<open>The rows of a block: never all but one of the rows that are left.\<close>

definition row_dims :: "nat \<Rightarrow> nat \<Rightarrow> nat" where
  "row_dims n ite =
     (if n < ite + BLK_NROWS then n - ite
      else if ite + BLK_NROWS = n - 1 then BLK_NROWS - 1
      else BLK_NROWS)"

definition vec_meta :: "nat \<Rightarrow> nat \<Rightarrow> MVPMetaInfo" where
  "vec_meta nrows ncols =
     \<lparr>mi_is_transposed = False, mi_base_mod_nbits = kSecretShareBitLen, mi_nrows = nrows, mi_ncols = ncols\<rparr>"

definition encrypt_block :: "MVPProtocol \<Rightarrow> double option list \<Rightarrow> bool \<Rightarrow> nat \<times> nat \<Rightarrow> MVPEncryptedVec outcome" where
  "encrypt_block P vec is_symmetric blk =
     (let vector_dims = snd blk; meta = vec_meta 1 vector_dims in
      obind (to_fixed (mp_scale P) (slice vec blk)) (\<lambda>input.
      obind (throw_status ''Encrypt failed: ''
               (case (is_symmetric, mp_secret_key P) of
                  (True, Some sk) \<Rightarrow> api_Encrypt_sk (mp_context P) input meta sk
                | _ \<Rightarrow> api_Encrypt_pk (mp_context P) input meta)) (\<lambda>ct_out.
      Inr \<lparr>ev_data = ct_out, ev_len = vector_dims\<rparr>)))"

text \<open>From \<open>2 ^ 32 - 8192\<close> elements on the 32-bit counter of the loop wraps round before it reaches the end.\<close>

definition py_EncryptVector :: "MVPProtocol \<Rightarrow> double option list \<Rightarrow> bool \<Rightarrow> MVPEncryptedVec list outcome" where
  "py_EncryptVector P vec is_symmetric =
     (if mp_context P = None then not_activated
      else if is_symmetric \<and> mp_secret_key P = None then Inl (Throws (Invalid_argument ''secret key is absent''))
      else if vec = [] then Inl (Throws (Invalid_argument ''vector length out-of-bound''))
      else if 2 ^ 32 - BLK_NCOLS < length vec then Inl (Undefined ''does not return'')
      else omap (encrypt_block P vec is_symmetric) (blocks col_dims (length vec)))"

definition py_EncryptVector_array :: "MVPProtocol \<Rightarrow> double list \<Rightarrow> bool \<Rightarrow> MVPEncryptedVec list outcome" where
  "py_EncryptVector_array P vec = py_EncryptVector P (map Some vec)"

definition add_block :: "MVPProtocol \<Rightarrow> double option list \<Rightarrow> MVPEncryptedVec list \<Rightarrow> nat \<times> nat \<Rightarrow> MVPEncryptedVec outcome" where
  "add_block P vec ct_vec blk =
     (let (i, current_vec_len) = blk; ct_index = (i + BLK_NCOLS - 1) div BLK_NCOLS in
      if length ct_vec \<le> ct_index then Inl (Undefined ''ct_vec[ct_index]'')
      else let ct_in = ct_vec ! ct_index in
        if ev_len ct_in \<noteq> current_vec_len then Inl (Throws (Invalid_argument ''vector length mismatch''))
        else obind (to_fixed (mp_scale P) (slice vec blk)) (\<lambda>input.
             obind (VecView_new (Some (overwrite (replicate (length vec) 0) 0 input)) current_vec_len) (\<lambda>vec_view.
             obind (throw_status ''AddVector failed: ''
                      (api_AddVector (mp_context P) vec_view (ev_data ct_in) (vec_meta 1 current_vec_len))) (\<lambda>ct_out.
             Inr \<lparr>ev_data = ct_out, ev_len = current_vec_len\<rparr>))))"

text \<open>The counter is a signed \<open>int\<close>; from \<open>2 ^ 31 - 8192\<close> elements on it can overflow.\<close>

definition py_AddVector ::
    "MVPProtocol \<Rightarrow> double option list \<Rightarrow> MVPEncryptedVec list \<Rightarrow> MVPEncryptedVec list outcome" where
  "py_AddVector P vec ct_vec =
     (let total_vec_len = sum_list (map ev_len ct_vec) mod 2 ^ 64 in
      if mp_context P = None then not_activated
      else if vec = [] then Inl (Throws (Invalid_argument ''vector length out-of-bound''))
      else if length vec \<noteq> total_vec_len then Inl (Throws (Invalid_argument ''vector length mismatch''))
      else if 2 ^ 31 - BLK_NCOLS < total_vec_len then Inl (Undefined ''int i'')
      else omap (add_block P vec ct_vec) (blocks col_dims total_vec_len))"

definition py_AddVector_array ::
    "MVPProtocol \<Rightarrow> double list \<Rightarrow> MVPEncryptedVec list \<Rightarrow> MVPEncryptedVec list outcome" where
  "py_AddVector_array P vec = py_AddVector P (map Some vec)"

section \<open>Products\<close>

text \<open>The loop over the records of a product, with the position in its string.\<close>

fun update_blocks ::
    "MVPProtocol \<Rightarrow> double option list \<Rightarrow> MVPMatVecProd \<Rightarrow> (nat \<times> nat) list \<Rightarrow> nat \<Rightarrow> string list outcome" where
  "update_blocks P vec p [] buffer_ptr = Inr []"
| "update_blocks P vec p (blk # blks) buffer_ptr =
     (let current_vec_len = snd blk in
      obind (read_record (pr_data p) buffer_ptr) (\<lambda>(ct_in, buffer_ptr).
      obind (to_fixed (pr_scale p) (slice vec blk)) (\<lambda>input.
      obind (VecView_new (Some input) current_vec_len) (\<lambda>vec_view.
      obind (throw_status ''UpdateVector failed: ''
               (api_UpdateMatVec (mp_context P) vec_view [ct_in] (vec_meta current_vec_len 1))) (\<lambda>ct_out.
      if ct_out = [] then Inl (Undefined ''ct_out[0]'')
      else obind (update_blocks P vec p blks buffer_ptr) (\<lambda>rest. Inr (hd ct_out # rest)))))))"

definition py_UpdateVector :: "MVPProtocol \<Rightarrow> double option list \<Rightarrow> MVPMatVecProd \<Rightarrow> MVPMatVecProd outcome" where
  "py_UpdateVector P vec p =
     (let total_vec_len = pr_len p in
      if mp_context P = None then not_activated
      else if vec = [] then Inl (Throws (Invalid_argument ''vector length out-of-bound''))
      else if length vec \<noteq> total_vec_len then Inl (Throws (Invalid_argument ''vector length mismatch''))
      else if 2 ^ 31 - BLK_NROWS < total_vec_len then Inl (Undefined ''int i'')
      else obind (update_blocks P vec p (blocks row_dims total_vec_len) 0) (\<lambda>update_result_vector.
           Inr \<lparr>pr_data = merge_records update_result_vector, pr_len = total_vec_len, pr_scale = pr_scale p\<rparr>))"

definition py_UpdateVector_array :: "MVPProtocol \<Rightarrow> double list \<Rightarrow> MVPMatVecProd \<Rightarrow> MVPMatVecProd outcome" where
  "py_UpdateVector_array P vec = py_UpdateVector P (map Some vec)"

text \<open>The product of two \<open>int\<close>; \<open>static_cast<int>\<close> of a size.\<close>

definition int_mult :: "int \<Rightarrow> int \<Rightarrow> int outcome" where
  "int_mult a b = (if - (2 ^ 31) \<le> a * b \<and> a * b < 2 ^ 31 then Inr (a * b) else Inl (Undefined ''int overflow''))"

definition int_of_size :: "nat \<Rightarrow> int" where
  "int_of_size n = (int n + 2 ^ 31) mod 2 ^ 32 - 2 ^ 31"

text \<open>The result of this method has no length before the ciphertext, and the length of the input vector.\<close>

definition py_MatVecFMA ::
    "fpga_env \<Rightarrow> nat \<Rightarrow> cprng \<Rightarrow> MVPProtocol \<Rightarrow> double list \<Rightarrow> double list \<Rightarrow> MVPEncryptedVec \<Rightarrow> int \<times> int \<Rightarrow> MVPMatVecProd outcome" where
  "py_MatVecFMA E b s P mat vec ct_in mat_dims =
     (if mp_context P = None then not_activated
      else if vec = [] \<or> kMaxNumCols < length vec then Inl (Throws (Invalid_argument ''vector length out-of-bound''))
      else if length vec \<noteq> ev_len ct_in then Inl (Throws (Invalid_argument ''vector length mismatch''))
      else obind (int_mult (fst mat_dims) (snd mat_dims)) (\<lambda>sz.
        if length mat \<noteq> nat (sz mod 2 ^ 64) then Inl (Throws (Invalid_argument ''mat shape mismatches mat_dim''))
        else if int (length vec) \<noteq> snd mat_dims then Inl (Throws (Invalid_argument ''vector length mismatches mat_dim[1]''))
        else let meta = vec_meta (nat (fst mat_dims mod 2 ^ 64)) (nat (snd mat_dims mod 2 ^ 64)) in
          obind (to_fixed (mp_scale P) (map Some mat)) (\<lambda>input_mat.
          obind (to_fixed (mp_scale P) (map Some vec)) (\<lambda>input_vec.
          obind (MatView_new (Some input_mat) (mi_nrows meta) (mi_ncols meta)) (\<lambda>mat_view.
          obind (VecView_new (Some input_vec) (mi_ncols meta)) (\<lambda>vec_view.
          obind (throw_status ''MatVecFMA failed: ''
                   (fst (api_MatVec_shared E b (mp_context P) mat_view vec_view (ev_data ct_in) meta s))) (\<lambda>ct_out.
          if ct_out = [] then Inl (Undefined ''ct_out[0]'')
          else Inr \<lparr>pr_data = hd ct_out, pr_len = length vec, pr_scale = double_mult (mp_scale P) (mp_scale P)\<rparr>)))))))"

section \<open>Matrices\<close>

text \<open>The shape of one block: its rows, its columns, its first row and its first column.\<close>

type_synonym mat_block = "(nat \<times> nat) \<times> (nat \<times> nat)"

definition mat_blocks :: "nat \<Rightarrow> nat \<Rightarrow> mat_block list" where
  "mat_blocks matrix_nrows matrix_ncols =
     List.product (blocks row_dims matrix_nrows) (blocks col_dims matrix_ncols)"

text \<open>
  The entries of a block, row after row, in a buffer for the largest block. The offset of a row is a 32-bit number.
\<close>

definition block_row :: "double \<Rightarrow> double option list \<Rightarrow> nat \<Rightarrow> mat_block \<Rightarrow> nat \<Rightarrow> u64 list outcome" where
  "block_row scale mat matrix_ncols blk blk_row =
     (let ((row_ite, current_row_dims), (col_ite, current_col_dims)) = blk;
          offset = (row_ite * matrix_ncols + blk_row * matrix_ncols + col_ite) mod 2 ^ 32
      in if length mat < offset + current_col_dims then Inl (Undefined ''mat.data()'')
         else to_fixed scale (slice mat (offset, current_col_dims)))"

definition block_input :: "double \<Rightarrow> double option list \<Rightarrow> nat \<Rightarrow> mat_block \<Rightarrow> u64 list outcome" where
  "block_input scale mat matrix_ncols blk =
     (let ((row_ite, current_row_dims), (col_ite, current_col_dims)) = blk in
      obind (omap (block_row scale mat matrix_ncols blk) [0..<current_row_dims]) (\<lambda>rows.
        let input = overwrite (replicate (BLK_NROWS * BLK_NCOLS) 0) 0 (concat rows);
            input = (if current_row_dims = 1 then overwrite input (length (concat rows)) (replicate current_col_dims 0) else input)
        in Inr input))"

text \<open>
  The lambda \<open>MVP_col_MT\<close>: the call of the api for one block, with what the card, the scheduler of the worker threads
  and the random generator do in that call.
\<close>

record call_env =
  ce_card :: fpga_env
  ce_buffer :: nat
  ce_sched :: "nat list"
  ce_prng :: cprng

definition MVP_col_MT ::
    "(mat_block \<Rightarrow> call_env) \<Rightarrow> MVPProtocol \<Rightarrow> double option list \<Rightarrow> nat \<Rightarrow> MVPEncryptedVec list \<Rightarrow> bool \<Rightarrow> mat_block
      \<Rightarrow> string outcome" where
  "MVP_col_MT calls P mat matrix_ncols ct_in_vec MT_in_subblock blk =
     (let ((row_ite, current_row_dims), (col_ite, current_col_dims)) = blk;
          meta = vec_meta (if current_row_dims = 1 then 2 else current_row_dims) current_col_dims;
          ct_index = (col_ite + BLK_NCOLS - 1) div BLK_NCOLS; E = calls blk
      in if length ct_in_vec \<le> ct_index then Inl (Undefined ''ct_in_vec[ct_index]'')
         else let ct_in = ct_in_vec ! ct_index in
           if ev_len ct_in \<noteq> current_col_dims then Inl (Throws (Invalid_argument ''vector length mismatches col_dim''))
           else obind (block_input (mp_scale P) mat matrix_ncols blk) (\<lambda>input.
                obind (MatView_new (Some input) (mi_nrows meta) (mi_ncols meta)) (\<lambda>mat_view.
                obind (throw_status ''MatVec failed: ''
                         (fst (api_MatVec_MT (ce_sched E) (ce_card E) (ce_buffer E) (mp_context P) mat_view (ev_data ct_in)
                            meta (ce_prng E) MT_in_subblock))) (\<lambda>ct_out.
                if ct_out = [] then Inl (Undefined ''ct_out[0]'') else Inr (hd ct_out)))))"

text \<open>Where the result of a block goes.\<close>

definition result_index :: "mat_block \<Rightarrow> nat \<times> nat" where
  "result_index blk =
     (let ((row_ite, _), (col_ite, _)) = blk
      in ((row_ite + BLK_NROWS - 1) div BLK_NROWS, (col_ite + BLK_NCOLS - 1) div BLK_NCOLS))"

definition store_result :: "mat_block \<Rightarrow> string \<Rightarrow> string list list \<Rightarrow> string list list outcome" where
  "store_result blk str M =
     (let (row_index, ct_index) = result_index blk in
      if length M \<le> row_index \<or> length (M ! row_index) \<le> ct_index then Inl (Undefined ''mvp_matrix_result'')
      else Inr (M[row_index := (M ! row_index)[ct_index := str]]))"

text \<open>The blocks one after the other; the first failure leaves the loop.\<close>

fun run_blocks :: "(mat_block \<Rightarrow> string outcome) \<Rightarrow> mat_block list \<Rightarrow> string list list \<Rightarrow> string list list outcome" where
  "run_blocks task [] M = Inr M"
| "run_blocks task (blk # blks) M =
     obind (task blk) (\<lambda>str. obind (store_result blk str M) (run_blocks task blks))"

text \<open>
  The blocks as tasks of the thread pool. \<open>done_order\<close> lists the tasks (positions in the list of the blocks) that have
  finished when the loop over the futures is left, in the order in which they finished. The futures are asked in the order
  of the launch; one whose task does not finish blocks the loop. The first one that holds an exception throws it, which
  leaves the function: if a task is still waiting or running then, it goes on with references into a frame that is gone, the
  matrix of the results among them, and nothing is said any more of what the program does.
\<close>

definition finish_task :: "(mat_block \<Rightarrow> string outcome) \<Rightarrow> mat_block list \<Rightarrow> nat \<Rightarrow> string list list \<Rightarrow> string list list" where
  "finish_task task blks j M =
     (case obind (task (blks ! j)) (\<lambda>str. store_result (blks ! j) str M) of Inl e \<Rightarrow> M | Inr M \<Rightarrow> M)"

definition run_blocks_MT ::
    "nat list \<Rightarrow> (mat_block \<Rightarrow> string outcome) \<Rightarrow> mat_block list \<Rightarrow> string list list \<Rightarrow> string list list outcome" where
  "run_blocks_MT done_order task blks M =
     (let M' = fold (finish_task task blks) done_order M;
          all_done = list_all (\<lambda>j. j \<in> set done_order) [0..<length blks]
      in obind (omap (\<lambda>j. if j \<notin> set done_order then Inl (Undefined ''does not return'')
                          else case obind (task (blks ! j)) (\<lambda>str. store_result (blks ! j) str M) of
                            Inl e \<Rightarrow> Inl (if all_done then e else Undefined ''mvp_matrix_result'')
                          | Inr M \<Rightarrow> Inr M) [0..<length blks]) (\<lambda>_. Inr M'))"

text \<open>
  The sum of one row of ciphertexts. The meta data have the rows of the last block; their columns, not set in the code,
  are replaced by the api.
\<close>

fun add_results :: "MVPProtocol \<Rightarrow> nat \<Rightarrow> string \<Rightarrow> string list \<Rightarrow> string outcome" where
  "add_results P current_row_dims str_tmp [] = Inr str_tmp"
| "add_results P current_row_dims str_tmp (ct # cts) =
     obind (throw_status ''MVP merge UpdateVector failed: ''
              (api_AddMatVec (mp_context P) [str_tmp] [ct] (vec_meta current_row_dims 0))) (\<lambda>Matvec_added.
     if Matvec_added = [] then Inl (Undefined ''Matvec_added[0]'')
     else add_results P current_row_dims (hd Matvec_added) cts)"

definition py_MatVec ::
    "nat list \<Rightarrow> (mat_block \<Rightarrow> call_env) \<Rightarrow> MVPProtocol \<Rightarrow> double option list \<Rightarrow> MVPEncryptedVec list \<Rightarrow> int \<times> int
      \<Rightarrow> MVPMatVecProd outcome" where
  "py_MatVec done_order calls P mat ct_in_vec mat_dims =
     (if mp_context P = None then not_activated
      else if fst mat_dims \<le> 0 \<or> snd mat_dims \<le> 0 then Inl (Throws (Invalid_argument ''mat shape mismatches mat_dim''))
      else obind (int_mult (fst mat_dims) (snd mat_dims)) (\<lambda>sz.
        if int_of_size (length mat) \<noteq> sz then Inl (Throws (Invalid_argument ''mat shape mismatches mat_dim''))
        else let ct_vec_num = length ct_in_vec mod 2 ^ 32;
                 matrix_nrows = nat (fst mat_dims); matrix_ncols = nat (snd mat_dims) in
          if (matrix_ncols + BLK_NCOLS - 1) div BLK_NCOLS \<noteq> ct_vec_num
          then Inl (Throws (Invalid_argument ''mat col and mismatches mat_dim''))
          else let MT_in_subblock = (\<not> (BLK_NCOLS < matrix_ncols \<or> BLK_NROWS < matrix_nrows));
                   row_sub_block_num = (matrix_nrows + BLK_NROWS - 1) div BLK_NROWS;
                   M = replicate row_sub_block_num (replicate ct_vec_num []);
                   blks = mat_blocks matrix_nrows matrix_ncols;
                   task = MVP_col_MT calls P mat matrix_ncols ct_in_vec MT_in_subblock;
                   current_row_dims = snd (last (blocks row_dims matrix_nrows))
            in obind (if MT_in_subblock then run_blocks task blks M else run_blocks_MT done_order task blks M) (\<lambda>M.
               obind (omap (\<lambda>row. add_results P current_row_dims (row ! 0) (drop 1 row)) M) (\<lambda>strs.
               Inr \<lparr>pr_data = merge_records strs, pr_len = matrix_nrows, pr_scale = double_mult (mp_scale P) (mp_scale P)\<rparr>))))"

definition py_MatVec_array ::
    "nat list \<Rightarrow> (mat_block \<Rightarrow> call_env) \<Rightarrow> MVPProtocol \<Rightarrow> double list \<Rightarrow> MVPEncryptedVec list \<Rightarrow> int \<times> int
      \<Rightarrow> MVPMatVecProd outcome" where
  "py_MatVec_array done_order calls P mat = py_MatVec done_order calls P (map Some mat)"

section \<open>Decryption\<close>

fun decrypt_blocks :: "MVPProtocol \<Rightarrow> MVPMatVecProd \<Rightarrow> (nat \<times> nat) list \<Rightarrow> nat \<Rightarrow> double list outcome" where
  "decrypt_blocks P p [] buffer_ptr = Inr []"
| "decrypt_blocks P p (blk # blks) buffer_ptr =
     (let current_row_dims = snd blk in
      obind (read_record (pr_data p) buffer_ptr) (\<lambda>(ct, buffer_ptr).
      if mp_context P = None then not_activated
      else case mp_secret_key P of
        None \<Rightarrow> Inl (Throws (Runtime_error ''secret_key is absent''))
      | Some sk \<Rightarrow>
          if kMaxNumRows < current_row_dims then Inl (Throws (Invalid_argument ''invalid ct.vector_len''))
          else obind (throw_status ''Decrypt failed: ''
                        (api_DecryptMatVec (mp_context P) [ct] (vec_meta current_row_dims 1) sk current_row_dims)) (\<lambda>out_u64.
               obind (decrypt_blocks P p blks buffer_ptr) (\<lambda>rest.
               Inr (map (\<lambda>u. U2kToReal u (pr_scale p)) out_u64 @ rest)))))"

definition py_Decrypt :: "MVPProtocol \<Rightarrow> MVPMatVecProd \<Rightarrow> double list outcome" where
  "py_Decrypt P p =
     (if 2 ^ 32 - BLK_NROWS < pr_len p then Inl (Undefined ''uint32_t row_ite'')
      else decrypt_blocks P p (blocks row_dims (pr_len p)) 0)"

definition py_Decrypt_vec :: "MVPProtocol \<Rightarrow> MVPEncryptedVec \<Rightarrow> double list outcome" where
  "py_Decrypt_vec P ct =
     (if mp_context P = None then not_activated
      else case mp_secret_key P of
        None \<Rightarrow> Inl (Throws (Runtime_error ''secret_key is absent''))
      | Some sk \<Rightarrow>
          if kMaxNumRows < ev_len ct then Inl (Throws (Invalid_argument ''invalid ct.vector_len''))
          else obind (throw_status ''Decrypt failed: ''
                        (api_DecryptMatVec (mp_context P) (ev_data ct) (vec_meta (ev_len ct) 1) sk (ev_len ct))) (\<lambda>out_u64.
               Inr (map (\<lambda>u. U2kToReal u (Finite 1 0)) out_u64)))"

section \<open>Pickling\<close>

datatype py_item = Py_bytes string | Py_int nat | Py_float double

fun cast_string :: "py_item \<Rightarrow> string outcome" where
  "cast_string (Py_bytes s) = Inr s"
| "cast_string _ = Inl (Throws (Runtime_error ''Unable to cast Python instance''))"

fun cast_size :: "py_item \<Rightarrow> nat outcome" where
  "cast_size (Py_int n) = Inr n"
| "cast_size _ = Inl (Throws (Runtime_error ''Unable to cast Python instance''))"

fun cast_double :: "py_item \<Rightarrow> double outcome" where
  "cast_double (Py_float x) = Inr x"
| "cast_double _ = Inl (Throws (Runtime_error ''Unable to cast Python instance''))"

definition invalid_state :: "'a outcome" where
  "invalid_state = Inl (Throws (Runtime_error ''Invalid state!''))"

definition MVPEvalKeys_getstate :: "string \<Rightarrow> py_item list" where
  "MVPEvalKeys_getstate obj = [Py_bytes obj]"

definition MVPEvalKeys_setstate :: "py_item list \<Rightarrow> string outcome" where
  "MVPEvalKeys_setstate t = (if length t \<noteq> 1 then invalid_state else cast_string (t ! 0))"

definition MVPEncryptedVec_getstate :: "MVPEncryptedVec \<Rightarrow> py_item list outcome" where
  "MVPEncryptedVec_getstate obj =
     (let ct_strs = ev_data obj; num_str = length ct_strs in
      if num_str < 1 \<or> 4 < num_str then Inl (Throws (Invalid_argument ''invalid encrypted vector''))
      else Inr (map (\<lambda>i. Py_bytes (if i < num_str then ct_strs ! i else [])) [0..<4] @ [Py_int (ev_len obj)]))"

text \<open>The loop over the strings stops at the first empty one.\<close>

fun leading_strings :: "py_item list \<Rightarrow> string list outcome" where
  "leading_strings [] = Inr []"
| "leading_strings (x # xs) =
     obind (cast_string x) (\<lambda>str. if str = [] then Inr [] else obind (leading_strings xs) (\<lambda>strs. Inr (str # strs)))"

definition MVPEncryptedVec_setstate :: "py_item list \<Rightarrow> MVPEncryptedVec outcome" where
  "MVPEncryptedVec_setstate t =
     (if length t \<noteq> 5 then invalid_state
      else obind (leading_strings (take 4 t)) (\<lambda>ct_strs.
           if length ct_strs < 1 then invalid_state
           else obind (cast_size (t ! 4)) (\<lambda>n. Inr \<lparr>ev_data = ct_strs, ev_len = n\<rparr>)))"

definition MVPMatVecProd_getstate :: "MVPMatVecProd \<Rightarrow> py_item list" where
  "MVPMatVecProd_getstate obj = [Py_bytes (pr_data obj), Py_int (pr_len obj), Py_float (pr_scale obj)]"

definition MVPMatVecProd_setstate :: "py_item list \<Rightarrow> MVPMatVecProd outcome" where
  "MVPMatVecProd_setstate t =
     (if length t \<noteq> 3 then invalid_state
      else obind (cast_string (t ! 0)) (\<lambda>data. obind (cast_size (t ! 1)) (\<lambda>n. obind (cast_double (t ! 2)) (\<lambda>scale.
           Inr \<lparr>pr_data = data, pr_len = n, pr_scale = scale\<rparr>))))"

end
