(* ===== verification/WrapperCorrect.thy ===== *)
theory WrapperCorrect
  imports Wrapper "HOL-Library.Multiset"
begin

text \<open>
  The Python module: how it cuts vectors and matrices, that the order in which its tasks finish does not matter, and that
  the pieces come together again.
\<close>

section \<open>Blocks of rows and columns\<close>

lemma blk_simps: "BLK_NROWS = 4096" "BLK_NCOLS = 8192"
  by (simp_all add: BLK_NROWS_def BLK_NCOLS_def)

interpretation col_blk: uniform_chunking col_dims BLK_NCOLS
  by unfold_locales (auto simp: col_dims_def blk_simps)

interpretation row_blk: chunking row_dims
  by unfold_locales (auto simp: row_dims_def blk_simps)

definition row_number :: "nat \<Rightarrow> nat" where
  "row_number row_ite = (row_ite + BLK_NROWS - 1) div BLK_NROWS"

lemma row_number_mult: "row_number (4096 * j) = j"
  by (simp add: row_number_def blk_simps)

lemma row_blocks_from:
  "n \<noteq> 4096 * j + 1 \<Longrightarrow>
    map (row_number \<circ> fst) (blocks_from row_dims n (4096 * j)) = [j..<(n + 4095) div 4096] \<and>
    (\<forall>b \<in> set (blocks_from row_dims n (4096 * j)). 2 \<le> snd b \<and> snd b \<le> 4096)"
proof (induction "n - 4096 * j" arbitrary: j rule: less_induct)
  case less
  let ?i = "4096 * j"
  consider (past) "n \<le> ?i" | (last) "?i < n" "n < ?i + 4096" | (two) "n = ?i + 4097" | (more) "?i + 4096 \<le> n" "n \<noteq> ?i + 4097"
    by linarith
  then show ?case
  proof cases
    case past
    then have "(n + 4095) div 4096 < Suc j" by (simp add: div_less_iff_less_mult)
    then show ?thesis using past by (simp add: blocks_from_done)
  next
    case last
    then have "(n + 4095) div 4096 = Suc j" by (intro div_nat_eqI) simp_all
    moreover have "2 \<le> n - ?i" using less.prems last by linarith
    moreover have "row_dims n ?i = n - ?i" using last by (simp add: row_dims_def blk_simps)
    ultimately show ?thesis using last by (simp add: row_blk.blocks_from_step blocks_from_done row_number_mult)
  next
    case two
    have dims: "row_dims n ?i = 4095" "row_dims n (?i + 4095) = 2" using two by (simp_all add: row_dims_def blk_simps)
    have "blocks_from row_dims n ?i = [(?i, 4095), (?i + 4095, 2)]"
    proof -
      have lt: "?i < n" "?i + 4095 < n" "n \<le> ?i + 4095 + 2" using two by simp_all
      show ?thesis by (simp only: row_blk.blocks_from_step [OF lt(1)] row_blk.blocks_from_step [OF lt(2)] dims blocks_from_done [OF lt(3)])
    qed
    moreover have "(n + 4095) div 4096 = Suc (Suc j)" unfolding two by simp
    moreover have "row_number (?i + 4095) = Suc j" by (simp add: row_number_def blk_simps)
    ultimately show ?thesis by (simp add: row_number_mult upt_conv_Cons)
  next
    case more
    then have dims: "row_dims n ?i = 4096" by (simp add: row_dims_def blk_simps)
    have "n - 4096 * Suc j < n - ?i" "n \<noteq> 4096 * Suc j + 1" using more by simp_all
    note IH = less.hyps [OF this]
    have "blocks_from row_dims n ?i = (?i, 4096) # blocks_from row_dims n (4096 * Suc j)"
    proof -
      have "?i < n" using more by simp
      from row_blk.blocks_from_step [OF this] show ?thesis by (simp only: dims mult_Suc_right add.commute)
    qed
    moreover have "j < (n + 4095) div 4096" using more by (simp add: less_eq_div_iff_mult_less_eq Suc_le_eq [symmetric])
    ultimately show ?thesis using IH by (simp add: row_number_mult upt_conv_Cons)
  qed
qed

text \<open>
  Cutting the rows: for a matrix of at least two rows the blocks join to all rows, in order; every block has at
  least two and at most 4096 rows, which is what the api accepts; and the results of the blocks have the indices 0, 1, \<open>\<dots>\<close>
  up to the number of blocks the code reserves room for, whether or not a block is cut one row short to avoid a last
  block of a single row.
\<close>

theorem row_blocks_accepted:
  assumes "2 \<le> n"
  shows "concat (map (\<lambda>(b, l). [b..<b + l]) (blocks row_dims n)) = [0..<n] \<and>
    (\<forall>(b, l) \<in> set (blocks row_dims n). 2 \<le> l \<and> l \<le> kMaxNumRows) \<and>
    map (\<lambda>(b, l). (b + BLK_NROWS - 1) div BLK_NROWS) (blocks row_dims n) = [0..<(n + BLK_NROWS - 1) div BLK_NROWS]"
proof -
  have "n \<noteq> 4096 * 0 + 1" using assms by simp
  from row_blocks_from [OF this]
  have "map (row_number \<circ> fst) (blocks row_dims n) = [0..<(n + 4095) div 4096]"
    "\<forall>b \<in> set (blocks row_dims n). 2 \<le> snd b \<and> snd b \<le> 4096" by (simp_all add: blocks_def)
  then show ?thesis using row_blk.blocks_cover [of n]
    by (simp add: comp_def row_number_def blk_simps case_prod_unfold kMaxNumRows_def kPolyDegree_def add.commute [of 4095 n])
qed

theorem row_blocks_accepted_witness:
  "concat (map (\<lambda>(b, l). [b..<b + l]) (blocks row_dims 8193)) = [0..<8193] \<and>
    list_all (\<lambda>(b, l). 2 \<le> l \<and> l \<le> kMaxNumRows) (blocks row_dims 8193) \<and>
    map (\<lambda>(b, l). (b + BLK_NROWS - 1) div BLK_NROWS) (blocks row_dims 8193) = [0..<3]"
  using row_blocks_accepted [of 8193] by (simp add: list_all_iff blk_simps)

section \<open>Storing the results\<close>

lemma col_blocks_index:
  "map (\<lambda>(c, _). (c + BLK_NCOLS - 1) div BLK_NCOLS) (blocks col_dims n) = [0..<(n + BLK_NCOLS - 1) div BLK_NCOLS]"
  unfolding col_blk.blocks_uniform by (simp add: comp_def blk_simps map_idI)

lemma row_blocks_index:
  "0 < n \<Longrightarrow> map (\<lambda>(b, l). (b + BLK_NROWS - 1) div BLK_NROWS) (blocks row_dims n) = [0..<(n + BLK_NROWS - 1) div BLK_NROWS]"
proof (cases "n = 1")
  case True
  have "blocks row_dims 1 = [(0, 1)]"
    by (simp add: blocks_def row_blk.blocks_from_step blocks_from_done row_dims_def blk_simps)
  then show ?thesis using True by (simp add: blk_simps)
next
  case False
  assume "0 < n"
  then have "n \<noteq> 4096 * 0 + 1" using False by simp
  from row_blocks_from [OF this] show ?thesis
    by (simp add: blocks_def comp_def row_number_def blk_simps case_prod_unfold add.commute [of 4095 n])
qed

text \<open>The blocks are numbered row by row; every block has its own place.\<close>

lemma product_index:
  assumes "map f xs = [0..<m]" "map g ys = [0..<n]"
  shows "map (\<lambda>(x, y). (f x, g y)) (List.product xs ys) = List.product [0..<m] [0..<n]"
proof -
  have "map (\<lambda>(x, y). (f x, g y)) (List.product xs ys) = List.product (map f xs) (map g ys)"
    by (induction xs) (simp_all add: comp_def)
  then show ?thesis by (simp only: assms)
qed

lemma result_indices:
  assumes "0 < nrows"
  shows "map result_index (mat_blocks nrows ncols)
    = List.product [0..<(nrows + BLK_NROWS - 1) div BLK_NROWS] [0..<(ncols + BLK_NCOLS - 1) div BLK_NCOLS]"
proof -
  have "result_index = (\<lambda>(x, y). ((case x of (b, l) \<Rightarrow> (b + BLK_NROWS - 1) div BLK_NROWS), (case y of (c, l) \<Rightarrow> (c + BLK_NCOLS - 1) div BLK_NCOLS)))"
    by (auto simp: result_index_def fun_eq_iff split: prod.splits)
  then show ?thesis unfolding mat_blocks_def
    using product_index [OF row_blocks_index [OF assms] col_blocks_index [of ncols]] by simp
qed

definition shaped :: "nat \<Rightarrow> nat \<Rightarrow> 'a list list \<Rightarrow> bool" where
  "shaped m n M \<longleftrightarrow> length M = m \<and> (\<forall>r < m. length (M ! r) = n)"

definition put_result :: "nat \<times> nat \<Rightarrow> 'a \<Rightarrow> 'a list list \<Rightarrow> 'a list list" where
  "put_result rc x M = M[fst rc := (M ! fst rc)[snd rc := x]]"

lemma put_result_shaped: "shaped m n M \<Longrightarrow> shaped m n (put_result rc x M)"
  by (cases "fst rc < length M") (auto simp: shaped_def put_result_def nth_list_update)

lemma put_result_commute:
  "rc \<noteq> rc' \<Longrightarrow> put_result rc x (put_result rc' y M) = put_result rc' y (put_result rc x M)"
proof (cases "fst rc = fst rc'")
  case True
  assume "rc \<noteq> rc'"
  then have "snd rc \<noteq> snd rc'" using True by (simp add: prod_eq_iff)
  then show ?thesis using True
    by (cases "fst rc' < length M") (simp_all add: put_result_def list_update_swap not_less list_update_beyond)
next
  case False
  then show ?thesis by (simp add: put_result_def list_update_swap)
qed

lemma store_result_put:
  "shaped m n M \<Longrightarrow> result_index blk \<in> {..<m} \<times> {..<n} \<Longrightarrow> store_result blk s M = Inr (put_result (result_index blk) s M)"
  by (auto simp: store_result_def put_result_def shaped_def split: prod.splits)

text \<open>Both ways to run the blocks, when the tasks are \<open>f\<close> on success.\<close>

definition results_of :: "(mat_block \<Rightarrow> string outcome) \<Rightarrow> mat_block list \<Rightarrow> string list list \<Rightarrow> string list list" where
  "results_of task blks M = fold (\<lambda>blk M. case task blk of Inr s \<Rightarrow> put_result (result_index blk) s M | Inl e \<Rightarrow> M) blks M"

lemma run_blocks_results:
  assumes "shaped m n M" "\<forall>blk \<in> set blks. result_index blk \<in> {..<m} \<times> {..<n}"
  shows "run_blocks task blks M = obind (omap task blks) (\<lambda>_. Inr (results_of task blks M))"
  using assms
proof (induction blks arbitrary: M)
  case Nil
  then show ?case by (simp add: results_of_def)
next
  case (Cons blk blks)
  show ?case
  proof (cases "task blk")
    case (Inl e)
    then show ?thesis by simp
  next
    case (Inr s)
    have "store_result blk s M = Inr (put_result (result_index blk) s M)" by (rule store_result_put [OF Cons.prems(1)]) (use Cons.prems(2) in auto)
    moreover have "run_blocks task blks (put_result (result_index blk) s M)
        = obind (omap task blks) (\<lambda>_. Inr (results_of task blks (put_result (result_index blk) s M)))"
      using Cons.prems by (intro Cons.IH put_result_shaped) simp_all
    ultimately show ?thesis by (simp add: Inr results_of_def obind_assoc)
  qed
qed

lemma finish_task_effect:
  assumes "shaped m n M" "result_index (blks ! j) \<in> {..<m} \<times> {..<n}"
  shows "finish_task task blks j M = (case task (blks ! j) of Inr s \<Rightarrow> put_result (result_index (blks ! j)) s M | Inl e \<Rightarrow> M)"
  using store_result_put [OF assms] by (simp add: finish_task_def split: sum.splits)

section \<open>The order of the tasks\<close>

lemma omap_seq:
  assumes "\<And>x s. x \<in> set xs \<Longrightarrow> f x = Inr s \<Longrightarrow> \<exists>y. g x s = Inr y"
  shows "obind (omap (\<lambda>x. obind (f x) (g x)) xs) (\<lambda>_. k) = obind (omap f xs) (\<lambda>_. k)"
  using assms
proof (induction xs)
  case (Cons x xs)
  have IH: "obind (omap (\<lambda>x. obind (f x) (g x)) xs) (\<lambda>_. k) = obind (omap f xs) (\<lambda>_. k)"
    using Cons.prems by (intro Cons.IH) simp
  show ?case
  proof (cases "f x")
    case (Inr s)
    then obtain y where "g x s = Inr y" using Cons.prems by force
    then show ?thesis using IH by (simp add: Inr obind_assoc)
  qed simp
qed simp

text \<open>Tasks with places of their own may finish in any order.\<close>

lemma results_permute:
  assumes "distinct js" "\<forall>j \<in> set js. j < length blks" "distinct (map result_index blks)" "shaped m n M"
    "\<forall>blk \<in> set blks. result_index blk \<in> {..<m} \<times> {..<n}"
  shows "fold (finish_task task blks) js M = results_of task (map ((!) blks) js) M"
  using assms(1,2,4)
proof (induction js arbitrary: M)
  case Nil
  then show ?case by (simp add: results_of_def)
next
  case (Cons j js)
  have j: "result_index (blks ! j) \<in> {..<m} \<times> {..<n}" using Cons.prems(2) assms(5) by simp
  have "shaped m n (finish_task task blks j M)"
    using Cons.prems(3) by (simp add: finish_task_effect [OF Cons.prems(3) j] put_result_shaped split: sum.splits)
  then show ?case using Cons.IH [of "finish_task task blks j M"] Cons.prems(1,2)
    by (simp add: results_of_def finish_task_effect [OF Cons.prems(3) j])
qed

lemma results_of_mset:
  assumes "distinct (map result_index xs)" "mset xs = mset ys"
  shows "results_of task xs M = results_of task ys M"
proof -
  let ?f = "\<lambda>blk M. case task blk of Inr s \<Rightarrow> put_result (result_index blk) s M | Inl e \<Rightarrow> M"
  have "fold ?f xs = fold ?f ys"
  proof (rule fold_permuted_eq [where P = "\<lambda>_. True", THEN ext])
    show "?f y (?f x z) = ?f x (?f y z)" if "x \<in> set xs" "y \<in> set xs" for x y z
    proof (cases "x = y")
      case False
      then have "result_index x \<noteq> result_index y" using assms(1) that by (auto simp: distinct_map dest: inj_onD)
      then show ?thesis by (auto split: sum.splits simp: put_result_commute)
    next
      case True
      show ?thesis unfolding True ..
    qed
  qed (use assms(2) in simp_all)
  then show ?thesis by (simp add: results_of_def)
qed

lemma run_blocks_MT_results:
  assumes M: "shaped m n M" and idx: "\<forall>blk \<in> set blks. result_index blk \<in> {..<m} \<times> {..<n}" "distinct (map result_index blks)"
    and order: "mset done_order = mset [0..<length blks]"
  shows "run_blocks_MT done_order task blks M = run_blocks task blks M"
proof -
  have set: "set done_order = {0..<length blks}" using order by (metis set_mset_mset set_upt)
  have "distinct done_order" using order by (metis distinct_upt mset_eq_imp_distinct_iff)
  then have "fold (finish_task task blks) done_order M = results_of task (map ((!) blks) done_order) M"
    using M idx set by (intro results_permute) simp_all
  also have "\<dots> = results_of task (map ((!) blks) [0..<length blks]) M"
  proof (rule results_of_mset)
    show "mset (map ((!) blks) done_order) = mset (map ((!) blks) [0..<length blks])" by (simp only: mset_map order)
    have "mset (map result_index (map ((!) blks) done_order)) = mset (map result_index (map ((!) blks) [0..<length blks]))"
      by (simp only: mset_map order)
    then show "distinct (map result_index (map ((!) blks) done_order))"
      using idx(2) by (metis map_nth mset_eq_imp_distinct_iff)
  qed
  also have "map ((!) blks) [0..<length blks] = blks" by (rule map_nth)
  finally have writes: "fold (finish_task task blks) done_order M = results_of task blks M" .
  have "omap (\<lambda>j. if j \<notin> set done_order then Inl (Undefined ''does not return'')
        else case obind (task (blks ! j)) (\<lambda>s. store_result (blks ! j) s M) of
          Inl e \<Rightarrow> Inl (if list_all (\<lambda>j. j \<in> set done_order) [0..<length blks] then e else Undefined ''mvp_matrix_result'')
        | Inr M \<Rightarrow> Inr M) [0..<length blks]
      = omap (\<lambda>j. obind (task (blks ! j)) (\<lambda>s. store_result (blks ! j) s M)) [0..<length blks]"
    by (rule omap_cong) (simp add: set list_all_iff split: sum.split)
  also have "\<dots> = omap (\<lambda>blk. obind (task blk) (\<lambda>s. store_result blk s M)) (map ((!) blks) [0..<length blks])"
    by (simp add: omap_map comp_def)
  also have "map ((!) blks) [0..<length blks] = blks" by (rule map_nth)
  finally have gets: "run_blocks_MT done_order task blks M
      = obind (omap (\<lambda>blk. obind (task blk) (\<lambda>s. store_result blk s M)) blks) (\<lambda>_. Inr (results_of task blks M))"
    by (simp add: run_blocks_MT_def Let_def writes)
  also have "\<dots> = obind (omap task blks) (\<lambda>_. Inr (results_of task blks M))"
    using idx(1) store_result_put [OF M] by (intro omap_seq) blast
  finally show ?thesis using run_blocks_results [OF M idx(1)] by simp
qed

lemma mat_blocks_places:
  fixes ncols :: nat
  assumes "0 < nrows"
  defines "m \<equiv> (nrows + BLK_NROWS - 1) div BLK_NROWS" and "n \<equiv> (ncols + BLK_NCOLS - 1) div BLK_NCOLS"
  shows "distinct (map result_index (mat_blocks nrows ncols))"
    and "\<forall>blk \<in> set (mat_blocks nrows ncols). result_index blk \<in> {..<m} \<times> {..<n}"
    and "length (mat_blocks nrows ncols) = m * n"
proof -
  note r = result_indices [OF assms(1), of ncols, folded m_def n_def]
  show "distinct (map result_index (mat_blocks nrows ncols))" unfolding r by (simp add: distinct_product)
  have "set (map result_index (mat_blocks nrows ncols)) = {..<m} \<times> {..<n}" unfolding r by (simp add: atLeast0LessThan)
  then show "\<forall>blk \<in> set (mat_blocks nrows ncols). result_index blk \<in> {..<m} \<times> {..<n}" by auto
  show "length (mat_blocks nrows ncols) = m * n" using arg_cong [OF r, of length] by simp
qed

text \<open>The loop over the futures, left before all tasks have finished.\<close>

lemma run_blocks_MT_left_early:
  assumes "set done_order \<subseteq> {..<length blks}" "set done_order \<noteq> {..<length blks}"
  shows "run_blocks_MT done_order task blks M \<in> {Inl (Undefined ''mvp_matrix_result''), Inl (Undefined ''does not return'')}"
proof -
  obtain j where j: "j < length blks" "j \<notin> set done_order" using assms by auto
  have all: "\<not> list_all (\<lambda>j. j \<in> set done_order) [0..<length blks]" using j by (auto simp: list_all_iff)
  let ?f = "\<lambda>j. if j \<notin> set done_order then Inl (Undefined ''does not return'')
        else case obind (task (blks ! j)) (\<lambda>s. store_result (blks ! j) s M) of
          Inl e \<Rightarrow> Inl (Undefined ''mvp_matrix_result'') | Inr M \<Rightarrow> Inr M"
  have run: "run_blocks_MT done_order task blks M
      = obind (omap ?f [0..<length blks]) (\<lambda>_. Inr (fold (finish_task task blks) done_order M))"
    by (simp only: run_blocks_MT_def Let_def all if_False)
  show ?thesis
  proof (cases "omap ?f [0..<length blks]")
    case (Inl e)
    then obtain i where "?f i = Inl e" using omap_first_Inl [of ?f "[0..<length blks]" e] by auto
    then show ?thesis unfolding run Inl by (auto split: if_splits sum.splits)
  next
    case (Inr ys)
    then have "\<forall>i < length [0..<length blks]. ?f ([0..<length blks] ! i) = Inr (ys ! i)" unfolding omap_Inr_iff by blast
    then have "?f ([0..<length blks] ! j) = Inr (ys ! j)" using j(1) by (simp only: length_upt diff_zero)
    then show ?thesis using j by simp
  qed
qed

text \<open>A failed future, while another task is still at work.\<close>

lemma run_blocks_MT_unwinds:
  assumes "done_order \<noteq> []" "0 \<in> set done_order" "0 < length blks" "task (blks ! 0) = Inl e"
    and "j < length blks" "j \<notin> set done_order"
  shows "run_blocks_MT done_order task blks M = Inl (Undefined ''mvp_matrix_result'')"
proof -
  have all: "\<not> list_all (\<lambda>j. j \<in> set done_order) [0..<length blks]" using assms(5,6) by (auto simp: list_all_iff)
  have "[0..<length blks] = 0 # [1..<length blks]" using assms(3) by (simp add: upt_conv_Cons)
  then show ?thesis using assms(2,4) all by (simp add: run_blocks_MT_def Let_def)
qed

lemma matvec_complete_order:
  assumes "mset done_order = mset [0..<length (mat_blocks (nat (fst mat_dims)) (nat (snd mat_dims)))]"
  shows "py_MatVec done_order calls P mat ct_in_vec mat_dims
    = py_MatVec [0..<length (mat_blocks (nat (fst mat_dims)) (nat (snd mat_dims)))] calls P mat ct_in_vec mat_dims"
proof (cases "0 < fst mat_dims")
  case True
  let ?r = "nat (fst mat_dims)" and ?c = "nat (snd mat_dims)"
  define m n where "m = (?r + BLK_NROWS - 1) div BLK_NROWS" and "n = (?c + BLK_NCOLS - 1) div BLK_NCOLS"
  have "0 < ?r" using True by simp
  note places = mat_blocks_places [OF this, of ?c, folded m_def n_def]
  have "shaped m n (replicate m (replicate n ([] :: string)))" by (simp add: shaped_def)
  then have "run_blocks_MT js task (mat_blocks ?r ?c) (replicate m (replicate n []))
      = run_blocks task (mat_blocks ?r ?c) (replicate m (replicate n []))"
    if "mset js = mset [0..<length (mat_blocks ?r ?c)]" for js task
    using run_blocks_MT_results [OF _ places(2,1) that] by blast
  then have run: "run_blocks_MT done_order task (mat_blocks ?r ?c) (replicate m (replicate k []))
      = run_blocks_MT [0..<length (mat_blocks ?r ?c)] task (mat_blocks ?r ?c) (replicate m (replicate k []))"
    if "n = k" for task k using assms that by simp
  show ?thesis unfolding py_MatVec_def Let_def m_def [symmetric] n_def [symmetric]
    by (cases "n = length ct_in_vec mod 2 ^ 32") (simp_all only: run not_True_eq_False not_False_eq_True if_False if_True simp_thms)
next
  case False
  then show ?thesis by (simp add: py_MatVec_def)
qed

lemma matvec_left_early:
  assumes early: "\<And>task M. run_blocks_MT js task (mat_blocks (nat (fst mat_dims)) (nat (snd mat_dims))) M
      \<in> {Inl (Undefined ''mvp_matrix_result''), Inl (Undefined ''does not return'')}"
    and large: "BLK_NCOLS < nat (snd mat_dims) \<or> BLK_NROWS < nat (fst mat_dims)"
  shows "\<exists>e. py_MatVec js calls P mat ct_in_vec mat_dims = Inl e \<and>
    (py_MatVec ks calls P mat ct_in_vec mat_dims = Inl e \<or> e = Undefined ''mvp_matrix_result'' \<or> e = Undefined ''does not return'')"
proof -
  have "\<forall>task M. \<exists>m. run_blocks_MT js task (mat_blocks (nat (fst mat_dims)) (nat (snd mat_dims))) M = Inl (Undefined m) \<and>
      (m = ''mvp_matrix_result'' \<or> m = ''does not return'')"
    using early by blast
  then obtain m where m: "run_blocks_MT js task (mat_blocks (nat (fst mat_dims)) (nat (snd mat_dims))) M = Inl (Undefined (m task M))"
    "m task M = ''mvp_matrix_result'' \<or> m task M = ''does not return''" for task M
    by metis
  show ?thesis using large m(2) by (auto simp: py_MatVec_def Let_def not_activated_def m(1) obind_def split: sum.splits)
qed

text \<open>
  C20. The threaded product of a large matrix, with its failures. When every task has finished before the loop over the
  futures is left, \<open>matvec\<close> ends as the serial loop over the blocks would, in whatever order they finished: the
  places of the results are distinct and inside the matrix of results, and the exception of the first failing block is the
  one that is thrown. When the loop is left with a task still at work, no product is returned: the function fails with what
  the serial loop fails with, before the tasks are launched, or waits for ever for a task that does not finish, or
  an exception has unwound the matrix the remaining tasks write to.
\<close>

theorem matvec_any_order:
  fixes mat_dims :: "int \<times> int" and calls P mat ct_in_vec
  defines "n \<equiv> length (mat_blocks (nat (fst mat_dims)) (nat (snd mat_dims)))"
  defines "serial \<equiv> py_MatVec [0..<n] calls P mat ct_in_vec mat_dims"
  assumes "distinct done_order" "set done_order \<subseteq> {..<n}"
  shows "(set done_order = {..<n} \<longrightarrow> py_MatVec done_order calls P mat ct_in_vec mat_dims = serial) \<and>
    (set done_order \<noteq> {..<n} \<and> (BLK_NCOLS < nat (snd mat_dims) \<or> BLK_NROWS < nat (fst mat_dims)) \<longrightarrow>
       (\<exists>e. py_MatVec done_order calls P mat ct_in_vec mat_dims = Inl e \<and>
          (serial = Inl e \<or> e = Undefined ''mvp_matrix_result'' \<or> e = Undefined ''does not return'')))"
proof -
  have dom: "set done_order \<subseteq> {..<length (mat_blocks (nat (fst mat_dims)) (nat (snd mat_dims)))}" using assms(4) by (simp only: n_def)
  have complete: "py_MatVec done_order calls P mat ct_in_vec mat_dims = serial" if "set done_order = {..<n}"
  proof -
    have "set done_order = set [0..<n]" using that by (simp only: atLeast_upt)
    then have "mset done_order = mset [0..<n]" using assms(3) by (simp only: set_eq_iff_mset_eq_distinct [symmetric] distinct_upt)
    then show ?thesis unfolding serial_def n_def by (rule matvec_complete_order)
  qed
  have left: "\<exists>e. py_MatVec done_order calls P mat ct_in_vec mat_dims = Inl e \<and>
          (serial = Inl e \<or> e = Undefined ''mvp_matrix_result'' \<or> e = Undefined ''does not return'')"
    if part: "set done_order \<noteq> {..<n}" and large: "BLK_NCOLS < nat (snd mat_dims) \<or> BLK_NROWS < nat (fst mat_dims)"
  proof -
    note early = run_blocks_MT_left_early [OF dom part [unfolded n_def]]
    show ?thesis unfolding serial_def using early large by (rule matvec_left_early)
  qed
  show ?thesis using complete left by (intro conjI impI) (simp_all only: simp_thms)
qed

lemma two_blocks: "length (mat_blocks 5000 3) = 2"
  by (simp add: mat_blocks_places(3) blk_simps)

lemma two_blocks_fail:
  fixes cx th sc mat
  assumes mat: "length mat = 15000"
  defines "P \<equiv> \<lparr>mp_threads = th, mp_scale = sc, mp_context = Some cx, mp_secret_key = None\<rparr>"
    and "cts \<equiv> [\<lparr>ev_data = [], ev_len = 0\<rparr>]" and "e \<equiv> Throws (Invalid_argument ''vector length mismatches col_dim'')"
  shows "py_MatVec [0, 1] calls P mat cts (5000, 3) = Inl e"
    and "py_MatVec [0] calls P mat cts (5000, 3) = Inl (Undefined ''mvp_matrix_result'')"
proof -
  let ?blks = "mat_blocks 5000 3" and ?task = "MVP_col_MT calls P mat 3 cts False"
  have "?blks = [((0, 4096), (0, 3)), ((4096, 904), (0, 3))]"
    by (simp add: mat_blocks_def blocks_def row_blk.blocks_from_step col_blk.blocks_from_step blocks_from_done row_dims_def col_dims_def blk_simps)
  then have blk: "?blks ! 0 = ((0, 4096), (0, 3))" "?blks ! 1 = ((4096, 904), (0, 3))" by simp_all
  have fails: "?task (?blks ! j) = Inl e" if "j < 2" for j
  proof -
    have "?task ((r, c), (0, 3)) = Inl e" for r c by (simp add: MVP_col_MT_def cts_def e_def BLK_NCOLS_def)
    moreover have "j = 0 \<or> j = 1" using that by linarith
    ultimately show ?thesis using blk by (elim disjE) (simp_all only:)
  qed
  have "run_blocks_MT [0] ?task ?blks M = Inl (Undefined ''mvp_matrix_result'')" for M
    using fails two_blocks by (intro run_blocks_MT_unwinds [where j = 1]) simp_all
  moreover have "run_blocks_MT [0, 1] ?task ?blks M = Inl e" for M
    using fails [of 0] fails [of 1] two_blocks by (simp add: run_blocks_MT_def upt_conv_Cons)
  moreover have "int_of_size 15000 = 15000" "int_mult 5000 3 = Inr 15000" by (simp_all add: int_of_size_def int_mult_def)
  ultimately show "py_MatVec [0, 1] calls P mat cts (5000, 3) = Inl e"
    and "py_MatVec [0] calls P mat cts (5000, 3) = Inl (Undefined ''mvp_matrix_result'')"
    by (simp_all add: py_MatVec_def P_def blk_simps Let_def mat) (simp_all add: cts_def)
qed

theorem matvec_any_order_witness:
  "(\<forall>calls P mat cts. py_MatVec [1, 0] calls P mat cts (5000, 3) = py_MatVec [0, 1] calls P mat cts (5000, 3)) \<and>
   (\<exists>calls P mat cts. py_MatVec [0, 1] calls P mat cts (5000, 3) = Inl (Throws (Invalid_argument ''vector length mismatches col_dim'')) \<and>
      py_MatVec [0] calls P mat cts (5000, 3) = Inl (Undefined ''mvp_matrix_result''))"
proof (intro conjI allI)
  have n: "length (mat_blocks (nat (fst (5000 :: int, 3 :: int))) (nat (snd (5000 :: int, 3 :: int)))) = 2" by (simp add: two_blocks)
  have up: "[0..<2] = [0, 1]" "{..<2 :: nat} = {0, 1}" by (auto simp: upt_conv_Cons numeral_2_eq_2)
  note any = matvec_any_order [where mat_dims = "(5000, 3)", unfolded n up]
  show "py_MatVec [1, 0] calls P mat cts (5000, 3) = py_MatVec [0, 1] calls P mat cts (5000, 3)" for calls P mat cts
    using any [of "[1, 0]" calls P mat cts] by auto
  show "\<exists>calls P mat cts. py_MatVec [0, 1] calls P mat cts (5000, 3) = Inl (Throws (Invalid_argument ''vector length mismatches col_dim'')) \<and>
      py_MatVec [0] calls P mat cts (5000, 3) = Inl (Undefined ''mvp_matrix_result'')"
    using two_blocks_fail [OF length_replicate] by blast
qed

end
