(* ===== verification/WrapperJoin.thy ===== *)
theory WrapperJoin
  imports WrapperCorrect DecryptCorrect
begin

text \<open>
  The Python module: what a block of a matrix holds, what the joined product decrypts to, and pickling.
\<close>

section \<open>The entries of a block\<close>

lemma to_fixed_Inr_iff:
  "to_fixed scale xs = Inr ws \<longleftrightarrow> length ws = length xs \<and> (\<forall>i < length xs. to_fixed scale [xs ! i] = Inr [ws ! i])"
proof -
  have "to_fixed scale [x] = Inr [w] \<longleftrightarrow>
      (case x of None \<Rightarrow> Inl (Throws (Runtime_error ''Unable to cast Python instance'')) | Some r \<Rightarrow> RealTo2k r scale) = Inr w" for x w
    by (auto simp: to_fixed_def obind_eq_Inr_iff)
  then show ?thesis by (simp add: to_fixed_def [of scale xs] omap_Inr_iff)
qed

lemma to_fixed_total:
  assumes "\<forall>x \<in> set xs. \<exists>w. to_fixed scale [x] = Inr [w]"
  shows "\<exists>ws. to_fixed scale xs = Inr ws"
proof -
  obtain g where "\<forall>x \<in> set xs. to_fixed scale [x] = Inr [g x]" using assms by metis
  then have "to_fixed scale xs = Inr (map g xs)" by (subst to_fixed_Inr_iff) simp
  then show ?thesis by blast
qed

lemma in_mat_blocks:
  assumes "((row_ite, rd), (col_ite, cd)) \<in> set (mat_blocks nrows ncols)"
  shows "0 < rd" "rd \<le> BLK_NROWS" "row_ite + rd \<le> nrows" "0 < cd" "cd \<le> BLK_NCOLS" "col_ite + cd \<le> ncols"
proof -
  have b: "(row_ite, rd) \<in> set (blocks row_dims nrows)" "(col_ite, cd) \<in> set (blocks col_dims ncols)"
    using assms by (simp_all add: mat_blocks_def)
  show "0 < rd" "row_ite + rd \<le> nrows" "0 < cd" "col_ite + cd \<le> ncols"
    using row_blk.blocks_bounds [OF b(1)] col_blk.blocks_bounds [OF b(2)] by simp_all
  show "rd \<le> BLK_NROWS" "cd \<le> BLK_NCOLS"
    using row_blk.blocks_bounds [OF b(1)] col_blk.blocks_bounds [OF b(2)] by (auto simp: row_dims_def col_dims_def split: if_splits)
qed

lemma entry_in_matrix:
  assumes "row_ite + rd \<le> nrows" "col_ite + cd \<le> ncols" "r < rd" "length mat = nrows * ncols"
  shows "(row_ite + r) * ncols + col_ite + cd \<le> length mat"
proof -
  have "Suc (row_ite + r) * ncols \<le> nrows * ncols" using assms(1,3) by (intro mult_le_mono1) simp
  then show ?thesis using assms(2,4) by simp
qed

lemma block_row_ok:
  assumes "row_ite + rd \<le> nrows" "col_ite + cd \<le> ncols" "r < rd" and mat: "length mat = nrows * ncols" "length mat < 2 ^ 31"
    and conv: "\<forall>x \<in> set mat. \<exists>w. to_fixed scale [x] = Inr [w]"
  shows "\<exists>ws. block_row scale mat ncols ((row_ite, rd), (col_ite, cd)) r = Inr ws \<and> length ws = cd \<and>
    (\<forall>c < cd. to_fixed scale [mat ! ((row_ite + r) * ncols + (col_ite + c))] = Inr [ws ! c])"
proof -
  let ?o = "(row_ite + r) * ncols + col_ite"
  have fit: "?o + cd \<le> length mat" by (rule entry_in_matrix [OF assms(1-4)])
  then have off: "(row_ite * ncols + r * ncols + col_ite) mod 2 ^ 32 = ?o" using mat(2) by (simp add: add_mult_distrib)
  have sub: "set (slice mat (?o, cd)) \<subseteq> set mat" by (metis slice_def set_drop_subset set_take_subset subset_trans)
  then obtain ws where ws: "to_fixed scale (slice mat (?o, cd)) = Inr ws" using to_fixed_total [of "slice mat (?o, cd)" scale] conv by blast
  have len: "length (slice mat (?o, cd)) = cd" using fit by (simp add: slice_def)
  have "slice mat (?o, cd) ! c = mat ! ((row_ite + r) * ncols + (col_ite + c))" if "c < cd" for c
    using that fit by (simp add: slice_def add.assoc)
  then have "\<forall>c < cd. to_fixed scale [mat ! ((row_ite + r) * ncols + (col_ite + c))] = Inr [ws ! c]" "length ws = cd"
    using ws len by (simp_all add: to_fixed_Inr_iff [of scale "slice mat (?o, cd)"])
  moreover have "block_row scale mat ncols ((row_ite, rd), (col_ite, cd)) r = Inr ws"
    using fit ws unfolding block_row_def by (simp only: Let_def split off not_less [symmetric] if_False)
  ultimately show ?thesis by blast
qed

text \<open>
  C21. What the api is handed for a block of a large matrix: when every element converts and the matrix has fewer than
  \<open>2 ^ 31\<close> elements, as the check of its dimensions requires, no 32-bit offset wraps round, the buffer becomes a valid view,
  and the entry in row \<open>r\<close> and column \<open>c\<close> of the view is the fixed-point form of the element of the matrix in row
  \<open>row_ite + r\<close> and column \<open>col_ite + c\<close>; a block of a single row is handed over with a second row of zeros.
\<close>

theorem block_is_submatrix:
  assumes "((row_ite, rd), (col_ite, cd)) \<in> set (mat_blocks nrows ncols)" "length mat = nrows * ncols" "length mat < 2 ^ 31"
    and "\<forall>x \<in> set mat. \<exists>w. to_fixed scale [x] = Inr [w]"
  shows "\<exists>input m. block_input scale mat ncols ((row_ite, rd), (col_ite, cd)) = Inr input \<and>
    MatView_new (Some input) (if rd = 1 then 2 else rd) cd = Inr m \<and> mat_wf m \<and>
    (\<forall>r < rd. \<forall>c < cd. to_fixed scale [mat ! ((row_ite + r) * ncols + (col_ite + c))] = Inr [mat_entry m r c]) \<and>
    (rd = 1 \<longrightarrow> (\<forall>c < cd. mat_entry m 1 c = 0))"
proof -
  let ?blk = "((row_ite, rd), (col_ite, cd))" and ?n = "if rd = 1 then 2 else rd"
  note b = in_mat_blocks [OF assms(1)]
  have "\<exists>ws. block_row scale mat ncols ?blk r = Inr ws \<and> length ws = cd \<and>
      (\<forall>c < cd. to_fixed scale [mat ! ((row_ite + r) * ncols + (col_ite + c))] = Inr [ws ! c])" if "r < rd" for r
    by (rule block_row_ok [OF b(3,6) that assms(2-4)])
  then obtain W where W: "\<And>r. r < rd \<Longrightarrow> block_row scale mat ncols ?blk r = Inr (W r)" "\<And>r. r < rd \<Longrightarrow> length (W r) = cd"
      "\<And>r c. r < rd \<Longrightarrow> c < cd \<Longrightarrow> to_fixed scale [mat ! ((row_ite + r) * ncols + (col_ite + c))] = Inr [W r ! c]"
    by metis
  let ?rows = "map W [0..<rd]"
  have rows: "omap (block_row scale mat ncols ?blk) [0..<rd] = Inr ?rows" using W(1) by (intro omap_all_Inr) simp
  have "sum_list (map length ?rows) = sum_list (map (\<lambda>r. cd) [0..<rd])"
    unfolding map_map by (intro arg_cong [where f = sum_list] map_cong refl) (simp add: W(2))
  then have "length (concat ?rows) = rd * cd" by (simp add: length_concat sum_list_triv)
  moreover define C where "C = concat ?rows"
  ultimately have lenc: "length C = rd * cd" by simp
  define Z :: "u64 list" where "Z = replicate (BLK_NROWS * BLK_NCOLS) 0"
  have Z: "length Z = BLK_NROWS * BLK_NCOLS" "\<And>i. i < BLK_NROWS * BLK_NCOLS \<Longrightarrow> Z ! i = 0" by (simp_all add: Z_def)
  have room: "rd * cd \<le> BLK_NROWS * BLK_NCOLS" using b by (intro mult_le_mono) simp_all
  have room': "?n * cd \<le> BLK_NROWS * BLK_NCOLS" using b by (intro mult_le_mono) (simp_all add: blk_simps)
  define i1 where "i1 = overwrite Z 0 C"
  define input where "input = (if rd = 1 then overwrite i1 (length C) (replicate cd 0) else i1)"
  have i1: "length i1 = BLK_NROWS * BLK_NCOLS" using room Z(1) lenc by (simp add: i1_def)
  have len: "length input = BLK_NROWS * BLK_NCOLS" using room' i1 lenc by (cases "rd = 1") (simp_all add: input_def)
  have inp: "block_input scale mat ncols ?blk = Inr input" unfolding block_input_def split Let_def rows
    by (simp only: obind_Inr input_def i1_def Z_def C_def Let_def)
  have at: "input ! (r * cd + c) = W r ! c" if rc: "r < rd" "c < cd" for r c
  proof -
    have "Suc r * cd \<le> rd * cd" using rc by (intro mult_le_mono1) simp
    then have pos: "r * cd + c < rd * cd" using rc by simp
    then have "i1 ! (r * cd + c) = C ! (r * cd + c)" using room Z(1) lenc unfolding i1_def by (subst nth_overwrite) simp_all
    also have "\<dots> = W r ! c" unfolding C_def using nth_concat_rows [of r ?rows c cd] rc W(2) by simp
    finally show ?thesis using pos i1 room' lenc by (auto simp: input_def nth_overwrite)
  qed
  have pad: "input ! (cd + c) = 0" if "rd = 1" "c < cd" for c
    using that i1 room' lenc by (simp add: input_def nth_overwrite)
  define m where "m = \<lparr>mv_data = take (?n * cd) input, mv_nrows = ?n, mv_ncols = cd\<rparr>"
  have view: "MatView_new (Some input) ?n cd = Inr m" using b(1,4) room' len by (simp add: MatView_new_def m_def)
  have entry: "mat_entry m r c = input ! (r * cd + c)" if "r < ?n" "c < cd" for r c
  proof -
    have "Suc r * cd \<le> ?n * cd" using that by (intro mult_le_mono1) simp
    then have "r * cd + c < ?n * cd" using that(2) by simp
    then show ?thesis by (simp add: mat_entry_def m_def)
  qed
  have "mat_entry m r c = W r ! c" if "r < rd" "c < cd" for r c using entry [of r c] at that by auto
  then have "\<forall>r < rd. \<forall>c < cd. to_fixed scale [mat ! ((row_ite + r) * ncols + (col_ite + c))] = Inr [mat_entry m r c]"
    using W(3) by simp
  moreover have "rd = 1 \<longrightarrow> (\<forall>c < cd. mat_entry m 1 c = 0)" using entry [of 1] pad by simp
  ultimately show ?thesis using inp view MatView_new_wf [OF view] by blast
qed

lemma RealTo2k_small: "RealTo2k (Finite 1 0) (Finite 1 15) = Inr 32768" "RealTo2k (Finite 3 (- 1)) (Finite 1 15) = Inr 49152"
  by (simp_all add: RealTo2k_def round_ratio_def compute_floorlog quotient_at_def round_even_def round_away_def Let_def)

lemma one_row_block: "mat_blocks 1 2 = [((0, 1), (0, 2))]"
  by (simp add: mat_blocks_def blocks_def row_blk.blocks_from_step col_blk.blocks_from_step blocks_from_done row_dims_def col_dims_def blk_simps)

text \<open>The row \<open>1, 1.5\<close> with scale \<open>2 ^ 15\<close>.\<close>

theorem block_is_submatrix_witness:
  "\<exists>input m. block_input (Finite 1 15) [Some (Finite 1 0), Some (Finite 3 (- 1))] 2 ((0, 1), (0, 2)) = Inr input \<and>
    MatView_new (Some input) 2 2 = Inr m \<and> mat_entry m 0 0 = 32768 \<and> mat_entry m 0 1 = 49152 \<and> mat_entry m 1 0 = 0"
proof -
  let ?mat = "[Some (Finite 1 0), Some (Finite 3 (- 1))]"
  have v: "to_fixed (Finite 1 15) [Some (Finite 1 0)] = Inr [32768]" "to_fixed (Finite 1 15) [Some (Finite 3 (- 1))] = Inr [49152]"
    by (simp_all add: to_fixed_def RealTo2k_small)
  have "((0, 1), (0, 2)) \<in> set (mat_blocks 1 2)" unfolding one_row_block by simp
  moreover have "length ?mat = 1 * 2" "length ?mat < 2 ^ 31" by simp_all
  moreover have "\<forall>x \<in> set ?mat. \<exists>w. to_fixed (Finite 1 15) [x] = Inr [w]" using v by auto
  ultimately obtain input m where m: "block_input (Finite 1 15) ?mat 2 ((0, 1), (0, 2)) = Inr input"
      "MatView_new (Some input) (if (1 :: nat) = 1 then 2 else 1) 2 = Inr m"
      "\<forall>r < 1. \<forall>c < 2. to_fixed (Finite 1 15) [?mat ! ((0 + r) * 2 + (0 + c))] = Inr [mat_entry m r c]"
      "(1 :: nat) = 1 \<longrightarrow> (\<forall>c < 2. mat_entry m 1 c = 0)"
    using block_is_submatrix [of 0 1 0 2 1 2 ?mat "Finite 1 15"] by blast
  have "Inr [32768] = (Inr [mat_entry m 0 0] :: u64 list outcome)" "Inr [49152] = (Inr [mat_entry m 0 1] :: u64 list outcome)"
    using m(3) [rule_format, of 0 0] m(3) [rule_format, of 0 1] v by simp_all
  then show ?thesis using m by auto
qed

section \<open>Decrypting a joined product\<close>

text \<open>Loading from a stream takes the bytes of one object and leaves what follows, as the documentation of SEAL says.\<close>

definition loads_prefix :: "seal_lib \<Rightarrow> bool" where
  "loads_prefix L \<longleftrightarrow> (\<forall>s trail ct. sl_ct_load L s = Inr ct \<longrightarrow> sl_ct_load L (s @ trail) = Inr ct)"

lemma impl_of_rt: "impl_of rt meta = Inr I \<Longrightarrow> pub_seal_rt I = cx_seal_context rt"
  by (auto simp: impl_of_def MVPPublicImpl_new_def pub_check_config_def Let_def split: if_splits)

lemma DecryptMatVec_prefix:
  assumes L: "loads_prefix (cx_seal_context rt)" and d: "api_DecryptMatVec (Some rt) [s] meta sk n = Inr xs"
  shows "api_DecryptMatVec (Some rt) [s @ trail] meta sk n = Inr xs"
proof -
  obtain I where I: "impl_of rt meta = Inr I" "Decrypt I [s] sk n = Inr xs"
    using d by (auto simp: api_DecryptMatVec_def obind_eq_Inr_iff)
  have rt: "pub_seal_rt I = cx_seal_context rt" by (rule impl_of_rt [OF I(1)])
  obtain cts where cts: "DecodeSEALObjects (pub_seal_rt I) [s] True = Inr cts"
    using I(2) by (auto simp: Decrypt_def Let_def outcome_simps)
  then obtain ct where ct: "sl_ct_load (pub_seal_rt I) s = Inr ct" "cts = [ct]"
    by (auto simp: DecodeSEALObjects_def outcome_simps)
  then have "sl_ct_load (pub_seal_rt I) (s @ trail) = Inr ct" using L by (simp add: rt loads_prefix_def)
  then have "DecodeSEALObjects (pub_seal_rt I) [s @ trail] True = DecodeSEALObjects (pub_seal_rt I) [s] True"
    using ct by (simp add: DecodeSEALObjects_def)
  then have "Decrypt I [s @ trail] sk n = Decrypt I [s] sk n" by (simp add: Decrypt_def)
  then show ?thesis using I by (simp add: api_DecryptMatVec_def)
qed

lemma decrypt_blocks_joined:
  assumes P: "mp_context P = Some rt" "mp_secret_key P = Some sk" and L: "loads_prefix (cx_seal_context rt)"
  shows "length strs = length blks \<Longrightarrow> length xs = length blks \<Longrightarrow> \<forall>s \<in> set strs. record_ok s \<Longrightarrow>
    length (pre @ merge_records strs) + 10 < 2 ^ 32 \<Longrightarrow> \<forall>b \<in> set blks. snd b \<le> kMaxNumRows \<Longrightarrow>
    (\<forall>i < length blks. api_DecryptMatVec (Some rt) [strs ! i] (vec_meta (snd (blks ! i)) 1) sk (snd (blks ! i)) = Inr (xs ! i)) \<Longrightarrow>
    decrypt_blocks P \<lparr>pr_data = pre @ merge_records strs, pr_len = n, pr_scale = sc\<rparr> blks (length pre)
      = Inr (map (\<lambda>u. U2kToReal u sc) (concat xs))"
proof (induction blks arbitrary: strs xs pre)
  case Nil
  then show ?case by simp
next
  case (Cons blk blks)
  obtain s strs' x xs' where e: "strs = s # strs'" "xs = x # xs'" using Cons.prems(1,2) by (metis length_Suc_conv)
  define pre' where "pre' = pre @ frame_record s"
  have buf: "pre @ merge_records strs = pre @ frame_record s @ merge_records strs'"
    and buf': "pre @ frame_record s @ merge_records strs' = pre' @ merge_records strs'"
    by (simp_all add: e merge_records_concat pre'_def)
  have "read_record (pre @ merge_records strs) (length pre) = Inr (take (length pre + 10 + length s) (s @ merge_records strs'), length pre')"
    using read_record_ok [of s pre "merge_records strs'"] Cons.prems(3,4) unfolding buf by (simp add: e pre'_def)
  moreover obtain trail where "take (length pre + 10 + length s) (s @ merge_records strs') = s @ trail" by simp
  ultimately have rec: "read_record (pre @ merge_records strs) (length pre) = Inr (s @ trail, length pre')" by simp
  have dec: "api_DecryptMatVec (Some rt) [s @ trail] (vec_meta (snd blk) 1) sk (snd blk) = Inr x"
    using Cons.prems(6) by (intro DecryptMatVec_prefix [OF L]) (force simp: e)
  have rest: "decrypt_blocks P \<lparr>pr_data = pre' @ merge_records strs', pr_len = n, pr_scale = sc\<rparr> blks (length pre')
      = Inr (map (\<lambda>u. U2kToReal u sc) (concat xs'))"
  proof (rule Cons.IH)
    show "length (pre' @ merge_records strs') + 10 < 2 ^ 32" using Cons.prems(4) unfolding buf buf' .
    show "\<forall>i < length blks. api_DecryptMatVec (Some rt) [strs' ! i] (vec_meta (snd (blks ! i)) 1) sk (snd (blks ! i)) = Inr (xs' ! i)"
      using Cons.prems(6) by (auto simp: e)
  qed (use Cons.prems in \<open>simp_all add: e\<close>)
  have "snd blk \<le> kMaxNumRows" using Cons.prems(5) by simp
  then show ?case using rec dec rest P by (simp add: e(2) throw_status_def buf [symmetric] buf' [symmetric] not_less)
qed

lemma row_blocks_small: "\<forall>b \<in> set (blocks row_dims n). snd b \<le> kMaxNumRows"
proof
  fix b
  assume "b \<in> set (blocks row_dims n)"
  then have "snd b = row_dims n (fst b)" using row_blk.blocks_bounds [of "fst b" "snd b" n] by simp
  then show "snd b \<le> kMaxNumRows" by (auto simp: row_dims_def blk_simps kMaxNumRows_def kPolyDegree_def)
qed

text \<open>
  C19. Decrypting a joined product: when the string of a product is the merge of one ciphertext for each block of rows, each
  of the form the format can hold, and the api decrypts the ciphertext of each block, \<open>decrypt\<close> succeeds and returns the
  numbers of all blocks in the order of the rows, although each ciphertext it reads is followed by bytes of the
  later records.
\<close>

theorem joined_product_decrypts:
  assumes "mp_context P = Some rt" "mp_secret_key P = Some sk" "loads_prefix (cx_seal_context rt)" "n \<le> 2 ^ 32 - BLK_NROWS"
    and "length strs = length (blocks row_dims n)" "length xs = length (blocks row_dims n)"
    and "\<forall>s \<in> set strs. record_ok s" "length (merge_records strs) + 10 < 2 ^ 32"
    and "\<forall>i < length (blocks row_dims n). api_DecryptMatVec (Some rt) [strs ! i] (vec_meta (snd (blocks row_dims n ! i)) 1) sk
      (snd (blocks row_dims n ! i)) = Inr (xs ! i)"
  shows "py_Decrypt P \<lparr>pr_data = merge_records strs, pr_len = n, pr_scale = sc\<rparr> = Inr (map (\<lambda>u. U2kToReal u sc) (concat xs))"
  using decrypt_blocks_joined [OF assms(1-3,5-7), of "[]" n sc] assms(4,8,9) row_blocks_small [of n]
  by (simp add: py_Decrypt_def not_less)

text \<open>One row, over the concrete context.\<close>

theorem joined_product_decrypts_witness:
  "\<exists>P out. py_Decrypt P \<lparr>pr_data = merge_records [''^''], pr_len = 1, pr_scale = Finite 1 0\<rparr> = Inr [out]"
proof -
  define ys :: "nat list" where "ys = [noisy (17314086913 * 17180393473) 64 5 (- 3), 77]"
  obtain rt where rt: "MVPContext_new (lib_ref (carry_ct ys)) 1 = Inr rt" "ctx_ok rt" "cx_seal_context rt = lib_ref (carry_ct ys)"
    using MVPContext_new_ok [OF lib_ok_ref, of "carry_ct ys" 1] by blast
  obtain I where I: "impl_of rt (vec_meta 1 1) = Inr I"
    by (simp add: impl_of_def MVPPublicImpl_new_def pub_check_config_def Let_def vec_meta_def kMaxNumRows_def
        kMaxNumCols_def kPolyDegree_def rt(3)) (simp add: rt_ref_def mvp_ctx_def kMaxNumRows_def
        kMaxNumCols_def kPolyDegree_def)
  note J = impl_ofD [OF rt(2) I]
  have lib: "pub_seal_rt I = lib_ref (carry_ct ys)" using impl_of_rt [OF I] rt(3) by simp
  have len: "length ys = 2" by (simp add: ys_def)
  obtain d where d: "decrypt_coeffs (pub_rt I) (carry_ct ys) sk_ref = Inr d" "pt_data d = rns_array (sc_first_moduli (pub_ctx I)) ys"
    using decrypt_carry_ct [OF len] by (auto simp: lib ref_moduli)
  have "\<exists>out. Decrypt I [''^''] sk_ref (length [5 :: nat]) = Inr out \<and> map (\<lambda>y. unat y mod 2 ^ 64) out = map (\<lambda>x. x mod 2 ^ 64) [5]"
  proof (rule Decrypt_lemma [OF _ _ _ _ _ _ _ d])
    show "impl_ok I 64" "length [5 :: nat] = mi_nrows (pub_config I)" using J by (simp_all add: vec_meta_def)
    show "sc_degree (pub_ctx I) = 2 ^ 1" by (simp add: lib)
    show "sl_ct_load (pub_seal_rt I) ''^'' = Inr (carry_ct ys)" by (simp add: lib lib_ref_def)
    show "sr_context_moduli (pub_rt I) (ct_parms_id (carry_ct ys)) = Some (sc_first_moduli (pub_ctx I))"
      by (simp add: lib carry_ct_def ref_moduli)
    show "carries (pub_ctx I) 64 [5] (\<lambda>_. - 3) ys" unfolding ys_def lib lib_ref_rt by (rule carries_ref)
    show "\<forall>i < length [5 :: nat]. noise_fits (pub_ctx I) 64 (- 3)" using noise_fits_ref [of "- 3"] by (simp add: lib)
  qed simp_all
  then obtain out where out: "Decrypt I [''^''] sk_ref 1 = Inr out" "map (\<lambda>y. unat y mod 2 ^ 64) out = [5]" by auto
  obtain w where w: "out = [w]" using out(2) by auto
  define P where "P = \<lparr>mp_threads = 1, mp_scale = Finite 1 0, mp_context = Some rt, mp_secret_key = Some sk_ref\<rparr>"
  have one: "blocks row_dims 1 = [(0, 1)]"
    by (simp add: blocks_def row_blk.blocks_from_step blocks_from_done row_dims_def blk_simps)
  have "py_Decrypt P \<lparr>pr_data = merge_records [''^''], pr_len = 1, pr_scale = Finite 1 0\<rparr>
      = Inr (map (\<lambda>u. U2kToReal u (Finite 1 0)) (concat [out]))"
  proof (rule joined_product_decrypts)
    show "mp_context P = Some rt" "mp_secret_key P = Some sk_ref" by (simp_all add: P_def)
    show "loads_prefix (cx_seal_context rt)" by (simp add: rt(3) loads_prefix_def lib_ref_def)
    show "\<forall>s \<in> set [''^'']. record_ok s" by (simp add: record_ok_def is_digit_def)
    show "length (merge_records [''^'']) + 10 < 2 ^ 32" by (simp add: merge_records_concat frame_record_eq(3))
    show "\<forall>i < length (blocks row_dims 1). api_DecryptMatVec (Some rt) [[''^''] ! i] (vec_meta (snd (blocks row_dims 1 ! i)) 1) sk_ref
        (snd (blocks row_dims 1 ! i)) = Inr ([out] ! i)" using I out(1) by (simp add: one [simplified] api_DecryptMatVec_def)
  qed (simp_all add: one [simplified] blk_simps)
  then show ?thesis by (auto simp: w)
qed

text \<open>
  The product \<open>MatVecFMA\<close> returns is not framed: of a string that does not begin like a number the reader takes the ten
  bytes from position 10 as the ciphertext.
\<close>

lemma unframed_record:
  assumes "s = c # rest" "\<not> is_digit c" "\<not> is_space c" "c \<noteq> CHR ''-''" "c \<noteq> CHR ''+''" "10 \<le> length s"
  shows "read_record s 0 = Inr (take 10 (drop 10 s), 10)"
proof -
  have "takeWhile is_digit (dropWhile is_space (takeWhile (\<lambda>c. c \<noteq> CHR 0x00) (c # take 9 rest))) = []"
    using assms(2,3) by simp
  then have "atoi (takeWhile (\<lambda>c. c \<noteq> CHR 0x00) (c # take 9 rest)) = Inr 0"
    using assms(2-5) by (simp add: atoi_def digits_value_def)
  moreover have "take 10 s = c # take 9 rest" by (simp add: assms(1))
  ultimately show ?thesis using assms(6) by (simp add: read_record_def substr_def)
qed

section \<open>Pickling\<close>

text \<open>
  Pickling an encrypted vector and reading it back: every vector of one to four ciphertexts can be pickled, and what
  comes back is the vector up to its first empty string, so the vector itself when no ciphertext is empty; a vector that
  begins with an empty string is refused.
\<close>

theorem pickled_vector_returns:
  assumes "1 \<le> length (ev_data v)" "length (ev_data v) \<le> 4"
  shows "\<exists>t. MVPEncryptedVec_getstate v = Inr t \<and>
    MVPEncryptedVec_setstate t = (if hd (ev_data v) = [] then invalid_state else Inr (v\<lparr>ev_data := takeWhile (\<lambda>s. s \<noteq> []) (ev_data v)\<rparr>))"
proof -
  obtain a as where v: "ev_data v = a # as" "length as \<le> 3" using assms by (cases "ev_data v") auto
  have "[0..<4] = [0, 1, 2, 3 :: nat]" by (simp add: upt_conv_Cons)
  then show ?thesis using v
    by (cases as; cases "tl as"; cases "tl (tl as)")
      (auto simp: MVPEncryptedVec_getstate_def MVPEncryptedVec_setstate_def Let_def invalid_state_def)
qed

theorem pickled_vector_returns_witness:
  "\<exists>t. MVPEncryptedVec_getstate \<lparr>ev_data = [''a'', ''b''], ev_len = 9000\<rparr> = Inr t \<and>
    MVPEncryptedVec_setstate t = Inr \<lparr>ev_data = [''a'', ''b''], ev_len = 9000\<rparr>"
  using pickled_vector_returns [of "\<lparr>ev_data = [''a'', ''b''], ev_len = 9000\<rparr>"] by simp

end
