(* ===== verification/SwitchKey.thy ===== *)
theory SwitchKey
  imports Public
begin

text \<open>
  \<open>util/seal.cc\<close>: the repository's own version of SEAL's \<open>apply_galois_inplace\<close>, with the key switch and the
  division by the special prime it needs. The ciphertext may be in either form: a polynomial taken out of it is
  brought to the form the step needs. Functions that work in place return the new object beside the code they
  return.
\<close>

section \<open>Codes and objects\<close>

text \<open>The codes this file returns. They are not those of \<open>status.h\<close>.\<close>

datatype seal_code =
    Code_OK | ERR_NULL_POINTER | ERR_INVALID_ARG | ERR_INTERNAL | ERR_OUT_BOUND | ERR_DIM_MISMATCH

text \<open>Key switching keys: for every index the ciphertexts that encrypt the parts of a key.\<close>

record kswitch_keys =
  ks_parms_id :: parms_id
  ks_data :: "public_key list list"

text \<open>What the code reads from the RNS tool: the moduli, and the inverses of the last one modulo the others.\<close>

record rns_tool =
  rt_base_q :: "u64 list"
  rt_inv_q_last_mod_q :: "u64 list"

text \<open>
  The routines of SEAL these functions call beyond those of \<open>seal_runtime\<close>, and SEAL's two compile-time
  constants: the bits of the largest modulus and the number of products it allows without a reduction. The two checks
  of \<open>valcheck.h\<close> have an overload for ciphertexts, which refuses the key level, and one for public keys, which demands it.
\<close>

record evaluator =
  ev_rt :: seal_runtime
  ev_buffer_valid :: "rlwe_ct \<Rightarrow> bool"
  ev_key_metadata_valid :: "public_key \<Rightarrow> bool"
  ev_key_buffer_valid :: "public_key \<Rightarrow> bool"
  ev_using_keyswitching :: bool
  ev_rns_tool :: "rns_tool option"
  ev_user_mod_bits :: nat
  ev_mul_acc_max :: nat
  ev_multiply_uint64 :: "u64 \<Rightarrow> u64 \<Rightarrow> u128"
  ev_add_uint128 :: "u128 \<Rightarrow> u128 \<Rightarrow> u128"
  ev_apply_galois :: "nat \<Rightarrow> u64 \<Rightarrow> u64 list \<Rightarrow> u64 list"
  ev_apply_galois_ntt :: "nat \<Rightarrow> u64 list \<Rightarrow> u64 list"
  ev_has_key :: "kswitch_keys \<Rightarrow> nat \<Rightarrow> bool outcome"
  ev_get_index :: "nat \<Rightarrow> nat outcome"

abbreviation ev_arith :: "evaluator \<Rightarrow> seal_arith" where
  "ev_arith E \<equiv> sr_arith (ev_rt E)"

abbreviation ev_degree :: "evaluator \<Rightarrow> nat" where
  "ev_degree E \<equiv> sc_degree (sr_ctx (ev_rt E))"

abbreviation ev_key_moduli :: "evaluator \<Rightarrow> u64 list" where
  "ev_key_moduli E \<equiv> sc_key_moduli (sr_ctx (ev_rt E))"

definition modulo_poly_coeffs :: "seal_arith \<Rightarrow> u64 list \<Rightarrow> u64 \<Rightarrow> u64 list" where
  "modulo_poly_coeffs S poly q = map (\<lambda>x. barrett_reduce_64 S x q) poly"

definition add_poly_scalar_coeffmod :: "seal_arith \<Rightarrow> u64 list \<Rightarrow> u64 \<Rightarrow> u64 \<Rightarrow> u64 list" where
  "add_poly_scalar_coeffmod S poly scalar q = map (\<lambda>x. add_uint_mod S x scalar q) poly"

section \<open>Division by the last modulus\<close>

text \<open>
  The pass of the loop for the modulus \<open>q\<close>: \<open>last_input\<close> are the coefficients for the last modulus plus its
  half, \<open>inv_last\<close> is the inverse of the last modulus. The sums and differences are on words that wrap round.
\<close>

definition divide_limb :: "evaluator \<Rightarrow> u64 \<Rightarrow> u64 list \<Rightarrow> u64 \<Rightarrow> u64 \<Rightarrow> u64 \<Rightarrow> u64 list \<Rightarrow> u64 list" where
  "divide_limb E last_modulus last_input inv_last q table input =
     (let S = ev_arith E; half = drop_bit 1 last_modulus;
          temp = (if q < last_modulus then modulo_poly_coeffs S last_input q else last_input);
          neg_half_mod = q - barrett_reduce_64 S half q;
          temp = map (\<lambda>J. J + neg_half_mod) temp;
          qi_lazy = (if ev_user_mod_bits E \<le> 60 then push_bit 2 q else push_bit 1 q);
          temp = sr_ntt_lazy (ev_rt E) table temp;
          temp = (if ev_user_mod_bits E \<le> 60 then temp
                  else map (\<lambda>J. J - (qi_lazy AND - (if qi_lazy \<le> J then 1 else 0))) temp);
          input = map2 (\<lambda>a t. a + (qi_lazy - t)) input temp
      in multiply_poly_scalar_coeffmod S input inv_last q)"

text \<open>
  The input is the list of its residue polynomials, the last of them for the last modulus; \<open>tables\<close> are the
  moduli of the transform tables. Of the pointers the guard tests only that of the RNS tool can be null here.
\<close>

definition divide_and_round_q_last_ntt_inplace ::
    "evaluator \<Rightarrow> u64 list list \<Rightarrow> nat \<Rightarrow> u64 list \<Rightarrow> rns_tool option \<Rightarrow> (seal_code \<times> u64 list list) outcome" where
  "divide_and_round_q_last_ntt_inplace E input input_base_size tables rns_tool =
     (case rns_tool of None \<Rightarrow> Inr (ERR_NULL_POINTER, input)
      | Some tool \<Rightarrow>
          let base_q = rt_base_q tool; base_q_size = length base_q in
          if base_q_size \<le> input_base_size \<or> input_base_size < 1 then Inr (ERR_INVALID_ARG, input)
          else if length input \<le> input_base_size \<or> length tables < base_q_size
               \<or> length (rt_inv_q_last_mod_q tool) < input_base_size
            then Inl (Undefined ''input[input_base_size]'')
          else
          let last_input = sr_intt (ev_rt E) (tables ! (base_q_size - 1)) (input ! input_base_size);
              last_modulus = base_q ! (base_q_size - 1);
              half = drop_bit 1 last_modulus;
              last_input = add_poly_scalar_coeffmod (ev_arith E) last_input half last_modulus
          in Inr (Code_OK,
               map (\<lambda>i. divide_limb E last_modulus last_input (rt_inv_q_last_mod_q tool ! i) (base_q ! i) (tables ! i)
                          (input ! i)) [0..<input_base_size]
               @ last_input # drop (Suc input_base_size) input))"

section \<open>Products with the keys\<close>

text \<open>The operand of pass \<open>J\<close> for the modulus \<open>I\<close>, in evaluation form and below four times the modulus.\<close>

definition ks_operand :: "evaluator \<Rightarrow> bool \<Rightarrow> u64 list \<Rightarrow> u64 list \<Rightarrow> nat \<Rightarrow> nat \<Rightarrow> nat \<Rightarrow> u64 list" where
  "ks_operand E is_ntt_form target t_target key_index I J =
     (let N = ev_degree E; key_modulus = ev_key_moduli E in
      if is_ntt_form \<and> I = J then limb N target J
      else let t_ntt = (if key_modulus ! J \<le> key_modulus ! key_index then limb N t_target J
                        else modulo_poly_coeffs (ev_arith E) (limb N t_target J) (key_modulus ! key_index))
           in sr_ntt_lazy (ev_rt E) (key_modulus ! key_index) t_ntt)"

text \<open>One coefficient: the product is added to the 128-bit accumulator, which is reduced when the counter is 0.\<close>

definition lazy_term :: "evaluator \<Rightarrow> u64 \<Rightarrow> nat \<Rightarrow> u128 \<Rightarrow> u64 \<times> u64 \<Rightarrow> u128" where
  "lazy_term E q counter acc xy =
     (let qword = ev_add_uint128 E (ev_multiply_uint64 E (fst xy) (snd xy)) acc
      in if counter = 0 then ucast (barrett_reduce_128 (ev_arith E) qword q) else qword)"

text \<open>One pass over the components of key \<open>J\<close>, and the countdown.\<close>

definition ks_step ::
    "evaluator \<Rightarrow> u64 list list \<Rightarrow> public_key list \<Rightarrow> nat \<Rightarrow> nat \<Rightarrow> nat \<times> u128 list list \<Rightarrow> nat \<times> u128 list list" where
  "ks_step E operands key_vector key_index J st =
     (case st of (counter, acc) \<Rightarrow>
        let N = ev_degree E; q = ev_key_moduli E ! key_index;
            acc = map2 (\<lambda>key a. map2 (lazy_term E q counter) a (zip (operands ! J) (limb N key key_index)))
                    (ct_polys (key_vector ! J)) acc;
            counter = (counter + (2 ^ 64 - 1)) mod 2 ^ 64
        in (if counter = 0 then ev_mul_acc_max E else counter, acc))"

definition ks_accumulate ::
    "evaluator \<Rightarrow> u64 list list \<Rightarrow> public_key list \<Rightarrow> nat \<Rightarrow> nat \<Rightarrow> nat \<Rightarrow> nat \<times> u128 list list" where
  "ks_accumulate E operands key_vector count key_index decomp =
     fold (ks_step E operands key_vector key_index) [0..<decomp]
       (ev_mul_acc_max E, replicate count (replicate (ev_degree E) 0))"

text \<open>The final reduction is left out when the counter stands where it started.\<close>

definition ks_reduce :: "evaluator \<Rightarrow> u64 \<Rightarrow> nat \<Rightarrow> u128 list \<Rightarrow> u64 list" where
  "ks_reduce E q counter acc =
     (if counter = ev_mul_acc_max E then map ucast acc
      else map (\<lambda>a. barrett_reduce_128 (ev_arith E) a q) acc)"

text \<open>The products for the modulus \<open>I\<close> of the decomposition, or for the special prime: one list per component.\<close>

definition ks_products ::
    "evaluator \<Rightarrow> bool \<Rightarrow> u64 list \<Rightarrow> u64 list \<Rightarrow> public_key list \<Rightarrow> nat \<Rightarrow> nat \<Rightarrow> nat \<Rightarrow> u64 list list" where
  "ks_products E is_ntt_form target t_target key_vector count decomp I =
     (let key_modulus = ev_key_moduli E;
          key_index = (if I = decomp then length key_modulus - 1 else I);
          (counter, acc) = ks_accumulate E (map (ks_operand E is_ntt_form target t_target key_index I) [0..<decomp])
                             key_vector count key_index decomp
      in map (ks_reduce E (key_modulus ! key_index) counter) acc)"

section \<open>The key switch\<close>

text \<open>
  The last loop: each component of the product is divided by the special prime, brought to the form of the
  ciphertext and added. The code the division returns is dropped.
\<close>

definition ks_add_component ::
    "evaluator \<Rightarrow> bool \<Rightarrow> nat \<Rightarrow> u64 list list \<Rightarrow> u64 list \<Rightarrow> u64 list outcome" where
  "ks_add_component E is_ntt_form decomp res poly =
     (let N = ev_degree E; moduli = take decomp (ev_key_moduli E) in
      obind (divide_and_round_q_last_ntt_inplace E res decomp (ev_key_moduli E) (ev_rns_tool E)) (\<lambda>(_, res).
      let res = (if is_ntt_form then take decomp res
                  else map2 (sr_intt (ev_rt E)) moduli (take decomp res))
      in Inr (map2_limbs (add_poly_coeffmod (ev_arith E)) N moduli poly (concat res))))"

definition switch_key_inplace ::
    "evaluator \<Rightarrow> rlwe_ct \<Rightarrow> u64 list option \<Rightarrow> kswitch_keys \<Rightarrow> nat \<Rightarrow> (seal_code \<times> rlwe_ct) outcome" where
  "switch_key_inplace E ct target_iter kswitch_keys kswitch_keys_index =
     (let R = ev_rt E; fail = (\<lambda>code. Inr (code, ct)) in
      case sr_context_moduli R (ct_parms_id ct) of None \<Rightarrow> Inl (Undefined ''*context.get_context_data(parms_id)'')
      | Some moduli \<Rightarrow>
      if \<not> sr_ct_metadata_valid R ct \<or> \<not> ev_buffer_valid E ct then fail ERR_INVALID_ARG
      else case target_iter of None \<Rightarrow> fail ERR_NULL_POINTER
      | Some target \<Rightarrow>
      if \<not> ev_using_keyswitching E then fail ERR_INTERNAL
      else if ks_parms_id kswitch_keys \<noteq> sr_key_parms_id R then fail ERR_INVALID_ARG
      else if length (ks_data kswitch_keys) \<le> kswitch_keys_index then fail ERR_OUT_BOUND
      else
      let N = ev_degree E; decomp = length moduli; key_modulus = ev_key_moduli E; ntt = ct_is_ntt_form ct in
      if 2 ^ 64 \<le> N * (decomp + 1) * 2 then fail ERR_DIM_MISMATCH
      else let key_vector = ks_data kswitch_keys ! kswitch_keys_index in
      if key_vector = [] then Inl (Undefined ''key_vector[0]'')
      else let count = length (ct_polys (hd key_vector)) in
      if list_ex (\<lambda>k. \<not> ev_key_metadata_valid E k \<or> \<not> ev_key_buffer_valid E k) key_vector then fail ERR_INVALID_ARG
      else if length target < decomp * N \<or> length key_modulus < decomp \<or> length key_vector < decomp
           \<or> list_ex (\<lambda>k. length (ct_polys k) < count) (take decomp key_vector) \<or> length (ct_polys ct) < count
        then Inl (Undefined ''key_vector[J].data()'')
      else
      let t_target = take (decomp * N) target;
          t_target = (if ntt then map_limbs (sr_intt R) N (take decomp key_modulus) t_target else t_target);
          prods = map (ks_products E ntt target t_target key_vector count decomp) [0..<decomp + 1];
          t_poly_prod = map (\<lambda>k. map (\<lambda>p. p ! k) prods) [0..<count]
      in obind (omap (\<lambda>k. ks_add_component E ntt decomp (t_poly_prod ! k) (ct_polys ct ! k)) [0..<count]) (\<lambda>ps.
         Inr (Code_OK, ct\<lparr>ct_polys := ps @ drop count (ct_polys ct)\<rparr>)))"

section \<open>Galois automorphisms\<close>

text \<open>
  The first polynomial is replaced by its image, the second one is wiped, and its image goes into the key switch
  unless it is zero.
\<close>

definition apply_galois_inplace ::
    "evaluator \<Rightarrow> rlwe_ct \<Rightarrow> nat \<Rightarrow> kswitch_keys \<Rightarrow> (seal_code \<times> rlwe_ct) outcome" where
  "apply_galois_inplace E ct galois_elt galois_keys =
     (let R = ev_rt E; fail = (\<lambda>code. Inr (code, ct)) in
      if \<not> sr_ct_metadata_valid R ct \<or> \<not> ev_buffer_valid E ct then fail ERR_INVALID_ARG
      else if ks_parms_id galois_keys \<noteq> sr_key_parms_id R then fail ERR_INVALID_ARG
      else case sr_context_moduli R (ct_parms_id ct) of None \<Rightarrow> Inl (Undefined ''*context.get_context_data(parms_id)'')
      | Some coeff_modulus \<Rightarrow>
      let N = ev_degree E; L = length coeff_modulus in
      if 2 ^ 64 \<le> N * L then fail ERR_INVALID_ARG
      else obind (ev_has_key E galois_keys galois_elt) (\<lambda>present.
      if \<not> present then fail ERR_INVALID_ARG
      else if 2 ^ 64 \<le> N * 2 then Inl (Throws (Logic_error ''unsigned overflow''))
      else if even galois_elt \<or> N * 2 \<le> galois_elt then fail ERR_INVALID_ARG
      else if 2 < length (ct_polys ct) then fail ERR_INVALID_ARG
      else if length (ct_polys ct) < 2 then Inl (Undefined ''encrypted.data(1)'')
      else
      let galois = (if \<not> ct_is_ntt_form ct then ev_apply_galois E galois_elt else (\<lambda>_. ev_apply_galois_ntt E galois_elt));
          image = (\<lambda>poly. map_limbs galois N coeff_modulus (take (L * N) poly));
          temp = image (ct_polys ct ! 1);
          ct = ct\<lparr>ct_polys := [image (ct_polys ct ! 0), replicate (L * N) 0]\<rparr>
      in if list_ex (\<lambda>u. 0 < u) temp
         then obind (ev_get_index E galois_elt) (switch_key_inplace E ct (Some temp) galois_keys)
         else Inr (Code_OK, ct)))"

end
