(* ===== verification/SwitchKeyCorrect.thy ===== *)
theory SwitchKeyCorrect
  imports SwitchKey
begin

text \<open>
  \<open>util/seal.cc\<close>: the lazy products with the switching keys are the inner products modulo each prime, the division
  by the special prime rounds to the nearest integer, and the key switch and the Galois automorphism yield a
  ciphertext with the expected phase, up to the noise of the keys and the rounding errors.
\<close>

section \<open>What the code relies on\<close>

text \<open>Polynomials with integer coefficients, and their residues modulo a word.\<close>

definition poly_mod :: "u64 \<Rightarrow> int list \<Rightarrow> u64 list" where
  "poly_mod q zs = map (\<lambda>z. word_of_int (z mod uint q)) zs"

text \<open>The lazy transform as SEAL documents it: from words below \<open>4 q\<close> to words below \<open>4 q\<close>.\<close>

definition lazy_ntt_ok :: "seal_runtime \<Rightarrow> nat \<Rightarrow> u64 \<Rightarrow> bool" where
  "lazy_ntt_ok R N q \<longleftrightarrow> ntt_ok R N q \<and>
     (\<forall>xs. length xs = N \<and> reduced q xs \<longrightarrow> sr_ntt R q (sr_intt R q xs) = xs) \<and>
     (\<forall>xs. length xs = N \<and> list_all (\<lambda>x. uint x < 4 * uint q) xs \<longrightarrow>
        length (sr_ntt_lazy R q xs) = N \<and>
        (\<forall>i < N. uint (sr_ntt_lazy R q xs ! i) < 4 * uint q \<and>
                 uint (sr_ntt_lazy R q xs ! i) mod uint q = uint (sr_ntt R q (poly_mod q (map uint xs)) ! i)))"

definition evaluator_ok :: "evaluator \<Rightarrow> bool" where
  "evaluator_ok E \<longleftrightarrow> seal_arith_ok (ev_arith E) \<and>
     (\<forall>x y. uint (ev_multiply_uint64 E x y) = uint x * uint y) \<and> (\<forall>x y. ev_add_uint128 E x y = x + y) \<and>
     (\<forall>q \<in> set (ev_key_moduli E). lazy_ntt_ok (ev_rt E) (ev_degree E) q)"

lemma evaluator_okD:
  assumes "evaluator_ok E"
  shows "seal_arith_ok (ev_arith E)" "uint (ev_multiply_uint64 E x y) = uint x * uint y"
    "ev_add_uint128 E v w = v + w"
    "q \<in> set (ev_key_moduli E) \<Longrightarrow> lazy_ntt_ok (ev_rt E) (ev_degree E) q"
  using assms by (simp_all add: evaluator_ok_def)

lemma lazy_nttD:
  assumes "lazy_ntt_ok R N q"
  shows "ntt_ok R N q" "valid_modulus q"
    "length xs = N \<Longrightarrow> reduced q xs \<Longrightarrow> sr_ntt R q (sr_intt R q xs) = xs"
  using assms by (auto simp: lazy_ntt_ok_def ntt_ok_def)

lemma lazy_ntt_bounds:
  assumes "lazy_ntt_ok R N q" "length xs = N" "\<And>i. i < N \<Longrightarrow> uint (xs ! i) < 4 * uint q"
  shows "length (sr_ntt_lazy R q xs) = N"
    and "i < N \<Longrightarrow> uint (sr_ntt_lazy R q xs ! i) < 4 * uint q"
    and "i < N \<Longrightarrow> uint (sr_ntt_lazy R q xs ! i) mod uint q = uint (sr_ntt R q (poly_mod q (map uint xs)) ! i)"
  using assms by (auto simp: lazy_ntt_ok_def list_all_length)

section \<open>Words as integers\<close>

lemma uint_of_unat: "unat x = n \<Longrightarrow> uint x = int n"
  by (simp add: uint_nat)

lemma valid_uint:
  assumes "valid_modulus q"
  shows "1 < uint q \<and> uint q < 2 ^ 61"
proof -
  define n where "n = unat q"
  have "int n = uint q" by (simp add: n_def)
  moreover have "1 < n" "n < 2 ^ 61" using assms by (simp_all add: valid_modulus_def n_def)
  then have "1 < int n" "int n < 2 ^ 61" by simp_all
  ultimately show ?thesis by simp
qed

lemma seal_uint:
  assumes S: "seal_arith_ok S" and q: "valid_modulus q"
  shows "uint (barrett_reduce_64 S x q) = uint x mod uint q"
    and "uint (barrett_reduce_128 S v q) = uint v mod uint q"
    and "uint (multiply_uint_mod S x y q) = uint x * uint y mod uint q"
    and "x < q \<Longrightarrow> y < q \<Longrightarrow> uint (add_uint_mod S x y q) = (uint x + uint y) mod uint q"
proof -
  have m: "seal_mod_ok S" using S by (simp only: seal_arith_ok_def)
  have "unat (barrett_reduce_64 S x q) = unat x mod unat q" "unat (barrett_reduce_128 S v q) = unat v mod unat q"
    "unat (multiply_uint_mod S x y q) = unat x * unat y mod unat q"
    "x < q \<Longrightarrow> y < q \<Longrightarrow> unat (add_uint_mod S x y q) = (unat x + unat y) mod unat q"
    using m q unfolding seal_mod_ok_def by blast+
  note this [THEN uint_of_unat]
  then show "uint (barrett_reduce_64 S x q) = uint x mod uint q"
    "uint (barrett_reduce_128 S v q) = uint v mod uint q"
    "uint (multiply_uint_mod S x y q) = uint x * uint y mod uint q"
    "x < q \<Longrightarrow> y < q \<Longrightarrow> uint (add_uint_mod S x y q) = (uint x + uint y) mod uint q"
    by (simp_all only: of_nat_mod of_nat_mult of_nat_add uint_nat [symmetric])
qed

lemma uint_word_of_small: "0 \<le> z \<Longrightarrow> z < 2 ^ 64 \<Longrightarrow> uint (word_of_int z :: u64) = z"
  by (simp add: uint_word_of_int)

lemma length_poly_mod [simp]: "length (poly_mod q zs) = length zs"
  by (simp add: poly_mod_def)

lemma poly_mod_nth:
  assumes "valid_modulus q" "i < length zs"
  shows "uint (poly_mod q zs ! i) = zs ! i mod uint q"
proof -
  have q: "0 < uint q" "uint q < 2 ^ 64" using valid_uint [OF assms(1)] by simp_all
  then have "zs ! i mod uint q < 2 ^ 64" by (meson less_trans pos_mod_bound)
  with q(1) assms(2) show ?thesis by (simp add: poly_mod_def uint_word_of_small)
qed

lemma reduced_uint: "reduced q xs \<longleftrightarrow> (\<forall>i < length xs. uint (xs ! i) < uint q)"
  by (simp add: reduced_def word_less_def all_set_conv_all_nth)

lemma reduced_poly_mod: "valid_modulus q \<Longrightarrow> reduced q (poly_mod q zs)"
  using valid_uint [of q] by (simp add: reduced_uint poly_mod_nth)

lemma poly_mod_cong:
  assumes "length ys = length zs" "\<And>i. i < length zs \<Longrightarrow> ys ! i mod uint q = zs ! i mod uint q"
  shows "poly_mod q ys = poly_mod q zs"
  using assms by (simp add: poly_mod_def list_eq_iff_nth_eq)

lemma poly_mod_reduced: "reduced q xs \<Longrightarrow> poly_mod q (map uint xs) = xs"
  by (simp add: poly_mod_def list_eq_iff_nth_eq reduced_uint)

lemma uint_add_small: "uint a + uint b < 2 ^ 64 \<Longrightarrow> uint (a + b :: u64) = uint a + uint b"
  using uint_add_lem [of a b] by simp

lemma uint_sub_small: "uint b \<le> uint a \<Longrightarrow> uint (a - b :: u64) = uint a - uint b"
  using uint_sub_lem [of b a] by simp

lemma uint_half: "uint (drop_bit 1 (q :: u64)) = uint q div 2" "uint (drop_bit (Suc 0) (q :: u64)) = uint q div 2"
  by (simp_all add: drop_bit_eq_div uint_div)

lemma uint_shifted_modulus:
  assumes "valid_modulus q"
  shows "uint (push_bit 2 q) = 4 * uint q" "uint (push_bit 1 q) = 2 * uint q"
  using valid_uint [OF assms] by (simp_all add: push_bit_eq_mult uint_word_ariths)

section \<open>Division by the last modulus\<close>

lemma mod_lifted_diff: "(t + (m - h mod m)) mod m = (t - h) mod (m :: int)"
proof -
  have "t + (m - h mod m) = (t - h mod m) + m" by simp
  then show ?thesis by (simp only: mod_add_self2 mod_diff_right_eq)
qed

text \<open>The operand of the transform: the residue of \<open>w\<close> minus the half, shifted by a multiple of the modulus.\<close>

lemma divide_operand:
  assumes S: "seal_arith_ok S" and q: "valid_modulus q" "valid_modulus P" and w: "w < P"
  shows "uint ((if q < P then barrett_reduce_64 S w q else w) + (q - barrett_reduce_64 S (drop_bit 1 P) q)) < 4 * uint q"
    and "uint ((if q < P then barrett_reduce_64 S w q else w) + (q - barrett_reduce_64 S (drop_bit 1 P) q)) mod uint q
      = (uint w - uint (drop_bit 1 P)) mod uint q"
proof -
  let ?h = "drop_bit 1 P" and ?b = "\<lambda>x. barrett_reduce_64 S x q"
  let ?t = "if q < P then ?b w else w"
  note b = seal_uint(1) [OF S q(1)]
  have pos: "0 < uint q" "uint q < 2 ^ 61" using valid_uint [OF q(1)] by simp_all
  then have five: "5 * uint q < 2 ^ 64" by simp
  have h: "uint (?b ?h) < uint q" using pos by (simp add: b)
  have n: "uint (q - ?b ?h) = uint q - uint ?h mod uint q" using h by (simp add: uint_sub_small b)
  have t: "uint ?t < uint q" "uint ?t mod uint q = uint w mod uint q"
    using pos w by (auto simp: b word_less_def)
  have "uint ?t + uint (q - ?b ?h) < 2 ^ 64"
    using t(1) pos(1) five pos_mod_sign [OF pos(1), of "uint ?h"] unfolding n by linarith
  then have sum: "uint (?t + (q - ?b ?h)) = uint ?t + (uint q - uint ?h mod uint q)"
    using uint_add_small n by metis
  show "uint (?t + (q - ?b ?h)) < 4 * uint q"
    using t(1) pos pos_mod_sign [OF pos(1), of "uint ?h"] unfolding sum by linarith
  have "uint (?t + (q - ?b ?h)) mod uint q = (uint ?t - uint ?h) mod uint q"
    unfolding sum by (rule mod_lifted_diff)
  also have "\<dots> = (uint w - uint ?h) mod uint q"
    by (rule mod_diff_cong [OF t(2) refl])
  finally show "uint (?t + (q - ?b ?h)) mod uint q = (uint w - uint ?h) mod uint q" .
qed

text \<open>The lazy difference: the transformed word may be taken off a multiple of the modulus without wrapping.\<close>

lemma divide_difference:
  assumes q: "valid_modulus q" and a: "uint a < uint q" and t: "uint t < 4 * uint q"
    and lz: "lz = (if bits \<le> (60 :: nat) then push_bit 2 q else push_bit 1 q)"
    and t': "t' = (if bits \<le> 60 then t else t - (lz AND - (if lz \<le> t then 1 else 0)))"
  shows "uint (a + (lz - t')) mod uint q = (uint a - uint t) mod uint q"
proof -
  have pos: "0 < uint q" "uint q < 2 ^ 61" using valid_uint [OF q] by simp_all
  then have five: "5 * uint q < 2 ^ 64" by simp
  obtain c where lz_c: "uint lz = c * uint q" "c = 2 \<or> c = 4"
    using uint_shifted_modulus [OF q] lz by (metis (full_types))
  have t'_le: "uint t' \<le> uint lz \<and> uint t' mod uint q = uint t mod uint q"
  proof (cases "bits \<le> 60")
    case True
    then show ?thesis using t t' lz uint_shifted_modulus [OF q] by simp
  next
    case big: False
    then have two: "uint lz = 2 * uint q" using lz uint_shifted_modulus [OF q] by simp
    show ?thesis
    proof (cases "lz \<le> t")
      case True
      then have "t' = t - lz" using t' big by simp
      then have "uint t' = uint t - 2 * uint q" using True two by (simp add: uint_sub_small word_le_def)
      moreover have "(uint t - 2 * uint q) mod uint q = uint t mod uint q"
        by (metis mod_mult_self4 diff_add_cancel add.commute mult.commute)
      ultimately show ?thesis using t two by simp
    next
      case False
      then have "t' = t" using t' big by simp
      then show ?thesis using False by (simp add: word_le_def)
    qed
  qed
  have "uint (lz - t') = uint lz - uint t'" using t'_le by (simp add: uint_sub_small)
  moreover have "uint lz \<le> 4 * uint q" using lz_c pos by auto
  then have "uint a + (uint lz - uint t') < 2 ^ 64" using a pos(1) five uint_ge_0 [of t'] by linarith
  ultimately have "uint (a + (lz - t')) = uint a + (c * uint q - uint t')"
    using uint_add_small lz_c(1) by metis
  also have "\<dots> mod uint q = (uint a - uint t') mod uint q"
    by (metis add_diff_eq mod_mult_self4 add.commute diff_add_eq mod_mult_self3)
  also have "\<dots> = (uint a - uint t) mod uint q"
    using t'_le by (metis mod_diff_right_eq)
  finally show ?thesis .
qed

text \<open>The transform of the residues of an integer polynomial, as integers, is linear.\<close>

definition hat :: "seal_runtime \<Rightarrow> u64 \<Rightarrow> int list \<Rightarrow> nat \<Rightarrow> int" where
  "hat R q zs i = uint (sr_ntt R q (poly_mod q zs) ! i)"

lemma poly_mod_add:
  assumes "seal_arith_ok S" "valid_modulus q" "length zs = length ys"
  shows "poly_mod q (map2 (+) ys zs) = add_poly_coeffmod S q (poly_mod q ys) (poly_mod q zs)"
proof (rule nth_equalityI)
  show "length (poly_mod q (map2 (+) ys zs)) = length (add_poly_coeffmod S q (poly_mod q ys) (poly_mod q zs))"
    by simp
next
  fix i
  assume "i < length (poly_mod q (map2 (+) ys zs))"
  then have i: "i < length ys" "i < length zs" using assms(3) by simp_all
  have lt: "poly_mod q us ! i < q" if "i < length us" for us
    using reduced_poly_mod [OF assms(2), of us] that by (simp add: reduced_nth)
  have "uint (add_poly_coeffmod S q (poly_mod q ys) (poly_mod q zs) ! i)
      = (uint (poly_mod q ys ! i) + uint (poly_mod q zs ! i)) mod uint q"
    using i by (simp add: add_poly_coeffmod_def seal_uint(4) [OF assms(1,2) lt lt])
  also have "\<dots> = uint (poly_mod q (map2 (+) ys zs) ! i)"
    using i by (simp add: poly_mod_nth [OF assms(2)] mod_add_eq)
  finally show "poly_mod q (map2 (+) ys zs) ! i = add_poly_coeffmod S q (poly_mod q ys) (poly_mod q zs) ! i"
    by (simp add: word_uint_eq_iff)
qed

lemma hat_bounds:
  assumes S: "seal_arith_ok (sr_arith R)" and q: "ntt_ok R N q" and "length zs = N" "i < N"
  shows "0 \<le> hat R q zs i" "hat R q zs i < uint q"
proof -
  have v: "valid_modulus q" using q by (simp add: ntt_ok_def)
  have "length (sr_ntt R q (poly_mod q zs)) = N" "reduced q (sr_ntt R q (poly_mod q zs))"
    using ntt_okD(1,2) [OF q _ reduced_poly_mod [OF v]] assms(3) by simp_all
  then show "0 \<le> hat R q zs i" "hat R q zs i < uint q"
    using assms(4) by (simp_all add: hat_def reduced_uint)
qed

lemma hat_add:
  assumes S: "seal_arith_ok (sr_arith R)" and q: "ntt_ok R N q"
    and "length ys = N" "length zs = N" "i < N"
  shows "hat R q (map2 (+) ys zs) i = (hat R q ys i + hat R q zs i) mod uint q"
proof -
  have v: "valid_modulus q" using q by (simp add: ntt_ok_def)
  note ry = reduced_poly_mod [OF v, of ys] and rz = reduced_poly_mod [OF v, of zs]
  have l: "length (poly_mod q ys) = N" "length (poly_mod q zs) = N" using assms by simp_all
  note ny = ntt_okD(1,2) [OF q l(1) ry] and nz = ntt_okD(1,2) [OF q l(2) rz]
  have "sr_ntt R q (poly_mod q (map2 (+) ys zs))
      = add_poly_coeffmod (sr_arith R) q (sr_ntt R q (poly_mod q ys)) (sr_ntt R q (poly_mod q zs))"
    using ntt_ok_add(1) [OF q l(1) ry l(2) rz] poly_mod_add [OF S v, of zs ys] assms by simp
  then show ?thesis
    using add_poly_nth [OF S v ny(2) nz(2), of i, THEN uint_of_unat] ny nz assms(5)
    by (simp add: hat_def zmod_int)
qed

lemma hat_zero:
  assumes S: "seal_arith_ok (sr_arith R)" and q: "ntt_ok R N q" and i: "i < N"
  shows "hat R q (replicate N 0) i = 0"
proof -
  let ?h = "hat R q (replicate N 0) i"
  have "map2 (+) (replicate N (0 :: int)) (replicate N 0) = replicate N 0"
    by (simp add: list_eq_iff_nth_eq)
  then have h: "?h = (?h + ?h) mod uint q" using hat_add [OF S q, of "replicate N 0" "replicate N 0"] i by simp
  have b: "0 \<le> ?h" "?h < uint q" using hat_bounds [OF S q, of "replicate N 0"] i by simp_all
  have "(?h + ?h) mod uint q = ?h mod uint q" using h b by simp
  then have "uint q dvd ?h" by (metis add_diff_cancel_left' mod_eq_dvd_iff)
  then show "?h = 0" using b zdvd_not_zless [of ?h "uint q"] by linarith
qed

lemma hat_scale:
  assumes S: "seal_arith_ok (sr_arith R)" and q: "ntt_ok R N q" and "length zs = N" "i < N"
  shows "hat R q (map (\<lambda>z. int k * z) zs) i = int k * hat R q zs i mod uint q"
proof (induction k)
  case 0
  have "map (\<lambda>z. int 0 * z) zs = replicate N 0" using assms(3) by (simp add: map_replicate_const)
  then show ?case using hat_zero [OF S q assms(4)] by simp
next
  case (Suc k)
  have "map (\<lambda>z. int (Suc k) * z) zs = map2 (+) zs (map (\<lambda>z. int k * z) zs)"
    by (simp add: list_eq_iff_nth_eq algebra_simps)
  then have "hat R q (map (\<lambda>z. int (Suc k) * z) zs) i
      = (hat R q zs i + int k * hat R q zs i mod uint q) mod uint q"
    using hat_add [OF S q, of zs "map (\<lambda>z. int k * z) zs"] assms Suc.IH by simp
  also have "\<dots> = int (Suc k) * hat R q zs i mod uint q"
    by (simp add: mod_add_right_eq algebra_simps)
  finally show ?case .
qed

text \<open>One pass of the loop, on the residues for one modulus.\<close>

lemma divide_limb_nth:
  assumes E: "evaluator_ok E" and q: "q \<in> set (ev_key_moduli E)" and P: "valid_modulus P"
    and w: "length ws = ev_degree E" "reduced P ws" and x: "length xs = ev_degree E" "reduced q xs"
  shows "length (divide_limb E P ws inv_last q q xs) = ev_degree E"
    and "i < ev_degree E \<Longrightarrow> uint (divide_limb E P ws inv_last q q xs ! i)
      = (uint (xs ! i) - hat (ev_rt E) q (map (\<lambda>w. uint w - uint (drop_bit 1 P)) ws) i) * uint inv_last mod uint q"
proof -
  let ?R = "ev_rt E" and ?S = "ev_arith E" and ?N = "ev_degree E"
  let ?lz = "if ev_user_mod_bits E \<le> 60 then push_bit 2 q else push_bit 1 q"
  let ?cut = "\<lambda>t. if ev_user_mod_bits E \<le> 60 then t else t - (?lz AND - (if ?lz \<le> t then 1 else 0))"
  note S = evaluator_okD(1) [OF E] and lazy = evaluator_okD(4) [OF E q]
  note v = lazy_nttD(2) [OF lazy]
  define ts where "ts = map (\<lambda>w. (if q < P then barrett_reduce_64 ?S w q else w)
      + (q - barrett_reduce_64 ?S (drop_bit 1 P) q)) ws"
  define ys where "ys = sr_ntt_lazy ?R q ts"
  have "ws ! k < P" if "k < ?N" for k using reduced_nth [OF w(2)] w(1) that by simp
  note op = divide_operand [OF S v P this]
  have ts: "length ts = ?N" "\<And>k. k < ?N \<Longrightarrow> uint (ts ! k) < 4 * uint q"
    using op(1) w(1) by (simp_all add: ts_def)
  have "poly_mod q (map uint ts) = poly_mod q (map (\<lambda>w. uint w - uint (drop_bit 1 P)) ws)"
    using op(2) w(1) by (intro poly_mod_cong) (simp_all add: ts_def)
  then have ys: "length ys = ?N" "k < ?N \<Longrightarrow> uint (ys ! k) < 4 * uint q"
      "k < ?N \<Longrightarrow> uint (ys ! k) mod uint q = hat ?R q (map (\<lambda>w. uint w - uint (drop_bit 1 P)) ws) k" for k
    using lazy_ntt_bounds [OF lazy ts] by (simp_all add: ys_def hat_def)
  have "ts = map (\<lambda>J. J + (q - barrett_reduce_64 ?S (drop_bit 1 P) q))
      (if q < P then modulo_poly_coeffs ?S ws q else ws)"
    by (simp add: ts_def modulo_poly_coeffs_def)
  then have res: "divide_limb E P ws inv_last q q xs
      = map (\<lambda>x. multiply_uint_mod ?S x inv_last q) (map2 (\<lambda>a t. a + (?lz - ?cut t)) xs ys)"
    by (simp add: divide_limb_def Let_def multiply_poly_scalar_coeffmod_def ys_def zip_map2 case_prod_unfold)
  show "length (divide_limb E P ws inv_last q q xs) = ?N" using x ys by (simp add: res)
  assume i: "i < ?N"
  have "uint (divide_limb E P ws inv_last q q xs ! i)
      = uint (xs ! i + (?lz - ?cut (ys ! i))) * uint inv_last mod uint q"
    using i x ys(1) by (simp add: res seal_uint(3) [OF S v])
  also have "\<dots> = (uint (xs ! i) - uint (ys ! i)) * uint inv_last mod uint q"
    using divide_difference [OF v _ ys(2) refl refl, of "xs ! i" i] i x
    by (intro mod_mult_cong refl) (simp add: reduced_uint)
  also have "\<dots> = (uint (xs ! i) - uint (ys ! i) mod uint q) * uint inv_last mod uint q"
    by (intro mod_mult_cong refl) (simp add: mod_diff_right_eq)
  finally show "uint (divide_limb E P ws inv_last q q xs ! i)
      = (uint (xs ! i) - hat ?R q (map (\<lambda>w. uint w - uint (drop_bit 1 P)) ws) i) * uint inv_last mod uint q"
    by (simp only: ys(3) [OF i])
qed

definition special_prime :: "evaluator \<Rightarrow> u64" where
  "special_prime E = ev_key_moduli E ! (length (ev_key_moduli E) - 1)"

text \<open>SEAL's tool for the key moduli: the inverses of the special prime modulo the other ones.\<close>

definition tool_ok :: "evaluator \<Rightarrow> rns_tool \<Rightarrow> bool" where
  "tool_ok E tool \<longleftrightarrow> rt_base_q tool = ev_key_moduli E \<and>
     length (rt_inv_q_last_mod_q tool) = length (ev_key_moduli E) - 1 \<and>
     (\<forall>l < length (ev_key_moduli E) - 1.
        uint (rt_inv_q_last_mod_q tool ! l) * uint (special_prime E) mod uint (ev_key_moduli E ! l) = 1)"

text \<open>The remainder of an integer modulo \<open>P\<close> of least absolute value, and the quotient that goes with it.\<close>

definition centred :: "int \<Rightarrow> int \<Rightarrow> int" where
  "centred P z = (z + P div 2) mod P - P div 2"

definition rounded :: "int \<Rightarrow> int \<Rightarrow> int" where
  "rounded P z = (z + P div 2) div P"

lemma rounded_centred: "z = P * rounded P z + centred P z"
  using mult_div_mod_eq [of P "z + P div 2"] unfolding rounded_def centred_def by linarith

lemma centred_bound:
  assumes "0 < P"
  shows "2 * \<bar>centred P z\<bar> \<le> P"
proof -
  define r where "r = (z + P div 2) mod P"
  have "0 \<le> r" "r < P" using assms by (simp_all add: r_def)
  moreover have "P - 1 \<le> 2 * (P div 2)" "2 * (P div 2) \<le> P" by presburger+
  ultimately show ?thesis unfolding centred_def r_def [symmetric] by (simp add: abs_if)
qed

lemma centred_mod: "centred P (z mod P) = centred P z"
  by (simp add: centred_def mod_simps)

lemma centred_cong: "centred P z mod P = z mod P"
  by (simp add: centred_def mod_simps)

text \<open>The division succeeds and subtracts the transform of the centred remainders before it multiplies.\<close>

lemma divide_and_round_limbs:
  assumes E: "evaluator_ok E" and tool: "tool_ok E tool" and D: "1 \<le> D" "D < length (ev_key_moduli E)"
    and len: "length input = Suc D"
    and input: "\<And>l. l < D \<Longrightarrow> length (input ! l) = ev_degree E \<and> reduced (ev_key_moduli E ! l) (input ! l)"
      "length (input ! D) = ev_degree E" "reduced (special_prime E) (input ! D)"
    and rem: "rem = map (\<lambda>a. centred (uint (special_prime E)) (uint a)) (sr_intt (ev_rt E) (special_prime E) (input ! D))"
  obtains out rest where
    "divide_and_round_q_last_ntt_inplace E input D (ev_key_moduli E) (Some tool) = Inr (Code_OK, out @ rest)"
    "length out = D"
    "\<And>l. l < D \<Longrightarrow> length (out ! l) = ev_degree E"
    "\<And>l i. l < D \<Longrightarrow> i < ev_degree E \<Longrightarrow> uint (out ! l ! i)
      = (uint (input ! l ! i) - hat (ev_rt E) (ev_key_moduli E ! l) rem i) * uint (rt_inv_q_last_mod_q tool ! l)
          mod uint (ev_key_moduli E ! l)"
proof -
  let ?R = "ev_rt E" and ?S = "ev_arith E" and ?N = "ev_degree E" and ?m = "ev_key_moduli E"
  let ?P = "special_prime E" and ?h = "drop_bit 1 (special_prime E)"
  note S = evaluator_okD(1) [OF E]
  have P: "lazy_ntt_ok ?R ?N ?P" using D by (intro evaluator_okD(4) [OF E]) (simp add: special_prime_def)
  note v = lazy_nttD(2) [OF P] and pos = valid_uint [OF lazy_nttD(2) [OF P]]
  define as where "as = sr_intt ?R ?P (input ! D)"
  have as: "length as = ?N" "reduced ?P as"
    using ntt_okD(3,4) [OF lazy_nttD(1) [OF P] input(2,3)] by (simp_all add: as_def)
  define ws where "ws = add_poly_scalar_coeffmod ?S as ?h ?P"
  have h: "?h < ?P" using pos unfolding word_less_def uint_half by presburger
  have ws_nth: "uint (ws ! k) = (uint (as ! k) + uint ?P div 2) mod uint ?P" if "k < ?N" for k
    using seal_uint(4) [OF S v reduced_nth [OF as(2)] h] as(1) that
    by (simp add: ws_def add_poly_scalar_coeffmod_def uint_half)
  have ws: "length ws = ?N" "reduced ?P ws"
    using as(1) ws_nth pos by (simp_all add: ws_def add_poly_scalar_coeffmod_def reduced_uint)
  have rem_as: "rem = map (\<lambda>a. centred (uint ?P) (uint a)) as" unfolding rem as_def ..
  have rem_ws: "map (\<lambda>w. uint w - uint ?h) ws = rem"
    using ws(1) as(1) ws_nth by (simp add: rem_as list_eq_iff_nth_eq centred_def uint_half)
  let ?out = "map (\<lambda>i. divide_limb E ?P ws (rt_inv_q_last_mod_q tool ! i) (?m ! i) (?m ! i) (input ! i)) [0..<D]"
  have eq: "divide_and_round_q_last_ntt_inplace E input D ?m (Some tool)
      = Inr (Code_OK, ?out @ ws # drop (Suc D) input)"
    using tool D len unfolding ws_def as_def by (auto simp: divide_and_round_q_last_ntt_inplace_def tool_ok_def special_prime_def Let_def)
  show ?thesis
  proof (rule that [OF eq])
    fix l
    assume l: "l < D"
    then have q: "?m ! l \<in> set ?m" using D by (intro nth_mem) simp
    note limb = divide_limb_nth [OF E q v ws conjunct1 [OF input(1) [OF l]] conjunct2 [OF input(1) [OF l]],
      where inv_last = "rt_inv_q_last_mod_q tool ! l"]
    show "length (?out ! l) = ?N" using limb(1) l by simp
    show "uint (?out ! l ! i) = (uint (input ! l ! i) - hat ?R (?m ! l) rem i) * uint (rt_inv_q_last_mod_q tool ! l)
          mod uint (?m ! l)" if "i < ?N" for i
      using limb(2) [OF that, unfolded rem_ws] l by simp
  qed simp
qed

text \<open>
  C5. The division by the special prime rounds to the nearest integer: on the transforms of the residues of an
  integer polynomial it succeeds and returns the transforms of the residues of the rounded quotients, although the
  sums are on words that wrap round and are reduced only at the end.
\<close>

theorem divide_and_round_rounds:
  assumes "evaluator_ok E" "tool_ok E tool" "1 \<le> D" "D < length (ev_key_moduli E)" "length zs = ev_degree E"
    and "input = map (\<lambda>q. sr_ntt (ev_rt E) q (poly_mod q zs)) (take D (ev_key_moduli E) @ [special_prime E])"
  shows "\<exists>rest. divide_and_round_q_last_ntt_inplace E input D (ev_key_moduli E) (Some tool)
    = Inr (Code_OK, map (\<lambda>q. sr_ntt (ev_rt E) q (poly_mod q (map (rounded (uint (special_prime E))) zs)))
                      (take D (ev_key_moduli E)) @ rest)"
proof -
  let ?R = "ev_rt E" and ?S = "ev_arith E" and ?N = "ev_degree E" and ?m = "ev_key_moduli E"
  let ?P = "special_prime E" and ?nt = "\<lambda>q zs. sr_ntt (ev_rt E) q (poly_mod q zs)"
  note E = assms(1) and S = evaluator_okD(1) [OF assms(1)]
  have lazy: "lazy_ntt_ok ?R ?N (?m ! l)" if "l < length ?m" for l
    using that by (intro evaluator_okD(4) [OF E] nth_mem)
  note ntt = lazy_nttD(1) [OF lazy] and v = lazy_nttD(2) [OF lazy]
  have nt: "length (?nt (?m ! l) us) = ?N" "reduced (?m ! l) (?nt (?m ! l) us)"
    if "l < length ?m" "length us = ?N" for l us
    using ntt_okD(1,2) [OF ntt [OF that(1)] _ reduced_poly_mod [OF v [OF that(1)]]] that(2) by simp_all
  have P: "lazy_ntt_ok ?R ?N ?P"
    using assms(4) by (intro evaluator_okD(4) [OF E]) (simp add: special_prime_def)
  note vP = lazy_nttD(2) [OF P]
  have in_l: "input ! l = ?nt (?m ! l) zs" if "l < D" for l
    using that assms(4) by (simp add: assms(6) nth_append)
  have in_D: "input ! D = ?nt ?P zs" "length input = Suc D" using assms(4) by (simp_all add: assms(6) nth_append)
  define rem where "rem = map (centred (uint ?P)) zs"
  have inverse: "sr_intt ?R ?P (input ! D) = poly_mod ?P zs"
    using ntt_okD(5) [OF lazy_nttD(1) [OF P] _ reduced_poly_mod [OF vP]] assms(5) by (simp add: in_D)
  have rem: "rem = map (\<lambda>a. centred (uint ?P) (uint a)) (sr_intt ?R ?P (input ! D))"
    unfolding inverse rem_def by (simp add: list_eq_iff_nth_eq poly_mod_nth [OF vP] centred_mod)
  have in_ok: "length (input ! l) = ?N \<and> reduced (?m ! l) (input ! l)" if "l < D" for l
    using nt [OF _ assms(5), of l] that assms(4) by (simp add: in_l)
  have last_ok: "length (input ! D) = ?N" "reduced ?P (input ! D)"
    using ntt_okD(1,2) [OF lazy_nttD(1) [OF P] _ reduced_poly_mod [OF vP], of zs] assms(5) by (simp_all add: in_D)
  obtain out rest where out: "divide_and_round_q_last_ntt_inplace E input D ?m (Some tool) = Inr (Code_OK, out @ rest)"
    "length out = D" "\<And>l. l < D \<Longrightarrow> length (out ! l) = ?N"
    "\<And>l i. l < D \<Longrightarrow> i < ?N \<Longrightarrow> uint (out ! l ! i)
      = (uint (input ! l ! i) - hat ?R (?m ! l) rem i) * uint (rt_inv_q_last_mod_q tool ! l) mod uint (?m ! l)"
    by (rule divide_and_round_limbs [OF E assms(2-4) in_D(2) in_ok last_ok rem]) (assumption, (rule that; assumption))
  let ?ys = "map (rounded (uint ?P)) zs"
  have "out ! l = ?nt (?m ! l) ?ys" if l: "l < D" for l
  proof (rule nth_equalityI)
    have lm: "l < length ?m" "l < length ?m - 1" using l assms(4) by simp_all
    let ?q = "?m ! l"
    show "length (out ! l) = length (?nt ?q ?ys)" using out(3) [OF l] nt(1) [OF lm(1), of ?ys] assms(5) by simp
    fix i
    assume "i < length (out ! l)"
    then have i: "i < ?N" using out(3) [OF l] by simp
    have "zs = map2 (+) (map (\<lambda>z. int (unat ?P) * z) ?ys) rem"
      using rounded_centred [of _ "uint ?P"] by (simp add: list_eq_iff_nth_eq rem_def)
    then have "hat ?R ?q zs i = (hat ?R ?q (map (\<lambda>z. int (unat ?P) * z) ?ys) i + hat ?R ?q rem i) mod uint ?q"
      using hat_add [OF S ntt [OF lm(1)], of "map (\<lambda>z. int (unat ?P) * z) ?ys" rem i] assms(5) i
      by (simp add: rem_def)
    also have "\<dots> = (uint ?P * hat ?R ?q ?ys i + hat ?R ?q rem i) mod uint ?q"
      using hat_scale [OF S ntt [OF lm(1)], of ?ys i "unat ?P"] assms(5) i by (simp add: mod_add_left_eq)
    finally have "(hat ?R ?q zs i - hat ?R ?q rem i) mod uint ?q = uint ?P * hat ?R ?q ?ys i mod uint ?q"
      by (simp add: mod_diff_left_eq)
    then have "uint (out ! l ! i) = uint ?P * hat ?R ?q ?ys i * uint (rt_inv_q_last_mod_q tool ! l) mod uint ?q"
      using out(4) [OF l i] unfolding in_l [OF l] hat_def [symmetric] by (metis mod_mult_left_eq)
    also have "\<dots> = hat ?R ?q ?ys i * (uint (rt_inv_q_last_mod_q tool ! l) * uint ?P mod uint ?q) mod uint ?q"
      by (simp add: mod_mult_right_eq ac_simps)
    also have "\<dots> = hat ?R ?q ?ys i"
      using assms(2) lm(2) hat_bounds [OF S ntt [OF lm(1)], of ?ys i] assms(5) i by (simp add: tool_ok_def)
    finally show "out ! l ! i = ?nt ?q ?ys ! i" by (simp add: hat_def word_uint_eq_iff)
  qed
  then have "out = map (\<lambda>q. ?nt q ?ys) (take D ?m)"
    using out(2) assms(4) by (simp add: list_eq_iff_nth_eq)
  with out(1) show ?thesis by blast
qed

section \<open>Lazy products\<close>

text \<open>
  The digits are the residue polynomials of the second component, in coefficient form; a ciphertext in evaluation
  form also has their transforms at hand.
\<close>

definition digits_ok :: "evaluator \<Rightarrow> nat \<Rightarrow> bool \<Rightarrow> u64 list \<Rightarrow> u64 list \<Rightarrow> bool" where
  "digits_ok E D ntt target t_target \<longleftrightarrow>
     (\<forall>j < D. length (limb (ev_degree E) t_target j) = ev_degree E \<and>
        reduced (ev_key_moduli E ! j) (limb (ev_degree E) t_target j) \<and>
        (ntt \<longrightarrow> limb (ev_degree E) target j
                   = sr_ntt (ev_rt E) (ev_key_moduli E ! j) (limb (ev_degree E) t_target j)))"

lemma ks_operand_ok:
  assumes E: "evaluator_ok E" and dg: "digits_ok E D ntt target t_target"
    and j: "j < D" "D \<le> length (ev_key_moduli E)" and k: "k < length (ev_key_moduli E)"
    and I: "ntt \<Longrightarrow> I = j \<Longrightarrow> k = j"
  shows "length (ks_operand E ntt target t_target k I j) = ev_degree E"
    and "i < ev_degree E \<Longrightarrow> uint (ks_operand E ntt target t_target k I j ! i) < 4 * uint (ev_key_moduli E ! k)"
    and "i < ev_degree E \<Longrightarrow> uint (ks_operand E ntt target t_target k I j ! i) mod uint (ev_key_moduli E ! k)
      = hat (ev_rt E) (ev_key_moduli E ! k) (map uint (limb (ev_degree E) t_target j)) i"
proof -
  let ?R = "ev_rt E" and ?N = "ev_degree E" and ?q = "ev_key_moduli E ! k" and ?p = "ev_key_moduli E ! j"
  define d where "d = limb ?N t_target j"
  have d: "length d = ?N" "reduced ?p d" using dg j(1) by (simp_all add: digits_ok_def d_def)
  note S = evaluator_okD(1) [OF E]
  have lazy: "lazy_ntt_ok ?R ?N ?q" using k by (intro evaluator_okD(4) [OF E] nth_mem)
  note v = lazy_nttD(2) [OF lazy] and pos = valid_uint [OF lazy_nttD(2) [OF lazy]]
  let ?op = "ks_operand E ntt target t_target k I j"
  have "length ?op = ?N \<and> (\<forall>i < ?N. uint (?op ! i) < 4 * uint ?q \<and> uint (?op ! i) mod uint ?q = hat ?R ?q (map uint d) i)"
  proof (cases "ntt \<and> I = j")
    case True
    then have kj: "k = j" using I by simp
    have op: "?op = sr_ntt ?R ?q d"
      using True dg j(1) by (simp add: ks_operand_def Let_def digits_ok_def d_def kj)
    have pm: "poly_mod ?q (map uint d) = d" using d(2) kj by (simp add: poly_mod_reduced)
    note n = ntt_okD(1,2) [OF lazy_nttD(1) [OF lazy] d(1) d(2) [folded kj]]
    then have "uint (?op ! i) < uint ?q" if "i < ?N" for i using that by (simp add: op reduced_uint)
    then show ?thesis using n(1) pos by (force simp: op hat_def pm)
  next
    case False
    define t where "t = (if ?p \<le> ?q then d else modulo_poly_coeffs (ev_arith E) d ?q)"
    have op: "?op = sr_ntt_lazy ?R ?q t" using False by (auto simp: ks_operand_def Let_def d_def t_def)
    have t: "uint (t ! i) = uint (d ! i) mod uint ?q" if "i < ?N" for i
      using d that pos by (auto simp: t_def modulo_poly_coeffs_def seal_uint(1) [OF S v] reduced_uint word_le_def)
    have lt: "length t = ?N" using d by (simp add: t_def modulo_poly_coeffs_def)
    have "poly_mod ?q (map uint t) = poly_mod ?q (map uint d)"
      using t lt d(1) by (intro poly_mod_cong) simp_all
    moreover have "uint (t ! i) < 4 * uint ?q" if "i < ?N" for i
      using pos pos_mod_bound [of "uint ?q" "uint (d ! i)"] unfolding t [OF that] by linarith
    ultimately show ?thesis
      using lazy_ntt_bounds [OF lazy lt] by (simp add: op hat_def)
  qed
  then show "length ?op = ?N" "i < ?N \<Longrightarrow> uint (?op ! i) < 4 * uint ?q"
    "i < ?N \<Longrightarrow> uint (?op ! i) mod uint ?q = hat ?R ?q (map uint (limb ?N t_target j)) i"
    by (simp_all add: d_def)
qed

text \<open>The exact inner product of the operands with one component of the keys.\<close>

definition inner :: "u64 list list \<Rightarrow> (nat \<Rightarrow> u64 list) \<Rightarrow> nat \<Rightarrow> nat \<Rightarrow> int" where
  "inner ops keys J i = (\<Sum>j<J. uint (ops ! j ! i) * uint (keys j ! i))"

lemma ks_fold:
  assumes E: "evaluator_ok E" and M: "D < ev_mul_acc_max E" "ev_mul_acc_max E < 2 ^ 64"
    and ops: "\<And>j. j < D \<Longrightarrow> length (ops ! j) = ev_degree E"
    and keys: "\<And>j. j < D \<Longrightarrow> count \<le> length (ct_polys (kv ! j))"
      "\<And>j k. j < D \<Longrightarrow> k < count \<Longrightarrow> length (limb (ev_degree E) (ct_polys (kv ! j) ! k) key_index) = ev_degree E"
    and J: "J \<le> D"
  shows "fold (ks_step E ops kv key_index) [0..<J] (ev_mul_acc_max E, replicate count (replicate (ev_degree E) 0))
    = (ev_mul_acc_max E - J,
       map (\<lambda>k. map (\<lambda>i. word_of_int (inner ops (\<lambda>j. limb (ev_degree E) (ct_polys (kv ! j) ! k) key_index) J i))
              [0..<ev_degree E]) [0..<count])"
  using J
proof (induction J)
  case 0
  then show ?case by (simp add: inner_def map_replicate_const)
next
  case (Suc J)
  let ?N = "ev_degree E" and ?M = "ev_mul_acc_max E"
  let ?key = "\<lambda>j k. limb ?N (ct_polys (kv ! j) ! k) key_index"
  let ?acc = "\<lambda>J. map (\<lambda>k. map (\<lambda>i. word_of_int (inner ops (\<lambda>j. ?key j k) J i) :: u128) [0..<?N]) [0..<count]"
  have J: "J < D" "?M - J < 2 ^ 64" "0 < ?M - J" using Suc.prems M by simp_all
  have mul: "ev_multiply_uint64 E x y = word_of_int (uint x * uint y)" for x y
    by (metis evaluator_okD(2) [OF E] word_of_int_uint)
  have "(?M - J + (2 ^ 64 - 1)) = (?M - Suc J) + 2 ^ 64" using J by simp
  then have count_down: "(?M - J + (2 ^ 64 - 1)) mod 2 ^ 64 = ?M - Suc J"
    using J by (simp only: mod_add_self2) simp
  have "map2 (lazy_term E (ev_key_moduli E ! key_index) (?M - J)) (?acc J ! k) (zip (ops ! J) (?key J k)) = ?acc (Suc J) ! k"
    if k: "k < count" for k
    using k ops [OF J(1)] keys(2) [OF J(1) k] J(3)
    by (simp add: list_eq_iff_nth_eq lazy_term_def evaluator_okD(3) [OF E] mul inner_def flip: wi_hom_add)
  note comp = this
  have acc: "map2 (\<lambda>key a. map2 (lazy_term E (ev_key_moduli E ! key_index) (?M - J)) a
      (zip (ops ! J) (limb ?N key key_index))) (ct_polys (kv ! J)) (?acc J) = ?acc (Suc J)"
  proof (rule nth_equalityI)
    fix k
    assume "k < length (map2 (\<lambda>key a. map2 (lazy_term E (ev_key_moduli E ! key_index) (?M - J)) a
      (zip (ops ! J) (limb ?N key key_index))) (ct_polys (kv ! J)) (?acc J))"
    then have k: "k < length (ct_polys (kv ! J))" "k < count" by simp_all
    then show "map2 (\<lambda>key a. map2 (lazy_term E (ev_key_moduli E ! key_index) (?M - J)) a
      (zip (ops ! J) (limb ?N key key_index))) (ct_polys (kv ! J)) (?acc J) ! k = ?acc (Suc J) ! k"
      using comp [OF k(2)] by (simp only: nth_map length_zip nth_zip length_map min_less_iff_conj length_upt diff_zero
        case_prod_conv simp_thms)
  qed (use keys(1) [OF J(1)] in simp)
  have "ks_step E ops kv key_index J (?M - J, ?acc J) = (?M - Suc J, ?acc (Suc J))"
    unfolding ks_step_def Let_def prod.case acc count_down using Suc.prems M(1) by simp
  then show ?case using Suc.IH J(1) by simp
qed

text \<open>Well-formed switching keys: enough components, each reduced for every key modulus.\<close>

definition keys_reduced :: "evaluator \<Rightarrow> nat \<Rightarrow> nat \<Rightarrow> public_key list \<Rightarrow> bool" where
  "keys_reduced E count D kv \<longleftrightarrow>
     (\<forall>j < D. count \<le> length (ct_polys (kv ! j)) \<and>
        (\<forall>k < count. rns_ok (ev_degree E) (ev_key_moduli E) (ct_polys (kv ! j) ! k)))"

definition target_index :: "evaluator \<Rightarrow> nat \<Rightarrow> nat \<Rightarrow> nat" where
  "target_index E D I = (if I = D then length (ev_key_moduli E) - 1 else I)"

lemma inner_bound:
  assumes "\<And>j. j < D \<Longrightarrow> uint (ops ! j ! i) < 4 * uint q" "\<And>j. j < D \<Longrightarrow> uint (keys j ! i) < uint q"
    and "0 < D" "int D * (4 * uint q * uint q) \<le> 2 ^ 128"
  shows "0 \<le> inner ops keys D i \<and> inner ops keys D i < 2 ^ 128"
proof -
  have "uint (ops ! j ! i) * uint (keys j ! i) < 4 * uint q * uint q" if "j < D" for j
  proof -
    have "uint (ops ! j ! i) * uint (keys j ! i) \<le> 4 * uint q * uint (keys j ! i)"
      using assms(1) [OF that] by (intro mult_right_mono) simp_all
    also have "\<dots> < 4 * uint q * uint q"
      using assms(2) [OF that] order.strict_trans1 [OF uint_ge_0 assms(2) [OF that]] by simp
    finally show ?thesis .
  qed
  then have "inner ops keys D i < (\<Sum>j<D. 4 * uint q * uint q)"
    unfolding inner_def using assms(3) by (intro sum_strict_mono) auto
  moreover have "0 \<le> inner ops keys D i" by (simp add: inner_def sum_nonneg)
  ultimately show ?thesis using assms(4) by simp
qed

lemma ks_products_lemma:
  assumes E: "evaluator_ok E" and D: "1 \<le> D" "D < length (ev_key_moduli E)"
    and M: "D < ev_mul_acc_max E" "ev_mul_acc_max E < 2 ^ 64"
    and dg: "digits_ok E D ntt target t_target" and kv: "keys_reduced E count D kv" and I: "I \<le> D"
    and bound: "int D * (4 * uint (ev_key_moduli E ! target_index E D I) * uint (ev_key_moduli E ! target_index E D I)) \<le> 2 ^ 128"
  shows "length (ks_products E ntt target t_target kv count D I) = count"
    and "k < count \<Longrightarrow> length (ks_products E ntt target t_target kv count D I ! k) = ev_degree E"
    and "k < count \<Longrightarrow> i < ev_degree E \<Longrightarrow> uint (ks_products E ntt target t_target kv count D I ! k ! i)
      = (\<Sum>j<D. hat (ev_rt E) (ev_key_moduli E ! target_index E D I) (map uint (limb (ev_degree E) t_target j)) i *
               uint (limb (ev_degree E) (ct_polys (kv ! j) ! k) (target_index E D I) ! i))
          mod uint (ev_key_moduli E ! target_index E D I)"
proof -
  let ?R = "ev_rt E" and ?N = "ev_degree E" and ?m = "ev_key_moduli E" and ?ki = "target_index E D I"
  let ?q = "?m ! ?ki" and ?prod = "ks_products E ntt target t_target kv count D I"
  let ?key = "\<lambda>k j. limb ?N (ct_polys (kv ! j) ! k) ?ki"
  note S = evaluator_okD(1) [OF E]
  have ki: "?ki < length ?m" using D I by (auto simp: target_index_def)
  then have lazy: "lazy_ntt_ok ?R ?N ?q" by (intro evaluator_okD(4) [OF E] nth_mem)
  note v = lazy_nttD(2) [OF lazy]
  define ops where "ops = map (ks_operand E ntt target t_target ?ki I) [0..<D]"
  have op: "length (ops ! j) = ?N" "i < ?N \<Longrightarrow> uint (ops ! j ! i) < 4 * uint ?q"
    "i < ?N \<Longrightarrow> uint (ops ! j ! i) mod uint ?q = hat ?R ?q (map uint (limb ?N t_target j)) i" if "j < D" for j i
    using ks_operand_ok [OF E dg that _ ki, of I] that D by (simp_all add: ops_def target_index_def)
  have key: "length (?key k j) = ?N" "reduced ?q (?key k j)" if "j < D" "k < count" for j k
    using kv that rns_okD [OF _ ki] by (simp_all add: keys_reduced_def)
  have cnt: "count \<le> length (ct_polys (kv ! j))" if "j < D" for j using kv that by (simp add: keys_reduced_def)
  have prod: "?prod = map (\<lambda>k. map (\<lambda>i. barrett_reduce_128 (ev_arith E) (word_of_int (inner ops (?key k) D i)) ?q)
      [0..<?N]) [0..<count]"
    using ks_fold [OF E M op(1) cnt key(1) order_refl] D(1) M(1)
    by (simp add: ks_products_def ks_accumulate_def ks_reduce_def Let_def comp_def flip: target_index_def ops_def)
  show "length ?prod = count" by (simp add: prod)
  show "k < count \<Longrightarrow> length (?prod ! k) = ?N" by (simp add: prod)
  assume k: "k < count" and i: "i < ?N"
  have "0 \<le> inner ops (?key k) D i \<and> inner ops (?key k) D i < 2 ^ 128"
    using op(2) [OF _ i] key [OF _ k] i D(1) bound by (intro inner_bound [of D ops i ?q]) (simp_all add: reduced_uint)
  then have "uint (?prod ! k ! i) = inner ops (?key k) D i mod uint ?q"
    using k i by (simp add: prod seal_uint(2) [OF S v] uint_word_of_int)
  also have "\<dots> = (\<Sum>j<D. uint (ops ! j ! i) mod uint ?q * uint (?key k j ! i) mod uint ?q) mod uint ?q"
    by (simp add: inner_def mod_sum_eq mod_mult_left_eq)
  also have "\<dots> = (\<Sum>j<D. hat ?R ?q (map uint (limb ?N t_target j)) i * uint (?key k j ! i) mod uint ?q) mod uint ?q"
    using op(3) [OF _ i] by simp
  also have "\<dots> = (\<Sum>j<D. hat ?R ?q (map uint (limb ?N t_target j)) i * uint (?key k j ! i)) mod uint ?q"
    by (rule mod_sum_eq)
  finally show "uint (?prod ! k ! i)
      = (\<Sum>j<D. hat ?R ?q (map uint (limb ?N t_target j)) i * uint (?key k j ! i)) mod uint ?q" .
qed

section \<open>The key switch\<close>

text \<open>A residue polynomial of a ciphertext, at the evaluation points.\<close>

definition eval_limb :: "evaluator \<Rightarrow> bool \<Rightarrow> nat \<Rightarrow> u64 list \<Rightarrow> nat \<Rightarrow> int" where
  "eval_limb E ntt l poly i =
     (let a = limb (ev_degree E) poly l
      in uint ((if ntt then a else sr_ntt (ev_rt E) (ev_key_moduli E ! l) a) ! i))"

lemma eval_limb_add:
  assumes E: "evaluator_ok E" and l: "l < D" "D \<le> length (ev_key_moduli E)"
    and a: "rns_ok (ev_degree E) (take D (ev_key_moduli E)) a"
    and outs: "length outs = D" "\<And>l. l < D \<Longrightarrow> length (outs ! l) = ev_degree E \<and> reduced (ev_key_moduli E ! l) (outs ! l)"
    and res: "res = (if ntt then outs else map2 (sr_intt (ev_rt E)) (take D (ev_key_moduli E)) outs)"
    and i: "i < ev_degree E"
  shows "rns_ok (ev_degree E) (take D (ev_key_moduli E))
      (map2_limbs (add_poly_coeffmod (ev_arith E)) (ev_degree E) (take D (ev_key_moduli E)) a (concat res))"
    and "eval_limb E ntt l (map2_limbs (add_poly_coeffmod (ev_arith E)) (ev_degree E) (take D (ev_key_moduli E)) a (concat res)) i
      = (eval_limb E ntt l a i + uint (outs ! l ! i)) mod uint (ev_key_moduli E ! l)"
proof -
  let ?R = "ev_rt E" and ?S = "ev_arith E" and ?N = "ev_degree E" and ?ms = "take D (ev_key_moduli E)"
  let ?q = "ev_key_moduli E ! l"
  let ?sum = "map2_limbs (add_poly_coeffmod ?S) ?N ?ms a (concat res)"
  note S = evaluator_okD(1) [OF E]
  have len: "length ?ms = D" using l(2) by simp
  have lazy: "lazy_ntt_ok ?R ?N (ev_key_moduli E ! k)" if "k < D" for k
    using that l(2) by (intro evaluator_okD(4) [OF E] nth_mem) simp
  note nt = lazy_nttD(1) [OF lazy] and v = lazy_nttD(2) [OF lazy]
  have res_l: "length (res ! k) = ?N \<and> reduced (?ms ! k) (res ! k)" if k: "k < D" for k
    using ntt_okD(3,4) [OF nt [OF k] conjunct1 [OF outs(2) [OF k]] conjunct2 [OF outs(2) [OF k]]] outs k len
    by (simp add: res)
  have lr: "length res = D" using outs(1) len by (simp add: res)
  have rows: "\<forall>r \<in> set res. length r = ?N" using res_l lr by (auto simp: in_set_conv_nth)
  have concat_limb: "limb ?N (concat res) k = res ! k" if "k < D" for k
    using limb_concat [OF _ rows, of k "[]"] that lr by simp
  have res_ok: "rns_ok ?N ?ms (concat res)"
    using length_concat_rows [OF rows] lr len res_l concat_limb by (simp add: rns_ok_def)
  have valid: "\<forall>q \<in> set ?ms. valid_modulus q" using v len by (auto simp: in_set_conv_nth)
  have sum_eq: "?sum = rns_add ?R ?N ?ms a (concat res)" by (simp add: rns_add_def)
  show "rns_ok ?N ?ms ?sum" unfolding sum_eq by (rule rns_ok_add [OF S valid a res_ok])
  have limb_sum: "limb ?N ?sum l = add_poly_coeffmod ?S ?q (limb ?N a l) (res ! l)"
    using limb_rns_add [OF a res_ok, of l] l len concat_limb [OF l(1)] by (simp add: sum_eq)
  have al: "length (limb ?N a l) = ?N" "reduced ?q (limb ?N a l)" using rns_okD [OF a, of l] l len by simp_all
  have rl: "length (res ! l) = ?N" "reduced ?q (res ! l)" using res_l [OF l(1)] l by simp_all
  define x where "x = (if ntt then limb ?N a l else sr_ntt ?R ?q (limb ?N a l))"
  have x: "length x = ?N" "reduced ?q x" using ntt_okD(1,2) [OF nt [OF l(1)] al] al by (simp_all add: x_def)
  have out: "length (outs ! l) = ?N" "reduced ?q (outs ! l)" using outs(2) [OF l(1)] by simp_all
  have ev: "(if ntt then limb ?N ?sum l else sr_ntt ?R ?q (limb ?N ?sum l)) = add_poly_coeffmod ?S ?q x (outs ! l)"
  proof (cases ntt)
    case True
    then show ?thesis using limb_sum by (simp add: x_def res)
  next
    case False
    then have rl_eq: "res ! l = sr_intt ?R ?q (outs ! l)" using l len outs(1) by (simp add: res)
    show ?thesis
      using False ntt_ok_add(1) [OF nt [OF l(1)] al rl] lazy_nttD(3) [OF lazy [OF l(1)] out]
      by (simp add: limb_sum x_def rl_eq)
  qed
  show "eval_limb E ntt l ?sum i = (eval_limb E ntt l a i + uint (outs ! l ! i)) mod uint ?q"
    using add_poly_nth [OF S v [OF l(1)] x(2) out(2), of i, THEN uint_of_unat] x(1) out(1) i
    unfolding eval_limb_def Let_def ev x_def [symmetric] by (simp add: zmod_int)
qed

text \<open>
  One component of the switched ciphertext, times the special prime: the component before, plus the product, minus
  a rounding error of at most half the special prime in every coefficient.
\<close>

lemma ks_add_component_ok:
  assumes E: "evaluator_ok E" and tool: "ev_rns_tool E = Some tool" "tool_ok E tool"
    and D: "1 \<le> D" "D < length (ev_key_moduli E)"
    and a: "rns_ok (ev_degree E) (take D (ev_key_moduli E)) a"
    and prod: "length ps = Suc D"
      "\<And>l. l < D \<Longrightarrow> length (ps ! l) = ev_degree E \<and> reduced (ev_key_moduli E ! l) (ps ! l)"
      "length (ps ! D) = ev_degree E" "reduced (special_prime E) (ps ! D)"
  obtains a' rem where
    "ks_add_component E ntt D ps a = Inr a'" "rns_ok (ev_degree E) (take D (ev_key_moduli E)) a'"
    "length rem = ev_degree E" "\<And>i. i < ev_degree E \<Longrightarrow> 2 * \<bar>rem ! i\<bar> \<le> uint (special_prime E)"
    "\<And>l i. l < D \<Longrightarrow> i < ev_degree E \<Longrightarrow>
       uint (special_prime E) * eval_limb E ntt l a' i mod uint (ev_key_moduli E ! l)
         = (uint (special_prime E) * eval_limb E ntt l a i + uint (ps ! l ! i)
              - hat (ev_rt E) (ev_key_moduli E ! l) rem i) mod uint (ev_key_moduli E ! l)"
proof -
  let ?R = "ev_rt E" and ?N = "ev_degree E" and ?m = "ev_key_moduli E" and ?P = "uint (special_prime E)"
  have P: "lazy_ntt_ok ?R ?N (special_prime E)"
    using D by (intro evaluator_okD(4) [OF E]) (simp add: special_prime_def)
  have posP: "0 < ?P" using valid_uint [OF lazy_nttD(2) [OF P]] by simp
  define rem where "rem = map (\<lambda>a. centred ?P (uint a)) (sr_intt ?R (special_prime E) (ps ! D))"
  have lrem: "length rem = ?N" using ntt_okD(3) [OF lazy_nttD(1) [OF P] prod(3,4)] by (simp add: rem_def)
  obtain outs rest where outs:
    "divide_and_round_q_last_ntt_inplace E ps D ?m (Some tool) = Inr (Code_OK, outs @ rest)"
    "length outs = D" "\<And>l. l < D \<Longrightarrow> length (outs ! l) = ?N"
    "\<And>l i. l < D \<Longrightarrow> i < ?N \<Longrightarrow> uint (outs ! l ! i)
      = (uint (ps ! l ! i) - hat ?R (?m ! l) rem i) * uint (rt_inv_q_last_mod_q tool ! l) mod uint (?m ! l)"
    by (rule divide_and_round_limbs [OF E tool(2) D prod(1) prod(2) prod(3,4) rem_def])
      (assumption, (rule that; assumption))
  have v: "valid_modulus (?m ! l)" if "l < D" for l
    using that D by (intro lazy_nttD(2) [OF evaluator_okD(4) [OF E]] nth_mem) simp
  have outs_ok: "length (outs ! l) = ?N \<and> reduced (?m ! l) (outs ! l)" if l: "l < D" for l
    using outs(3,4) [OF l] valid_uint [OF v [OF l]] by (simp add: reduced_uint)
  define res where "res = (if ntt then outs else map2 (sr_intt ?R) (take D ?m) outs)"
  note add = eval_limb_add [OF E _ less_imp_le [OF D(2)] a outs(2) outs_ok res_def]
  let ?a' = "map2_limbs (add_poly_coeffmod (ev_arith E)) ?N (take D ?m) a (concat res)"
  show ?thesis
  proof (rule that [of ?a' rem])
    show "ks_add_component E ntt D ps a = Inr ?a'"
      using outs(1,2) tool(1) by (simp add: ks_add_component_def Let_def res_def)
    show "length rem = ?N" by (fact lrem)
    show "2 * \<bar>rem ! i\<bar> \<le> ?P" if "i < ?N" for i
      using that lrem centred_bound [OF posP] by (simp add: rem_def)
    show "rns_ok ?N (take D ?m) ?a'"
    proof (cases "?N")
      case 0
      with a D show ?thesis by (simp add: rns_ok_def map2_limbs_def slice_def reduced_def add_poly_coeffmod_def)
    next
      case (Suc n)
      then show ?thesis using add(1) [of 0 0] D by simp
    qed
    fix l i
    assume l: "l < D" and i: "i < ?N"
    let ?q = "uint (?m ! l)" and ?x = "uint (ps ! l ! i) - hat ?R (?m ! l) rem i"
    have inv: "uint (rt_inv_q_last_mod_q tool ! l) * ?P mod ?q = 1"
      using tool(2) l D unfolding tool_ok_def by auto
    have "?P * uint (outs ! l ! i) mod ?q = ?P * (?x * uint (rt_inv_q_last_mod_q tool ! l)) mod ?q"
      unfolding outs(4) [OF l i] by (rule mod_mult_right_eq)
    also have "\<dots> = ?x * (uint (rt_inv_q_last_mod_q tool ! l) * ?P) mod ?q" by (simp only: ac_simps)
    also have "\<dots> = ?x * (uint (rt_inv_q_last_mod_q tool ! l) * ?P mod ?q) mod ?q"
      by (rule mod_mult_right_eq [symmetric])
    finally have po: "?P * uint (outs ! l ! i) mod ?q = ?x mod ?q" by (simp add: inv)
    have "?P * eval_limb E ntt l ?a' i mod ?q = ?P * (eval_limb E ntt l a i + uint (outs ! l ! i)) mod ?q"
      using add(2) [OF l _ i] by (simp add: mod_mult_right_eq)
    also have "\<dots> = (?P * eval_limb E ntt l a i + ?P * uint (outs ! l ! i)) mod ?q" by (simp add: distrib_left)
    also have "\<dots> = (?P * eval_limb E ntt l a i + ?x) mod ?q"
      by (rule mod_add_cong [OF refl po])
    finally show "?P * eval_limb E ntt l ?a' i mod ?q
      = (?P * eval_limb E ntt l a i + uint (ps ! l ! i) - hat ?R (?m ! l) rem i) mod ?q"
      by (simp add: add_diff_eq)
  qed
qed

section \<open>A concrete evaluator\<close>

text \<open>Degree 1, where the transforms are the identity, with the data primes 5 and 7 and the special prime 3.\<close>

definition ev_ref :: evaluator where
  "ev_ref = \<lparr>ev_rt = rt_ref\<lparr>sr_ctx := mvp_ctx\<lparr>sc_degree := 1, sc_key_moduli := [5, 7, 3]\<rparr>,
                          sr_context_moduli := (\<lambda>p. if p = parms_id 2 then Some [5, 7] else None)\<rparr>,
     ev_buffer_valid = (\<lambda>ct. True), ev_key_metadata_valid = (\<lambda>k. ct_parms_id k = parms_id 3), ev_key_buffer_valid = (\<lambda>k. True),
     ev_using_keyswitching = True,
     ev_rns_tool = Some \<lparr>rt_base_q = [5, 7, 3], rt_inv_q_last_mod_q = [2, 5]\<rparr>,
     ev_user_mod_bits = 60, ev_mul_acc_max = 256,
     ev_multiply_uint64 = (\<lambda>x y. ucast x * ucast y), ev_add_uint128 = (\<lambda>x y. x + y),
     ev_apply_galois = (\<lambda>elt q xs. xs), ev_apply_galois_ntt = (\<lambda>elt xs. xs),
     ev_has_key = (\<lambda>gk elt. Inr True), ev_get_index = (\<lambda>elt. Inr 0)\<rparr>"

lemma ev_ref_sel [simp]:
  "ev_key_moduli ev_ref = [5, 7, 3]" "ev_degree ev_ref = 1" "ev_mul_acc_max ev_ref = 256"
  "sr_ntt (ev_rt ev_ref) = (\<lambda>q xs. xs)" "sr_intt (ev_rt ev_ref) = (\<lambda>q xs. xs)"
  "sr_ntt_lazy (ev_rt ev_ref) = (\<lambda>q xs. xs)"
  by (simp_all add: ev_ref_def rt_ref_def)

lemma uint_multiply: "uint (ucast (x :: u64) * ucast (y :: u64) :: u128) = uint x * uint y"
proof -
  have u: "uint (ucast z :: u128) = uint z" for z :: u64
    using uint_bounded [of z] by (simp add: unsigned_ucast_eq take_bit_int_eq_self)
  have "uint x * uint y \<le> (2 ^ 64 - 1) * (2 ^ 64 - 1)"
    using uint_bounded [of x] uint_bounded [of y] by (intro mult_mono) simp_all
  then have "uint x * uint y < 2 ^ 128" by simp
  then show ?thesis by (simp add: uint_word_ariths u)
qed

lemma evaluator_ok_ref: "evaluator_ok ev_ref"
proof -
  have "lazy_ntt_ok (ev_rt ev_ref) 1 q" if q: "valid_modulus q" for q
  proof -
    have "ntt_ok (ev_rt ev_ref) 1 q"
      using ntt_ok_ref [OF q, of 1] by (simp add: ntt_ok_def ev_ref_def rt_ref_def)
    then show ?thesis
      using q by (simp add: lazy_ntt_ok_def list_all_length poly_mod_nth)
  qed
  then have "\<forall>q \<in> set (ev_key_moduli ev_ref). lazy_ntt_ok (ev_rt ev_ref) (ev_degree ev_ref) q"
    by (simp add: valid_modulus_def)
  then show ?thesis
    using seal_arith_ok_ref uint_multiply unfolding evaluator_ok_def by (simp add: ev_ref_def rt_ref_def)
qed

lemma special_prime_ref [simp]: "special_prime ev_ref = 3"
  by (simp add: special_prime_def)

lemma all_less_2: "(\<forall>l < 2. P l) \<longleftrightarrow> P 0 \<and> P (1 :: nat)"
  by (auto simp: less_2_cases_iff)

lemma sum_lessThan_2: "(\<Sum>j<2. f j :: int) = f 0 + f (1 :: nat)"
  by (simp add: lessThan_Suc numeral_2_eq_2)

lemma tool_ok_ref: "tool_ok ev_ref \<lparr>rt_base_q = [5, 7, 3], rt_inv_q_last_mod_q = [2, 5]\<rparr>"
  by (simp add: tool_ok_def All_less_Suc2)

theorem divide_and_round_rounds_witness:
  "\<exists>rest. divide_and_round_q_last_ntt_inplace ev_ref [[3], [2], [2]] 2 [5, 7, 3]
      (Some \<lparr>rt_base_q = [5, 7, 3], rt_inv_q_last_mod_q = [2, 5]\<rparr>) = Inr (Code_OK, [[3], [1]] @ rest)"
proof -
  have "[[3], [2], [2]] = map (\<lambda>q. sr_ntt (ev_rt ev_ref) q (poly_mod q [23]))
      (take 2 (ev_key_moduli ev_ref) @ [special_prime ev_ref])"
    by (simp add: poly_mod_def)
  from divide_and_round_rounds [OF evaluator_ok_ref tool_ok_ref _ _ _ this]
  show ?thesis by (simp add: poly_mod_def rounded_def)
qed

section \<open>The lazy products\<close>

text \<open>
  C4. The lazy products equal the inner products modulo the prime: with fewer moduli than the counter allows and
  primes small enough for the accumulator, the sums of unreduced 128-bit products never overflow, and one reduction
  at the end gives, for every component and coefficient, the sum over the digits of the transformed digit times the key.
\<close>

theorem lazy_products_exact:
  assumes "evaluator_ok E" "1 \<le> D" "D < length (ev_key_moduli E)" "D < ev_mul_acc_max E" "ev_mul_acc_max E < 2 ^ 64"
    and "digits_ok E D ntt target t_target" "keys_reduced E count D kv" "I \<le> D" "q = ev_key_moduli E ! target_index E D I"
    and "int D * (4 * uint q * uint q) \<le> 2 ^ 128"
  shows "length (ks_products E ntt target t_target kv count D I) = count \<and>
    (\<forall>k < count. length (ks_products E ntt target t_target kv count D I ! k) = ev_degree E \<and>
      (\<forall>i < ev_degree E. uint (ks_products E ntt target t_target kv count D I ! k ! i)
        = (\<Sum>j<D. hat (ev_rt E) q (map uint (limb (ev_degree E) t_target j)) i *
                 uint (limb (ev_degree E) (ct_polys (kv ! j) ! k) (target_index E D I) ! i)) mod uint q))"
  using ks_products_lemma [OF assms(1-8)] assms(9,10) by simp

text \<open>Keys for the concrete evaluator, from the key 2 to the key 1.\<close>

definition key_ref :: "u64 list \<Rightarrow> public_key" where
  "key_ref b = \<lparr>ct_parms_id = parms_id 3, ct_is_ntt_form = True, ct_degree = 1, ct_coeff_modulus_size = 3,
     ct_polys = [b, [1, 1, 1]], ct_scale = 1\<rparr>"

definition keys_ref :: "public_key list" where
  "keys_ref = [key_ref [1, 0, 0], key_ref [0, 6, 0]]"

lemma keys_reduced_ref: "keys_reduced ev_ref 2 2 keys_ref"
  by (simp add: keys_reduced_def keys_ref_def key_ref_def rns_ok_def reduced_def slice_def all_less_2 All_less_Suc2)

theorem lazy_products_exact_witness:
  "ks_products ev_ref False [4, 5] [4, 5] keys_ref 2 2 1 = [[2], [2]]"
proof -
  let ?p = "ks_products ev_ref False [4, 5] [4, 5] keys_ref 2 2 1"
  have dg: "digits_ok ev_ref 2 False [4, 5] [4, 5]"
    by (simp add: digits_ok_def slice_def reduced_def all_less_2)
  have "target_index ev_ref 2 1 = 1" by (simp add: target_index_def)
  then have p: "length ?p = 2" "length (?p ! 0) = 1" "length (?p ! 1) = 1" "uint (?p ! 0 ! 0) = 2" "uint (?p ! 1 ! 0) = 2"
    using lazy_products_exact [OF evaluator_ok_ref _ _ _ _ dg keys_reduced_ref _ refl, of 1]
    by (simp_all add: hat_def poly_mod_def slice_def keys_ref_def key_ref_def sum_lessThan_2)
  then have "?p ! 0 = [2]" "?p ! 1 = [2]" by (simp_all add: list_eq_iff_nth_eq word_uint_eq_iff)
  with p(1) show ?thesis by (simp add: list_eq_iff_nth_eq all_less_2)
qed

end
