(* ===== verification/SwitchKeyPhase.thy ===== *)
theory SwitchKeyPhase
  imports SwitchKeyCorrect
begin

text \<open>
  \<open>util/seal.cc\<close>: what the key switch and the Galois automorphism do to the phase \<open>c0 + c1 s\<close> of a ciphertext. The
  equations are at the evaluation points, modulo each prime of the ciphertext, and times the special prime, which
  the key switch divides by.
\<close>

section \<open>Settings\<close>

text \<open>A level with the first \<open>D\<close> of the key moduli, and bounds that SEAL keeps (at most 64 moduli of 60 bits).\<close>

definition level_ok :: "evaluator \<Rightarrow> nat \<Rightarrow> bool" where
  "level_ok E D \<longleftrightarrow> evaluator_ok E \<and>
     (case ev_rns_tool E of None \<Rightarrow> False | Some tool \<Rightarrow> tool_ok E tool) \<and> ev_using_keyswitching E \<and>
     1 \<le> D \<and> D < length (ev_key_moduli E) \<and> D < ev_mul_acc_max E \<and> ev_mul_acc_max E < 2 ^ 64 \<and>
     ev_degree E * (D + 1) * 2 < 2 ^ 64 \<and>
     list_all (\<lambda>q. int D * (4 * uint q * uint q) \<le> 2 ^ 128) (ev_key_moduli E)"

definition ct_ok :: "evaluator \<Rightarrow> nat \<Rightarrow> rlwe_ct \<Rightarrow> bool" where
  "ct_ok E D ct \<longleftrightarrow> sr_context_moduli (ev_rt E) (ct_parms_id ct) = Some (take D (ev_key_moduli E)) \<and>
     sr_ct_metadata_valid (ev_rt E) ct \<and> ev_buffer_valid E ct \<and> length (ct_polys ct) = 2 \<and>
     rns_ok (ev_degree E) (take D (ev_key_moduli E)) (ct_polys ct ! 0) \<and>
     rns_ok (ev_degree E) (take D (ev_key_moduli E)) (ct_polys ct ! 1)"

definition kswitch_ok :: "evaluator \<Rightarrow> nat \<Rightarrow> kswitch_keys \<Rightarrow> nat \<Rightarrow> bool" where
  "kswitch_ok E D ks index \<longleftrightarrow> ks_parms_id ks = sr_key_parms_id (ev_rt E) \<and> index < length (ks_data ks) \<and>
     D \<le> length (ks_data ks ! index) \<and> length (ct_polys (hd (ks_data ks ! index))) = 2 \<and>
     list_all (\<lambda>k. ev_key_metadata_valid E k \<and> ev_key_buffer_valid E k) (ks_data ks ! index) \<and>
     keys_reduced E 2 D (ks_data ks ! index)"

text \<open>
  SEAL's key switching keys: key \<open>j\<close> encrypts under \<open>s\<close> the special prime times \<open>s'\<close> modulo the prime \<open>j\<close> and zero
  modulo the others, with an error polynomial. Keys are in evaluation form.
\<close>

definition switches_to :: "evaluator \<Rightarrow> nat \<Rightarrow> public_key list \<Rightarrow> u64 list \<Rightarrow> u64 list \<Rightarrow> int list list \<Rightarrow> bool" where
  "switches_to E D kv s' s errs \<longleftrightarrow>
     (\<forall>j < D. \<forall>l < D. \<forall>i < ev_degree E.
        (uint (limb (ev_degree E) (ct_polys (kv ! j) ! 0) l ! i)
          + uint (limb (ev_degree E) (ct_polys (kv ! j) ! 1) l ! i) * eval_limb E True l s i) mod uint (ev_key_moduli E ! l)
        = ((if l = j then uint (special_prime E) * eval_limb E True l s' i else 0)
            + hat (ev_rt E) (ev_key_moduli E ! l) (errs ! j) i) mod uint (ev_key_moduli E ! l))"

text \<open>The digits of the decomposition, as integer polynomials with coefficients below their primes.\<close>

definition digit :: "evaluator \<Rightarrow> bool \<Rightarrow> u64 list \<Rightarrow> nat \<Rightarrow> int list" where
  "digit E ntt target j =
     map uint (if ntt then sr_intt (ev_rt E) (ev_key_moduli E ! j) (limb (ev_degree E) target j)
               else limb (ev_degree E) target j)"

text \<open>The noise the keys bring in.\<close>

definition key_noise :: "evaluator \<Rightarrow> bool \<Rightarrow> nat \<Rightarrow> u64 list \<Rightarrow> int list list \<Rightarrow> nat \<Rightarrow> nat \<Rightarrow> int" where
  "key_noise E ntt D target errs l i =
     (\<Sum>j<D. hat (ev_rt E) (ev_key_moduli E ! l) (digit E ntt target j) i
            * hat (ev_rt E) (ev_key_moduli E ! l) (errs ! j) i)"

text \<open>The phase of a ciphertext under a key.\<close>

definition phase :: "evaluator \<Rightarrow> rlwe_ct \<Rightarrow> u64 list \<Rightarrow> nat \<Rightarrow> nat \<Rightarrow> int" where
  "phase E ct s l i = eval_limb E (ct_is_ntt_form ct) l (ct_polys ct ! 0) i
     + eval_limb E (ct_is_ntt_form ct) l (ct_polys ct ! 1) i * eval_limb E True l s i"

section \<open>The arithmetic\<close>

lemma phase_arith:
  fixes q :: int and D l :: nat
  assumes x: "P * x0 mod q = (P * y0 + p0 - r0) mod q" "P * x1 mod q = (P * y1 + p1 - r1) mod q"
    and p: "p0 mod q = (\<Sum>j<D. t j * a j) mod q" "p1 mod q = (\<Sum>j<D. t j * b j) mod q"
    and k: "\<And>j. j < D \<Longrightarrow> (a j + b j * s) mod q = ((if l = j then P * s' else 0) + n j) mod q" and l: "l < D"
  shows "P * (x0 + x1 * s) mod q = (P * (y0 + y1 * s + t l * s') + (\<Sum>j<D. t j * n j) - r0 - r1 * s) mod q"
proof -
  have "(p0 + p1 * s) mod q = ((\<Sum>j<D. t j * a j) + (\<Sum>j<D. t j * b j) * s) mod q"
    by (intro mod_add_cong mod_mult_cong p refl)
  also have "\<dots> = (\<Sum>j<D. t j * (a j + b j * s)) mod q"
    by (simp only: sum_distrib_right sum.distrib distrib_left mult.assoc)
  also have "\<dots> = (\<Sum>j<D. t j * (a j + b j * s) mod q) mod q" by (rule mod_sum_eq [symmetric])
  also have "\<dots> = (\<Sum>j<D. t j * ((if l = j then P * s' else 0) + n j) mod q) mod q"
    by (intro arg_cong [where f = "\<lambda>x. x mod q"] sum.cong mod_mult_cong refl k) simp
  also have "\<dots> = (\<Sum>j<D. t j * ((if l = j then P * s' else 0) + n j)) mod q" by (rule mod_sum_eq)
  also have "(\<Sum>j<D. t j * ((if l = j then P * s' else 0) + n j))
      = (\<Sum>j<D. (if l = j then t j * (P * s') else 0) + t j * n j)"
    by (intro sum.cong refl) (simp add: distrib_left)
  also have "\<dots> = t l * (P * s') + (\<Sum>j<D. t j * n j)" using l by (simp add: sum.distrib sum.delta')
  also have "t l * (P * s') = P * (t l * s')" by (rule mult.left_commute)
  finally have p_sum: "(p0 + p1 * s) mod q = (P * (t l * s') + (\<Sum>j<D. t j * n j)) mod q" .
  have "P * (x0 + x1 * s) mod q = (P * x0 + P * x1 * s) mod q" by (simp add: distrib_left mult.assoc)
  also have "\<dots> = ((P * y0 + p0 - r0) + (P * y1 + p1 - r1) * s) mod q"
    by (intro mod_add_cong mod_mult_cong x refl)
  also have "\<dots> = ((p0 + p1 * s) + (P * (y0 + y1 * s) - r0 - r1 * s)) mod q" by (simp add: algebra_simps)
  also have "\<dots> = ((P * (t l * s') + (\<Sum>j<D. t j * n j)) + (P * (y0 + y1 * s) - r0 - r1 * s)) mod q"
    by (rule mod_add_cong [OF p_sum refl])
  also have "\<dots> = (P * (y0 + y1 * s + t l * s') + (\<Sum>j<D. t j * n j) - r0 - r1 * s) mod q"
    by (simp add: algebra_simps)
  finally show ?thesis .
qed

lemma level_okD:
  assumes "level_ok E D"
  obtains tool where "evaluator_ok E" "ev_rns_tool E = Some tool" "tool_ok E tool" "ev_using_keyswitching E"
    "1 \<le> D" "D < length (ev_key_moduli E)" "D < ev_mul_acc_max E" "ev_mul_acc_max E < 2 ^ 64"
    "ev_degree E * (D + 1) * 2 < 2 ^ 64"
    "list_all (\<lambda>q. int D * (4 * uint q * uint q) \<le> 2 ^ 128) (ev_key_moduli E)"
  using assms unfolding level_ok_def by (auto split: option.splits)

text \<open>The digits, and their transforms for their own prime.\<close>

lemma digits:
  assumes lev: "level_ok E D" and t: "rns_ok (ev_degree E) (take D (ev_key_moduli E)) target"
    and tt: "tt = (if ntt then map_limbs (sr_intt (ev_rt E)) (ev_degree E) (take D (ev_key_moduli E)) target else target)"
  shows "digits_ok E D ntt target tt"
    and "j < D \<Longrightarrow> map uint (limb (ev_degree E) tt j) = digit E ntt target j"
    and "j < D \<Longrightarrow> i < ev_degree E \<Longrightarrow> hat (ev_rt E) (ev_key_moduli E ! j) (digit E ntt target j) i = eval_limb E ntt j target i"
proof -
  let ?R = "ev_rt E" and ?N = "ev_degree E" and ?m = "ev_key_moduli E"
  obtain tool where E: "evaluator_ok E" and D: "1 \<le> D" "D < length ?m" using lev by (rule level_okD)
  have len: "length (take D ?m) = D" using D by simp
  have lazy: "lazy_ntt_ok ?R ?N (?m ! k)" if "k < D" for k
    using that D by (intro evaluator_okD(4) [OF E] nth_mem) simp
  have tl: "length (limb ?N target k) = ?N" "reduced (?m ! k) (limb ?N target k)" if "k < D" for k
    using rns_okD [OF t, of k] that len by simp_all
  have tt_l: "limb ?N tt k = (if ntt then sr_intt ?R (?m ! k) (limb ?N target k) else limb ?N target k)" if k: "k < D" for k
  proof (cases ntt)
    case True
    have "limb ?N (map_limbs (sr_intt ?R) ?N (take D ?m) target) k = sr_intt ?R (take D ?m ! k) (limb ?N target k)"
      using k len ntt_okD(3) [OF lazy_nttD(1) [OF lazy] tl] by (intro limb_map_limbs) simp_all
    then show ?thesis using True k by (simp add: tt)
  next
    case False
    then show ?thesis by (simp add: tt)
  qed
  have dl: "length (limb ?N tt k) = ?N" "reduced (?m ! k) (limb ?N tt k)" if "k < D" for k
    using tt_l [OF that] tl [OF that] ntt_okD(3,4) [OF lazy_nttD(1) [OF lazy [OF that]] tl [OF that]] by simp_all
  show dg: "digits_ok E D ntt target tt"
    using dl tt_l lazy_nttD(3) [OF lazy tl] by (simp add: digits_ok_def)
  show dig: "map uint (limb ?N tt j) = digit E ntt target j" if "j < D" for j
    using tt_l [OF that] by (simp add: digit_def)
  show "j < D \<Longrightarrow> i < ?N \<Longrightarrow> hat ?R (?m ! j) (digit E ntt target j) i = eval_limb E ntt j target i"
    using poly_mod_reduced [OF dl(2), of j] tt_l [of j] lazy_nttD(3) [OF lazy tl]
    by (simp add: hat_def eval_limb_def Let_def flip: dig)
qed

section \<open>The key switch\<close>

lemma switch_key_succeeds:
  assumes lev: "level_ok E D" and ct: "ct_ok E D ct" and ks: "kswitch_ok E D ks index"
    and t: "rns_ok (ev_degree E) (take D (ev_key_moduli E)) target" and ntt: "ct_is_ntt_form ct = ntt"
    and tt: "tt = (if ntt then map_limbs (sr_intt (ev_rt E)) (ev_degree E) (take D (ev_key_moduli E)) target else target)"
    and prods: "prods = (\<lambda>k. map (\<lambda>I. ks_products E ntt target tt (ks_data ks ! index) 2 D I ! k) [0..<D + 1])"
    and comp: "ks_add_component E ntt D (prods 0) (ct_polys ct ! 0) = Inr a0"
      "ks_add_component E ntt D (prods 1) (ct_polys ct ! 1) = Inr a1"
  shows "switch_key_inplace E ct (Some target) ks index = Inr (Code_OK, ct\<lparr>ct_polys := [a0, a1]\<rparr>)"
proof -
  let ?N = "ev_degree E" and ?kv = "ks_data ks ! index"
  obtain tool where E: "evaluator_ok E" and tool: "ev_rns_tool E = Some tool"
    and use: "ev_using_keyswitching E" and D: "1 \<le> D" "D < length (ev_key_moduli E)" and fits: "?N * (D + 1) * 2 < 2 ^ 64"
    using lev by (rule level_okD)
  have lt: "length target = D * ?N" using t D by (simp add: rns_ok_def)
  have kv: "?kv \<noteq> []" using ks D by (auto simp: kswitch_ok_def)
  have keys: "\<not> list_ex (\<lambda>k. \<not> ev_key_metadata_valid E k \<or> \<not> ev_key_buffer_valid E k) ?kv"
    using ks by (auto simp: kswitch_ok_def list_ex_iff list_all_iff)
  have cnt: "\<not> list_ex (\<lambda>k. length (ct_polys k) < 2) (take D ?kv)"
    using ks by (auto simp: kswitch_ok_def keys_reduced_def list_ex_iff in_set_conv_nth) (metis not_less)
  have two: "[0..<2] = [0, 1]" by (simp add: upt_rec)
  have moduli: "sr_context_moduli (ev_rt E) (ct_parms_id ct) = Some (take D (ev_key_moduli E))"
    "length (take D (ev_key_moduli E)) = D" using ct D by (simp_all add: ct_ok_def)
  have tt_eq: "(if ntt then map_limbs (sr_intt (ev_rt E)) ?N (take D (ev_key_moduli E)) (take (D * ?N) target)
      else take (D * ?N) target) = tt" using lt by (simp add: tt)
  have loop: "omap (\<lambda>k. ks_add_component E ntt D
      (map (\<lambda>k. map (\<lambda>p. p ! k) (map (ks_products E ntt target tt ?kv 2 D) [0..<D + 1])) [0..<2] ! k) (ct_polys ct ! k))
      [0..<2] = Inr [a0, a1]"
    using comp by (simp add: two prods comp_def del: upt_Suc)
  have cnt2: "length (ct_polys (hd ?kv)) = 2" using ks by (simp add: kswitch_ok_def)
  have fits': "\<not> 2 ^ 64 \<le> ?N * (D + 1) * 2" using fits by (simp only: not_le)
  show ?thesis
    unfolding switch_key_inplace_def Let_def moduli(1) option.case moduli(2) ntt cnt2 tt_eq loop
    using ct ks use fits' kv keys cnt lt D
    by (simp add: ct_ok_def kswitch_ok_def del: upt_Suc power_numeral)
qed

text \<open>
  The key switch refines the addition of \<open>target * s'\<close> to the phase: on a valid ciphertext and valid keys from
  \<open>s'\<close> to \<open>s\<close> it succeeds, and the new phase times the special prime \<open>P\<close> is \<open>P\<close> times (the old phase plus
  \<open>target * s'\<close>), plus the noise of the keys, minus two rounding errors with coefficients of at most \<open>P / 2\<close>. The
  lazy accumulation neither overflows nor misses a reduction.
\<close>

lemma switch_key_phase:
  assumes "level_ok E D" "ct_ok E D ct" "kswitch_ok E D ks index"
    and "rns_ok (ev_degree E) (take D (ev_key_moduli E)) target"
    and "switches_to E D (ks_data ks ! index) s' s errs"
  shows "\<exists>ct' r0 r1. switch_key_inplace E ct (Some target) ks index = Inr (Code_OK, ct') \<and>
    ct' = ct\<lparr>ct_polys := ct_polys ct'\<rparr> \<and> length (ct_polys ct') = 2 \<and>
    rns_ok (ev_degree E) (take D (ev_key_moduli E)) (ct_polys ct' ! 0) \<and>
    rns_ok (ev_degree E) (take D (ev_key_moduli E)) (ct_polys ct' ! 1) \<and>
    length r0 = ev_degree E \<and> length r1 = ev_degree E \<and>
    (\<forall>i < ev_degree E. 2 * \<bar>r0 ! i\<bar> \<le> uint (special_prime E) \<and> 2 * \<bar>r1 ! i\<bar> \<le> uint (special_prime E)) \<and>
    (\<forall>l < D. \<forall>i < ev_degree E.
       uint (special_prime E) * phase E ct' s l i mod uint (ev_key_moduli E ! l)
       = (uint (special_prime E) * (phase E ct s l i + eval_limb E (ct_is_ntt_form ct) l target i * eval_limb E True l s' i)
            + key_noise E (ct_is_ntt_form ct) D target errs l i
            - hat (ev_rt E) (ev_key_moduli E ! l) r0 i
            - hat (ev_rt E) (ev_key_moduli E ! l) r1 i * eval_limb E True l s i) mod uint (ev_key_moduli E ! l))"
proof -
  let ?R = "ev_rt E" and ?N = "ev_degree E" and ?m = "ev_key_moduli E" and ?kv = "ks_data ks ! index"
  let ?ntt = "ct_is_ntt_form ct"
  obtain tool where E: "evaluator_ok E" and tool: "ev_rns_tool E = Some tool" "tool_ok E tool"
    and D: "1 \<le> D" "D < length ?m" and M: "D < ev_mul_acc_max E" "ev_mul_acc_max E < 2 ^ 64"
    and bounds: "list_all (\<lambda>q. int D * (4 * uint q * uint q) \<le> 2 ^ 128) ?m"
    using assms(1) by (rule level_okD)
  define tt where "tt = (if ?ntt then map_limbs (sr_intt ?R) ?N (take D ?m) target else target)"
  note dg = digits [OF assms(1,4) tt_def]
  have kv: "keys_reduced E 2 D ?kv" using assms(3) by (simp add: kswitch_ok_def)
  have kis: "target_index E D I < length ?m" if "I \<le> D" for I
    using D that by (auto simp: target_index_def)
  have bound: "int D * (4 * uint (?m ! target_index E D I) * uint (?m ! target_index E D I)) \<le> 2 ^ 128" if "I \<le> D" for I
    using bounds kis [OF that] by (simp add: list_all_length)
  define prods where "prods = (\<lambda>k. map (\<lambda>I. ks_products E ?ntt target tt ?kv 2 D I ! k) [0..<D + 1])"
  note kp = ks_products_lemma [OF E D M dg(1) kv _ bound]
  have v: "valid_modulus (?m ! target_index E D I)" if "I \<le> D" for I
    using kis [OF that] by (intro lazy_nttD(2) [OF evaluator_okD(4) [OF E]] nth_mem)
  have prod_ok: "length (prods k ! I) = ?N \<and> reduced (?m ! target_index E D I) (prods k ! I)"
    if "I \<le> D" "k < 2" for I k
    using kp(2,3) [OF that(1) that(1) that(2)] valid_uint [OF v [OF that(1)]] that(1)
    by (simp add: prods_def reduced_uint del: upt_Suc)
  have idx: "target_index E D l = l" if "l < D" for l using that by (simp add: target_index_def)
  have prod_sum: "uint (prods k ! l ! i) mod uint (?m ! l)
      = (\<Sum>j<D. hat ?R (?m ! l) (digit E ?ntt target j) i * uint (limb ?N (ct_polys (?kv ! j) ! k) l ! i)) mod uint (?m ! l)"
    if "l < D" "k < 2" "i < ?N" for l k i
    using kp(3) [of l k i] that idx [OF that(1)] dg(2) by (simp add: prods_def del: upt_Suc)
  have comp: "\<exists>a r. ks_add_component E ?ntt D (prods k) (ct_polys ct ! k) = Inr a \<and> rns_ok ?N (take D ?m) a \<and>
      length r = ?N \<and> (\<forall>i < ?N. 2 * \<bar>r ! i\<bar> \<le> uint (special_prime E)) \<and>
      (\<forall>l < D. \<forall>i < ?N. uint (special_prime E) * eval_limb E ?ntt l a i mod uint (?m ! l)
         = (uint (special_prime E) * eval_limb E ?ntt l (ct_polys ct ! k) i + uint (prods k ! l ! i) - hat ?R (?m ! l) r i)
             mod uint (?m ! l))"
    if k: "k < 2" for k
  proof -
    have "k = 0 \<or> k = 1" using k by auto
    then have a: "rns_ok ?N (take D ?m) (ct_polys ct ! k)" using assms(2) by (auto simp: ct_ok_def)
    have len: "length (prods k) = Suc D" by (simp add: prods_def)
    have low: "length (prods k ! l) = ?N \<and> reduced (?m ! l) (prods k ! l)" if "l < D" for l
      using prod_ok [OF _ k, of l] idx [OF that] that by simp
    have top: "length (prods k ! D) = ?N" "reduced (special_prime E) (prods k ! D)"
      using prod_ok [OF order_refl k] by (simp_all add: target_index_def special_prime_def)
    show ?thesis
      by (rule ks_add_component_ok [OF E tool D a len low top]) (assumption, blast)
  qed
  obtain a0 r0 where a0: "ks_add_component E ?ntt D (prods 0) (ct_polys ct ! 0) = Inr a0" "rns_ok ?N (take D ?m) a0"
      "length r0 = ?N" "\<forall>i < ?N. 2 * \<bar>r0 ! i\<bar> \<le> uint (special_prime E)"
      "\<forall>l < D. \<forall>i < ?N. uint (special_prime E) * eval_limb E ?ntt l a0 i mod uint (?m ! l)
         = (uint (special_prime E) * eval_limb E ?ntt l (ct_polys ct ! 0) i + uint (prods 0 ! l ! i) - hat ?R (?m ! l) r0 i)
             mod uint (?m ! l)"
    using comp [of 0] by auto
  obtain a1 r1 where a1: "ks_add_component E ?ntt D (prods 1) (ct_polys ct ! 1) = Inr a1" "rns_ok ?N (take D ?m) a1"
      "length r1 = ?N" "\<forall>i < ?N. 2 * \<bar>r1 ! i\<bar> \<le> uint (special_prime E)"
      "\<forall>l < D. \<forall>i < ?N. uint (special_prime E) * eval_limb E ?ntt l a1 i mod uint (?m ! l)
         = (uint (special_prime E) * eval_limb E ?ntt l (ct_polys ct ! 1) i + uint (prods 1 ! l ! i) - hat ?R (?m ! l) r1 i)
             mod uint (?m ! l)"
    using comp [of 1] by auto
  let ?ct = "ct\<lparr>ct_polys := [a0, a1]\<rparr>"
  have "uint (special_prime E) * phase E ?ct s l i mod uint (?m ! l)
       = (uint (special_prime E) * (phase E ct s l i + eval_limb E ?ntt l target i * eval_limb E True l s' i)
            + key_noise E ?ntt D target errs l i - hat ?R (?m ! l) r0 i
            - hat ?R (?m ! l) r1 i * eval_limb E True l s i) mod uint (?m ! l)"
    if l: "l < D" and i: "i < ?N" for l i
  proof -
    have key: "(uint (limb ?N (ct_polys (?kv ! j) ! 0) l ! i)
          + uint (limb ?N (ct_polys (?kv ! j) ! 1) l ! i) * eval_limb E True l s i) mod uint (?m ! l)
        = ((if l = j then uint (special_prime E) * eval_limb E True l s' i else 0)
            + hat ?R (?m ! l) (errs ! j) i) mod uint (?m ! l)" if "j < D" for j
      using assms(5) that l i by (simp add: switches_to_def)
    note arith = phase_arith [OF a0(5) [rule_format, OF l i] a1(5) [rule_format, OF l i]
        prod_sum [OF l _ i] prod_sum [OF l _ i] key l]
    then show ?thesis
      using dg(3) [OF l i] by (simp add: phase_def key_noise_def)
  qed
  moreover have "switch_key_inplace E ct (Some target) ks index = Inr (Code_OK, ?ct)"
    by (rule switch_key_succeeds [OF assms(1-4) refl tt_def prods_def a0(1) a1(1)])
  ultimately show ?thesis
    using a0 a1 by (intro exI [of _ ?ct] exI [of _ r0] exI [of _ r1]) simp
qed

section \<open>Galois automorphisms\<close>

text \<open>The image of a polynomial, in the form of the ciphertext.\<close>

definition galois_poly :: "evaluator \<Rightarrow> bool \<Rightarrow> nat \<Rightarrow> nat \<Rightarrow> u64 list \<Rightarrow> u64 list" where
  "galois_poly E ntt elt D poly =
     map_limbs (if \<not> ntt then ev_apply_galois E elt else (\<lambda>_. ev_apply_galois_ntt E elt)) (ev_degree E)
       (take D (ev_key_moduli E)) poly"

text \<open>
  What the code relies on: the automorphisms map residue polynomials to residue polynomials, the validity checks
  read the header and the sizes, and the key for the element is there.
\<close>

definition galois_ok :: "evaluator \<Rightarrow> nat \<Rightarrow> bool" where
  "galois_ok E elt \<longleftrightarrow> odd elt \<and> elt < ev_degree E * 2 \<and> metadata_ok (ev_rt E) \<and>
     (\<forall>ct ps. map length ps = map length (ct_polys ct) \<longrightarrow>
        ev_buffer_valid E (ct\<lparr>ct_polys := ps\<rparr>) = ev_buffer_valid E ct) \<and>
     (\<forall>q xs. q \<in> set (ev_key_moduli E) \<and> length xs = ev_degree E \<and> reduced q xs \<longrightarrow>
        length (ev_apply_galois E elt q xs) = ev_degree E \<and> reduced q (ev_apply_galois E elt q xs) \<and>
        length (ev_apply_galois_ntt E elt xs) = ev_degree E \<and> reduced q (ev_apply_galois_ntt E elt xs))"

lemma galois_poly_ok:
  assumes gal: "galois_ok E elt" and D: "D \<le> length (ev_key_moduli E)"
    and a: "rns_ok (ev_degree E) (take D (ev_key_moduli E)) a"
  shows "rns_ok (ev_degree E) (take D (ev_key_moduli E)) (galois_poly E ntt elt D a)"
proof -
  let ?N = "ev_degree E" and ?ms = "take D (ev_key_moduli E)"
  let ?f = "if \<not> ntt then ev_apply_galois E elt else (\<lambda>_. ev_apply_galois_ntt E elt)"
  have f: "length (?f (?ms ! l) (limb ?N a l)) = ?N \<and> reduced (?ms ! l) (?f (?ms ! l) (limb ?N a l))"
    if l: "l < length ?ms" for l
  proof -
    have "length (ev_apply_galois E elt (?ms ! l) (limb ?N a l)) = ?N \<and> reduced (?ms ! l) (ev_apply_galois E elt (?ms ! l) (limb ?N a l)) \<and>
        length (ev_apply_galois_ntt E elt (limb ?N a l)) = ?N \<and> reduced (?ms ! l) (ev_apply_galois_ntt E elt (limb ?N a l))"
      using gal rns_okD [OF a l] in_set_takeD [OF nth_mem [OF l]] unfolding galois_ok_def by blast
    then show ?thesis by simp
  qed
  have "limb ?N (galois_poly E ntt elt D a) l = ?f (?ms ! l) (limb ?N a l)" if "l < length ?ms" for l
    unfolding galois_poly_def using that f by (intro limb_map_limbs) simp_all
  moreover have "length (galois_poly E ntt elt D a) = length ?ms * ?N"
    unfolding galois_poly_def using a f by (intro length_map_limbs) (simp_all add: rns_ok_def)
  ultimately show ?thesis using f by (simp add: rns_ok_def)
qed

text \<open>Transforms of the zero polynomial.\<close>

lemma zero_limb: "l < D \<Longrightarrow> limb N (replicate (D * N) (0 :: u64)) l = replicate N 0"
proof -
  assume "l < D"
  then have "Suc l * N \<le> D * N" by (intro mult_le_mono1) simp
  then have "N \<le> D * N - l * N" by simp
  then show ?thesis by (simp add: slice_def min_absorb1)
qed

lemma poly_mod_zero: "poly_mod q (replicate N 0) = replicate N 0"
  by (simp add: poly_mod_def map_replicate)

lemma zero_transforms:
  assumes S: "seal_arith_ok (sr_arith R)" and q: "ntt_ok R N q"
  shows "sr_ntt R q (replicate N 0) = replicate N 0" "sr_intt R q (replicate N 0) = replicate N 0"
proof -
  have "0 < q" using valid_uint [of q] q by (simp add: ntt_ok_def word_less_def)
  then have red: "reduced q (replicate N 0)" by (simp add: reduced_def)
  note n = ntt_okD [OF q _ red, simplified]
  show z: "sr_ntt R q (replicate N 0) = replicate N 0"
  proof (rule nth_equalityI)
    fix i
    assume "i < length (sr_ntt R q (replicate N 0))"
    then have "hat R q (replicate N 0) i = 0" "i < N" using hat_zero [OF S q] n(1) by simp_all
    then show "sr_ntt R q (replicate N 0) ! i = replicate N 0 ! i"
      by (simp add: hat_def poly_mod_zero unsigned_eq_0_iff)
  qed (simp add: n(1))
  show "sr_intt R q (replicate N 0) = replicate N 0" using n(5) by (simp add: z)
qed

lemma zero_poly:
  assumes E: "evaluator_ok E" and D: "D \<le> length (ev_key_moduli E)" and l: "l < D" and i: "i < ev_degree E"
  shows "eval_limb E ntt l (replicate (D * ev_degree E) 0) i = 0"
    and "key_noise E ntt D (replicate (D * ev_degree E) 0) errs l i = 0"
proof -
  let ?R = "ev_rt E" and ?N = "ev_degree E" and ?m = "ev_key_moduli E"
  note S = evaluator_okD(1) [OF E]
  have nt: "ntt_ok ?R ?N (?m ! k)" if "k < D" for k
    using that D by (intro lazy_nttD(1) [OF evaluator_okD(4) [OF E]] nth_mem) simp
  note z = zero_transforms [OF S nt]
  show "eval_limb E ntt l (replicate (D * ?N) 0) i = 0"
    using l i z(1) [OF l] by (simp add: eval_limb_def Let_def zero_limb)
  have "digit E ntt (replicate (D * ?N) 0) j = replicate ?N 0" if "j < D" for j
    using that z(2) [OF that] by (simp add: digit_def zero_limb map_replicate)
  then show "key_noise E ntt D (replicate (D * ?N) 0) errs l i = 0"
    using hat_zero [OF S nt [OF l] i] by (simp add: key_noise_def)
qed


text \<open>
  C3. Applying a Galois automorphism in place: on a valid ciphertext, with keys that switch from \<open>s'\<close> to \<open>s\<close>, the call
  succeeds for ciphertexts in either form, and the phase of the result under \<open>s\<close>, times the special prime, is that
  of the images of the two polynomials under \<open>s'\<close>, up to the noise of the keys and two rounding errors of at most
  half the special prime. This includes the short cut for an image of the second polynomial that is zero.
\<close>

theorem apply_galois_phase:
  assumes "level_ok E D" "ct_ok E D ct" "galois_ok E elt"
    and "ev_has_key E gk elt = Inr True" "ev_get_index E elt = Inr index" "kswitch_ok E D gk index"
    and "switches_to E D (ks_data gk ! index) s' s errs"
  shows "\<exists>ct' r0 r1. apply_galois_inplace E ct elt gk = Inr (Code_OK, ct') \<and>
    ct' = ct\<lparr>ct_polys := ct_polys ct'\<rparr> \<and> length (ct_polys ct') = 2 \<and>
    rns_ok (ev_degree E) (take D (ev_key_moduli E)) (ct_polys ct' ! 0) \<and>
    rns_ok (ev_degree E) (take D (ev_key_moduli E)) (ct_polys ct' ! 1) \<and>
    length r0 = ev_degree E \<and> length r1 = ev_degree E \<and>
    (\<forall>i < ev_degree E. 2 * \<bar>r0 ! i\<bar> \<le> uint (special_prime E) \<and> 2 * \<bar>r1 ! i\<bar> \<le> uint (special_prime E)) \<and>
    (\<forall>l < D. \<forall>i < ev_degree E.
       uint (special_prime E) * phase E ct' s l i mod uint (ev_key_moduli E ! l)
       = (uint (special_prime E)
              * (eval_limb E (ct_is_ntt_form ct) l (galois_poly E (ct_is_ntt_form ct) elt D (ct_polys ct ! 0)) i
                 + eval_limb E (ct_is_ntt_form ct) l (galois_poly E (ct_is_ntt_form ct) elt D (ct_polys ct ! 1)) i
                   * eval_limb E True l s' i)
            + key_noise E (ct_is_ntt_form ct) D (galois_poly E (ct_is_ntt_form ct) elt D (ct_polys ct ! 1)) errs l i
            - hat (ev_rt E) (ev_key_moduli E ! l) r0 i
            - hat (ev_rt E) (ev_key_moduli E ! l) r1 i * eval_limb E True l s i) mod uint (ev_key_moduli E ! l))"
proof -
  let ?R = "ev_rt E" and ?N = "ev_degree E" and ?m = "ev_key_moduli E" and ?ntt = "ct_is_ntt_form ct"
  obtain tool where E: "evaluator_ok E" and D: "1 \<le> D" "D < length ?m" and fits: "?N * (D + 1) * 2 < 2 ^ 64"
    using assms(1) by (rule level_okD)
  let ?g0 = "galois_poly E ?ntt elt D (ct_polys ct ! 0)" and ?g1 = "galois_poly E ?ntt elt D (ct_polys ct ! 1)"
  define zs where "zs = replicate (D * ?N) (0 :: u64)"
  let ?ct = "ct\<lparr>ct_polys := [?g0, zs]\<rparr>"
  have c: "rns_ok ?N (take D ?m) (ct_polys ct ! 0)" "rns_ok ?N (take D ?m) (ct_polys ct ! 1)"
    "length (ct_polys ct) = 2" using assms(2) by (simp_all add: ct_ok_def)
  have g: "rns_ok ?N (take D ?m) ?g0" "rns_ok ?N (take D ?m) ?g1"
    using galois_poly_ok [OF assms(3) less_imp_le [OF D(2)]] c by simp_all
  have zs_ok: "rns_ok ?N (take D ?m) zs"
  proof -
    have "0 < ?m ! l" if "l < D" for l
      using valid_uint [OF lazy_nttD(2) [OF evaluator_okD(4) [OF E nth_mem]], of l] that D by (simp add: word_less_def)
    then show ?thesis using D by (auto simp: rns_ok_def zs_def zero_limb reduced_def)
  qed
  have zero: "eval_limb E ntt l zs i = 0" "key_noise E ntt D zs errs l i = 0" if "l < D" "i < ?N" for ntt l i
    unfolding zs_def using zero_poly [OF E less_imp_le [OF D(2)] that] by simp_all
  have lens: "map length [?g0, zs] = map length (ct_polys ct)"
    using c g zs_ok by (auto simp: rns_ok_def length_Suc_conv numeral_2_eq_2)
  have ct_ok': "ct_ok E D ?ct"
    using assms(2) g(1) zs_ok lens assms(3) unfolding ct_ok_def galois_ok_def metadata_ok_def by simp
  have len: "length (take D ?m) = D" "take (D * ?N) (ct_polys ct ! 0) = ct_polys ct ! 0"
    "take (D * ?N) (ct_polys ct ! 1) = ct_polys ct ! 1" using c D by (simp_all add: rns_ok_def)
  have guards: "\<not> 2 ^ 64 \<le> ?N * D" "\<not> 2 ^ 64 \<le> ?N * 2" "\<not> (even elt \<or> ?N * 2 \<le> elt)"
    using fits D assms(3) by (auto simp: galois_ok_def not_le intro: le_less_trans [rotated])
  have call: "apply_galois_inplace E ct elt gk =
      (if list_ex (\<lambda>u. 0 < u) ?g1 then switch_key_inplace E ?ct (Some ?g1) gk index else Inr (Code_OK, ?ct))"
  proof -
    have mod_ct: "sr_context_moduli ?R (ct_parms_id ct) = Some (take D ?m)" using assms(2) by (simp add: ct_ok_def)
    have fin: "obind (Inr index :: nat outcome) f = f index" for f :: "nat \<Rightarrow> (seal_code \<times> rlwe_ct) outcome" by simp
    show ?thesis
      unfolding apply_galois_inplace_def Let_def mod_ct option.case len(1) assms(4,5) fin obind_Inr
      using assms(2,6) guards c(3) len(2,3)
      by (simp add: ct_ok_def kswitch_ok_def zs_def flip: galois_poly_def del: power_numeral)
  qed
  show ?thesis
  proof (cases "list_ex (\<lambda>u. 0 < u) ?g1")
    case True
    have "phase E ?ct s l i = eval_limb E ?ntt l ?g0 i" if "l < D" "i < ?N" for l i
      using zero(1) [OF that] by (simp add: phase_def)
    then show ?thesis
      using switch_key_phase [OF assms(1) ct_ok' assms(6) g(2) assms(7)] True unfolding call by auto
  next
    case False
    have "?g1 = zs"
      using False g(2) D unfolding zs_def
      by (intro replicate_eqI) (simp_all add: rns_ok_def list_ex_iff word_neq_0_conv [symmetric])
    moreover have "hat ?R (?m ! l) (replicate ?N 0) i = 0" if "l < D" "i < ?N" for l i
      using that D by (intro hat_zero [OF evaluator_okD(1) [OF E] lazy_nttD(1) [OF evaluator_okD(4) [OF E nth_mem]]]) simp_all
    ultimately show ?thesis
      using False zero g(1) zs_ok unfolding call
      by (intro exI [of _ ?ct] exI [of _ "replicate ?N 0"]) (simp add: phase_def)
  qed
qed

section \<open>A concrete ciphertext\<close>

definition ct_g :: rlwe_ct where
  "ct_g = \<lparr>ct_parms_id = parms_id 2, ct_is_ntt_form = False, ct_degree = 1, ct_coeff_modulus_size = 2,
     ct_polys = [[2, 3], [4, 5]], ct_scale = 1\<rparr>"

definition gk_g :: kswitch_keys where
  "gk_g = \<lparr>ks_parms_id = parms_id 3, ks_data = [keys_ref]\<rparr>"

lemma level_ok_ref: "level_ok ev_ref 2"
  using evaluator_ok_ref tool_ok_ref by (simp add: level_ok_def) (simp add: ev_ref_def)

lemma ct_ok_g: "ct_ok ev_ref 2 ct_g"
  by (simp add: ct_ok_def ct_g_def rns_ok_def reduced_def slice_def All_less_Suc2) (simp add: ev_ref_def rt_ref_def)

lemma galois_ok_ref: "galois_ok ev_ref 1"
  using metadata_ok_ref by (simp add: galois_ok_def) (simp add: ev_ref_def rt_ref_def metadata_ok_def)

lemma kswitch_ok_g: "kswitch_ok ev_ref 2 gk_g 0"
  using keys_reduced_ref
  by (simp add: kswitch_ok_def gk_g_def) (simp add: keys_ref_def key_ref_def ev_ref_def rt_ref_def)

lemma switches_to_g: "switches_to ev_ref 2 (ks_data gk_g ! 0) [2, 2] [1, 1] [[1], [1]]"
  by (simp add: switches_to_def all_less_2 gk_g_def keys_ref_def key_ref_def eval_limb_def slice_def hat_def poly_mod_def)

theorem apply_galois_phase_witness:
  "\<exists>ct' r0 r1. apply_galois_inplace ev_ref ct_g 1 gk_g = Inr (Code_OK, ct') \<and>
    2 * \<bar>r0\<bar> \<le> 3 \<and> 2 * \<bar>r1\<bar> \<le> 3 \<and>
    3 * phase ev_ref ct' [1, 1] 0 0 mod 5 = (3 * (2 + 4 * 2) + (4 * 1 + 0 * 1) - r0 mod 5 - r1 mod 5) mod 5"
proof -
  have has: "ev_has_key ev_ref gk_g 1 = Inr True" "ev_get_index ev_ref 1 = Inr 0" by (simp_all add: ev_ref_def)
  have gal: "galois_poly ev_ref False 1 2 [2, 3] = [2, 3]" "galois_poly ev_ref False 1 2 [4, 5] = [4, 5]"
    by (simp_all add: galois_poly_def map_limbs_def slice_def) (simp_all add: ev_ref_def)
  have form: "ct_is_ntt_form ct_g = False" "ct_polys ct_g ! 0 = [2, 3]" "ct_polys ct_g ! 1 = [4, 5]"
    by (simp_all add: ct_g_def)
  let ?ev = "eval_limb ev_ref"
  note ap = apply_galois_phase [OF level_ok_ref ct_ok_g galois_ok_ref has kswitch_ok_g switches_to_g,
      unfolded form gal special_prime_ref]
  obtain ct' r0 r1 where r: "apply_galois_inplace ev_ref ct_g 1 gk_g = Inr (Code_OK, ct')"
      "length r0 = ev_degree ev_ref" "length r1 = ev_degree ev_ref"
      "\<forall>i < ev_degree ev_ref. 2 * \<bar>r0 ! i\<bar> \<le> uint (3 :: u64) \<and> 2 * \<bar>r1 ! i\<bar> \<le> uint (3 :: u64)"
      "\<forall>l < 2. \<forall>i < ev_degree ev_ref. uint (3 :: u64) * phase ev_ref ct' [1, 1] l i mod uint (ev_key_moduli ev_ref ! l)
       = (uint (3 :: u64) * (?ev False l [2, 3] i + ?ev False l [4, 5] i * ?ev True l [2, 2] i)
            + key_noise ev_ref False 2 [4, 5] [[1], [1]] l i - hat (ev_rt ev_ref) (ev_key_moduli ev_ref ! l) r0 i
            - hat (ev_rt ev_ref) (ev_key_moduli ev_ref ! l) r1 i * ?ev True l [1, 1] i) mod uint (ev_key_moduli ev_ref ! l)"
    using ap by (elim exE conjE) (rule that; assumption)
  have b: "2 * \<bar>r0 ! 0\<bar> \<le> 3" "2 * \<bar>r1 ! 0\<bar> \<le> 3" using r(4) by simp_all
  have h: "hat (ev_rt ev_ref) 5 r 0 = r ! 0 mod 5" if "length r = 1" for r
    using that poly_mod_nth [of 5 0 r] by (simp add: hat_def valid_modulus_def)
  have ev: "?ev False 0 [2, 3] 0 = 2" "?ev False 0 [4, 5] 0 = 4" "?ev True 0 [2, 2] 0 = 2" "?ev True 0 [1, 1] 0 = 1"
    by (simp_all add: eval_limb_def slice_def)
  have n: "key_noise ev_ref False 2 [4, 5] [[1], [1]] 0 0 = 4 * 1 + 0 * 1"
    by (simp add: key_noise_def sum_lessThan_2 digit_def slice_def hat_def poly_mod_def)
  have "3 * phase ev_ref ct' [1, 1] 0 0 mod 5 = (3 * (2 + 4 * 2) + (4 * 1 + 0 * 1) - r0 ! 0 mod 5 - r1 ! 0 mod 5) mod 5"
    using r(5) [rule_format, of 0 0] h [of r0] h [of r1] r(2,3) unfolding ev n by simp
  with r(1) b show ?thesis by blast
qed

end
