(* ===== verification/EncodeCorrect.thy ===== *)
theory EncodeCorrect
  imports Jobs PrivateCorrect PublicCorrect
begin

text \<open>
  The encoding stage of \<open>MatVec\<close> as a whole: from the matrix in memory to the array of plaintexts of the key
  level. Every cell writes the residues of the signed entries of its submatrix, the row blocks and slots together
  hold every row once, and a block row times the vector gives the dot product modulo every prime of the key.
\<close>

section \<open>The plaintext of one cell\<close>

text \<open>The residues of a coefficient buffer, limb by limb.\<close>

definition weight_limb :: "MVPPrivImpl \<Rightarrow> u64 list \<Rightarrow> nat \<Rightarrow> u64 list" where
  "weight_limb I coeffs j =
     map (CenteralizeAt_entry (sr_arith (priv_rt I)) (mi_base_mod_nbits (priv_config I)) (sc_key_moduli (priv_ctx I) ! j)) coeffs"

definition weight_data :: "MVPPrivImpl \<Rightarrow> u64 list \<Rightarrow> u64 list" where
  "weight_data I coeffs = concat (map (weight_limb I coeffs) [0..<length (sc_key_moduli (priv_ctx I))])"

lemma length_weight_limb [simp]: "length (weight_limb I coeffs j) = length coeffs"
  by (simp add: weight_limb_def)

lemma limb_weight_data:
  assumes "j < length (sc_key_moduli (priv_ctx I))"
  shows "limb (length coeffs) (weight_data I coeffs) j = weight_limb I coeffs j"
proof -
  let ?rows = "map (weight_limb I coeffs) [0..<length (sc_key_moduli (priv_ctx I))]"
  have "\<forall>r \<in> set ?rows. length r = length coeffs" "j < length ?rows" using assms by simp_all
  from limb_concat [OF this(2,1), of "[]"] show ?thesis using assms
    by (simp only: weight_data_def append_Nil2 nth_map length_upt nth_upt) simp
qed

lemma length_weight_data: "length (weight_data I coeffs) = length (sc_key_moduli (priv_ctx I)) * length coeffs"
  unfolding weight_data_def
  using length_concat_rows [of "map (weight_limb I coeffs) [0..<length (sc_key_moduli (priv_ctx I))]" "length coeffs"] by auto

lemma weight_limb_ok:
  assumes "0 < mi_base_mod_nbits (priv_config I)" "mi_base_mod_nbits (priv_config I) \<le> 64"
    and "length coeffs = priv_poly_degree I" "j < length (sc_key_moduli (priv_ctx I))"
  shows "priv_vec2poly_limb I (sc_key_moduli (priv_ctx I)) coeffs encode_weight False j = Inr (weight_limb I coeffs j)"
  using assms by (simp add: priv_vec2poly_limb_def CenteralizeAt_def weight_limb_def Let_def)

text \<open>The loop over the moduli overwrites the whole plaintext.\<close>

lemma weight_limbs_ok:
  fixes I coeffs
  defines "row \<equiv> weight_limb I coeffs" and "m \<equiv> sc_key_moduli (priv_ctx I)"
  assumes cfg: "0 < mi_base_mod_nbits (priv_config I)" "mi_base_mod_nbits (priv_config I) \<le> 64" "length coeffs = priv_poly_degree I"
  shows "a \<le> length m \<Longrightarrow> length rest = (length m - a) * length coeffs \<Longrightarrow>
    priv_vec2poly_limbs I m coeffs encode_weight False [a..<length m] (concat (map row [0..<a]) @ rest)
      = (Inr (), concat (map row [0..<length m]))"
proof (induction "length m - a" arbitrary: a rest)
  case 0
  then show ?case by simp
next
  case (Suc d)
  let ?N = "length coeffs" and ?pre = "concat (map row [0..<a])"
  have a: "a < length m" using Suc.hyps(2) by simp
  have pre: "length ?pre = a * ?N"
    using length_concat_rows [of "map row [0..<a]" ?N] by (auto simp: row_def)
  have "length m - a = Suc (length m - Suc a)" using a by simp
  then have split: "length (drop ?N rest) = (length m - Suc a) * ?N" using Suc.prems(2) by simp
  have "overwrite (?pre @ rest) (a * ?N) (row a) = ?pre @ row a @ drop ?N rest"
    using pre by (simp add: overwrite_def row_def)
  then have stored: "overwrite (?pre @ rest) (a * priv_poly_degree I) (row a) = concat (map row [0..<Suc a]) @ drop ?N rest"
    using cfg(3) by simp
  have limb: "priv_vec2poly_limb I m coeffs encode_weight False a = Inr (row a)"
    using weight_limb_ok [OF cfg, of a] a by (simp add: m_def row_def)
  have "priv_vec2poly_limbs I m coeffs encode_weight False [Suc a..<length m] (concat (map row [0..<Suc a]) @ drop ?N rest)
      = (Inr (), concat (map row [0..<length m]))"
    using Suc.hyps(2) a split by (intro Suc.hyps(1)) simp_all
  then show ?case using a limb stored by (simp add: upt_conv_Cons del: upt_Suc)
qed

lemma InitPtx_resize:
  assumes "sr_context_moduli (sl_rt L) pid = Some ms" "pid \<noteq> parms_id_zero" "length ms * sc_degree (sl_ctx L) < 2 ^ 64"
  shows "InitPtx (sl_rt L) pt pid
    = Inr (pt\<lparr>pt_parms_id := pid, pt_data := vec_resize (length ms * sc_degree (sl_ctx L)) (pt_data pt)\<rparr>)"
  using assms by (simp add: InitPtx_def Let_def)

lemma priv_Vec2Poly_weight:
  assumes L: "lib_ok (priv_seal_rt I)"
    and cfg: "0 < mi_base_mod_nbits (priv_config I)" "mi_base_mod_nbits (priv_config I) \<le> 64" "length coeffs = priv_poly_degree I"
  shows "\<exists>pt'. priv_Vec2Poly I coeffs pt encode_weight False = (Inr (), pt') \<and>
    pt_parms_id pt' = sr_key_parms_id (priv_rt I) \<and> pt_data pt' = weight_data I coeffs"
proof -
  let ?m = "sc_key_moduli (priv_ctx I)" and ?k = "sr_key_parms_id (priv_rt I)"
  let ?d = "vec_resize (length ?m * sc_degree (priv_ctx I)) (pt_data pt)"
  have N: "length coeffs = sc_degree (priv_ctx I)" using cfg(3) by (simp add: priv_poly_degree_def)
  have ne: "coeffs \<noteq> []" using L N by (auto simp: lib_ok_def)
  have init: "InitPtx (priv_rt I) pt ?k = Inr (pt\<lparr>pt_parms_id := ?k, pt_data := ?d\<rparr>)"
    by (rule InitPtx_resize) (use levels [OF L] in simp_all)
  have "priv_vec2poly_limbs I ?m coeffs encode_weight False [0..<length ?m] ?d = (Inr (), weight_data I coeffs)"
    using weight_limbs_ok [OF cfg, of 0 ?d] N by (simp add: weight_data_def)
  then have "priv_Vec2Poly I coeffs pt encode_weight False
      = (Inr (), pt\<lparr>pt_parms_id := ?k, pt_data := weight_data I coeffs\<rparr>)"
    using init levels(1) [OF L] ne cfg(3) by (simp add: priv_Vec2Poly_def priv_IsUseExtraPrime_def)
  then show ?thesis by simp
qed

section \<open>The cells of a job\<close>

definition cell_rows :: "MVPPrivImpl \<Rightarrow> ecd_job \<Rightarrow> nat \<Rightarrow> nat list" where
  "cell_rows I J rblk = bit_reversed_rows (sr_arith (priv_rt I)) (row_base (ej_num_row_blks J) (ej_nrows J) rblk)
     (ej_log2_nrows J) (fst (ej_shape J))"

text \<open>What the plaintext of a cell is once the cell has been encoded, whatever the buffer held before.\<close>

definition cell_holds :: "MVPPrivImpl \<Rightarrow> MatView \<Rightarrow> ecd_job \<Rightarrow> nat \<times> nat \<Rightarrow> rlwe_pt \<Rightarrow> bool" where
  "cell_holds I mat J cell pt \<longleftrightarrow> pt_parms_id pt = sr_key_parms_id (priv_rt I) \<and>
     (\<exists>old buf. length old = priv_poly_degree I \<and> length buf = priv_poly_degree I \<and> pt_data pt = weight_data I buf \<and>
        encode_block mat (fst (ej_shape J)) (snd (ej_shape J)) (cell_rows I J (fst cell)) (snd cell) old = Inr buf)"

definition job_ok :: "MVPPrivImpl \<Rightarrow> MatView \<Rightarrow> ecd_job \<Rightarrow> bool" where
  "job_ok I mat J \<longleftrightarrow> lib_ok (priv_seal_rt I) \<and> mat_wf mat \<and>
     0 < mi_base_mod_nbits (priv_config I) \<and> mi_base_mod_nbits (priv_config I) \<le> 64 \<and>
     0 < snd (ej_shape J) \<and> fst (ej_shape J) * snd (ej_shape J) \<le> priv_poly_degree I \<and>
     mv_ncols mat + snd (ej_shape J) \<le> 2 ^ 64 \<and> ej_num_col_blks J = CeilDiv (mv_ncols mat) (snd (ej_shape J))"

lemma block_inside:
  assumes "0 < w" "n + w \<le> 2 ^ 64" "b < CeilDiv n w"
  shows "b * w < n"
proof -
  have "Suc b * w \<le> CeilDiv n w * w" using assms(3) by (intro mult_le_mono1) simp
  then show ?thesis using CeilDiv_bounds(2) [of w n] assms(1,2) by (simp add: add.commute)
qed

lemma ecd_cell_ok:
  assumes J: "job_ok I mat J" and cell: "snd cell < ej_num_col_blks J" "cell_index J cell < length pts"
    and coeffs: "length coeffs = priv_poly_degree I"
  shows "\<exists>coeffs' pt. ecd_cell I mat J cell (coeffs, pts) = (Inr (), coeffs', pts[cell_index J cell := pt]) \<and>
    length coeffs' = priv_poly_degree I \<and> cell_holds I mat J cell pt"
proof -
  obtain r c where rc: "cell = (r, c)" by (cases cell)
  obtain n w where shape: "ej_shape J = (n, w)" by (cases "ej_shape J")
  have ok: "lib_ok (priv_seal_rt I)" "mat_wf mat" "0 < mi_base_mod_nbits (priv_config I)" "mi_base_mod_nbits (priv_config I) \<le> 64"
    "0 < w" "n * w \<le> length coeffs" "mv_ncols mat + w \<le> 2 ^ 64" "c < CeilDiv (mv_ncols mat) w"
    using J cell(1) coeffs by (simp_all add: job_ok_def shape rc)
  obtain buf where buf: "encode_block mat n w (cell_rows I J r) c coeffs = Inr buf" "length buf = priv_poly_degree I"
    using encode_block_ok [OF ok(2) block_inside [OF ok(5,7,8)] ok(6), of "cell_rows I J r"] coeffs by auto
  let ?i = "r * ej_num_col_blks J + c"
  obtain pt where pt: "priv_Vec2Poly I buf (pts ! ?i) encode_weight False = (Inr (), pt)"
      "pt_parms_id pt = sr_key_parms_id (priv_rt I)" "pt_data pt = weight_data I buf"
    using priv_Vec2Poly_weight [OF ok(1,3,4) buf(2)] by blast
  have "ecd_cell I mat J cell (coeffs, pts) = (Inr (), buf, pts[cell_index J cell := pt])"
    using buf(1) pt(1) cell(2) by (simp add: ecd_cell_def rc shape cell_rows_def cell_index_def MVP_VERSION_def)
  moreover have "cell_holds I mat J cell pt"
    using pt(2,3) buf coeffs by (auto simp: cell_holds_def rc shape)
  ultimately show ?thesis using buf(2) by blast
qed

text \<open>A list of cells: they all hold afterwards, and a cell that held before still does.\<close>

definition cells_hold :: "MVPPrivImpl \<Rightarrow> MatView \<Rightarrow> ecd_job \<Rightarrow> (nat \<times> nat) set \<Rightarrow> rlwe_pt list \<Rightarrow> bool" where
  "cells_hold I mat J S pts \<longleftrightarrow> (\<forall>cell \<in> S. cell_holds I mat J cell (pts ! cell_index J cell))"

definition cells_fit :: "ecd_job \<Rightarrow> (nat \<times> nat) set \<Rightarrow> nat \<Rightarrow> bool" where
  "cells_fit J S n \<longleftrightarrow> (\<forall>cell \<in> S. snd cell < ej_num_col_blks J \<and> cell_index J cell < n)"

lemma cells_hold_update:
  assumes "cells_hold I mat J S pts" "cells_fit J (insert cell S) (length pts)" "cell_holds I mat J cell pt"
  shows "cells_hold I mat J (insert cell S) (pts[cell_index J cell := pt])"
  unfolding cells_hold_def
proof
  fix d
  assume d: "d \<in> insert cell S"
  have fit: "snd cell < ej_num_col_blks J" "cell_index J cell < length pts" "snd d < ej_num_col_blks J"
    using assms(2) d by (auto simp: cells_fit_def)
  show "cell_holds I mat J d (pts[cell_index J cell := pt] ! cell_index J d)"
  proof (cases "d = cell")
    case True
    then show ?thesis using assms(3) fit by simp
  next
    case False
    then have "cell_index J d \<noteq> cell_index J cell" using cell_index_inj [OF fit(3,1)] by blast
    then show ?thesis using assms(1) d False by (simp add: cells_hold_def)
  qed
qed

lemma ecd_cells_ok:
  assumes J: "job_ok I mat J"
  shows "length coeffs = priv_poly_degree I \<Longrightarrow> cells_fit J (S \<union> set cells) (length pts) \<Longrightarrow> cells_hold I mat J S pts \<Longrightarrow>
    \<exists>coeffs' pts'. ecd_cells I mat J cells (coeffs, pts) = (Inr (), coeffs', pts') \<and>
      length pts' = length pts \<and> cells_hold I mat J (S \<union> set cells) pts'"
proof (induction cells arbitrary: coeffs pts S)
  case (Cons cell cells)
  have fit: "snd cell < ej_num_col_blks J" "cell_index J cell < length pts" "cells_fit J (insert cell S) (length pts)"
    using Cons.prems(2) by (auto simp: cells_fit_def)
  obtain c pt where c: "ecd_cell I mat J cell (coeffs, pts) = (Inr (), c, pts[cell_index J cell := pt])"
      "length c = priv_poly_degree I" "cell_holds I mat J cell pt"
    using ecd_cell_ok [OF J fit(1,2) Cons.prems(1)] by blast
  have "\<exists>coeffs' pts'. ecd_cells I mat J cells (c, pts[cell_index J cell := pt]) = (Inr (), coeffs', pts') \<and>
      length pts' = length (pts[cell_index J cell := pt]) \<and> cells_hold I mat J (insert cell S \<union> set cells) pts'"
    using Cons.prems(2) c(2) cells_hold_update [OF Cons.prems(3) fit(3) c(3)] by (intro Cons.IH) simp_all
  then show ?case using c(1) by auto
qed simp

text \<open>All jobs one after the other.\<close>

lemma ecd_serial_ok:
  assumes J: "job_ok I mat J"
  shows "cells_fit J (S \<union> (\<Union>rng \<in> set rngs. set (job_cells (ej_num_col_blks J) rng))) (length pts) \<Longrightarrow> cells_hold I mat J S pts \<Longrightarrow>
    \<exists>pts'. ecd_serial I mat J rngs pts = Inr pts' \<and> length pts' = length pts \<and>
      cells_hold I mat J (S \<union> (\<Union>rng \<in> set rngs. set (job_cells (ej_num_col_blks J) rng))) pts'"
proof (induction rngs arbitrary: pts S)
  case (Cons rng rngs)
  let ?C = "set (job_cells (ej_num_col_blks J) rng)"
  have "cells_fit J (S \<union> ?C) (length pts)" using Cons.prems(1) by (auto simp: cells_fit_def)
  then obtain c ps where ps: "ecd_cells I mat J (job_cells (ej_num_col_blks J) rng) (replicate (priv_poly_degree I) 0, pts) = (Inr (), c, ps)"
      "length ps = length pts" "cells_hold I mat J (S \<union> ?C) ps"
    using ecd_cells_ok [OF J _ _ Cons.prems(2), of "replicate (priv_poly_degree I) 0" "job_cells (ej_num_col_blks J) rng"] by auto
  have "\<exists>pts'. ecd_serial I mat J rngs ps = Inr pts' \<and> length pts' = length ps \<and>
      cells_hold I mat J ((S \<union> ?C) \<union> (\<Union>rng \<in> set rngs. set (job_cells (ej_num_col_blks J) rng))) pts'"
    using Cons.prems(1) ps(2,3) by (intro Cons.IH) (simp_all add: Un_assoc)
  then show ?case using ps(1,2) by (simp add: ecd_program_def drop_status_def Un_assoc)
qed simp

section \<open>The whole matrix\<close>

definition encode_ready :: "MVPContext \<Rightarrow> MVPPrivImpl \<Rightarrow> MatView \<Rightarrow> nat \<Rightarrow> bool" where
  "encode_ready rt I mat K \<longleftrightarrow> lib_ok (priv_seal_rt I) \<and> priv_poly_degree I = 2 ^ K \<and> mat_wf mat \<and>
     priv_config I = \<lparr>mi_is_transposed = False, mi_base_mod_nbits = 64, mi_nrows = mv_nrows mat, mi_ncols = mv_ncols mat\<rparr> \<and>
     2 \<le> mv_nrows mat \<and> mv_nrows mat \<le> 2 ^ K \<and> 0 < mv_ncols mat \<and> mv_ncols mat + 2 ^ K \<le> 2 ^ 64 \<and>
     0 < thread_pool_size rt \<and> 2 ^ K + thread_pool_size rt \<le> 2 ^ 64"

lemma ecd_setup_closed:
  assumes "NextPow2 (mv_nrows mat) = 2 ^ k" "e < k" "k < 64"
  shows "ecd_setup mat (2 ^ e, w) = Inr \<lparr>ej_log2_nrows = k - 1, ej_nrows = 2 ^ k, ej_shape = (2 ^ e, w),
    ej_num_row_blks = 2 ^ (k - e), ej_num_col_blks = CeilDiv (mv_ncols mat) w\<rparr>"
proof -
  have k: "2 ^ (k - e) * 2 ^ e = (2 :: nat) ^ k" using assms(2) by (simp flip: power_add)
  have "(2 :: nat) ^ e \<le> 2 ^ 63" "(2 :: nat) ^ k \<le> 2 ^ 63" using assms(2,3) by (intro power_increasing; simp)+
  then have "2 ^ (k - e) * 2 ^ e + 2 ^ e \<le> (2 :: nat) ^ 64" unfolding k by simp
  then have "CeilDiv (2 ^ (k - e) * 2 ^ e) (2 ^ e) = 2 ^ (k - e)" by (intro CeilDiv_mult) simp_all
  moreover have "Log2 (2 ^ k - 1) = Inr (k - 1)" using assms(2) by (intro Log2_pow2_minus_1) simp
  ultimately show ?thesis by (simp only: k ecd_setup_def assms(1) Let_def fst_conv snd_conv obind_Inr)
qed

lemma jobs_cover:
  assumes "0 < t" "n + t \<le> 2 ^ 64"
  shows "(\<Union>rng \<in> set (thread_ranges n t). set (job_cells c rng)) = {..<n} \<times> {..<c}"
proof -
  have "set (job_cells c rng) = {fst rng..<snd rng} \<times> {..<c}" for rng
    by (simp add: job_cells_def lessThan_atLeast0)
  then have "(\<Union>rng \<in> set (thread_ranges n t). set (job_cells c rng)) = (\<Union>rng \<in> set (thread_ranges n t). {fst rng..<snd rng}) \<times> {..<c}"
    by (simp only:) blast
  also have "(\<Union>rng \<in> set (thread_ranges n t). {fst rng..<snd rng}) = set (concat (map (\<lambda>(b, e). [b..<e]) (thread_ranges n t)))"
    by (simp add: split_def)
  also have "\<dots> = {..<n}" by (simp only: thread_ranges_cover [OF assms] set_upt lessThan_atLeast0)
  finally show ?thesis .
qed

lemma index_below:
  assumes "r < n" "c < m"
  shows "r * m + c < n * (m :: nat)"
proof -
  have "Suc r * m \<le> n * m" using assms(1) by (intro mult_le_mono1) simp
  then show ?thesis using assms(2) by simp
qed

lemma encode_matrix_cells:
  assumes J: "job_ok I mat J" "ecd_setup mat shape = Inr J"
    and pool: "0 < thread_pool_size rt" "ej_num_row_blks J + thread_pool_size rt \<le> 2 ^ 64"
  shows "\<exists>pts. encode_matrix rt I mat shape = Inr pts \<and> length pts = ej_num_row_blks J * ej_num_col_blks J \<and>
    cells_hold I mat J ({..<ej_num_row_blks J} \<times> {..<ej_num_col_blks J}) pts"
proof -
  let ?n = "ej_num_row_blks J" and ?m = "ej_num_col_blks J"
  note cover = jobs_cover [OF pool, of ?m]
  have "cells_fit J ({} \<union> (\<Union>rng \<in> set (thread_ranges ?n (thread_pool_size rt)). set (job_cells ?m rng)))
      (length (replicate (?n * ?m) fresh_ptx))"
    unfolding cover cells_fit_def by (auto simp: cell_index_def index_below)
  from ecd_serial_ok [OF J(1) this] show ?thesis
    unfolding cover by (simp add: encode_matrix_def J(2) cells_hold_def)
qed

lemma negacyclic_cong: "n < N \<Longrightarrow> (\<And>i. i < N \<Longrightarrow> a i = a' i) \<Longrightarrow> negacyclic N a b n = negacyclic N a' b n"
  unfolding negacyclic_def by (intro sum.cong) auto

lemma dot_mod_cong: "(\<Sum>c<n. (f c mod q) * h c) mod q = (\<Sum>c<n. f c * h c) mod (q :: int)" for n :: nat
  using mod_sum_eq [of "\<lambda>c. (f c mod q) * h c" q "{..<n}"] mod_sum_eq [of "\<lambda>c. f c * h c" q "{..<n}"]
  by (simp add: mod_mult_left_eq)

text \<open>
  One block row times a vector: the coefficient \<open>t\<close> of the sum of the products of its plaintexts, read at the
  \<open>j\<close>-th modulus, with the subvectors.
\<close>

definition block_row_times ::
    "nat \<Rightarrow> rlwe_pt list \<Rightarrow> nat \<Rightarrow> nat \<Rightarrow> nat \<Rightarrow> nat \<Rightarrow> (u64 \<Rightarrow> int) \<Rightarrow> u64 list \<Rightarrow> nat \<Rightarrow> int" where
  "block_row_times N pts ncb w rblk j h xs t =
     (\<Sum>cblk<ncb. negacyclic N (\<lambda>i. int (unat (limb N (pt_data (pts ! (rblk * ncb + cblk))) j ! i)))
        (poly_of h (subvectors w xs ! cblk)) t)"

lemma block_row_product:
  assumes J: "job_ok I mat J" "mi_base_mod_nbits (priv_config I) = 64" and xs: "length xs = mv_ncols mat"
    and at: "rblk < ej_num_row_blks J" "s < fst (ej_shape J)" "cell_rows I J rblk ! s = r" "r < mv_nrows mat"
    and pts: "cells_hold I mat J ({..<ej_num_row_blks J} \<times> {..<ej_num_col_blks J}) pts"
    and j: "j < length (sc_key_moduli (priv_ctx I))"
    and entries: "\<forall>c < mv_ncols mat. - int (unat (sc_key_moduli (priv_ctx I) ! j)) < sint (mat_entry mat r c)"
  defines "q \<equiv> int (unat (sc_key_moduli (priv_ctx I) ! j))" and "w \<equiv> snd (ej_shape J)" and "N \<equiv> priv_poly_degree I"
  shows "block_row_times N pts (ej_num_col_blks J) w rblk j h xs (s * w + w - 1) mod q
    = (\<Sum>c<mv_ncols mat. sint (mat_entry mat r c) * h (xs ! c)) mod q"
proof -
  let ?n = "fst (ej_shape J)" and ?q = "sc_key_moduli (priv_ctx I) ! j" and ?rows = "cell_rows I J rblk" and ?m = "ej_num_col_blks J"
  let ?g = "\<lambda>x. int (unat (CenteralizeAt_entry (sr_arith (priv_rt I)) 64 ?q x))"
  have ok: "lib_ok (priv_seal_rt I)" "mat_wf mat" "0 < w" "?n * w \<le> N" "mv_ncols mat + w \<le> 2 ^ 64" "?m = CeilDiv (mv_ncols mat) w"
    using J(1) by (simp_all add: job_ok_def w_def N_def)
  have "\<exists>old buf. length old = N \<and> length buf = N \<and> pt_data (pts ! (rblk * ?m + cblk)) = weight_data I buf \<and>
      encode_block mat ?n w ?rows cblk old = Inr buf" if "cblk < ?m" for cblk
    using pts at(1) that by (force simp: cells_hold_def cell_holds_def cell_index_def w_def N_def)
  then obtain old buf where b: "\<And>cblk. cblk < ?m \<Longrightarrow> length (old cblk) = N \<and> length (buf cblk) = N \<and>
      pt_data (pts ! (rblk * ?m + cblk)) = weight_data I (buf cblk) \<and> encode_block mat ?n w ?rows cblk (old cblk) = Inr (buf cblk)"
    by metis
  have "s * w + w \<le> N" using slot_in_range [OF at(2), of w] ok(4) by linarith
  then have last: "s * w + w - 1 < N" using ok(3) by linarith
  have "limb N (pt_data (pts ! (rblk * ?m + cblk))) j = weight_limb I (buf cblk) j" if "cblk < ?m" for cblk
    using limb_weight_data [OF j, of "buf cblk"] b [OF that] by simp
  then have "block_row_times N pts ?m w rblk j h xs (s * w + w - 1)
    = (\<Sum>cblk<?m. negacyclic N (\<lambda>i. ?g (buf cblk ! i)) (poly_of h (subvectors w xs ! cblk)) (s * w + w - 1))"
    unfolding block_row_times_def using b by (intro sum.cong refl negacyclic_cong [OF last]) (simp add: weight_limb_def J(2))
  also have "\<dots> = (\<Sum>c<mv_ncols mat. ?g (mat_entry mat (?rows ! s) c) * h (xs ! c))"
    unfolding ok(6) using b at by (intro encoded_dot_product_lemma [OF ok(2) xs ok(3,5,4), where old = old]) (simp_all add: ok(6))
  also have "\<dots> = (\<Sum>c<mv_ncols mat. (sint (mat_entry mat r c) mod q) * h (xs ! c))"
  proof (rule sum.cong [OF refl])
    fix c
    assume "c \<in> {..<mv_ncols mat}"
    moreover have "valid_modulus ?q" using lib_okD(3) [OF ok(1)] j by simp
    ultimately have "?g (mat_entry mat r c) = sint (mat_entry mat r c) mod q"
      using CenteralizeAt_entry_signed [OF lib_okD(1) [OF ok(1)], of ?q "mat_entry mat r c"] entries by (simp add: q_def)
    then show "?g (mat_entry mat (?rows ! s) c) * h (xs ! c) = (sint (mat_entry mat r c) mod q) * h (xs ! c)"
      by (simp only: at(3))
  qed
  finally show ?thesis by (simp only: dot_mod_cong)
qed

lemma encode_matrix_lemma:
  assumes "encode_ready rt I mat K" "NextPow2 (mv_nrows mat) = 2 ^ k" "GetSubmatrixShape (priv_config I) (2 ^ K) = Inr (n, w)"
    and "\<forall>q \<in> set (sc_key_moduli (priv_ctx I)). \<forall>r < mv_nrows mat. \<forall>c < mv_ncols mat. - int (unat q) < sint (mat_entry mat r c)"
  shows "\<exists>e pts. e < k \<and> n = 2 ^ e \<and> w = 2 ^ (K - e) \<and> encode_matrix rt I mat (n, w) = Inr pts \<and>
    length pts = 2 ^ (k - e) * CeilDiv (mv_ncols mat) w \<and> k \<le> K \<and> e \<le> K \<and>
    (\<forall>pt \<in> set pts. length (pt_data pt) = length (sc_key_moduli (priv_ctx I)) * 2 ^ K) \<and>
    (\<forall>r < mv_nrows mat. \<exists>rblk < 2 ^ (k - e). \<exists>s < n. slot_row k e rblk s = r \<and>
      (\<forall>j < length (sc_key_moduli (priv_ctx I)). \<forall>xs h. length xs = mv_ncols mat \<longrightarrow>
        block_row_times (2 ^ K) pts (CeilDiv (mv_ncols mat) w) w rblk j h xs (s * w + w - 1) mod int (unat (sc_key_moduli (priv_ctx I) ! j))
        = (\<Sum>c<mv_ncols mat. sint (mat_entry mat r c) * h (xs ! c)) mod int (unat (sc_key_moduli (priv_ctx I) ! j))))"
proof -
  have R: "lib_ok (priv_seal_rt I)" "priv_poly_degree I = 2 ^ K" "mat_wf mat" "2 \<le> mv_nrows mat" "mv_nrows mat \<le> 2 ^ K"
    "0 < mv_ncols mat" "mv_ncols mat + 2 ^ K \<le> 2 ^ 64" "0 < thread_pool_size rt" "2 ^ K + thread_pool_size rt \<le> 2 ^ 64"
    and cfg: "priv_config I = \<lparr>mi_is_transposed = False, mi_base_mod_nbits = 64, mi_nrows = mv_nrows mat, mi_ncols = mv_ncols mat\<rparr>"
    using assms(1) by (simp_all add: encode_ready_def)
  define e where "e = shape_exponent (2 ^ K) (mv_nrows mat) (mv_ncols mat)"
  have nw: "n = 2 ^ e" "w = 2 ^ (K - e)" "e \<le> K"
    using GetSubmatrixShape_closed [of "priv_config I" K] assms(3) R(4-6)
    by (simp_all add: cfg ExpectMatVecOutputLen_def ExpectMatVecInputLen_def flip: e_def)
  have "e < k" unfolding e_def by (rule shape_exponent_rows [OF R(4-6) assms(2)])
  have "(2 :: nat) ^ k \<le> 2 ^ K" using NextPow2_mono_pow2 [of "mv_nrows mat" K] assms(2) R(4,5) by simp
  then have "k \<le> K" by simp
  have "(2 :: nat) ^ K < 2 ^ 64" using R(6,7) by linarith
  then have "K < 64" by (rule power_less_imp_less_exp [rotated]) simp
  let ?m = "CeilDiv (mv_ncols mat) w"
  define J where "J = \<lparr>ej_log2_nrows = k - 1, ej_nrows = 2 ^ k, ej_shape = (2 ^ e, w), ej_num_row_blks = 2 ^ (k - e), ej_num_col_blks = ?m\<rparr>"
  have job: "ecd_setup mat (n, w) = Inr J"
    using ecd_setup_closed [OF assms(2) \<open>e < k\<close>] \<open>k \<le> K\<close> \<open>K < 64\<close> by (simp add: J_def nw(1))
  have sel: "ej_num_row_blks J = 2 ^ (k - e)" "ej_num_col_blks J = ?m" "ej_shape J = (n, w)" by (simp_all add: J_def nw(1))
  have "w \<le> 2 ^ K" by (simp add: nw)
  then have "mv_ncols mat + w \<le> 2 ^ 64" using R(7) by linarith
  moreover have "n * w = 2 ^ K" using nw by (simp flip: power_add)
  ultimately have ok: "job_ok I mat J"
    using R(1-3) nw(2) by (simp add: job_ok_def sel cfg)
  have "(2 :: nat) ^ (k - e) \<le> 2 ^ K" using \<open>k \<le> K\<close> by (intro power_increasing) simp_all
  then have "ej_num_row_blks J + thread_pool_size rt \<le> 2 ^ 64" using R(9) by (simp only: sel)
  from encode_matrix_cells [OF ok job R(8) this] obtain pts where pts: "encode_matrix rt I mat (n, w) = Inr pts"
      "length pts = 2 ^ (k - e) * ?m" "cells_hold I mat J ({..<ej_num_row_blks J} \<times> {..<ej_num_col_blks J}) pts"
    unfolding sel by blast
  have sizes: "\<forall>pt \<in> set pts. length (pt_data pt) = length (sc_key_moduli (priv_ctx I)) * 2 ^ K"
  proof
    fix pt
    assume "pt \<in> set pts"
    then obtain i where i: "i < 2 ^ (k - e) * ?m" "pt = pts ! i" using pts(2) by (metis in_set_conv_nth)
    then have "0 < ?m" by (cases "?m") simp_all
    then have "i mod ?m < ?m" "i div ?m < 2 ^ (k - e)" using i(1) by (simp_all add: div_less_iff_less_mult)
    then have "(i div ?m, i mod ?m) \<in> {..<2 ^ (k - e)} \<times> {..<?m}" by simp
    from bspec [OF pts(3) [unfolded cells_hold_def sel] this] have "cell_holds I mat J (i div ?m, i mod ?m) (pts ! i)"
      unfolding cell_index_def sel fst_conv snd_conv div_mult_mod_eq .
    then show "length (pt_data pt) = length (sc_key_moduli (priv_ctx I)) * 2 ^ K"
      using i(2) R(2) by (auto simp: cell_holds_def length_weight_data)
  qed
  have rows: "cell_rows I J rblk ! s = slot_row k e rblk s" if "s < n" for rblk s
    using bit_reversed_rows_nth [OF lib_okD(1) [OF R(1)] \<open>e < k\<close>] that by (simp add: cell_rows_def J_def nw(1))
  have place: "\<exists>rblk < 2 ^ (k - e). \<exists>s < n. slot_row k e rblk s = r" if "r < mv_nrows mat" for r
  proof -
    have "0 < mv_nrows mat" using R(4) by simp
    then have "mv_nrows mat \<le> 2 ^ k" using NextPow2_power [of "mv_nrows mat"] assms(2) by metis
    with that have "r \<in> (\<lambda>(rblk, i). slot_row k e rblk i) ` ({..<2 ^ (k - e)} \<times> {..<2 ^ e})"
      using slot_row_bij_lemma [OF \<open>e < k\<close>] by (simp add: bij_betw_def)
    then show ?thesis unfolding nw(1) by auto
  qed
  have dot: "block_row_times (2 ^ K) pts ?m w rblk j h xs (s * w + w - 1) mod int (unat (sc_key_moduli (priv_ctx I) ! j))
      = (\<Sum>c<mv_ncols mat. sint (mat_entry mat r c) * h (xs ! c)) mod int (unat (sc_key_moduli (priv_ctx I) ! j))"
    if "r < mv_nrows mat" "rblk < 2 ^ (k - e)" "s < n" "slot_row k e rblk s = r"
      "j < length (sc_key_moduli (priv_ctx I))" "length xs = mv_ncols mat" for r rblk s j xs h
  proof -
    have "\<forall>c < mv_ncols mat. - int (unat (sc_key_moduli (priv_ctx I) ! j)) < sint (mat_entry mat r c)"
      using assms(4) that(1,5) by simp
    then show ?thesis
      using block_row_product [OF ok _ that(6) _ _ _ that(1) pts(3) that(5), of rblk s h] that rows
      by (simp add: sel R(2) cfg)
  qed
  show ?thesis
    by (rule exI [of _ e], rule exI [of _ pts]) (use \<open>e < k\<close> \<open>k \<le> K\<close> nw pts(1,2) sizes place dot in blast)
qed

text \<open>
  C6. The encoder of \<open>MatVec\<close> lays out the whole matrix: for every non-transposed matrix with 2 to \<open>N\<close> rows whose
  entries lie above \<open>-q\<close> as signed numbers, and for every number of threads, the serial encoder succeeds with one
  plaintext per block, and every row \<open>r\<close> of the matrix has a row block and a slot, which no other row has, such that
  the plaintexts of that row block times the subvectors of any vector modulo \<open>X ^ N + 1\<close> add up, in the last
  coefficient of the slot, to the dot product of row \<open>r\<close> with the vector modulo each prime of the key level.
\<close>

theorem encode_matrix_rows:
  assumes "encode_ready rt I mat K" "NextPow2 (mv_nrows mat) = 2 ^ k" "GetSubmatrixShape (priv_config I) (2 ^ K) = Inr (n, w)"
    and "\<forall>q \<in> set (sc_key_moduli (priv_ctx I)). \<forall>r < mv_nrows mat. \<forall>c < mv_ncols mat. - int (unat q) < sint (mat_entry mat r c)"
  shows "\<exists>e pts. e < k \<and> n = 2 ^ e \<and> w = 2 ^ (K - e) \<and> encode_matrix rt I mat (n, w) = Inr pts \<and>
    length pts = 2 ^ (k - e) * CeilDiv (mv_ncols mat) w \<and>
    (\<forall>r < mv_nrows mat. \<exists>rblk < 2 ^ (k - e). \<exists>s < n. slot_row k e rblk s = r \<and>
      (\<forall>j < length (sc_key_moduli (priv_ctx I)). \<forall>xs h. length xs = mv_ncols mat \<longrightarrow>
        block_row_times (2 ^ K) pts (CeilDiv (mv_ncols mat) w) w rblk j h xs (s * w + w - 1) mod int (unat (sc_key_moduli (priv_ctx I) ! j))
        = (\<Sum>c<mv_ncols mat. sint (mat_entry mat r c) * h (xs ! c)) mod int (unat (sc_key_moduli (priv_ctx I) ! j))))"
  using encode_matrix_lemma [OF assms] by blast

theorem encode_matrix_rows_witness:
  "\<exists>rt pts t. encode_matrix rt (priv_ref 64) two_by_two (1, 2) = Inr pts \<and> length pts = 2 \<and>
    block_row_times 2 pts 1 2 t 0 uint [5, 7] 1 mod 17314086913 = 3 * 5 + 4 * 7"
proof -
  obtain rt where rt: "thread_pool_size rt = 2"
    using MVPContext_new_ok [OF lib_ok_ref, of "zero_ct (parms_id 2) 2" 2]
    by (auto simp: thread_pool_size_def numeral_2_eq_2)
  note ref = priv_ref_sel ref_moduli kModulus_values
  have wf: "mat_wf two_by_two" by (simp add: two_by_two_def mat_wf_def)
  have ready: "encode_ready rt (priv_ref 64) two_by_two 1"
    using lib_ok_ref wf by (simp add: encode_ready_def priv_poly_degree_def ref rt two_by_two_def) (simp add: priv_ref_def)
  have two: "NextPow2 (mv_nrows two_by_two) = 2 ^ 1" using NextPow2_pow2 [of 1] by (simp add: two_by_two_def)
  have "shape_exponent (2 ^ 1) 2 2 = 0" by (rule shape_exponent_wide) simp_all
  then have shape: "GetSubmatrixShape (priv_config (priv_ref 64)) (2 ^ 1) = Inr (1, 2)"
    using GetSubmatrixShape_closed(1) [of "priv_config (priv_ref 64)" 1]
    by (simp add: ref ExpectMatVecOutputLen_def ExpectMatVecInputLen_def)
  have small: "\<forall>q \<in> set (sc_key_moduli (priv_ctx (priv_ref 64))). \<forall>r < mv_nrows two_by_two. \<forall>c < mv_ncols two_by_two.
      - int (unat q) < sint (mat_entry two_by_two r c)"
    by (simp add: ref two_by_two_def mat_entry_def less_2_cases_iff all_conj_distrib)
  have one: "CeilDiv (mv_ncols two_by_two) 2 = 1" by (simp add: two_by_two_def CeilDiv_eq)
  obtain e pts where p: "e < 1" "encode_matrix rt (priv_ref 64) two_by_two (1, 2) = Inr pts" "length pts = 2 ^ (1 - e) * 1"
    and rows: "\<forall>r < mv_nrows two_by_two. \<exists>rblk < 2 ^ (1 - e). \<exists>s < 1. slot_row 1 e rblk s = r \<and>
      (\<forall>j < length (sc_key_moduli (priv_ctx (priv_ref 64))). \<forall>xs h. length xs = mv_ncols two_by_two \<longrightarrow>
        block_row_times (2 ^ 1) pts 1 2 rblk j h xs (s * 2 + 2 - 1) mod int (unat (sc_key_moduli (priv_ctx (priv_ref 64)) ! j))
        = (\<Sum>c<mv_ncols two_by_two. sint (mat_entry two_by_two r c) * h (xs ! c)) mod int (unat (sc_key_moduli (priv_ctx (priv_ref 64)) ! j)))"
    using encode_matrix_rows [OF ready two shape small] unfolding one by blast
  have "1 < mv_nrows two_by_two" by (simp add: two_by_two_def)
  from rows [rule_format, OF this] obtain rblk s where s: "s < 1" and
    r: "\<forall>j < length (sc_key_moduli (priv_ctx (priv_ref 64))). \<forall>xs h. length xs = mv_ncols two_by_two \<longrightarrow>
        block_row_times (2 ^ 1) pts 1 2 rblk j h xs (s * 2 + 2 - 1) mod int (unat (sc_key_moduli (priv_ctx (priv_ref 64)) ! j))
        = (\<Sum>c<mv_ncols two_by_two. sint (mat_entry two_by_two 1 c) * h (xs ! c)) mod int (unat (sc_key_moduli (priv_ctx (priv_ref 64)) ! j))"
    by blast
  have len: "0 < length (sc_key_moduli (priv_ctx (priv_ref 64)))" "length [5, 7 :: u64] = mv_ncols two_by_two"
    by (simp_all add: ref two_by_two_def)
  have "block_row_times 2 pts 1 2 rblk 0 uint [5, 7] 1 mod 17314086913
      = (\<Sum>c<mv_ncols two_by_two. sint (mat_entry two_by_two 1 c) * uint ([5, 7 :: u64] ! c)) mod 17314086913"
    using r [rule_format, OF len, of uint] s by (simp add: ref)
  also have "\<dots> = 3 * 5 + 4 * 7" 
  proof -
    have "{..<2 :: nat} = {0, 1}" by auto
    then show ?thesis by (simp add: two_by_two_def mat_entry_def)
  qed
  finally show ?thesis using p by (intro exI [of _ rt] exI [of _ pts] exI [of _ rblk]) simp
qed

end
