(* ===== verification/HandOver.thy ===== *)
theory HandOver
  imports EncodeCorrect
begin

text \<open>
  \<open>MatVec\<close> as a whole up to the card and behind it: on well-formed input every guard lets the call pass, the card is
  run once with the ciphertexts of the vector and the plaintexts of the matrix in the order it expects, and these
  plaintexts hold the dot products; the reply of the card is what is finished and returned.
\<close>

section \<open>The order of the blocks\<close>

text \<open>The position of the block of column \<open>c\<close> in the \<open>u\<close>-th row of blocks: two rows share \<open>2 n\<close> positions.\<close>

definition card_position :: "nat \<Rightarrow> nat \<Rightarrow> nat \<Rightarrow> nat" where
  "card_position ncb u c = 2 * ncb * (u div 2) + 2 * c + u mod 2"

definition card_order :: "nat \<Rightarrow> nat \<Rightarrow> 'a list \<Rightarrow> 'a list" where
  "card_order l ncb xs =
     map (\<lambda>p. xs ! (rev_bits l (2 * (p div (2 * ncb)) + p mod (2 * ncb) mod 2) * ncb + p mod (2 * ncb) div 2)) [0..<length xs]"

lemma length_card_order [simp]: "length (card_order l ncb xs) = length xs"
  by (simp add: card_order_def)

lemma set_card_order:
  assumes "0 < ncb" "length xs = 2 ^ l * ncb"
  shows "set (card_order l ncb xs) \<subseteq> set xs"
proof
  fix x
  assume "x \<in> set (card_order l ncb xs)"
  then obtain y r where x: "x = xs ! (rev_bits l y * ncb + r mod (2 * ncb) div 2)" by (auto simp: card_order_def)
  have "r mod (2 * ncb) < 2 * ncb" using assms(1) by simp
  then have "r mod (2 * ncb) div 2 < ncb" by linarith
  then show "x \<in> set xs" using index_below [OF rev_bits_less] assms(2) x by (metis nth_mem)
qed

lemma arrange_pointers_card_order:
  assumes "seal_arith_ok S" "0 < ncb" "0 < l" "length xs = 2 ^ l * ncb"
  shows "arrange_pointers S (2 ^ l) ncb xs = Inr (map Some (card_order l ncb xs))"
proof -
  obtain h where h: "arrange_pointers S (2 ^ l) ncb xs = Inr h" "length h = length xs"
    and at: "\<forall>q < 2 ^ (l - 1). \<forall>c < ncb. \<forall>b < 2. h ! (2 * ncb * q + 2 * c + b) = Some (xs ! (rev_bits l (2 * q + b) * ncb + c))"
    using arrange_pointers_lemma [OF assms] by (auto simp: arranged_def)
  have "h ! p = Some (card_order l ncb xs ! p)" if p: "p < length xs" for p
  proof -
    let ?q = "p div (2 * ncb)" and ?r = "p mod (2 * ncb)"
    have half: "2 * 2 ^ (l - 1) = (2 :: nat) ^ l" using assms(3) by (simp flip: power_Suc)
    have "2 ^ (l - 1) * (2 * ncb) = 2 ^ l * ncb" unfolding half [symmetric] by simp
    then have "p < 2 ^ (l - 1) * (2 * ncb)" using p assms(4) by (simp only:)
    then have q: "?q < 2 ^ (l - 1)" using assms(2) by (simp add: div_less_iff_less_mult)
    have "?r < 2 * ncb" using assms(2) by simp
    then have c: "?r div 2 < ncb" by (simp add: div_less_iff_less_mult mult.commute)
    have "2 * ncb * ?q + 2 * (?r div 2) + ?r mod 2 = p"
      using mult_div_mod_eq [of "2 * ncb" p] mult_div_mod_eq [of 2 ?r] by linarith
    then show ?thesis using at [rule_format, OF q c, of "?r mod 2"] p by (simp add: card_order_def)
  qed
  then have "h = map Some (card_order l ncb xs)" using h(2) by (intro nth_equalityI) simp_all
  then show ?thesis using h(1) by simp
qed

lemma card_order_at:
  assumes "u < 2 ^ l" "c < ncb" "0 < l" "length xs = 2 ^ l * ncb"
  shows "card_position ncb u c < length xs"
    and "card_order l ncb xs ! card_position ncb u c = xs ! (rev_bits l u * ncb + c)"
proof -
  let ?p = "card_position ncb u c" and ?r = "2 * c + u mod 2"
  have r: "?r < 2 * ncb" using assms(2) by linarith
  have half: "2 * 2 ^ (l - 1) = (2 :: nat) ^ l" using assms(3) by (simp flip: power_Suc)
  have "u div 2 < 2 ^ (l - 1)" using assms(1) half by linarith
  then have "(u div 2) * (2 * ncb) + ?r < 2 ^ (l - 1) * (2 * ncb)" using index_below r by blast
  also have "\<dots> = 2 ^ l * ncb" unfolding half [symmetric] by simp
  finally show p: "?p < length xs" using assms(4) by (simp add: card_position_def mult.commute)
  have "?p = (u div 2) * (2 * ncb) + ?r" by (simp add: card_position_def mult.commute)
  then have "?p div (2 * ncb) = u div 2" "?p mod (2 * ncb) = ?r" using r by simp_all
  then show "card_order l ncb xs ! ?p = xs ! (rev_bits l u * ncb + c)"
    using p by (simp add: card_order_def)
qed

lemma rev_bits_onto:
  assumes "y < 2 ^ l"
  obtains u where "u < 2 ^ l" "rev_bits l u = y"
proof -
  have "rev_bits l ` {..<2 ^ l} = {..<2 ^ l}"
    using rev_bits_less rev_bits_inj by (intro endo_inj_surj) (auto simp: inj_on_def)
  then show ?thesis using assms that by (metis imageE lessThan_iff)
qed

lemma all_pointers_Some: "all_pointers (map Some xs) = Inr xs"
  by (induction xs) (simp_all add: all_pointers_def)

section \<open>What the card is given\<close>

text \<open>The ciphertexts of a vector as they come from the wire: three moduli, in coefficient form, of the full degree.\<close>

definition wire_ct :: "seal_lib \<Rightarrow> rlwe_ct \<Rightarrow> bool" where
  "wire_ct L ct \<longleftrightarrow> \<not> ct_is_ntt_form ct \<and> ct_coeff_modulus_size ct = kNumModulus \<and> ct_degree ct = kPolyDegree \<and>
     length (ct_polys ct) = 2 \<and> sl_ct_metadata_valid_pure L ct"

text \<open>What is made of the reply: the status, the two polynomials, and the last check.\<close>

definition card_reply :: "MVPPrivImpl \<Rightarrow> dev_op list \<times> int \<times> u64 list \<Rightarrow> rlwe_ct outcome" where
  "card_reply I reply =
     (case reply of (ops, ret, h_result) \<Rightarrow>
        let out = (resized_ct (priv_rt I))\<lparr>ct_polys := [take 8192 h_result, drop 8192 h_result], ct_is_ntt_form := False\<rparr>
        in if ret \<noteq> 0 then Inl (Failed INTERNAL ''KernelRun failed'')
           else if \<not> sl_ct_data_valid (priv_seal_rt I) out then Inl (Failed INTERNAL ''FPGA return invalid ct'')
           else Inr out)"

text \<open>The dimensions for which the encoder was shown correct fit the guards of \<open>MatVecCore\<close>.\<close>

definition handover_ready :: "MVPContext \<Rightarrow> MVPPrivImpl \<Rightarrow> MatView \<Rightarrow> StrBufView \<Rightarrow> rlwe_ct list \<Rightarrow> bool" where
  "handover_ready rt I mat vec_share1 ct_vec \<longleftrightarrow>
     encode_ready rt I mat kLogPolyDegree \<and> priv_is_proper_config I \<and> mv_ncols mat \<le> kMaxNumCols \<and>
     length (sc_key_moduli (priv_ctx I)) = kNumModulus \<and>
     DecodeSEALObjects (priv_seal_rt I) vec_share1 False = Inr ct_vec \<and> (\<forall>ct \<in> set ct_vec. wire_ct (priv_seal_rt I) ct) \<and>
     length vec_share1 = CeilDiv (mv_ncols mat) kPolyDegree"

lemma MatVecCore_runs_card:
  fixes k e :: nat
  assumes cfg: "priv_poly_degree I = 4096" "seal_arith_ok (sr_arith (priv_rt I))" "length (sc_first_moduli (priv_ctx I)) = 2"
    and shape: "GetSubmatrixShape (priv_config I) 4096 = Inr (2 ^ e, w)" "e < k" "k \<le> 12" "NextPow2 (mi_nrows (priv_config I)) = 2 ^ k" "2 ^ e \<le> mi_nrows (priv_config I)"
    and cols: "0 < ncb" "ncb \<le> 4" "CeilDiv (mi_ncols (priv_config I)) w = ncb" "0 < mi_ncols (priv_config I)" "mi_ncols (priv_config I) \<le> 16384" "w \<le> 16384"
    and vec: "length ct_vec = ncb" "\<forall>ct \<in> set ct_vec. wire_ct (priv_seal_rt I) ct"
    and mat: "length pts = 2 ^ (k - e) * ncb" "\<forall>pt \<in> set pts. length (pt_data pt) = 12288"
  shows "MatVecCore E b I ct_vec pts =
    obind (KernelRun E (2 ^ k) (max (mi_ncols (priv_config I)) w) (map (concat \<circ> ct_polys) ct_vec) 196608
      (map pt_data (card_order (k - e) ncb pts)) 98304 b (replicate 16384 0)) (card_reply I)"
proof -
  let ?c = "priv_config I"
  have "(2 :: nat) ^ k = 2 ^ (k - e) * 2 ^ e" using shape(2) by (simp flip: power_add)
  moreover have "(2 :: nat) ^ e \<le> 2 ^ 12" "(2 :: nat) ^ k \<le> 2 ^ 12" using shape(2,3) by (intro power_increasing; simp)+
  ultimately have blks: "CeilDiv (2 ^ k) (2 ^ e) = 2 ^ (k - e)" using CeilDiv_mult [of "2 ^ e" "2 ^ (k - e)"] by simp
  have "(2 :: nat) ^ 1 \<le> 2 ^ (k - e)" using shape(2) by (intro power_increasing) simp_all
  then have "2 * 1 \<le> 2 ^ (k - e) * ncb" using cols(1) by (intro mult_le_mono) simp_all
  then have many: "1 < length pts" using mat(1) by simp
  have "omap (\<lambda>ct. requires (ct_is_ntt_form ct = (MVP_VERSION \<noteq> ''1.2.0'')) (Failed INVALID_ARGUMENT ''ct.is_ntt_form() mismatch'')
       (requires (ct_coeff_modulus_size ct = kNumModulus) (Failed INVALID_ARGUMENT ''ct.coeff_modulus_size() mismatch'') (Inr ()))) ct_vec
      = Inr (map (\<lambda>_. ()) ct_vec)"
    using vec(2) by (intro omap_all_Inr) (simp add: wire_ct_def MVP_VERSION_def)
  then have guards: "core_guards I ct_vec pts = Inr (2 ^ e, w, 2 ^ (k - e), ncb)"
    using cfg(1) shape cols(3) vec(1) mat(1) blks many by (simp add: core_guards_def)
  have arr: "arrange_pointers (sr_arith (priv_rt I)) (2 ^ (k - e)) ncb pts = Inr (map Some (card_order (k - e) ncb pts))"
    using arrange_pointers_card_order [OF cfg(2) cols(1) _ mat(1)] shape(2) by simp
  have ptr: "all_pointers (map (map_option pt_data) (map Some (card_order (k - e) ncb pts))) = Inr (map pt_data (card_order (k - e) ncb pts))"
    using all_pointers_Some [of "map pt_data (card_order (k - e) ncb pts)"] by (simp add: comp_def)
  have "set (map (\<lambda>pt. length (pt_data pt) * 8) pts) = {98304}" using mat(2) many by (cases pts) (auto simp: image_iff)
  then have chunk: "Max (insert 0 (set (map (\<lambda>pt. length (pt_data pt) * 8) pts))) = 98304" by simp
  have last: "ct_vec \<noteq> []" "wire_ct (priv_seal_rt I) (last ct_vec)" using vec cols(1) by auto
  have rows: "NextPow2 (max (mi_nrows ?c) (2 ^ e)) = 2 ^ k" "max (mi_ncols ?c) w \<le> 16384" "1 \<le> max (mi_ncols ?c) w"
    using shape(4,5) cols(4-6) by (simp_all add: max_def)
  have buf: "concat (ct_polys (resized_ct (priv_rt I))) = replicate 16384 0"
    using cfg(1,3) by (simp add: resized_ct_def priv_poly_degree_def Let_def flip: replicate_add)
  have reply: "(\<lambda>(ops, ret, h_result).
      let out = (resized_ct (priv_rt I))\<lparr>ct_polys := [take 8192 h_result, drop 8192 h_result], ct_is_ntt_form := False\<rparr>
      in if ret \<noteq> 0 then Inl (Failed INTERNAL ''KernelRun failed'')
         else if \<not> sl_ct_data_valid (priv_seal_rt I) out then Inl (Failed INTERNAL ''FPGA return invalid ct'') else Inr out) = card_reply I"
    by (rule ext) (simp add: card_reply_def)
  have vchunk: "(if ct_vec = [] then 0 else let ct = last ct_vec in length (ct_polys ct) * ct_degree ct * ct_coeff_modulus_size ct * 8) = 196608"
    using last by (simp add: wire_ct_def kNumModulus_def kPolyDegree_def)
  have bounds: "1 \<le> ncb \<and> ncb \<le> 4" "IsTwoPower (2 ^ k)" "1 \<le> max (mi_ncols ?c) w \<and> max (mi_ncols ?c) w \<le> 16384"
    using cols(1,2) rows(2,3) by simp_all
  have half: "16384 div 2 = (8192 :: nat)" by simp
  show ?thesis
    unfolding MatVecCore_def Let_def guards obind_Inr prod.case arr ptr chunk vchunk [unfolded Let_def] rows(1) buf length_replicate
      half reply [symmetric]
    using bounds by (simp add: Let_def)
qed

section \<open>The whole call\<close>

text \<open>
  A row of the blocks handed to the card times a vector, coefficient \<open>t\<close>, read at the \<open>j\<close>-th modulus.
\<close>

definition handed_row_times ::
    "u64 list list \<Rightarrow> nat \<Rightarrow> nat \<Rightarrow> nat \<Rightarrow> nat \<Rightarrow> (u64 \<Rightarrow> int) \<Rightarrow> u64 list \<Rightarrow> nat \<Rightarrow> int" where
  "handed_row_times h_mat ncb w u j h xs t =
     (\<Sum>c<ncb. negacyclic kPolyDegree (\<lambda>i. int (unat (limb kPolyDegree (h_mat ! card_position ncb u c) j ! i)))
        (poly_of h (subvectors w xs ! c)) t)"

lemma matvec_without_share:
  assumes ok: "priv_is_proper_config I" "mv_ncols mat = mi_ncols (priv_config I)" "mv_nrows mat = mi_nrows (priv_config I)"
    and shape: "GetSubmatrixShape (priv_config I) (priv_poly_degree I) = Inr (n, w)" "length vec_share1 = CeilDiv (mi_ncols (priv_config I)) w"
    and vec: "DecodeSEALObjects (priv_seal_rt I) vec_share1 False = Inr ct_vec" "\<forall>ct \<in> set ct_vec. sl_ct_metadata_valid_pure (priv_seal_rt I) ct"
    and enc: "encode_matrix rt I mat (n, w) = Inr pts"
  shows "priv_MatVec E b rt I mat None vec_share1 None s =
    (obind (MatVecCore E b I ct_vec pts) (finish_product I None fresh_ptx), None, s)"
proof -
  have "matvec_guards I mat None vec_share1 None = Inr (n, w)" using ok shape by (simp add: matvec_guards_def)
  moreover have "add_shares I None vec_share1 = Inr ct_vec"
    using vec by (simp add: add_shares_def priv_IsUseExtraPrime_def list_all_iff)
  ultimately show ?thesis
    using enc by (simp add: priv_MatVec_def matvec_with_def sample_mask_program_def drop_status_def)
qed

lemma handed_rows:
  assumes "u < 2 ^ l" "0 < l" "length pts = 2 ^ l * ncb"
  shows "handed_row_times (map pt_data (card_order l ncb pts)) ncb w u j h xs t = block_row_times (2 ^ 12) pts ncb w (rev_bits l u) j h xs t"
  unfolding handed_row_times_def block_row_times_def
proof (rule sum.cong [OF refl])
  fix c
  assume "c \<in> {..<ncb}"
  then have "map pt_data (card_order l ncb pts) ! card_position ncb u c = pt_data (pts ! (rev_bits l u * ncb + c))"
    using card_order_at [OF assms(1) _ assms(2,3), of c] by simp
  then show "negacyclic kPolyDegree (\<lambda>i. int (unat (limb kPolyDegree (map pt_data (card_order l ncb pts) ! card_position ncb u c) j ! i)))
      (poly_of h (subvectors w xs ! c)) t
    = negacyclic (2 ^ 12) (\<lambda>i. int (unat (limb (2 ^ 12) (pt_data (pts ! (rev_bits l u * ncb + c))) j ! i))) (poly_of h (subvectors w xs ! c)) t"
    by (simp add: kPolyDegree_def)
qed

text \<open>
  C1. \<open>MatVec\<close> hands the card the dot products: for every matrix with 2 to 4096 rows and up to 16384 columns that
  the encoder was shown correct for, every vector of ciphertexts of the right number and form, every environment and
  every number of threads, the call without masks passes all its guards and runs the card exactly once, with the
  ciphertexts in order and one plaintext per block, none missing, each of the length that is uploaded; the result is what
  the last steps make of the reply. The plaintexts are such that every row \<open>r\<close> of the matrix has a row of blocks and a
  slot of its own in which their products with the subvectors of any vector add up to the dot product of row \<open>r\<close> with the
  vector, modulo each of the three primes.
\<close>

theorem MatVec_hands_over:
  assumes "handover_ready rt I mat vec_share1 ct_vec" "NextPow2 (mv_nrows mat) = 2 ^ k"
    and "GetSubmatrixShape (priv_config I) kPolyDegree = Inr (n, w)"
    and "\<forall>q \<in> set (sc_key_moduli (priv_ctx I)). \<forall>r < mv_nrows mat. \<forall>c < mv_ncols mat. - int (unat q) < sint (mat_entry mat r c)"
  shows "\<exists>e h_mat. e < k \<and> n = 2 ^ e \<and> length h_mat = 2 ^ (k - e) * length ct_vec \<and> (\<forall>h \<in> set h_mat. length h * 8 = 98304) \<and>
    priv_MatVec E b rt I mat None vec_share1 None s =
      (obind (obind (KernelRun E (2 ^ k) (max (mv_ncols mat) w) (map (concat \<circ> ct_polys) ct_vec) 196608 h_mat 98304 b (replicate 16384 0))
         (card_reply I)) (finish_product I None fresh_ptx), None, s) \<and>
    (\<forall>r < mv_nrows mat. \<exists>u < 2 ^ (k - e). \<exists>slot < n. slot_row k e (rev_bits (k - e) u) slot = r \<and>
      (\<forall>j < kNumModulus. \<forall>xs h. length xs = mv_ncols mat \<longrightarrow>
        handed_row_times h_mat (length ct_vec) w u j h xs (slot * w + w - 1) mod int (unat (sc_key_moduli (priv_ctx I) ! j))
        = (\<Sum>c<mv_ncols mat. sint (mat_entry mat r c) * h (xs ! c)) mod int (unat (sc_key_moduli (priv_ctx I) ! j))))"
proof -
  have R: "encode_ready rt I mat 12" "priv_is_proper_config I" "mv_ncols mat \<le> 16384" "length (sc_key_moduli (priv_ctx I)) = 3"
    "DecodeSEALObjects (priv_seal_rt I) vec_share1 False = Inr ct_vec" "\<forall>ct \<in> set ct_vec. wire_ct (priv_seal_rt I) ct"
    "length vec_share1 = CeilDiv (mv_ncols mat) 4096"
    using assms(1) by (simp_all add: handover_ready_def kLogPolyDegree_def kMaxNumCols_def kNumModulus_def kPolyDegree_def)
  have S: "lib_ok (priv_seal_rt I)" "priv_poly_degree I = 2 ^ 12" "mat_wf mat" "2 \<le> mv_nrows mat" "mv_nrows mat \<le> 2 ^ 12" "0 < mv_ncols mat"
    and cfg: "priv_config I = \<lparr>mi_is_transposed = False, mi_base_mod_nbits = 64, mi_nrows = mv_nrows mat, mi_ncols = mv_ncols mat\<rparr>"
    using R(1) by (simp_all add: encode_ready_def)
  have shape: "GetSubmatrixShape (priv_config I) (2 ^ 12) = Inr (n, w)" using assms(3) by (simp add: kPolyDegree_def)
  let ?ncb = "CeilDiv (mv_ncols mat) w"
  obtain e pts where e: "e < k" "n = 2 ^ e" "w = 2 ^ (12 - e)" "k \<le> 12" "e \<le> 12"
    and pts: "encode_matrix rt I mat (n, w) = Inr pts" "length pts = 2 ^ (k - e) * ?ncb"
      "\<forall>pt \<in> set pts. length (pt_data pt) = length (sc_key_moduli (priv_ctx I)) * 2 ^ 12"
    and rows: "\<forall>r < mv_nrows mat. \<exists>rblk < 2 ^ (k - e). \<exists>s < n. slot_row k e rblk s = r \<and>
      (\<forall>j < length (sc_key_moduli (priv_ctx I)). \<forall>xs h. length xs = mv_ncols mat \<longrightarrow>
        block_row_times (2 ^ 12) pts ?ncb w rblk j h xs (s * w + w - 1) mod int (unat (sc_key_moduli (priv_ctx I) ! j))
        = (\<Sum>c<mv_ncols mat. sint (mat_entry mat r c) * h (xs ! c)) mod int (unat (sc_key_moduli (priv_ctx I) ! j)))"
    using encode_matrix_lemma [OF R(1) assms(2) shape assms(4)] by blast
  have "w = 2 ^ (12 - shape_exponent (2 ^ 12) (mv_nrows mat) (mv_ncols mat))"
    using GetSubmatrixShape_closed(1) [of "priv_config I" 12] shape S(4-6)
    by (simp add: cfg ExpectMatVecOutputLen_def ExpectMatVecInputLen_def)
  then have "?ncb = CeilDiv (mv_ncols mat) (2 ^ 12)"
    using num_ciphertexts [of "mv_nrows mat" 12 "mv_ncols mat"] S(4-6) R(3) by simp
  moreover have "CeilDiv (mv_ncols mat) (2 ^ 12) = (mv_ncols mat + 4095) div 4096" using R(3) by (simp add: CeilDiv_eq)
  ultimately have ncb: "?ncb = CeilDiv (mv_ncols mat) 4096" "0 < ?ncb" "?ncb \<le> 4" using S(6) R(3) by (simp, linarith, linarith)
  have len: "length ct_vec = ?ncb" using omap_length [OF R(5) [unfolded DecodeSEALObjects_def]] R(7) ncb(1) by simp
  have rows_n: "2 ^ e \<le> mv_nrows mat"
  proof -
    have "2 ^ k < 2 * mv_nrows mat" using NextPow2_power [of "mv_nrows mat"] assms(2) S(4) by (metis gr0I not_numeral_le_zero)
    moreover have "2 ^ Suc e \<le> (2 :: nat) ^ k" using e(1) by (intro power_increasing) simp_all
    ultimately show ?thesis by simp
  qed
  have key: "length (sc_first_moduli (priv_ctx I)) = 2"
    using arg_cong [OF lib_okD(5) [OF S(1)], of length] R(4) by simp
  let ?h = "map pt_data (card_order (k - e) ?ncb pts)"
  have core: "MatVecCore E b I ct_vec pts = obind (KernelRun E (2 ^ k) (max (mv_ncols mat) w) (map (concat \<circ> ct_polys) ct_vec) 196608 ?h 98304 b (replicate 16384 0)) (card_reply I)"
  proof -
    have "priv_poly_degree I = 4096" "\<forall>pt \<in> set pts. length (pt_data pt) = 12288" "w \<le> 16384"
      using S(2) pts(3) R(4) e(3) power_increasing [of "12 - e" 12 "2 :: nat"] by simp_all
    then show ?thesis
      using MatVecCore_runs_card [of I e w k ?ncb ct_vec pts E b] lib_okD(1) [OF S(1)] key shape e(1,2,4) assms(2) rows_n ncb S(6) R(3,6) len pts(2)
      by (simp add: cfg)
  qed
  have run: "priv_MatVec E b rt I mat None vec_share1 None s = (obind (MatVecCore E b I ct_vec pts) (finish_product I None fresh_ptx), None, s)"
    using R(2,5-7) shape S(2) pts(1) ncb(1) by (intro matvec_without_share) (auto simp: cfg wire_ct_def)
  have sizes: "length ?h = 2 ^ (k - e) * length ct_vec" "\<forall>h \<in> set ?h. length h * 8 = 98304"
    using pts(2,3) R(4) len set_card_order [OF ncb(2) pts(2)] by auto
  have dots: "\<exists>u < 2 ^ (k - e). \<exists>slot < n. slot_row k e (rev_bits (k - e) u) slot = r \<and>
      (\<forall>j < kNumModulus. \<forall>xs h. length xs = mv_ncols mat \<longrightarrow>
        handed_row_times ?h (length ct_vec) w u j h xs (slot * w + w - 1) mod int (unat (sc_key_moduli (priv_ctx I) ! j))
        = (\<Sum>c<mv_ncols mat. sint (mat_entry mat r c) * h (xs ! c)) mod int (unat (sc_key_moduli (priv_ctx I) ! j)))"
    if r: "r < mv_nrows mat" for r
  proof -
    obtain rblk slot where at: "rblk < 2 ^ (k - e)" "slot < n" "slot_row k e rblk slot = r"
      and dot: "\<forall>j < length (sc_key_moduli (priv_ctx I)). \<forall>xs h. length xs = mv_ncols mat \<longrightarrow>
        block_row_times (2 ^ 12) pts ?ncb w rblk j h xs (slot * w + w - 1) mod int (unat (sc_key_moduli (priv_ctx I) ! j))
        = (\<Sum>c<mv_ncols mat. sint (mat_entry mat r c) * h (xs ! c)) mod int (unat (sc_key_moduli (priv_ctx I) ! j))"
      using rows r by blast
    obtain u where u: "u < 2 ^ (k - e)" "rev_bits (k - e) u = rblk" by (rule rev_bits_onto [OF at(1)])
    have "handed_row_times ?h (length ct_vec) w u j h xs t = block_row_times (2 ^ 12) pts ?ncb w rblk j h xs t" for j h xs t
      using handed_rows [OF u(1) _ pts(2)] e(1) u(2) len by simp
    then show ?thesis using u at dot R(4) by (intro exI [of _ u] conjI exI [of _ slot]) (simp_all add: kNumModulus_def)
  qed
  show ?thesis
    by (rule exI [of _ e], rule exI [of _ ?h]) (use e(1,2) sizes run core dots in auto)
qed

text \<open>A library of the full degree that loads a given ciphertext, and a matrix side with it.\<close>

definition wire_ref :: rlwe_ct where
  "wire_ref = \<lparr>ct_parms_id = parms_id 3, ct_is_ntt_form = False, ct_degree = 4096, ct_coeff_modulus_size = 3,
     ct_polys = [replicate 12288 0, replicate 12288 0], ct_scale = 1\<rparr>"

definition priv_4096 :: MVPPrivImpl where
  "priv_4096 = (priv_ref 64)\<lparr>priv_seal_rt := (lib_ref wire_ref)\<lparr>sl_rt := rt_ref\<lparr>sr_ctx := mvp_ctx\<rparr>\<rparr>\<rparr>"

lemma priv_4096_sel:
  "priv_config priv_4096 = \<lparr>mi_is_transposed = False, mi_base_mod_nbits = 64, mi_nrows = 2, mi_ncols = 2\<rparr>"
  "priv_is_proper_config priv_4096" "priv_ctx priv_4096 = mvp_ctx" "priv_poly_degree priv_4096 = 4096"
  "lib_ok (priv_seal_rt priv_4096)" "DecodeSEALObjects (priv_seal_rt priv_4096) [''x''] False = Inr [wire_ref]"
  "wire_ct (priv_seal_rt priv_4096) wire_ref"
  using seal_arith_ok_ref seal_context_ok_mvp
        apply (simp_all add: priv_4096_def priv_ref_def priv_poly_degree_def lib_ok_def DecodeSEALObjects_def wire_ct_def)
  apply (simp_all add: lib_ref_def rt_ref_def mvp_ctx_def kModulus_values wire_ref_def kNumModulus_def kPolyDegree_def)
  done

theorem MatVec_hands_over_witness:
  "\<exists>rt h_mat u. priv_MatVec (env_ref 1 3) 0 rt priv_4096 two_by_two None [''x''] None \<lparr>cp_prng = None, cp_bytes_gen = 0, cp_created = 0\<rparr> =
      (obind (obind (KernelRun (env_ref 1 3) 2 4096 [replicate 24576 0] 196608 h_mat 98304 0 (replicate 16384 0)) (card_reply priv_4096))
         (finish_product priv_4096 None fresh_ptx), None, \<lparr>cp_prng = None, cp_bytes_gen = 0, cp_created = 0\<rparr>) \<and>
    length h_mat = 2 \<and> handed_row_times h_mat 1 4096 u 0 uint [5, 7] 4095 mod 17314086913 = 3 * 5 + 4 * 7"
proof -
  obtain rt where rt: "thread_pool_size rt = 2"
    using MVPContext_new_ok [OF lib_ok_ref, of "zero_ct (parms_id 2) 2" 2]
    by (auto simp: thread_pool_size_def numeral_2_eq_2)
  have two: "NextPow2 (mv_nrows two_by_two) = 2 ^ 1" using NextPow2_pow2 [of 1] by (simp add: two_by_two_def)
  have mods: "sc_key_moduli mvp_ctx = [17314086913, 17180393473, 274886295553]" by (simp add: mvp_ctx_def kModulus_values)
  have "mat_wf two_by_two" by (simp add: two_by_two_def mat_wf_def)
  then have ready: "handover_ready rt priv_4096 two_by_two [''x''] [wire_ref]"
    using priv_4096_sel rt
    by (simp add: handover_ready_def encode_ready_def two_by_two_def mods kLogPolyDegree_def kMaxNumCols_def kNumModulus_def kPolyDegree_def CeilDiv_eq)
  have "NextPow2 2 = 2 ^ 1" "Log2 (2 ^ 12 div min (2 ^ 12) 2) = Inr 11" using NextPow2_pow2 [of 1] Log2_pow2 [of 11] by simp_all
  then have "shape_exponent (2 ^ 12) 2 2 = min 1 11 - 1" by (rule shape_exponent_eq)
  then have shape: "GetSubmatrixShape (priv_config priv_4096) kPolyDegree = Inr (1, 4096)"
    using GetSubmatrixShape_closed(1) [of "priv_config priv_4096" 12]
    by (simp add: priv_4096_sel kPolyDegree_def ExpectMatVecOutputLen_def ExpectMatVecInputLen_def)
  have small: "\<forall>q \<in> set (sc_key_moduli (priv_ctx priv_4096)). \<forall>r < mv_nrows two_by_two. \<forall>c < mv_ncols two_by_two.
      - int (unat q) < sint (mat_entry two_by_two r c)"
    by (simp add: mods priv_4096_sel two_by_two_def mat_entry_def less_2_cases_iff all_conj_distrib)
  have polys: "map (concat \<circ> ct_polys) [wire_ref] = [replicate 24576 0]" by (simp add: wire_ref_def flip: replicate_add)
  obtain e h_mat where h: "e < 1" "length h_mat = 2 ^ (1 - e) * length [wire_ref]"
    and run: "priv_MatVec (env_ref 1 3) 0 rt priv_4096 two_by_two None [''x''] None \<lparr>cp_prng = None, cp_bytes_gen = 0, cp_created = 0\<rparr> =
      (obind (obind (KernelRun (env_ref 1 3) (2 ^ 1) (max (mv_ncols two_by_two) 4096) (map (concat \<circ> ct_polys) [wire_ref]) 196608 h_mat 98304 0
         (replicate 16384 0)) (card_reply priv_4096)) (finish_product priv_4096 None fresh_ptx), None, \<lparr>cp_prng = None, cp_bytes_gen = 0, cp_created = 0\<rparr>)"
    and rows: "\<forall>r < mv_nrows two_by_two. \<exists>u < 2 ^ (1 - e). \<exists>slot < 1. slot_row 1 e (rev_bits (1 - e) u) slot = r \<and>
      (\<forall>j < kNumModulus. \<forall>xs h. length xs = mv_ncols two_by_two \<longrightarrow>
        handed_row_times h_mat (length [wire_ref]) 4096 u j h xs (slot * 4096 + 4096 - 1) mod int (unat (sc_key_moduli (priv_ctx priv_4096) ! j))
        = (\<Sum>c<mv_ncols two_by_two. sint (mat_entry two_by_two r c) * h (xs ! c)) mod int (unat (sc_key_moduli (priv_ctx priv_4096) ! j)))"
    using MatVec_hands_over [OF ready two shape small, of "env_ref 1 3" 0 "\<lparr>cp_prng = None, cp_bytes_gen = 0, cp_created = 0\<rparr>"] by blast
  have "1 < mv_nrows two_by_two" by (simp add: two_by_two_def)
  from rows [rule_format, OF this] obtain u slot where s: "slot < 1" and
    r: "\<forall>j < kNumModulus. \<forall>xs h. length xs = mv_ncols two_by_two \<longrightarrow>
        handed_row_times h_mat (length [wire_ref]) 4096 u j h xs (slot * 4096 + 4096 - 1) mod int (unat (sc_key_moduli (priv_ctx priv_4096) ! j))
        = (\<Sum>c<mv_ncols two_by_two. sint (mat_entry two_by_two 1 c) * h (xs ! c)) mod int (unat (sc_key_moduli (priv_ctx priv_4096) ! j))"
    by blast
  have len: "0 < kNumModulus" "length [5, 7 :: u64] = mv_ncols two_by_two" by (simp_all add: kNumModulus_def two_by_two_def)
  have "handed_row_times h_mat 1 4096 u 0 uint [5, 7] 4095 mod 17314086913
      = (\<Sum>c<mv_ncols two_by_two. sint (mat_entry two_by_two 1 c) * uint ([5, 7 :: u64] ! c)) mod 17314086913"
    using r [rule_format, OF len, of uint] s by (simp add: mods priv_4096_sel)
  also have "\<dots> = 3 * 5 + 4 * 7"
  proof -
    have "{..<2 :: nat} = {0, 1}" by auto
    then show ?thesis by (simp add: two_by_two_def mat_entry_def)
  qed
  finally have dot: "handed_row_times h_mat 1 4096 u 0 uint [5, 7] 4095 mod 17314086913 = 3 * 5 + 4 * 7" .
  have "max (mv_ncols two_by_two) 4096 = 4096" by (simp add: two_by_two_def)
  with h run dot show ?thesis unfolding polys by (intro exI [of _ rt] exI [of _ h_mat] exI [of _ u]) simp
qed

section \<open>Matrices that do not fit\<close>

lemma upload_past_slot:
  fixes h_vec h_mat b
  defines "ops \<equiv> upload_ops (fst (slot_addresses b)) h_vec 196608 h_mat 98304"
  assumes "2 \<le> length h_vec" "length h_vec \<le> 4" "length h_mat = 4096 * length h_vec"
  shows "\<exists>op \<in> set ops. write_range op \<inter> output_area b \<noteq> {}"
proof -
  let ?lv = "length h_vec" and ?a = "fst (slot_addresses b)"
  let ?k = "?lv + (5461 - 2 * ?lv)"
  have lv: "?lv = 2 \<or> ?lv = 3 \<or> ?lv = 4" using assms(2,3) by linarith
  have off: "upload_offset ?lv 196608 98304 ?k = 536838144" "upload_size ?lv 196608 98304 ?k = 98304"
    using lv by (auto simp: upload_offset_def upload_size_def)
  have k: "?k < length h_vec + length h_mat" using assms(2-4) by linarith
  have "unat ?a \<le> 0x50000000" by (simp add: slot_address_values)
  then have "write_range (ops ! ?k) = {unat ?a + 536838144..<unat ?a + (536838144 + 98304)}"
    unfolding ops_def using upload_ops_range [OF k, of ?a 196608 98304] unfolding off by simp
  then have "unat (snd (slot_addresses b)) \<in> write_range (ops ! ?k) \<inter> output_area b"
    by (simp add: output_area_def slot_address_values)
  moreover have "ops ! ?k \<in> set ops" using k unfolding ops_def by (intro nth_mem) simp
  ultimately show ?thesis by blast
qed

text \<open>
  C34. Matrices that the configuration check accepts and that do not fit: for every configuration with more than 2048 rows and
  more than 4096 columns that \<open>priv_check_config\<close> lets pass, on well-formed ciphertexts and plaintexts \<open>MatVecCore\<close>
  runs the card with transfers of which one, in either slot, writes into the output area behind the input area
  that the constants of \<open>F3/mvp_fpga_reg.h\<close> leave. The operands would fit the \<open>0x70000000\<close> bytes of the comment in
  \<open>KernelRun\<close>.
\<close>

theorem upload_overflows_slot:
  assumes accepted: "priv_check_config I0 = Inr I" and big: "2048 < mi_nrows (priv_config I)" "4096 < mi_ncols (priv_config I)"
    and cfg: "\<not> mi_is_transposed (priv_config I)" "priv_poly_degree I = kPolyDegree" "lib_ok (priv_seal_rt I)"
      "length (sc_first_moduli (priv_ctx I)) = 2"
    and vec: "length ct_vec = CeilDiv (mi_ncols (priv_config I)) kPolyDegree" "\<forall>ct \<in> set ct_vec. wire_ct (priv_seal_rt I) ct"
    and mat: "length pts = kPolyDegree * length ct_vec" "\<forall>pt \<in> set pts. length (pt_data pt) = kNumModulus * kPolyDegree"
  shows "\<exists>h_vec h_mat. MatVecCore E b I ct_vec pts =
      obind (KernelRun E kPolyDegree (mi_ncols (priv_config I)) h_vec 196608 h_mat 98304 b (replicate 16384 0)) (card_reply I) \<and>
    (\<exists>op \<in> set (upload_ops (fst (slot_addresses b)) h_vec 196608 h_mat 98304). write_range op \<inter> output_area b \<noteq> {}) \<and>
    0x20000000 < 196608 * length h_vec + 98304 * length h_mat \<and>
    196608 * length h_vec + 98304 * length h_mat \<le> 0x70000000"
proof -
  let ?c = "priv_config I"
  have rows: "mi_nrows ?c \<le> 4096" "mi_ncols ?c \<le> 16384"
    using accepted by (auto simp: priv_check_config_def Let_def kMaxNumRows_def kMaxNumCols_def kPolyDegree_def split: if_splits)
  have "shape_exponent (2 ^ 12) (mi_nrows ?c) (mi_ncols ?c) = 0" using rows big by (intro shape_exponent_wide) simp_all
  then have shape: "GetSubmatrixShape ?c 4096 = Inr (2 ^ 0, 4096)"
    using GetSubmatrixShape_closed(1) [of ?c 12] rows big cfg(1)
    by (simp add: ExpectMatVecOutputLen_def ExpectMatVecInputLen_def)
  have pow: "NextPow2 (mi_nrows ?c) = 2 ^ 12"
  proof -
    obtain k where k: "NextPow2 (mi_nrows ?c) = 2 ^ k" "mi_nrows ?c \<le> 2 ^ k" "2 ^ k < 2 * mi_nrows ?c"
      using NextPow2_power [of "mi_nrows ?c"] rows big by auto
    have "(2 :: nat) ^ 11 < 2 ^ k" "(2 :: nat) ^ k < 2 ^ 13" using k(2,3) rows big by simp_all
    then have "11 < k" "k < 13" by (simp_all only: power_strict_increasing_iff one_less_numeral_iff semiring_norm(76))
    then have "k = 12" by simp
    then show ?thesis using k(1) by simp
  qed
  let ?ncb = "CeilDiv (mi_ncols ?c) 4096"
  have ncb: "2 \<le> ?ncb" "?ncb \<le> 4" using rows big by (simp_all add: CeilDiv_eq)
  have len: "length ct_vec = ?ncb" using vec(1) by (simp add: kPolyDegree_def)
  have core: "MatVecCore E b I ct_vec pts =
      obind (KernelRun E (2 ^ 12) (max (mi_ncols ?c) 4096) (map (concat \<circ> ct_polys) ct_vec) 196608
        (map pt_data (card_order (12 - 0) ?ncb pts)) 98304 b (replicate 16384 0)) (card_reply I)"
    using cfg lib_okD(1) [OF cfg(3)] shape pow rows big ncb len vec(2) mat
    by (intro MatVecCore_runs_card) (simp_all add: kPolyDegree_def kNumModulus_def)
  let ?h = "map pt_data (card_order 12 ?ncb pts)" and ?v = "map (concat \<circ> ct_polys) ct_vec"
  have lens: "length ?v = ?ncb" "length ?h = 4096 * ?ncb" using len mat(1) by (simp_all add: kPolyDegree_def)
  have "\<exists>op \<in> set (upload_ops (fst (slot_addresses b)) ?v 196608 ?h 98304). write_range op \<inter> output_area b \<noteq> {}"
    using ncb lens by (intro upload_past_slot) simp_all
  then show ?thesis using core big ncb lens
    by (intro exI [of _ ?v] exI [of _ ?h]) (simp add: kPolyDegree_def max_def)
qed

text \<open>The matrix side with a matrix of 4096 rows and 5000 columns.\<close>

definition priv_wide :: MVPPrivImpl where
  "priv_wide = priv_4096\<lparr>priv_config := \<lparr>mi_is_transposed = False, mi_base_mod_nbits = 64, mi_nrows = 4096, mi_ncols = 5000\<rparr>\<rparr>"

lemma priv_wide_sel:
  "priv_config priv_wide = \<lparr>mi_is_transposed = False, mi_base_mod_nbits = 64, mi_nrows = 4096, mi_ncols = 5000\<rparr>"
  "priv_seal_rt priv_wide = priv_seal_rt priv_4096" "priv_poly_degree priv_wide = 4096"
  using priv_4096_sel(4) by (simp_all add: priv_wide_def priv_poly_degree_def)

lemma priv_wide_accepted: "priv_check_config priv_wide = Inr priv_wide"
proof -
  have "sc_parameters_set (priv_ctx priv_wide)" using priv_4096_sel(3) by (simp add: priv_wide_sel mvp_ctx_def)
  moreover have "priv_wide\<lparr>priv_is_proper_config := True\<rparr> = priv_wide" using priv_4096_sel(2) by (simp add: priv_wide_def)
  ultimately show ?thesis
    by (simp add: priv_check_config_def Let_def priv_wide_sel kMaxNumRows_def kMaxNumCols_def kPolyDegree_def)
qed

theorem upload_overflows_slot_witness:
  "\<exists>h_vec h_mat. MatVecCore (env_ref 1 3) 1 priv_wide [wire_ref, wire_ref] (replicate 8192 (pt_ref (replicate 12288 0))) =
      obind (KernelRun (env_ref 1 3) 4096 5000 h_vec 196608 h_mat 98304 1 (replicate 16384 0)) (card_reply priv_wide) \<and>
    (\<exists>op \<in> set (upload_ops (fst (slot_addresses 1)) h_vec 196608 h_mat 98304). write_range op \<inter> output_area 1 \<noteq> {})"
proof -
  have "lib_ok (priv_seal_rt priv_wide)" "length (sc_first_moduli (priv_ctx priv_wide)) = 2"
    using priv_4096_sel(3,5) by (simp_all add: priv_wide_sel mvp_ctx_def kModulus_values)
  from upload_overflows_slot [OF priv_wide_accepted _ _ _ _ this, of "[wire_ref, wire_ref]" "replicate 8192 (pt_ref (replicate 12288 0))" "env_ref 1 3" 1]
  show ?thesis using priv_4096_sel(7) by (auto simp: priv_wide_sel kPolyDegree_def kNumModulus_def CeilDiv_eq pt_ref_def)
qed

end
