(* ===== verification/KeyFile.thy ===== *)
theory KeyFile
  imports Views
begin

text \<open>
  The file in which the command line tool keeps the evaluation keys (\<open>save_eval_key\<close> and \<open>load_eval_key\<close> in
  \<open>src/mvp_sdk/cli/mvp_cli.cc\<close>): the number of strings, then each with its length in front, numbers as four bytes with
  the least significant first. The reader never looks at the state of its stream.
\<close>

section \<open>Files and streams\<close>

text \<open>
  The files by their names. Opening for output with \<open>std::ofstream\<close>, also with \<open>ios::ate\<close>, truncates an existing file;
  whether a file can be opened for writing is the predicate \<open>can_write\<close>. Writes to an open file succeed.
\<close>

type_synonym files = "string \<Rightarrow> string option"

definition open_out :: "(string \<Rightarrow> bool) \<Rightarrow> files \<Rightarrow> string \<Rightarrow> bool \<times> files" where
  "open_out can_write fs file = (if can_write file then (True, fs(file \<mapsto> [])) else (False, fs))"

text \<open>An input stream: the bytes ahead and whether it is still good. A read that comes short spoils it.\<close>

type_synonym in_stream = "string \<times> bool"

definition fin_read :: "nat \<Rightarrow> in_stream \<Rightarrow> string \<times> in_stream" where
  "fin_read n fin =
     (case fin of (rest, good) \<Rightarrow>
        if \<not> good then ([], fin)
        else if n \<le> length rest then (take n rest, drop n rest, True)
        else (rest, [], False))"

text \<open>The four bytes of a \<open>uint32_t\<close>, and reading them into a variable without an initial value.\<close>

definition le32 :: "nat \<Rightarrow> string" where
  "le32 n = map (\<lambda>i. char_of (n div 256 ^ i mod 256)) [0, 1, 2, 3]"

definition le32_value :: "string \<Rightarrow> nat" where
  "le32_value bs = foldr (\<lambda>b v. of_char b + 256 * v) bs 0"

definition read_u32 :: "in_stream \<Rightarrow> nat outcome \<times> in_stream" where
  "read_u32 fin =
     (let (bytes, fin) = fin_read 4 fin
      in (if length bytes < 4 then Inl (Undefined ''uninitialised uint32_t'') else Inr (le32_value bytes), fin))"

section \<open>Saving and loading\<close>

definition save_eval_key :: "(string \<Rightarrow> bool) \<Rightarrow> files \<Rightarrow> string list \<Rightarrow> string \<Rightarrow> bool \<times> files" where
  "save_eval_key can_write fs evk file =
     (let (is_open, fs) = open_out can_write fs file
      in if \<not> is_open then (False, fs)
         else let nkey = length evk mod 2 ^ 32;
                  fout = foldl (\<lambda>fout key. let nbyte = length key mod 2 ^ 32 in fout @ le32 nbyte @ key) (le32 nkey) evk
              in (True, fs(file \<mapsto> fout)))"

text \<open>The loop over the keys; the buffer is zero before the read.\<close>

fun load_keys :: "nat list \<Rightarrow> in_stream \<Rightarrow> string list \<Rightarrow> bool outcome \<times> string list" where
  "load_keys [] fin evk = (Inr True, evk)"
| "load_keys (i # is) fin evk =
     (case read_u32 fin of
        (Inl e, fin) \<Rightarrow> (Inl e, evk)
      | (Inr nbyte, fin) \<Rightarrow>
          if nbyte = 0 \<or> push_bit 22 1 < nbyte then (Inr False, evk)
          else let (bytes, fin) = fin_read nbyte fin; buff = overwrite (replicate nbyte (CHR 0x00)) 0 bytes
               in load_keys is fin (evk[i := buff]))"

definition load_eval_key :: "files \<Rightarrow> string \<Rightarrow> string list \<Rightarrow> bool outcome \<times> string list" where
  "load_eval_key fs file evk =
     (case fs file of
        None \<Rightarrow> (Inr False, evk)
      | Some content \<Rightarrow>
          (case read_u32 (content, True) of
             (Inl e, fin) \<Rightarrow> (Inl e, evk)
           | (Inr nkey, fin) \<Rightarrow> load_keys [0..<nkey] fin (take nkey evk @ replicate (nkey - length evk) [])))"

declare load_keys.simps(2) [simp del]

section \<open>The format\<close>

lemma length_le32 [simp]: "length (le32 n) = 4"
  by (simp add: le32_def)

lemma le32_value_le32: "n < 2 ^ 32 \<Longrightarrow> le32_value (le32 n) = n"
proof -
  assume n: "n < 2 ^ 32"
  have top: "n div 16777216 mod 256 = n div 16777216" using n by (simp add: div_less_iff_less_mult)
  have e: "n mod 256 + 256 * (n div 256) = n" "n div 256 mod 256 + 256 * (n div 65536) = n div 256"
    "n div 65536 mod 256 + 256 * (n div 16777216) = n div 65536"
    using div_mult2_eq [of n 65536 256] div_mult2_eq [of n 256 256] by simp_all
  have "le32_value (le32 n) = n mod 256 + 256 * (n div 256 mod 256 + 256 * (n div 65536 mod 256 + 256 * (n div 16777216 mod 256)))"
    by (simp add: le32_value_def le32_def of_char_of)
  then show ?thesis by (simp only: top e)
qed

definition key_record :: "string \<Rightarrow> string" where
  "key_record key = le32 (length key) @ key"

definition key_file :: "string list \<Rightarrow> string" where
  "key_file evk = le32 (length evk) @ concat (map key_record evk)"

definition key_ok_size :: "string \<Rightarrow> bool" where
  "key_ok_size key \<longleftrightarrow> 0 < length key \<and> length key \<le> 2 ^ 22"

text \<open>What the format can express: lengths below \<open>2 ^ 32\<close>.\<close>

definition keys_writable :: "string list \<Rightarrow> bool" where
  "keys_writable evk \<longleftrightarrow> length evk < 2 ^ 32 \<and> (\<forall>key \<in> set evk. length key < 2 ^ 32)"

lemma save_eval_key_file:
  assumes "can_write file" "keys_writable evk"
  shows "save_eval_key can_write fs evk file = (True, fs(file \<mapsto> key_file evk))"
proof -
  have "foldl (\<lambda>fout key. let nbyte = length key mod 2 ^ 32 in fout @ le32 nbyte @ key) acc ks = acc @ concat (map key_record ks)"
    if "\<forall>key \<in> set ks. length key < 2 ^ 32" for acc ks
    using that by (induction ks arbitrary: acc) (simp_all add: key_record_def)
  then show ?thesis using assms by (simp add: save_eval_key_def open_out_def key_file_def keys_writable_def)
qed

lemma read_u32_ok: "n < 2 ^ 32 \<Longrightarrow> read_u32 (le32 n @ rest, True) = (Inr n, rest, True)"
  by (simp add: read_u32_def fin_read_def le32_value_le32)

lemma read_u32_short: "length rest < 4 \<Longrightarrow> read_u32 (rest, good) = (Inl (Undefined ''uninitialised uint32_t''), [], False) \<or>
    read_u32 (rest, good) = (Inl (Undefined ''uninitialised uint32_t''), rest, good)"
  by (simp add: read_u32_def fin_read_def)

lemma load_one_key:
  assumes "length key < 2 ^ 32"
  shows "load_keys (i # is) (key_record key @ rest, True) evk =
    (if key_ok_size key then load_keys is (rest, True) (evk[i := key]) else (Inr False, evk))"
proof (cases "key_ok_size key")
  case True
  then have "0 < length key" "length key \<le> push_bit 22 1" by (simp_all add: key_ok_size_def push_bit_eq_mult)
  then show ?thesis using True assms read_u32_ok [OF assms, of "key @ rest"]
    by (simp add: load_keys.simps(2) key_record_def fin_read_def overwrite_def)
next
  case False
  then show ?thesis using assms read_u32_ok [OF assms, of "key @ rest"]
    by (auto simp: load_keys.simps(2) key_record_def key_ok_size_def push_bit_eq_mult)
qed

text \<open>The good keys in front of a list are put in their places.\<close>

lemma load_keys_prefix:
  assumes "\<forall>key \<in> set ks. key_ok_size key" "length ks \<le> m - a" "length pre = a" "length ks \<le> length old"
  shows "load_keys [a..<m] (concat (map key_record ks) @ rest, True) (pre @ old) =
    load_keys [a + length ks..<m] (rest, True) (pre @ ks @ drop (length ks) old)"
  using assms
proof (induction ks arbitrary: a pre old)
  case (Cons k ks)
  have k: "key_ok_size k" "length k < 2 ^ 32" using Cons.prems(1) by (auto simp: key_ok_size_def)
  obtain o1 os where old: "old = o1 # os" using Cons.prems(4) by (cases old) auto
  have "[a..<m] = a # [Suc a..<m]" using Cons.prems(2) by (intro upt_conv_Cons) simp
  then have "load_keys [a..<m] (concat (map key_record (k # ks)) @ rest, True) (pre @ old)
      = load_keys [Suc a..<m] (concat (map key_record ks) @ rest, True) ((pre @ [k]) @ os)"
    using load_one_key [OF k(2), of a "[Suc a..<m]" "concat (map key_record ks) @ rest" "pre @ old"] k(1) Cons.prems(3)
    by (simp add: old list_update_append)
  also have "\<dots> = load_keys [Suc a + length ks..<m] (rest, True) ((pre @ [k]) @ ks @ drop (length ks) os)"
    using Cons.prems by (intro Cons.IH) (simp_all add: old)
  finally show ?case by (simp add: old)
qed simp

section \<open>The round trip\<close>

lemma load_eval_key_content:
  assumes "fs file = Some (key_file evk)" "keys_writable evk"
  shows "load_eval_key fs file old
    = load_keys [0..<length evk] (concat (map key_record evk), True) (take (length evk) old @ replicate (length evk - length old) [])"
  using assms read_u32_ok [of "length evk"] by (simp add: load_eval_key_def key_file_def keys_writable_def)

text \<open>
  C24. The file of the evaluation keys: what \<open>save_eval_key\<close> has written, \<open>load_eval_key\<close> accepts exactly when no key
  is empty or longer than \<open>2 ^ 22\<close> bytes, and then it returns the same keys, whatever the vector held before. The
  writer checks neither limit.
\<close>

theorem key_file_roundtrip:
  assumes "can_write file" "length evk < 2 ^ 32" "\<forall>key \<in> set evk. length key < 2 ^ 32"
  shows "\<exists>fs'. save_eval_key can_write fs evk file = (True, fs') \<and>
    fst (load_eval_key fs' file old) = Inr (\<forall>key \<in> set evk. 0 < length key \<and> length key \<le> 2 ^ 22) \<and>
    ((\<forall>key \<in> set evk. 0 < length key \<and> length key \<le> 2 ^ 22) \<longrightarrow> snd (load_eval_key fs' file old) = evk)"
proof -
  define fs' where "fs' = fs(file \<mapsto> key_file evk)"
  let ?fs = fs' and ?n = "length evk"
  let ?old = "take ?n old @ replicate (?n - length old) []"
  have w: "keys_writable evk" using assms(2,3) by (simp add: keys_writable_def)
  have load: "load_eval_key ?fs file old = load_keys [0..<?n] (concat (map key_record evk), True) ?old"
    by (rule load_eval_key_content [OF _ w]) (simp add: fs'_def)
  have len: "length ?old = ?n" by simp
  have "fst (load_eval_key ?fs file old) = Inr (\<forall>key \<in> set evk. key_ok_size key) \<and>
    ((\<forall>key \<in> set evk. key_ok_size key) \<longrightarrow> snd (load_eval_key ?fs file old) = evk)"
  proof (cases "\<forall>key \<in> set evk. key_ok_size key")
    case True
    then show ?thesis using load_keys_prefix [OF True, of ?n 0 "[]" ?old "[]"] len by (simp add: load)
  next
    case False
    then obtain ks k rest where evk: "evk = ks @ k # rest" "\<not> key_ok_size k" "\<forall>key \<in> set ks. key_ok_size key"
      using split_list_first_prop [of evk "\<lambda>k. \<not> key_ok_size k"] by blast
    have "load_eval_key ?fs file old = load_keys [length ks..<?n] (key_record k @ concat (map key_record rest), True) (ks @ drop (length ks) ?old)"
      using load_keys_prefix [OF evk(3), of ?n 0 "[]" ?old "key_record k @ concat (map key_record rest)"] len
      unfolding load by (simp add: evk(1))
    also have "[length ks..<?n] = length ks # [Suc (length ks)..<?n]" by (intro upt_conv_Cons) (simp add: evk(1))
    finally show ?thesis using load_one_key [of k] assms(3) False evk(2) by (simp add: evk(1))
  qed
  then show ?thesis using save_eval_key_file [of can_write "file" evk fs, OF assms(1) w, folded fs'_def] by (auto simp: key_ok_size_def)
qed

theorem key_file_roundtrip_witness:
  "\<exists>fs'. save_eval_key (\<lambda>_. True) (\<lambda>_. None) [''ab'', ''c''] ''./mvp_key.pub'' = (True, fs') \<and>
    load_eval_key fs' ''./mvp_key.pub'' [] = (Inr True, [''ab'', ''c'']) \<and>
   (\<exists>fs'. save_eval_key (\<lambda>_. True) (\<lambda>_. None) [''ab'', []] ''./mvp_key.pub'' = (True, fs') \<and>
    fst (load_eval_key fs' ''./mvp_key.pub'' []) = Inr False)"
  using key_file_roundtrip [of "\<lambda>_. True" "''./mvp_key.pub''" "[''ab'', ''c'']" "\<lambda>_. None" "[]"]
    key_file_roundtrip [of "\<lambda>_. True" "''./mvp_key.pub''" "[''ab'', []]" "\<lambda>_. None" "[]"]
  by (auto simp: prod_eq_iff)

section \<open>Files that were cut\<close>

lemma take_concat_cut:
  assumes "n < length (concat xss)"
  shows "\<exists>i u. i < length xss \<and> u < length (xss ! i) \<and> take n (concat xss) = concat (take i xss) @ take u (xss ! i) \<and>
    n = length (concat (take i xss)) + u"
  using assms
proof (induction xss arbitrary: n)
  case (Cons xs xss)
  show ?case
  proof (cases "n < length xs")
    case True
    then show ?thesis by (intro exI [of _ 0] exI [of _ n]) simp
  next
    case False
    then have "n - length xs < length (concat xss)" using Cons.prems by simp
    then obtain i u where "i < length xss" "u < length (xss ! i)"
        "take (n - length xs) (concat xss) = concat (take i xss) @ take u (xss ! i)" "n - length xs = length (concat (take i xss)) + u"
      using Cons.IH by blast
    then show ?thesis using False by (intro exI [of _ "Suc i"] exI [of _ u]) simp
  qed
qed simp

lemma load_keys_spoilt: "is \<noteq> [] \<Longrightarrow> load_keys is ([], False) evk = (Inl (Undefined ''uninitialised uint32_t''), evk)"
  by (cases "is") (simp_all add: load_keys.simps(2) read_u32_def fin_read_def)

text \<open>A record cut short: in its length, or in its bytes.\<close>

lemma load_cut_key:
  assumes "u < length (key_record key)" "key_ok_size key"
  shows "load_keys (i # is) (take u (key_record key), True) evk =
    (if u < 4 then (Inl (Undefined ''uninitialised uint32_t''), evk)
     else load_keys is ([], False) (evk[i := take (u - 4) key @ replicate (length key - (u - 4)) (CHR 0x00)]))"
proof (cases "u < 4")
  case True
  then show ?thesis by (simp add: load_keys.simps(2) key_record_def read_u32_def fin_read_def)
next
  case False
  have len: "length key < 2 ^ 32" "0 < length key" "length key \<le> push_bit 22 1" "u - 4 < length key"
    using assms False by (simp_all add: key_ok_size_def push_bit_eq_mult key_record_def)
  have "take u (key_record key) = le32 (length key) @ take (u - 4) key" using False by (simp add: key_record_def)
  then show ?thesis using False len read_u32_ok [OF len(1)]
    by (simp add: load_keys.simps(2) fin_read_def overwrite_def)
qed

lemma length_records_last:
  "evk \<noteq> [] \<Longrightarrow> length (concat (map key_record evk)) = length (concat (map key_record (butlast evk))) + 4 + length (last evk)"
  by (induction evk rule: rev_induct) (simp_all add: key_record_def)

text \<open>
  C27. A truncated key file is never refused: when a file of keys of admissible sizes has lost its end,
  \<open>load_eval_key\<close> answers true if the loss is confined to the bytes of the last key, which then ends in zeros, and
  otherwise reads a number from a variable that was never set.
\<close>

theorem truncated_key_file:
  assumes "length evk < 2 ^ 32" "\<forall>key \<in> set evk. 0 < length key \<and> length key \<le> 2 ^ 22"
    and "fs file = Some (take n (key_file evk))" "n < length (key_file evk)"
  shows "\<exists>keys. load_eval_key fs file old =
    (if evk \<noteq> [] \<and> length (key_file evk) - length (last evk) \<le> n
     then (let got = n + length (last evk) - length (key_file evk)
           in (Inr True, butlast evk @ [take got (last evk) @ replicate (length (last evk) - got) (CHR 0x00)]))
     else (Inl (Undefined ''uninitialised uint32_t''), keys))"
proof -
  let ?n = "length evk" and ?recs = "map key_record evk"
  define init where "init = take ?n old @ replicate (?n - length old) ([] :: string)"
  have init: "length init = ?n" by (simp add: init_def)
  have good: "\<forall>key \<in> set evk. key_ok_size key" using assms(2) by (simp add: key_ok_size_def)
  have size: "length (key_file evk) = 4 + length (concat ?recs)" by (simp add: key_file_def)
  show ?thesis
  proof (cases "n < 4")
    case True
    have "\<not> (evk \<noteq> [] \<and> length (key_file evk) - length (last evk) \<le> n)" using True size length_records_last [of evk] by auto
    moreover have "load_eval_key fs file old = (Inl (Undefined ''uninitialised uint32_t''), old)"
      using True assms(3,4) by (simp add: load_eval_key_def read_u32_def fin_read_def)
    ultimately show ?thesis by auto
  next
    case False
    then have "n - 4 < length (concat ?recs)" using assms(4) size by simp
    then obtain i u where i: "i < ?n" "u < length (key_record (evk ! i))" "n - 4 = length (concat (take i ?recs)) + u"
        "take (n - 4) (concat ?recs) = concat (take i ?recs) @ take u (key_record (evk ! i))"
      using take_concat_cut [of "n - 4" ?recs] by auto
    have k: "key_ok_size (evk ! i)" "\<forall>key \<in> set (take i evk). key_ok_size key" using good i(1) by (auto dest: in_set_takeD)
    have "take n (key_file evk) = le32 ?n @ take (n - 4) (concat ?recs)" using False by (simp add: key_file_def)
    then have "load_eval_key fs file old
        = load_keys [0..<?n] (concat (map key_record (take i evk)) @ take u (key_record (evk ! i)), True) init"
      using assms(1,3) read_u32_ok [of ?n] i(4) by (simp add: load_eval_key_def take_map flip: init_def)
    also have "\<dots> = load_keys [i..<?n] (take u (key_record (evk ! i)), True) (take i evk @ drop i init)"
      using load_keys_prefix [OF k(2), of ?n 0 "[]" init "take u (key_record (evk ! i))"] i(1) init by simp
    also have "[i..<?n] = i # [Suc i..<?n]" using i(1) by (intro upt_conv_Cons)
    finally have load: "load_eval_key fs file old = load_keys (i # [Suc i..<?n]) (take u (key_record (evk ! i)), True) (take i evk @ drop i init)" .
    have parts: "evk = take i evk @ evk ! i # drop (Suc i) evk" using i(1) by (rule id_take_nth_drop)
    have n: "n = 4 + length (concat (map key_record (take i evk))) + u" using i(3) False by (simp add: take_map)
    show ?thesis
    proof (cases "Suc i = ?n")
      case True
      then have e: "evk = take i evk @ [evk ! i]" using parts by simp
      have l: "last evk = evk ! i" "butlast evk = take i evk" "evk \<noteq> []"
        using last_snoc [of "take i evk" "evk ! i"] butlast_snoc [of "take i evk" "evk ! i"] i(1) unfolding e [symmetric] by auto
      have "length (concat ?recs) = length (concat (map key_record (take i evk))) + length (key_record (evk ! i))"
        using length_records_last [OF l(3)] l(1,2) by (simp add: key_record_def)
      then have "length (key_file evk) - length (last evk) \<le> n \<longleftrightarrow> 4 \<le> u" "n + length (last evk) - length (key_file evk) = u - 4"
        using n size l(1) by (simp_all add: key_record_def)
      moreover have "drop i init = [init ! i]" using True init by (subst Cons_nth_drop_Suc [symmetric]) simp_all
      ultimately show ?thesis using load load_cut_key [OF i(2) k(1)] True l i(1)
        by (simp add: Let_def list_update_append)
    next
      case False
      then have rest: "drop (Suc i) evk \<noteq> []" using i(1) by simp
      then have "last (drop (Suc i) evk) = last evk" by (intro last_drop) simp
      then have "length (last evk) \<le> length (concat (map key_record (drop (Suc i) evk)))" "evk \<noteq> []"
        using length_records_last [OF rest] rest i(1) by auto
      moreover have "length (concat ?recs) = length (concat (map key_record (take i evk))) + length (key_record (evk ! i)) + length (concat (map key_record (drop (Suc i) evk)))"
        using arg_cong [OF parts, of "\<lambda>xs. length (concat (map key_record xs))"] by simp
      ultimately have "\<not> length (key_file evk) - length (last evk) \<le> n" using n i(2) size by linarith
      moreover have "[Suc i..<?n] \<noteq> []" using False i(1) by auto
      ultimately show ?thesis using load load_cut_key [OF i(2) k(1)] load_keys_spoilt by simp
    qed
  qed
qed

theorem truncated_key_file_witness:
  "\<exists>old. load_eval_key (\<lambda>_. Some (take 13 (key_file [''a'', ''bcd'']))) ''./mvp_key.pub'' old
      = (Inr True, [''a'', [CHR 0x00, CHR 0x00, CHR 0x00]]) \<and>
    fst (load_eval_key (\<lambda>_. Some (take 12 (key_file [''a'', ''bcd'']))) ''./mvp_key.pub'' old) = Inl (Undefined ''uninitialised uint32_t'')"
  using truncated_key_file [of "[''a'', ''bcd'']" "\<lambda>_. Some (take 13 (key_file [''a'', ''bcd'']))" "''./mvp_key.pub''" 13 "[]"]
    truncated_key_file [of "[''a'', ''bcd'']" "\<lambda>_. Some (take 12 (key_file [''a'', ''bcd'']))" "''./mvp_key.pub''" 12 "[]"]
  by (auto simp: key_file_def key_record_def Let_def)

end
