(* ===== verification/Cli.thy ===== *)
theory Cli
  imports Keys MatVec Framing Doubles KeyFile
begin

text \<open>
  The command line tool (\<open>src/mvp_sdk/cli/mvp_cli.cc\<close>): \<open>mvp_keygen\<close> makes keys and stores them, \<open>mvp_matvec\<close> reads
  them, multiplies a random matrix with a random vector on the card and checks the product. Not modelled: the parser
  of the arguments (a library in \<open>argparse.hpp\<close>, here its result), the log level, and the text on the console beyond
  the message or the number it reports.
\<close>

section \<open>Printing numbers\<close>

text \<open>
  \<open>operator<<\<close> on a \<open>double\<close> prints six significant digits in the style of \<open>%g\<close>: the decimal exponent of the
  number, the digits rounded to even on ties, and trailing zeros left out.
\<close>

fun below_one :: "int \<Rightarrow> int \<Rightarrow> nat \<Rightarrow> nat" where
  "below_one num den 0 = 0"
| "below_one num den (Suc fuel) = (if den \<le> num then 0 else Suc (below_one (10 * num) den fuel))"

text \<open>The exponent \<open>x\<close> with \<open>10 ^ x \<le> num / den < 10 ^ (x + 1)\<close>; as many steps as the denominator has bits are enough.\<close>

definition decimal_exponent :: "int \<Rightarrow> int \<Rightarrow> int" where
  "decimal_exponent num den =
     (if den \<le> num then int (length (to_string (nat (num div den)))) - 1
      else - int (below_one num den (floorlog 2 (nat den))))"

definition six_digits :: "int \<Rightarrow> int \<Rightarrow> int \<times> int" where
  "six_digits num den =
     (let x = decimal_exponent num den;
          d = round_even (num * 10 ^ nat (5 - x)) (den * 10 ^ nat (x - 5))
      in if d = 10 ^ 6 then (10 ^ 5, x + 1) else (d, x))"

definition zero_padded :: "nat \<Rightarrow> nat \<Rightarrow> string" where
  "zero_padded width n = replicate (width - length (to_string n)) (CHR ''0'') @ to_string n"

definition fraction_text :: "nat \<Rightarrow> nat \<Rightarrow> string" where
  "fraction_text width f =
     (let digits = rev (dropWhile (\<lambda>c. c = CHR ''0'') (rev (if width = 0 then [] else zero_padded width f)))
      in if digits = [] then [] else CHR ''.'' # digits)"

definition show_positive :: "int \<Rightarrow> int \<Rightarrow> string" where
  "show_positive num den =
     (let (d, x) = six_digits num den; d = nat d
      in if - 4 \<le> x \<and> x < 6
         then (if 0 \<le> x
               then let w = nat (5 - x) in to_string (d div 10 ^ w) @ fraction_text w (d mod 10 ^ w)
               else ''0'' @ fraction_text (nat (5 - x)) d)
         else to_string (d div 10 ^ 5) @ fraction_text 5 (d mod 10 ^ 5) @
              ''e'' @ (if x < 0 then ''-'' else ''+'') @ zero_padded 2 (nat \<bar>x\<bar>))"

fun show_double :: "double \<Rightarrow> string" where
  "show_double (Finite m e) =
     (if m = 0 then ''0''
      else (if m < 0 then ''-'' else []) @ show_positive (\<bar>m\<bar> * 2 ^ nat e) (2 ^ nat (- e)))"
| "show_double Nonfinite = ''nan''"

section \<open>Saving a matrix\<close>

text \<open>
  A shift of a signed one by a negative number, or to or beyond the sign bit, is undefined: from there on the model says
  nothing of the program. The theorems about it assume a positive precision.
\<close>

definition shifted_one :: "int \<Rightarrow> double outcome" where
  "shifted_one precision =
     (if 0 \<le> precision \<and> precision < 63 then Inr (Finite (2 ^ nat precision) 0) else Inl (Undefined ''1LL << precision''))"

definition matrix_row :: "double \<Rightarrow> u64 list \<Rightarrow> string" where
  "matrix_row scale xs =
     show_double (U2kToReal (hd xs) scale) @ concat (map (\<lambda>x. CHR '','' # show_double (U2kToReal x scale)) (tl xs))"

definition matrix_text :: "double \<Rightarrow> nat \<Rightarrow> nat \<Rightarrow> u64 list \<Rightarrow> string" where
  "matrix_text scale nrows ncols xs =
     concat (map (\<lambda>r. matrix_row scale (slice xs (r * ncols, ncols)) @ (if r + 1 < nrows then [CHR 0x0A] else [])) [0..<nrows])"

text \<open>The file is opened, and so truncated, before the arguments are looked at.\<close>

definition save_matrix ::
    "(string \<Rightarrow> bool) \<Rightarrow> files \<Rightarrow> u64 list option \<Rightarrow> nat \<Rightarrow> nat \<Rightarrow> int \<Rightarrow> string \<Rightarrow> bool outcome \<times> files" where
  "save_matrix can_write fs ptr nrows ncols precision file =
     (let (is_open, fs) = open_out can_write fs file
      in if \<not> is_open then (Inr False, fs)
         else case ptr of
           None \<Rightarrow> (Inr False, fs)
         | Some xs \<Rightarrow>
             if nrows = 0 \<or> ncols = 0 then (Inr False, fs)
             else case shifted_one precision of
               Inl e \<Rightarrow> (Inl e, fs)
             | Inr scale \<Rightarrow>
                 if length xs < nrows * ncols then (Inl (Undefined ''*ptr++''), fs)
                 else (Inr True, fs(file \<mapsto> matrix_text scale nrows ncols xs)))"

section \<open>The product in the clear\<close>

fun dot_u64 :: "u64 list \<Rightarrow> u64 list \<Rightarrow> nat list \<Rightarrow> u64 \<Rightarrow> u64" where
  "dot_u64 row v [] acc = acc"
| "dot_u64 row v (c # cs) acc = dot_u64 row v cs (acc + row ! c * v ! c)"

definition U64MatVec :: "MatView \<Rightarrow> VecView \<Rightarrow> u64 list outcome" where
  "U64MatVec mat vec =
     (if mv_ncols mat \<noteq> length vec then Inl (Throws (Runtime_error ''dimension mismatch''))
      else omap (\<lambda>r. obind (MatView_row_at mat r) (\<lambda>row. Inr (dot_u64 row vec [0..<mv_ncols mat] 0))) [0..<mv_nrows mat])"

section \<open>The environment\<close>

text \<open>
  What the tool runs in: which files can be written, SEAL's contexts and its format of secret keys, the card with the
  slot it is given, the numbers the generator draws from \<open>[-1, 1)\<close>, and the words that the machine's conversion of
  a \<open>double\<close> to \<open>uint64_t\<close> makes of numbers that do not fit.
\<close>

record cli_env =
  ce_can_write :: "string \<Rightarrow> bool"
  ce_seal_new :: "scheme_type \<Rightarrow> nat \<Rightarrow> u64 list \<Rightarrow> seal_lib outcome"
  ce_sk_save :: "secret_key \<Rightarrow> string outcome"
  ce_sk_load :: "seal_lib \<Rightarrow> string \<Rightarrow> secret_key outcome"
  ce_fpga :: fpga_env
  ce_slot :: nat
  ce_random :: "nat \<Rightarrow> double"
  ce_cast :: "double \<Rightarrow> u64"

text \<open>How a command ends: with a message on \<open>std::cerr\<close>, a status of the api included, or with what it reports.\<close>

datatype cli_end = Message string | Status_of string error_code string | Key_files_saved | Products_saved int | Files_not_saved

definition kPriKeyPath :: string where "kPriKeyPath = ''./mvp_key''"
definition kPubKeyPath :: string where "kPubKeyPath = ''./mvp_key.pub''"
definition kMatFile :: string where "kMatFile = ''./mvp_mat.txt''"
definition kVecFile :: string where "kVecFile = ''./mvp_vec.txt''"
definition kResultFile :: string where "kResultFile = ''./mvp_result.txt''"

text \<open>A call of the api: an error status is reported, an exception is not caught.\<close>

definition api_call ::
    "string \<Rightarrow> 'a outcome \<Rightarrow> files \<Rightarrow> ('a \<Rightarrow> cli_end outcome \<times> files) \<Rightarrow> cli_end outcome \<times> files" where
  "api_call name r fs k =
     (case r of
        Inl (Failed c m) \<Rightarrow> (Inr (Status_of name c m), fs)
      | Inl e \<Rightarrow> (Inl e, fs)
      | Inr x \<Rightarrow> k x)"

definition or_throw :: "'a outcome \<Rightarrow> files \<Rightarrow> ('a \<Rightarrow> cli_end outcome \<times> files) \<Rightarrow> cli_end outcome \<times> files" where
  "or_throw r fs k = (case r of Inl e \<Rightarrow> (Inl e, fs) | Inr x \<Rightarrow> k x)"

section \<open>Making keys\<close>

text \<open>SEAL throws when it writes to a stream that is not open. The stream of the public key is opened twice.\<close>

definition save_private_key :: "cli_env \<Rightarrow> files \<Rightarrow> secret_key \<Rightarrow> unit outcome \<times> files" where
  "save_private_key E fs sk =
     (let (is_open, fs) = open_out (ce_can_write E) fs kPriKeyPath
      in if \<not> is_open then (Inl (Throws (Runtime_error ''I/O error'')), fs)
         else case ce_sk_save E sk of
           Inl e \<Rightarrow> (Inl e, fs)
         | Inr bytes \<Rightarrow> (Inr (), fs(kPriKeyPath \<mapsto> bytes)))"

definition mvp_keygen :: "cli_env \<Rightarrow> files \<Rightarrow> cli_end outcome \<times> files" where
  "mvp_keygen E fs =
     or_throw (MVPContext_Create (ce_seal_new E) 1) fs (\<lambda>mvp_context.
     api_call ''api::GenerateKey'' (GenerateKey (Some mvp_context) 0) fs (\<lambda>sk.
     api_call ''api::DeriveEvalKey'' (DeriveEvalKey (Some mvp_context) sk 0) fs (\<lambda>evk.
       let (saved, fs) = save_private_key E fs sk
       in or_throw saved fs (\<lambda>_.
         let fs = snd (open_out (ce_can_write E) fs kPubKeyPath);
             (ok, fs) = save_eval_key (ce_can_write E) fs evk kPubKeyPath
         in (Inr (if ok then Key_files_saved else Message ''Failed to save to public key''), fs)))))"

section \<open>The product of a random matrix with a random vector\<close>

text \<open>The arguments are compared as unsigned numbers with the limits, as signed ones with constants.\<close>

definition matvec_args :: "int \<Rightarrow> int \<Rightarrow> int \<Rightarrow> string option" where
  "matvec_args nrows ncols precision =
     (if nrows < 1 \<or> int kMaxNumRows < nrows mod 2 ^ 32 then Some ''invalid nrows''
      else if ncols = 0 \<or> int kMaxNumCols < ncols mod 2 ^ 32 then Some ''invalid ncols''
      else if precision = 0 \<or> 30 < precision then Some ''invalid precision''
      else None)"

text \<open>Reading the keys: only a logic error of SEAL is caught.\<close>

definition load_key_files :: "cli_env \<Rightarrow> files \<Rightarrow> seal_lib \<Rightarrow> (string + string list \<times> secret_key) outcome" where
  "load_key_files E fs L =
     (case fs kPubKeyPath of
        None \<Rightarrow> Inr (Inl ''Error: public key file is absent'')
      | Some _ \<Rightarrow>
          (case fs kPriKeyPath of
             None \<Rightarrow> Inr (Inl ''Error: private key file is absent'')
           | Some pri \<Rightarrow>
               let (loaded, evk) = load_eval_key fs kPubKeyPath []
               in obind loaded (\<lambda>ok.
                    if \<not> ok then Inr (Inl ''Error: loading public key'')
                    else case ce_sk_load E L pri of
                      Inl (Throws e) \<Rightarrow> if is_logic_error e then Inr (Inl ''Error: invalid private key'') else Inl (Throws e)
                    | Inl e \<Rightarrow> Inl e
                    | Inr secret_key \<Rightarrow> Inr (Inr (evk, secret_key)))))"

text \<open>
  \<open>static_cast<uint64_t>\<close> of a double drops the fraction. What does not fit, a negative whole part included, is undefined
  in C++; here it is the word the conversion instruction happens to give, which is left open.
\<close>

fun truncated :: "double \<Rightarrow> int option" where
  "truncated (Finite m e) = Some (if 0 \<le> e then m * 2 ^ nat e else sgn m * (\<bar>m\<bar> div 2 ^ nat (- e)))"
| "truncated Nonfinite = None"

definition uint64_of_double :: "cli_env \<Rightarrow> double \<Rightarrow> u64" where
  "uint64_of_double E x =
     (case truncated x of
        None \<Rightarrow> ce_cast E x
      | Some v \<Rightarrow> if 0 \<le> v \<and> v < 2 ^ 64 then word_of_int v else ce_cast E x)"

definition random_words :: "cli_env \<Rightarrow> int \<Rightarrow> nat list \<Rightarrow> u64 list outcome" where
  "random_words E precision draws =
     omap (\<lambda>i. obind (shifted_one precision) (\<lambda>scale. Inr (uint64_of_double E (double_mult (ce_random E i) scale)))) draws"

text \<open>The largest deviation; the absolute value of the least \<open>int64_t\<close> is undefined.\<close>

fun max_error :: "u64 list \<Rightarrow> VecBuffer \<Rightarrow> nat list \<Rightarrow> int \<Rightarrow> int outcome" where
  "max_error ground_truth matvec [] max_err = Inr max_err"
| "max_error ground_truth matvec (i # is) max_err =
     obind (VecBuffer_at matvec i) (\<lambda>x.
       let diff = ground_truth ! i - x
       in if sint diff = - (2 ^ 63) then Inl (Undefined ''std::abs'')
          else max_error ground_truth matvec is (max max_err \<bar>sint diff\<bar>))"

definition save_results ::
    "cli_env \<Rightarrow> files \<Rightarrow> MatView \<Rightarrow> VecView \<Rightarrow> VecBuffer \<Rightarrow> int \<Rightarrow> bool outcome \<times> files" where
  "save_results E fs mat vec matvec precision =
     (let (ok1, fs) = save_matrix (ce_can_write E) fs (Some (mv_data mat)) (mv_nrows mat) (mv_ncols mat) precision kMatFile
      in case ok1 of Inl e \<Rightarrow> (Inl e, fs) | Inr ok1 \<Rightarrow>
      (let (ok2, fs) = save_matrix (ce_can_write E) fs (Some vec) 1 (mv_ncols mat) precision kVecFile
      in case ok2 of Inl e \<Rightarrow> (Inl e, fs) | Inr ok2 \<Rightarrow>
      (let (ok3, fs) = save_matrix (ce_can_write E) fs (Some (vb_data matvec)) (mv_nrows mat) 1 (precision * 2) kResultFile
      in case ok3 of Inl e \<Rightarrow> (Inl e, fs) | Inr ok3 \<Rightarrow> (Inr (ok1 \<and> ok2 \<and> ok3), fs))))"

definition report_product ::
    "cli_env \<Rightarrow> files \<Rightarrow> MatView \<Rightarrow> VecView \<Rightarrow> VecBuffer \<Rightarrow> int \<Rightarrow> cli_end outcome \<times> files" where
  "report_product E fs mat vec matvec precision =
     (let (ok, fs) = save_results E fs mat vec matvec precision
      in or_throw ok fs (\<lambda>ok.
           if \<not> ok then (Inr Files_not_saved, fs)
           else or_throw (U64MatVec mat vec) fs (\<lambda>ground_truth.
                or_throw (max_error ground_truth matvec [0..<length ground_truth] 0) fs (\<lambda>max_err.
                  (Inr (Products_saved max_err), fs)))))"

text \<open>What follows once the keys are set up: the draws, the three calls of the api, and the check of the product.\<close>

definition multiply_random ::
    "cli_env \<Rightarrow> files \<Rightarrow> bool \<Rightarrow> MVPContext option \<Rightarrow> secret_key \<Rightarrow> nat \<Rightarrow> nat \<Rightarrow> int \<Rightarrow> cli_end outcome \<times> files" where
  "multiply_random E fs use_asym rt secret_key nrows ncols precision =
     or_throw (random_words E precision [0..<nrows * ncols]) fs (\<lambda>mat.
     or_throw (random_words E precision [nrows * ncols..<nrows * ncols + ncols]) fs (\<lambda>vec.
     or_throw (MatView_new (Some mat) nrows ncols) fs (\<lambda>matview.
     or_throw (VecView_new (Some vec) ncols) fs (\<lambda>vecview.
     let meta = \<lparr>mi_is_transposed = False, mi_base_mod_nbits = 64, mi_nrows = nrows, mi_ncols = ncols\<rparr> in
     api_call ''api::Encrypt'' (if use_asym then api_Encrypt_pk rt vecview meta else api_Encrypt_sk rt vecview meta secret_key) fs (\<lambda>encrypted_vec.
     api_call ''api::MatVec'' (fst (api_MatVec (ce_fpga E) (ce_slot E) rt matview encrypted_vec meta
         \<lparr>cp_prng = None, cp_bytes_gen = 0, cp_created = 0\<rparr>)) fs (\<lambda>out.
     api_call ''api::DecryptMatVec'' (api_DecryptMatVec rt out meta secret_key nrows) fs (\<lambda>matvec.
       report_product E fs matview vecview \<lparr>vb_data = matvec, vb_len = nrows\<rparr> precision)))))))"

definition mvp_matvec :: "cli_env \<Rightarrow> files \<Rightarrow> bool \<Rightarrow> int \<Rightarrow> int \<Rightarrow> int \<Rightarrow> cli_end outcome \<times> files" where
  "mvp_matvec E fs use_asym nrows ncols precision =
     (case matvec_args nrows ncols precision of
        Some m \<Rightarrow> (Inr (Message m), fs)
      | None \<Rightarrow>
          or_throw (MVPContext_Create (ce_seal_new E) 1) fs (\<lambda>mvp_context.
          or_throw (load_key_files E fs (cx_seal_context mvp_context)) fs (\<lambda>keys.
          case keys of
            Inl m \<Rightarrow> (Inr (Message m), fs)
          | Inr (evk, secret_key) \<Rightarrow>
              let (set_up, rt) = SetupEvalKey (ce_fpga E) (Some mvp_context) evk
              in api_call ''api::SetupEvalKey'' set_up fs (\<lambda>_.
                   multiply_random E fs use_asym rt secret_key (nat nrows) (nat ncols) precision))))"

section \<open>The program\<close>

text \<open>
  The arguments as the parser hands them over: the word for the action, if there is one, the switch and the three
  numbers; or the message of its exception. Every word that is not an action counts as \<open>gen\<close>.
\<close>

record cli_args =
  ca_action :: "string option"
  ca_asym :: bool
  ca_rows :: int
  ca_cols :: int
  ca_prec :: int

datatype exit_value = Exit nat cli_end | Usage string

definition choose_action :: "string \<Rightarrow> string" where
  "choose_action value = (if value \<in> set [''gen'', ''matvec''] then value else ''gen'')"

definition cli_main :: "cli_env \<Rightarrow> files \<Rightarrow> string + cli_args \<Rightarrow> exit_value outcome \<times> files" where
  "cli_main E fs args =
     (case args of
        Inl err \<Rightarrow> (Inr (Usage err), fs)
      | Inr a \<Rightarrow>
          let action = (case ca_action a of None \<Rightarrow> ''gen'' | Some value \<Rightarrow> choose_action value);
              (r, fs) = (if action = ''gen'' then mvp_keygen E fs
                         else if action = ''matvec'' then mvp_matvec E fs (ca_asym a) (ca_rows a) (ca_cols a) (ca_prec a)
                         else (Inr (Message ''exit(1)''), fs))
          in (obind r (\<lambda>x. Inr (Exit (if action = ''gen'' \<or> action = ''matvec'' then 0 else 1) x)), fs))"

end
