(* ===== verification/CliCorrect.thy ===== *)
theory CliCorrect
  imports Cli
begin

text \<open>
  Correctness of the command line tool: the keys that \<open>mvp_keygen\<close> stores are the ones \<open>mvp_matvec\<close> sets up, which
  arguments the tool accepts and the library then rejects, and what the reported error bounds.
\<close>

section \<open>The stored keys\<close>

lemma GenerateKey_eq: "sl_keygen (cx_seal_context rt) i = Inr sk \<Longrightarrow> GenerateKey (Some rt) i = Inr sk"
  by (simp add: GenerateKey_def)

lemma stored_keys_lemma:
  assumes "MVPContext_Create (ce_seal_new E) 1 = Inr rt" "ctx_ok rt" "fe_probe (ce_fpga E) = Probe_ok" "fe_ready (ce_fpga E) 0 \<noteq> None"
    and "sl_keygen (cx_seal_context rt) 0 = Inr sk" "sl_sk_valid (cx_seal_context rt) sk" "keys_ok (cx_seal_context rt) gk_ok pk_ok" "gk_ok gk" "pk_ok pk"
    and "sl_create_public_key (cx_seal_context rt) 0 sk = Inr pk" "sl_pk_data_valid (cx_seal_context rt) pk"
    and "sl_create_galois_keys (cx_seal_context rt) 0 sk galois_elts = Inr gk"
    and "\<forall>e \<in> set galois_elts. \<exists>k1 k2. gk e = Some [k1, k2] \<and> key_ok k1 \<and> key_ok k2"
    and "ce_can_write E kPriKeyPath" "ce_can_write E kPubKeyPath"
    and "ce_sk_save E sk = Inr bytes" "ce_sk_load E (cx_seal_context rt) bytes = Inr sk"
    and "\<forall>s. EncodeEvalKey (cx_seal_context rt) gk pk = Inr [s] \<longrightarrow> length s \<le> 2 ^ 22"
  shows "\<exists>fs' evk rt'. mvp_keygen E fs = (Inr Key_files_saved, fs') \<and>
    load_key_files E fs' (cx_seal_context rt) = Inr (Inr (evk, sk)) \<and>
    SetupEvalKey (ce_fpga E) (Some rt) evk = (Inr (), Some rt') \<and> IsFPGAEnabled rt' \<and> MVPContext_public_key rt' = Inr pk"
proof -
  obtain s rt' where s: "DeriveEvalKey (Some rt) sk 0 = Inr [s]" "\<forall>rest. SetupEvalKey (ce_fpga E) (Some rt) [s @ rest] = (Inr (), Some rt')"
      "IsFPGAEnabled rt'" "MVPContext_public_key rt' = Inr pk"
    using derived_keys_lemma [OF assms(2-4,6-13)] by blast
  have enc: "EncodeEvalKey (cx_seal_context rt) gk pk = Inr [s]"
    using s(1) assms(6,10,12) by (simp add: DeriveEvalKey_def)
  have "s \<noteq> []" using enc by (auto simp: EncodeEvalKey_def outcome_simps) (auto simp: version_bytes_def)
  then have size: "0 < length s" "length s \<le> 2 ^ 22" using assms(18) enc by simp_all
  define fs1 where "fs1 = (fs(kPriKeyPath \<mapsto> []))(kPriKeyPath \<mapsto> bytes)"
  have pri: "save_private_key E fs sk = (Inr (), fs1)"
    using assms(14,16) by (simp add: save_private_key_def open_out_def fs1_def)
  define fs2 where "fs2 = fs1(kPubKeyPath \<mapsto> [])"
  have fs2: "snd (open_out (ce_can_write E) fs1 kPubKeyPath) = fs2" using assms(15) by (simp add: open_out_def fs2_def)
  have w: "keys_writable [s]" using size by (simp add: keys_writable_def)
  have saved: "save_eval_key (ce_can_write E) fs2 [s] kPubKeyPath = (True, fs2(kPubKeyPath \<mapsto> key_file [s]))"
    using save_eval_key_file [of "ce_can_write E" kPubKeyPath "[s]" fs2] assms(15) w by blast
  define fs' where "fs' = fs2(kPubKeyPath \<mapsto> key_file [s])"
  have gen: "mvp_keygen E fs = (Inr Key_files_saved, fs')"
    using assms(1) GenerateKey_eq [OF assms(5)] s(1) pri fs2 saved
    by (simp add: mvp_keygen_def or_throw_def api_call_def fs'_def)
  have files: "fs' kPubKeyPath = Some (key_file [s])" "fs' kPriKeyPath = Some bytes"
    by (simp_all add: fs'_def fs2_def fs1_def kPriKeyPath_def kPubKeyPath_def)
  have "load_eval_key fs' kPubKeyPath [] = load_keys [0] (key_record s, True) [[]]"
    using load_eval_key_content [of fs' kPubKeyPath "[s]" "[]", OF files(1) w] by simp
  also have "\<dots> = (Inr True, [s])"
    using load_one_key [of s 0 "[]" "[]" "[[]]"] size by (simp add: key_ok_size_def)
  finally have "load_key_files E fs' (cx_seal_context rt) = Inr (Inr ([s], sk))"
    using files assms(17) by (simp add: load_key_files_def)
  moreover have "SetupEvalKey (ce_fpga E) (Some rt) [s] = (Inr (), Some rt')" using s(2) by (metis append_Nil2)
  ultimately show ?thesis using gen s(3,4) by blast
qed

text \<open>
  C13. The two commands fit together: when the key generator of SEAL and the card work as in the theorem on derived
  keys, both files can be written, SEAL reads back the secret key it has written, and the evaluation keys take at
  most \<open>2 ^ 22\<close> bytes, \<open>mvp_keygen\<close> saves both files whatever was in them, \<open>mvp_matvec\<close> then loads that secret key and
  those evaluation keys, and setting them up enables the card and installs the public key that was derived.
\<close>

theorem stored_keys_enable_card:
  assumes "MVPContext_Create (ce_seal_new E) 1 = Inr rt" "ctx_ok rt" "fe_probe (ce_fpga E) = Probe_ok" "fe_ready (ce_fpga E) 0 \<noteq> None"
    and "sl_keygen (cx_seal_context rt) 0 = Inr sk" "sl_sk_valid (cx_seal_context rt) sk" "keys_ok (cx_seal_context rt) gk_ok pk_ok" "gk_ok gk" "pk_ok pk"
    and "sl_create_public_key (cx_seal_context rt) 0 sk = Inr pk" "sl_pk_data_valid (cx_seal_context rt) pk"
    and "sl_create_galois_keys (cx_seal_context rt) 0 sk galois_elts = Inr gk"
    and "\<forall>e \<in> set galois_elts. \<exists>k1 k2. gk e = Some [k1, k2] \<and> key_ok k1 \<and> key_ok k2"
    and "ce_can_write E kPriKeyPath" "ce_can_write E kPubKeyPath"
    and "ce_sk_save E sk = Inr bytes" "ce_sk_load E (cx_seal_context rt) bytes = Inr sk"
    and "\<forall>s. EncodeEvalKey (cx_seal_context rt) gk pk = Inr [s] \<longrightarrow> length s \<le> 2 ^ 22"
  shows "\<exists>fs' evk rt'. mvp_keygen E fs = (Inr Key_files_saved, fs') \<and>
    load_key_files E fs' (cx_seal_context rt) = Inr (Inr (evk, sk)) \<and>
    SetupEvalKey (ce_fpga E) (Some rt) evk = (Inr (), Some rt') \<and> IsFPGAEnabled rt' \<and> MVPContext_public_key rt' = Inr pk"
  by (rule stored_keys_lemma) (fact assms)+

definition cli_ref :: cli_env where
  "cli_ref = \<lparr>ce_can_write = (\<lambda>_. True), ce_seal_new = (\<lambda>sch n ms. Inr (lib_keys gk_ones)),
     ce_sk_save = (\<lambda>sk. Inr ''k''), ce_sk_load = (\<lambda>L s. Inr (pt_ref [1, 0, 1, 0, 1, 0])),
     ce_fpga = env_ref 1 3, ce_slot = 0, ce_random = (\<lambda>_. Finite (- 1) (- 1)), ce_cast = (\<lambda>_. 7)\<rparr>"

lemma cli_ref_context:
  obtains rt where "MVPContext_Create (ce_seal_new cli_ref) 1 = Inr rt" "ctx_ok rt" "cx_seal_context rt = lib_keys gk_ones"
  using MVPContext_new_ok [OF lib_ok_keys, of gk_ones 1] that by (auto simp: MVPContext_Create_def cli_ref_def)

theorem stored_keys_enable_card_witness:
  "\<exists>rt fs' evk rt'. mvp_keygen cli_ref (\<lambda>_. Some ''old'') = (Inr Key_files_saved, fs') \<and>
    load_key_files cli_ref fs' (lib_keys gk_ones) = Inr (Inr (evk, pt_ref [1, 0, 1, 0, 1, 0])) \<and>
    SetupEvalKey (env_ref 1 3) (Some rt) evk = (Inr (), Some rt') \<and> IsFPGAEnabled rt'"
proof -
  obtain rt where rt: "MVPContext_Create (ce_seal_new cli_ref) 1 = Inr rt" "ctx_ok rt" "cx_seal_context rt = lib_keys gk_ones"
    by (rule cli_ref_context)
  have sel: "ce_fpga cli_ref = env_ref 1 3" "ce_can_write cli_ref = (\<lambda>_. True)" by (simp_all add: cli_ref_def)
  have "EncodeEvalKey (lib_keys gk_ones) gk_ones (zero_ct (parms_id 3) 3) = Inr [version_bytes current_version @ ''G'' @ ''P'']"
    by (simp add: EncodeEvalKey_def lib_keys_def lib_ref_def)
  then have short: "\<forall>s. EncodeEvalKey (cx_seal_context rt) gk_ones (zero_ct (parms_id 3) 3) = Inr [s] \<longrightarrow> length s \<le> 2 ^ 22"
    by (simp add: rt(3))
  show ?thesis
    using stored_keys_enable_card [OF rt(1,2) _ _ _ _ keys_ok_ref [of gk_ones, folded rt(3)] refl refl, where fs = "\<lambda>_. Some ''old''" and sk = "pt_ref [1, 0, 1, 0, 1, 0]" and bytes = "''k''"]
      env_ready all_ones_key_ok short
    by (simp add: sel rt(3)) (force simp: lib_keys_def lib_ref_def cli_ref_def gk_ones_def numeral_2_eq_2)
qed

section \<open>Arguments the tool accepts and the library rejects\<close>

lemma SetupEvalKey_success:
  assumes "SetupEvalKey E (Some rt) evk = (Inr (), Some rt')"
  shows "IsFPGAEnabled rt'" "cx_seal_context rt' = cx_seal_context rt"
  using assms
  by (auto simp: SetupEvalKey_def SetupPublicKey_def IsFPGAEnabled_def InitFPGAKernel_def Let_def split: sum.splits prod.splits if_splits)

lemma api_call_Inr: "api_call name (Inr x) fs k = k x"
  by (simp add: api_call_def)

lemma random_words_ok:
  assumes "0 \<le> precision" "precision < 63"
  shows "random_words E precision draws
    = Inr (map (\<lambda>i. uint64_of_double E (double_mult (ce_random E i) (Finite (2 ^ nat precision) 0))) draws)"
  unfolding random_words_def using assms by (intro omap_all_Inr) (simp add: shifted_one_def)

lemma matvec_args_ok:
  assumes "matvec_args nrows ncols precision = None" "- (2 ^ 31) \<le> ncols" "ncols < 2 ^ 31" "nrows < 2 ^ 31"
  shows "1 \<le> nrows" "nrows \<le> 4096" "1 \<le> ncols" "ncols \<le> 16384" "precision \<le> 30"
proof -
  have "0 < ncols" if "ncols mod 2 ^ 32 \<le> 16384" "ncols \<noteq> 0"
  proof (rule ccontr)
    assume "\<not> 0 < ncols"
    then have "ncols mod 2 ^ 32 = ncols + 2 ^ 32" using that(2) assms(2) by (subst mod_add_self2 [symmetric], subst mod_pos_pos_trivial) simp_all
    then show False using that(1) assms(2) by simp
  qed
  then show "1 \<le> nrows" "nrows \<le> 4096" "1 \<le> ncols" "ncols \<le> 16384" "precision \<le> 30"
    using assms by (auto simp: matvec_args_def kMaxNumRows_def kMaxNumCols_def kPolyDegree_def mod_pos_pos_trivial split: if_splits)
qed

text \<open>What the constructors of the two sides make of the shapes.\<close>

lemma Encrypt_too_large:
  assumes "sc_parameters_set (sl_ctx (cx_seal_context rt))" "sc_scheme (sl_ctx (cx_seal_context rt)) = ckks"
    and "1 \<le> mi_nrows meta" "mi_nrows meta \<le> 4096" "1 \<le> mi_ncols meta" "mi_ncols meta \<le> 16384" "50331648 \<le> mi_nrows meta * mi_ncols meta"
  shows "api_Encrypt_pk (Some rt) v meta = Inl (Throws (Invalid_argument ''MVPPrivImpl: not supported yet''))"
    and "api_Encrypt_sk (Some rt) v meta sk = Inl (Throws (Invalid_argument ''MVPPrivImpl: not supported yet''))"
  using assms
  by (simp_all add: api_Encrypt_pk_def api_Encrypt_sk_def impl_of_def MVPPublicImpl_new_def pub_check_config_def Let_def
      kMaxNumRows_def kMaxNumCols_def kPolyDegree_def mult.commute)

lemma MatVec_one_row:
  assumes "sc_parameters_set (sl_ctx (cx_seal_context rt))" "IsFPGAEnabled rt" "mi_nrows meta = 1" "1 \<le> mi_ncols meta"
  shows "fst (api_MatVec F b (Some rt) mat ct meta s) = Inl (Throws (Invalid_argument ''MVPPrivImpl: nrows out-of-bound''))"
  using assms by (simp add: api_MatVec_def with_impl_def MVPPrivImpl_new_def priv_check_config_def Let_def)

text \<open>
  C26. Shapes that the checks of \<open>mvp_matvec\<close> accept and the library rejects, with keys that load and a card that is
  ready. When rows times columns reach \<open>50331648\<close>, the tool ends with the exception that the constructor of the vector side
  throws. With a single row, its end is that of the encryption of the random vector when this fails, and
  otherwise the exception that the constructor of the matrix side throws. No file is written in either case, and neither exception
  is caught.
\<close>

theorem accepted_without_product:
  fixes E fs use_asym nrows ncols precision
  defines "vec \<equiv> map (\<lambda>i. uint64_of_double E (double_mult (ce_random E i) (Finite (2 ^ nat precision) 0)))
      [nat nrows * nat ncols..<nat nrows * nat ncols + nat ncols]"
    and "meta \<equiv> \<lparr>mi_is_transposed = False, mi_base_mod_nbits = 64, mi_nrows = nat nrows, mi_ncols = nat ncols\<rparr>"
  assumes args: "matvec_args nrows ncols precision = None" "0 < precision" "- (2 ^ 31) \<le> ncols" "ncols < 2 ^ 31" "nrows < 2 ^ 31"
    and ctx: "MVPContext_Create (ce_seal_new E) 1 = Inr rt" "ctx_ok rt" "sc_scheme (sl_ctx (cx_seal_context rt)) = ckks"
    and keys: "load_key_files E fs (cx_seal_context rt) = Inr (Inr (evk, sk))"
    and set_up: "SetupEvalKey (ce_fpga E) (Some rt) evk = (Inr (), Some rt')"
  shows "(50331648 \<le> nrows * ncols \<longrightarrow>
      mvp_matvec E fs use_asym nrows ncols precision = (Inl (Throws (Invalid_argument ''MVPPrivImpl: not supported yet'')), fs)) \<and>
    (nrows = 1 \<longrightarrow>
      mvp_matvec E fs use_asym nrows ncols precision =
        api_call ''api::Encrypt'' (if use_asym then api_Encrypt_pk (Some rt') vec meta else api_Encrypt_sk (Some rt') vec meta sk) fs
          (\<lambda>_. (Inl (Throws (Invalid_argument ''MVPPrivImpl: nrows out-of-bound'')), fs)))"
proof -
  note shape = matvec_args_ok [OF args(1,3-5)]
  have set: "sc_parameters_set (sl_ctx (cx_seal_context rt'))" "sc_scheme (sl_ctx (cx_seal_context rt')) = ckks" "IsFPGAEnabled rt'"
    using ctx(2,3) SetupEvalKey_success [OF set_up] by (simp_all add: ctx_ok_def lib_ok_def seal_context_ok_def)
  define mat where "mat = map (\<lambda>i. uint64_of_double E (double_mult (ce_random E i) (Finite (2 ^ nat precision) 0))) [0..<nat nrows * nat ncols]"
  have views: "MatView_new (Some mat) (nat nrows) (nat ncols) = Inr \<lparr>mv_data = mat, mv_nrows = nat nrows, mv_ncols = nat ncols\<rparr>"
    "VecView_new (Some vec) (nat ncols) = Inr vec"
    using shape by (simp_all add: MatView_new_def VecView_new_def mat_def vec_def)
  have words: "random_words E precision [0..<nat nrows * nat ncols] = Inr mat"
    "random_words E precision [nat nrows * nat ncols..<nat nrows * nat ncols + nat ncols] = Inr vec"
    using args(2) shape by (simp_all add: random_words_ok mat_def vec_def)
  have run: "mvp_matvec E fs use_asym nrows ncols precision =
      api_call ''api::Encrypt'' (if use_asym then api_Encrypt_pk (Some rt') vec meta else api_Encrypt_sk (Some rt') vec meta sk) fs (\<lambda>ct.
      api_call ''api::MatVec'' (fst (api_MatVec (ce_fpga E) (ce_slot E) (Some rt') \<lparr>mv_data = mat, mv_nrows = nat nrows, mv_ncols = nat ncols\<rparr>
         ct meta \<lparr>cp_prng = None, cp_bytes_gen = 0, cp_created = 0\<rparr>)) fs (\<lambda>out.
      api_call ''api::DecryptMatVec'' (api_DecryptMatVec (Some rt') out meta sk (nat nrows)) fs (\<lambda>matvec.
        report_product E fs \<lparr>mv_data = mat, mv_nrows = nat nrows, mv_ncols = nat ncols\<rparr> vec \<lparr>vb_data = matvec, vb_len = nat nrows\<rparr> precision)))"
    using args(1) ctx(1) keys set_up views words by (simp add: mvp_matvec_def or_throw_def multiply_random_def api_call_Inr Let_def meta_def)
  have large: "50331648 \<le> mi_nrows meta * mi_ncols meta" if "50331648 \<le> nrows * ncols"
  proof -
    have "int (nat nrows * nat ncols) = nrows * ncols" using shape by simp
    then have "int 50331648 \<le> int (nat nrows * nat ncols)" using that by linarith
    then show ?thesis unfolding meta_def by (simp only: of_nat_le_iff MVPMetaInfo.select_convs)
  qed
  have "1 \<le> mi_nrows meta" "mi_nrows meta \<le> 4096" "1 \<le> mi_ncols meta" "mi_ncols meta \<le> 16384" using shape by (simp_all add: meta_def)
  note big = Encrypt_too_large [OF set(1,2) this] and one = MatVec_one_row [OF set(1,3), of meta]
  show ?thesis
  proof (intro conjI impI)
    assume "50331648 \<le> nrows * ncols"
    from big [OF large [OF this]] show "mvp_matvec E fs use_asym nrows ncols precision = (Inl (Throws (Invalid_argument ''MVPPrivImpl: not supported yet'')), fs)"
      unfolding run by (simp add: api_call_def)
  next
    assume "nrows = 1"
    then have "mi_nrows meta = 1" "1 \<le> mi_ncols meta" using shape by (simp_all add: meta_def)
    from one [OF this] show "mvp_matvec E fs use_asym nrows ncols precision =
        api_call ''api::Encrypt'' (if use_asym then api_Encrypt_pk (Some rt') vec meta else api_Encrypt_sk (Some rt') vec meta sk) fs
          (\<lambda>_. (Inl (Throws (Invalid_argument ''MVPPrivImpl: nrows out-of-bound'')), fs))"
      unfolding run by (simp add: api_call_def)
  qed
qed

lemma cli_ref_stored_keys:
  obtains rt fs evk rt' where "MVPContext_Create (ce_seal_new cli_ref) 1 = Inr rt" "ctx_ok rt" "cx_seal_context rt = lib_keys gk_ones"
    "load_key_files cli_ref fs (cx_seal_context rt) = Inr (Inr (evk, pt_ref [1, 0, 1, 0, 1, 0]))"
    "SetupEvalKey (ce_fpga cli_ref) (Some rt) evk = (Inr (), Some rt')"
proof -
  obtain rt where rt: "MVPContext_Create (ce_seal_new cli_ref) 1 = Inr rt" "ctx_ok rt" "cx_seal_context rt = lib_keys gk_ones"
    by (rule cli_ref_context)
  have sel: "ce_fpga cli_ref = env_ref 1 3" "ce_can_write cli_ref = (\<lambda>_. True)" by (simp_all add: cli_ref_def)
  have "EncodeEvalKey (lib_keys gk_ones) gk_ones (zero_ct (parms_id 3) 3) = Inr [version_bytes current_version @ ''G'' @ ''P'']"
    by (simp add: EncodeEvalKey_def lib_keys_def lib_ref_def)
  then have short: "\<forall>s. EncodeEvalKey (cx_seal_context rt) gk_ones (zero_ct (parms_id 3) 3) = Inr [s] \<longrightarrow> length s \<le> 2 ^ 22"
    by (simp add: rt(3))
  show thesis
    using stored_keys_lemma [OF rt(1,2) _ _ _ _ keys_ok_ref [of gk_ones, folded rt(3)] refl refl, where fs = "\<lambda>_. None" and sk = "pt_ref [1, 0, 1, 0, 1, 0]" and bytes = "''k''"]
      env_ready all_ones_key_ok short that [OF rt]
    by (simp add: sel rt(3)) (force simp: lib_keys_def lib_ref_def cli_ref_def gk_ones_def numeral_2_eq_2)
qed

theorem accepted_without_product_witness:
  "\<exists>fs rt' evk. load_key_files cli_ref fs (lib_keys gk_ones) = Inr (Inr (evk, pt_ref [1, 0, 1, 0, 1, 0])) \<and>
    mvp_matvec cli_ref fs True 4096 12288 3 = (Inl (Throws (Invalid_argument ''MVPPrivImpl: not supported yet'')), fs) \<and>
    mvp_matvec cli_ref fs False 1 2 3 =
      api_call ''api::Encrypt'' (api_Encrypt_sk (Some rt') [7, 7] \<lparr>mi_is_transposed = False, mi_base_mod_nbits = 64, mi_nrows = 1, mi_ncols = 2\<rparr>
          (pt_ref [1, 0, 1, 0, 1, 0])) fs
        (\<lambda>_. (Inl (Throws (Invalid_argument ''MVPPrivImpl: nrows out-of-bound'')), fs))"
proof -
  obtain rt fs evk rt' where rt: "MVPContext_Create (ce_seal_new cli_ref) 1 = Inr rt" "ctx_ok rt" "cx_seal_context rt = lib_keys gk_ones"
    and k: "load_key_files cli_ref fs (cx_seal_context rt) = Inr (Inr (evk, pt_ref [1, 0, 1, 0, 1, 0]))"
    and set: "SetupEvalKey (ce_fpga cli_ref) (Some rt) evk = (Inr (), Some rt')"
    by (rule cli_ref_stored_keys)
  have scheme: "sc_scheme (sl_ctx (cx_seal_context rt)) = ckks"
    by (simp add: rt(3) lib_keys_def) (simp add: rt_ref_def mvp_ctx_def)
  have args: "matvec_args 4096 12288 3 = None" "matvec_args 1 2 3 = None"
    by (simp_all add: matvec_args_def kMaxNumRows_def kMaxNumCols_def kPolyDegree_def)
  have draw: "uint64_of_double cli_ref (double_mult (ce_random cli_ref i) (Finite (2 ^ nat 3) 0)) = 7" for i
  proof -
    have "double_mult (Finite (- 1) (- 1)) (Finite (2 ^ nat 3) 0) = Finite (- (2 ^ 52)) (- 50)"
      by code_simp
    then show ?thesis by (simp add: cli_ref_def uint64_of_double_def)
  qed
  note acc = accepted_without_product [OF _ _ _ _ _ rt(1,2) scheme k set]
  have "mvp_matvec cli_ref fs True 4096 12288 3 = (Inl (Throws (Invalid_argument ''MVPPrivImpl: not supported yet'')), fs)"
    by (rule acc [OF args(1), of True, THEN conjunct1, THEN mp]) simp_all
  moreover have "mvp_matvec cli_ref fs False 1 2 3 =
      api_call ''api::Encrypt'' (api_Encrypt_sk (Some rt') [7, 7] \<lparr>mi_is_transposed = False, mi_base_mod_nbits = 64, mi_nrows = 1, mi_ncols = 2\<rparr>
          (pt_ref [1, 0, 1, 0, 1, 0])) fs
        (\<lambda>_. (Inl (Throws (Invalid_argument ''MVPPrivImpl: nrows out-of-bound'')), fs))"
    using acc [OF args(2), of False, THEN conjunct2, THEN mp] unfolding draw by (simp add: upt_conv_Cons)
  ultimately show ?thesis using k [unfolded rt(3)] by blast
qed

section \<open>What the report says\<close>

lemma dot_u64_sum: "dot_u64 row v cs acc = acc + (\<Sum>c\<leftarrow>cs. row ! c * v ! c)"
  by (induction cs arbitrary: acc) (simp_all add: add.assoc)

lemma U64MatVec_ok:
  assumes "mat_wf mat" "length vec = mv_ncols mat"
  shows "U64MatVec mat vec = Inr (map (\<lambda>r. \<Sum>c<mv_ncols mat. mat_entry mat r c * vec ! c) [0..<mv_nrows mat])"
proof -
  have "obind (MatView_row_at mat r) (\<lambda>row. Inr (dot_u64 row vec [0..<mv_ncols mat] 0)) = Inr (\<Sum>c<mv_ncols mat. mat_entry mat r c * vec ! c)"
    if r: "r < mv_nrows mat" for r
  proof -
    obtain row where row: "MatView_row_at mat r = Inr row" "\<forall>c < mv_ncols mat. row ! c = mat_entry mat r c"
      using MatView_row_at_wf [OF assms(1) r] by blast
    have "(\<Sum>c\<leftarrow>[0..<mv_ncols mat]. row ! c * vec ! c) = (\<Sum>c<mv_ncols mat. mat_entry mat r c * vec ! c)"
      using row(2) by (simp add: interv_sum_list_conv_sum_set_nat atLeast0LessThan)
    then show ?thesis using row(1) by (simp add: dot_u64_sum)
  qed
  then have "omap (\<lambda>r. obind (MatView_row_at mat r) (\<lambda>row. Inr (dot_u64 row vec [0..<mv_ncols mat] 0))) [0..<mv_nrows mat]
      = Inr (map (\<lambda>r. \<Sum>c<mv_ncols mat. mat_entry mat r c * vec ! c) [0..<mv_nrows mat])"
    by (intro omap_all_Inr) simp
  then show ?thesis using assms(2) by (simp add: U64MatVec_def)
qed

lemma max_error_bounds:
  assumes "max_error ground_truth matvec is acc = Inr e"
  shows "acc \<le> e \<and> (\<forall>i \<in> set is. i < vb_len matvec \<and> \<bar>sint (ground_truth ! i - vb_data matvec ! i)\<bar> \<le> e)"
  using assms
proof (induction "is" arbitrary: acc)
  case (Cons i "is")
  have at: "VecBuffer_at matvec i = Inr (vb_data matvec ! i)" "i < vb_len matvec"
    using Cons.prems by (auto simp: VecBuffer_at_def outcome_simps split: if_splits)
  then have "max_error ground_truth matvec is (max acc \<bar>sint (ground_truth ! i - vb_data matvec ! i)\<bar>) = Inr e"
    using Cons.prems by (simp add: Let_def split: if_splits)
  from Cons.IH [OF this] show ?case using at(2) by simp
qed simp

lemma max_error_attained:
  assumes "max_error ground_truth matvec is acc = Inr e"
  shows "e = acc \<or> (\<exists>i \<in> set is. e = \<bar>sint (ground_truth ! i - vb_data matvec ! i)\<bar>)"
  using assms
proof (induction "is" arbitrary: acc)
  case (Cons i "is")
  have at: "VecBuffer_at matvec i = Inr (vb_data matvec ! i)"
    using Cons.prems by (auto simp: VecBuffer_at_def outcome_simps split: if_splits)
  then have "max_error ground_truth matvec is (max acc \<bar>sint (ground_truth ! i - vb_data matvec ! i)\<bar>) = Inr e"
    using Cons.prems by (simp add: Let_def split: if_splits)
  from Cons.IH [OF this] show ?case by (auto simp: max_def split: if_splits)
qed simp

lemma save_matrix_Inr_True:
  assumes "save_matrix can_write fs (Some xs) nrows ncols precision file = (Inr True, fs')"
  shows "nrows * ncols \<le> length xs" "precision < 63"
    "fs' = (fs(file \<mapsto> []))(file \<mapsto> matrix_text (Finite (2 ^ nat precision) 0) nrows ncols xs)"
  using assms by (auto simp: save_matrix_def open_out_def shifted_one_def split: if_splits)

lemma report_product_lemma:
  assumes mat: "mat_wf mat" "length vec = mv_ncols mat" "vb_len res = mv_nrows mat"
    and report: "report_product E fs mat vec res precision = (Inr (Products_saved e), fs')"
  defines "n \<equiv> mv_nrows mat" and "m \<equiv> mv_ncols mat" and "scale \<equiv> \<lambda>p. Finite (2 ^ nat p) 0"
    and "err \<equiv> \<lambda>r. \<bar>sint ((\<Sum>c<mv_ncols mat. mat_entry mat r c * vec ! c) - vb_data res ! r)\<bar>"
  shows "fs' kMatFile = Some (matrix_text (scale precision) n m (mv_data mat)) \<and> fs' kVecFile = Some (matrix_text (scale precision) 1 m vec) \<and>
    fs' kResultFile = Some (matrix_text (scale (precision * 2)) n 1 (vb_data res)) \<and> (\<forall>r < n. err r \<le> e) \<and> (\<exists>r < n. e = err r)"
proof -
  have pos: "0 < n" using mat(1) by (simp add: mat_wf_def n_def)
  obtain fs1 fs2 fs3 where saved: "save_matrix (ce_can_write E) fs (Some (mv_data mat)) n m precision kMatFile = (Inr True, fs1)"
      "save_matrix (ce_can_write E) fs1 (Some vec) 1 m precision kVecFile = (Inr True, fs2)"
      "save_matrix (ce_can_write E) fs2 (Some (vb_data res)) n 1 (precision * 2) kResultFile = (Inr True, fs3)"
    and fs3: "fs3 = fs'" and bound: "max_error (map (\<lambda>r. \<Sum>c<mv_ncols mat. mat_entry mat r c * vec ! c) [0..<n]) res [0..<n] 0 = Inr e"
    using report U64MatVec_ok [OF mat(1,2)]
    by (auto simp: report_product_def save_results_def Let_def or_throw_def n_def m_def split: prod.splits sum.splits if_splits)
  note s = save_matrix_Inr_True [OF saved(1)] save_matrix_Inr_True [OF saved(2)] save_matrix_Inr_True [OF saved(3)]
  have files: "fs' kMatFile = Some (matrix_text (scale precision) n m (mv_data mat))" "fs' kVecFile = Some (matrix_text (scale precision) 1 m vec)"
      "fs' kResultFile = Some (matrix_text (scale (precision * 2)) n 1 (vb_data res))"
    unfolding fs3 [symmetric] s(9) s(6) s(3) scale_def by (simp_all add: kMatFile_def kVecFile_def kResultFile_def)
  have le: "\<forall>r < n. err r \<le> e" using max_error_bounds [OF bound] by (simp add: err_def)
  moreover have "\<exists>r < n. e = err r"
  proof (cases "e = 0")
    case True
    moreover have "0 \<le> err 0" by (simp add: err_def)
    ultimately show ?thesis using le pos by (intro exI [of _ 0]) force
  next
    case False
    then show ?thesis using max_error_attained [OF bound] by (auto simp: err_def)
  qed
  ultimately show ?thesis using files by blast
qed

text \<open>
  C25. What a successful check proves: when the tool reports a maximal error, the matrix, the vector and the result
  are in their files, each printed at its own scale, every entry of the result differs from the dot product of that
  row with the vector modulo \<open>2 ^ 64\<close> by at most the reported number, read as a signed number, and some entry differs
  by exactly that number.
\<close>

theorem reported_error_is_maximal:
  assumes "mat_wf mat" "length vec = mv_ncols mat" "vb_len res = mv_nrows mat"
    and "report_product E fs mat vec res precision = (Inr (Products_saved e), fs')"
  shows "fs' kMatFile = Some (matrix_text (Finite (2 ^ nat precision) 0) (mv_nrows mat) (mv_ncols mat) (mv_data mat)) \<and>
    fs' kVecFile = Some (matrix_text (Finite (2 ^ nat precision) 0) 1 (mv_ncols mat) vec) \<and>
    fs' kResultFile = Some (matrix_text (Finite (2 ^ nat (precision * 2)) 0) (mv_nrows mat) 1 (vb_data res)) \<and>
    (\<forall>r < mv_nrows mat. \<bar>sint ((\<Sum>c<mv_ncols mat. mat_entry mat r c * vec ! c) - vb_data res ! r)\<bar> \<le> e) \<and>
    (\<exists>r < mv_nrows mat. e = \<bar>sint ((\<Sum>c<mv_ncols mat. mat_entry mat r c * vec ! c) - vb_data res ! r)\<bar>)"
  by (rule report_product_lemma [OF assms])

theorem reported_error_is_maximal_witness:
  "\<exists>fs'. report_product cli_ref (\<lambda>_. None) \<lparr>mv_data = [2, 3], mv_nrows = 1, mv_ncols = 2\<rparr> [5, 7] \<lparr>vb_data = [30], vb_len = 1\<rparr> 3
      = (Inr (Products_saved 1), fs') \<and> fs' kVecFile = Some (matrix_text (Finite 8 0) 1 2 [5, 7]) \<and> (1 :: int) = \<bar>sint (2 * 5 + 3 * 7 - 30 :: u64)\<bar>"
proof -
  let ?mat = "\<lparr>mv_data = [2, 3], mv_nrows = 1, mv_ncols = 2\<rparr> :: MatView" and ?res = "\<lparr>vb_data = [30], vb_len = 1\<rparr> :: VecBuffer"
  have wf: "mat_wf ?mat" "length [5, 7 :: u64] = mv_ncols ?mat" "vb_len ?res = mv_nrows ?mat" by (simp_all add: mat_wf_def)
  have two: "{..<2 :: nat} = {0, 1}" by auto
  obtain fs' where run: "report_product cli_ref (\<lambda>_. None) ?mat [5, 7] ?res 3 = (Inr (Products_saved 1), fs')"
    using U64MatVec_ok [OF wf(1,2)]
    by (simp add: report_product_def save_results_def save_matrix_def open_out_def shifted_one_def cli_ref_def or_throw_def
        VecBuffer_at_def mat_entry_def two)
  show ?thesis
    using reported_error_is_maximal [OF wf run] run by (intro exI [of _ fs']) (simp add: mat_entry_def two)
qed

section \<open>The action\<close>

text \<open>A misspelt action makes new keys, as no action does: the secret key that was stored is overwritten.\<close>

lemma unknown_action_makes_keys:
  assumes "ca_action a = Some value" "value \<noteq> ''matvec''"
  shows "cli_main E fs (Inr a) = cli_main E fs (Inr (a\<lparr>ca_action := None\<rparr>))"
    and "snd (cli_main E fs (Inr a)) = snd (mvp_keygen E fs)"
proof -
  have "choose_action value = ''gen''" using assms(2) by (simp add: choose_action_def)
  then show "cli_main E fs (Inr a) = cli_main E fs (Inr (a\<lparr>ca_action := None\<rparr>))"
    and "snd (cli_main E fs (Inr a)) = snd (mvp_keygen E fs)"
    using assms(1) by (simp_all add: cli_main_def Let_def split_def)
qed

end
