(* ===== verification/RootMath.thy ===== *)
theory RootMath
  imports Doubles
begin

text \<open>
  The floating-point helpers of \<open>util/math.h\<close>: integer square roots through \<open>std::sqrt\<close> on a \<open>double\<close>, and
  rounding to an integer. \<open>std::sqrt\<close> is the correctly rounded root of IEEE arithmetic; the type \<open>T\<close> is \<open>uint64_t\<close>.
\<close>

section \<open>Square roots of natural numbers\<close>

fun isqrt :: "nat \<Rightarrow> nat" where
  "isqrt n = (if n = 0 then 0 else let r = 2 * isqrt (n div 4) in if (r + 1) * (r + 1) \<le> n then r + 1 else r)"

declare isqrt.simps [simp del]

lemma isqrt_bounds: "isqrt n * isqrt n \<le> n \<and> n < (isqrt n + 1) * (isqrt n + 1)"
proof (induction n rule: isqrt.induct)
  case (1 n)
  show ?case
  proof (cases "n = 0")
    case False
    let ?s = "isqrt (n div 4)"
    have s: "?s * ?s \<le> n div 4" "n div 4 < (?s + 1) * (?s + 1)" using 1 [OF False] by simp_all
    have "4 * (?s * ?s) \<le> n" using s(1) by linarith
    moreover have "n < 4 * ((?s + 1) * (?s + 1))" using s(2) by linarith
    ultimately have "(2 * ?s) * (2 * ?s) \<le> n" "n < (2 * ?s + 2) * (2 * ?s + 2)" by (simp_all add: algebra_simps)
    then show ?thesis using False by (subst (1 2 3 4) isqrt.simps) (simp add: Let_def)
  qed (simp add: isqrt.simps)
qed

lemma isqrt_eqI:
  assumes "r * r \<le> n" "n < (r + 1) * (r + 1)"
  shows "isqrt n = r"
proof (rule antisym)
  have "isqrt n * isqrt n < (r + 1) * (r + 1)" using isqrt_bounds [of n] assms(2) by linarith
  then show "isqrt n \<le> r" by (metis Suc_eq_plus1 less_Suc_eq_le mult_le_mono not_less)
  have "r * r < (isqrt n + 1) * (isqrt n + 1)" using isqrt_bounds [of n] assms(1) by linarith
  then show "r \<le> isqrt n" by (metis Suc_eq_plus1 less_Suc_eq_le mult_le_mono not_less)
qed

section \<open>The operations on floating-point numbers\<close>

text \<open>Half of the square root, to the nearest integer, ties to even.\<close>

definition nearest_half_root :: "nat \<Rightarrow> nat" where
  "nearest_half_root M = (let q = isqrt (M div 4)
     in if (2 * q + 1) * (2 * q + 1) < M \<or> (2 * q + 1) * (2 * q + 1) = M \<and> odd q then q + 1 else q)"

text \<open>
  The radicand is scaled to 107 or 108 bits and an even exponent, so that half of its root has 53 bits before the
  point.
\<close>

fun double_sqrt :: "double \<Rightarrow> double" where
  "double_sqrt (Finite m e) =
     (if m < 0 then Nonfinite else if m = 0 then Finite 0 0
      else let t = 108 - int (floorlog 2 (nat m)); t = (if even (e - t) then t else t - 1)
           in Finite (int (nearest_half_root (nat m * 2 ^ nat t))) ((e - t) div 2 + 1))"
| "double_sqrt Nonfinite = Nonfinite"

definition floor_of :: "int \<Rightarrow> int \<Rightarrow> int" where
  "floor_of m e = (if 0 \<le> e then m * 2 ^ nat e else m div 2 ^ nat (- e))"

definition ceil_of :: "int \<Rightarrow> int \<Rightarrow> int" where
  "ceil_of m e = - floor_of (- m) e"

definition u64_of_int :: "int \<Rightarrow> u64 outcome" where
  "u64_of_int v = (if 0 \<le> v \<and> v < 2 ^ 64 then Inr (word_of_int v) else Inl (Undefined ''static_cast<T>''))"

definition FloorSqrt :: "u64 \<Rightarrow> u64 outcome" where
  "FloorSqrt n = (case double_sqrt (round_ratio 53 (uint n) 1 0) of
     Finite m e \<Rightarrow> u64_of_int (floor_of m e) | Nonfinite \<Rightarrow> Inl (Undefined ''static_cast<T>''))"

definition CeilSqrt :: "u64 \<Rightarrow> u64 outcome" where
  "CeilSqrt n = (case double_sqrt (round_ratio 53 (uint n) 1 0) of
     Finite m e \<Rightarrow> u64_of_int (ceil_of m e) | Nonfinite \<Rightarrow> Inl (Undefined ''static_cast<T>''))"

text \<open>\<open>std::llrint\<close> in the default rounding mode: to the nearest integer, halves to even.\<close>

fun RInt :: "double \<Rightarrow> u64 outcome" where
  "RInt (Finite m e) =
     (let v = (if 0 \<le> e then m * 2 ^ nat e else round_even m (2 ^ nat (- e)))
      in if - (2 ^ 63) \<le> v \<and> v < 2 ^ 63 then Inr (word_of_int v) else Inl (Undefined ''std::llrint''))"
| "RInt Nonfinite = Inl (Undefined ''std::llrint'')"

section \<open>The roots are exact below 2^52\<close>

lemma nearest_half_root_bounds:
  fixes M :: nat
  defines "q \<equiv> nearest_half_root M"
  shows "M \<le> (2 * q + 1) * (2 * q + 1)" and "0 < q \<Longrightarrow> (2 * q - 1) * (2 * q - 1) \<le> M"
proof -
  let ?q = "isqrt (M div 4)"
  have "?q * ?q \<le> M div 4" "M div 4 < (?q + 1) * (?q + 1)" using isqrt_bounds [of "M div 4"] by simp_all
  then have b: "4 * (?q * ?q) \<le> M" "M < 4 * ((?q + 1) * (?q + 1))" by linarith+
  show "M \<le> (2 * q + 1) * (2 * q + 1)"
    using b(2) by (auto simp: q_def nearest_half_root_def Let_def algebra_simps)
  show "(2 * q - 1) * (2 * q - 1) \<le> M" if "0 < q"
  proof (cases "q = ?q")
    case True
    have "(2 * ?q - 1) * (2 * ?q - 1) \<le> (2 * ?q) * (2 * ?q)" by (intro mult_le_mono) simp_all
    then show ?thesis using b(1) by (simp add: True)
  next
    case False
    then have "q = ?q + 1" "(2 * ?q + 1) * (2 * ?q + 1) \<le> M"
      by (auto simp: q_def nearest_half_root_def Let_def split: if_splits)
    then show ?thesis by simp
  qed
qed

text \<open>An integer below \<open>2 ^ 53\<close> is converted exactly.\<close>

lemma round_ratio_exact:
  assumes "0 < n" "n < 2 ^ 53"
  shows "floorlog 2 n \<le> 53" and "round_ratio 53 (int n) 1 0 = Finite (int n * 2 ^ (53 - floorlog 2 n)) (int (floorlog 2 n) - 53)"
proof -
  let ?l = "floorlog 2 n"
  have b: "2 ^ (?l - 1) \<le> n" "n < 2 ^ ?l" using floorlog_bounds [of n 2] assms(1) by simp_all
  have l: "0 < ?l" using assms(1) by (simp add: floorlog_def)
  have "(2 :: nat) ^ (?l - 1) < 2 ^ 53" using b(1) assms(2) by linarith
  then have "?l - 1 < 53" by (rule power_less_imp_less_exp [rotated]) simp
  then have l53: "?l \<le> 53" by simp
  have "(2 :: int) ^ 53 = 2 ^ (?l - 1) * 2 ^ (54 - ?l)" using l l53 unfolding power_add [symmetric] by simp
  also have "\<dots> \<le> int n * 2 ^ (54 - ?l)"
  proof (rule mult_right_mono)
    have "int (2 ^ (?l - 1)) \<le> int n" using b(1) by (simp only: of_nat_le_iff)
    then show "2 ^ (?l - 1) \<le> int n" by (simp only: of_nat_power of_nat_numeral)
  qed simp
  finally have big: "2 ^ 53 \<le> int n * 2 ^ (54 - ?l)" .
  have one: "floorlog 2 (nat 1) = 1" by (simp add: floorlog_def)
  have q: "quotient_at (int n) 1 (int ?l - 54) = (int n * 2 ^ (54 - ?l), 1)" "quotient_at (int n) 1 (int ?l - 53) = (int n * 2 ^ (53 - ?l), 1)"
    using l53 by (simp_all add: quotient_at_def nat_diff_distrib')
  have t: "int ?l - int 1 - int 53 = int ?l - 54" "int ?l - 54 + 1 = int ?l - 53" by simp_all
  have n: "int n \<noteq> 0" "\<bar>int n\<bar> = int n" "sgn (int n) = 1" "nat (int n) = n" using assms(1) by simp_all
  show "round_ratio 53 (int n) 1 0 = Finite (int n * 2 ^ (53 - ?l)) (int ?l - 53)"
    unfolding round_ratio_def Let_def n one t q prod.case mult_1_right if_P [OF big] by (simp add: n(1) round_even_def del: of_nat_eq_0_iff)
  show "?l \<le> 53" by (rule l53)
qed

lemma isqrt_less:
  assumes "n < 2 ^ 52"
  shows "isqrt n < 2 ^ 26"
proof (rule ccontr)
  assume "\<not> isqrt n < 2 ^ 26"
  then have "2 ^ 26 * 2 ^ 26 \<le> isqrt n * isqrt n" by (intro mult_le_mono) simp_all
  then show False using isqrt_bounds [of n] assms by simp
qed

lemma root_shape:
  assumes "0 < n" "n < 2 ^ 53"
  defines "g \<equiv> (108 - floorlog 2 n) div 2"
  shows "1 \<le> g" and "double_sqrt (round_ratio 53 (int n) 1 0) = Finite (int (nearest_half_root (n * 4 ^ g))) (1 - int g)"
proof -
  define l where "l = floorlog 2 n"
  have l: "l \<le> 53" and r: "round_ratio 53 (int n) 1 0 = Finite (int n * 2 ^ (53 - l)) (int l - 53)"
    using round_ratio_exact [OF assms(1,2)] by (simp_all add: l_def)
  then show "1 \<le> g" by (simp add: g_def l_def)
  have "nat (int n * 2 ^ (53 - l)) = n * 2 ^ (53 - l)" by (simp add: nat_mult_distrib nat_power_eq)
  moreover have "floorlog 2 (n * 2 ^ (53 - l)) = 53" using assms(1) l by (simp add: l_def)
  ultimately have m: "nat (int n * 2 ^ (53 - l)) = n * 2 ^ (53 - l)" "floorlog 2 (n * 2 ^ (53 - l)) = 53" by simp_all
  define t where "t = (if even (int l - 53 - 55) then 55 else 54 :: int)"
  have g: "g = (108 - l) div 2" by (simp add: g_def l_def)
  have t: "53 - l + nat t = 2 * g" "(int l - 53 - t) div 2 + 1 = 1 - int g"
    using l unfolding t_def g by presburger+
  have "n * 2 ^ (53 - l) * 2 ^ nat t = n * 4 ^ g"
    using t(1) by (simp add: mult.assoc power_mult flip: power_add)
  moreover have "\<not> int n * 2 ^ (53 - l) < 0" "int n * 2 ^ (53 - l) \<noteq> 0" using assms(1) by (simp_all add: mult_less_0_iff)
  moreover have "(if even (int l - 53 - (108 - int 53)) then 108 - int 53 else 108 - int 53 - 1) = t" by (simp add: t_def)
  ultimately show "double_sqrt (round_ratio 53 (int n) 1 0) = Finite (int (nearest_half_root (n * 4 ^ g))) (1 - int g)"
    unfolding r double_sqrt.simps m Let_def using t(2) by (simp only: if_False)
qed

lemma root_room:
  assumes "0 < n" "n < 2 ^ 52"
  shows "2 * (isqrt n + 1) \<le> 2 ^ ((108 - floorlog 2 n) div 2)"
proof -
  have "(2 :: nat) ^ (floorlog 2 n - 1) < 2 ^ 52" using floorlog_bounds [of n 2] assms by simp
  then have "floorlog 2 n - 1 < 52" by (rule power_less_imp_less_exp [rotated]) simp
  then have "28 \<le> (108 - floorlog 2 n) div 2" by linarith
  then have "(2 :: nat) ^ 28 \<le> 2 ^ ((108 - floorlog 2 n) div 2)" by (intro power_increasing) simp_all
  then show ?thesis using isqrt_less [OF assms(2)] by simp
qed

text \<open>Half of the root of \<open>n * 4 ^ g\<close> lies where the root of \<open>n\<close> does.\<close>

lemma half_root_window:
  assumes "1 \<le> g" "2 * (isqrt n + 1) \<le> 2 ^ g"
  defines "q \<equiv> nearest_half_root (n * 4 ^ g)" and "h \<equiv> 2 ^ (g - 1)"
  shows "isqrt n * h \<le> q" and "q < (isqrt n + 1) * h" and "q = isqrt n * h \<longleftrightarrow> n = isqrt n * isqrt n"
proof -
  let ?s = "isqrt n" and ?G = "(2 :: nat) ^ g"
  have G: "?G = 2 * h" using assms(1) by (simp add: h_def flip: power_Suc)
  have M: "n * 4 ^ g = n * (?G * ?G)" by (simp flip: power_mult_distrib)
  have s: "?s * ?s \<le> n" "n < (?s + 1) * (?s + 1)" using isqrt_bounds [of n] by simp_all
  have q: "n * (?G * ?G) \<le> (2 * q + 1) * (2 * q + 1)" "0 < q \<Longrightarrow> (2 * q - 1) * (2 * q - 1) \<le> n * (?G * ?G)"
    using nearest_half_root_bounds [of "n * 4 ^ g"] by (simp_all add: q_def M)
  show low: "?s * h \<le> q"
  proof (rule ccontr)
    assume "\<not> ?s * h \<le> q"
    then have "2 * q + 1 < ?s * ?G" by (simp add: G)
    then have "(2 * q + 1) * (2 * q + 1) < (?s * ?G) * (?s * ?G)" by (intro mult_strict_mono') simp_all
    also have "\<dots> \<le> n * (?G * ?G)" using mult_le_mono1 [OF s(1), of "?G * ?G"] by (simp add: algebra_simps)
    finally show False using q(1) by simp
  qed
  show "q < (?s + 1) * h"
  proof (rule ccontr)
    assume "\<not> q < (?s + 1) * h"
    then have le: "(?s + 1) * ?G - 1 \<le> 2 * q - 1" "0 < q" using G by (auto simp: h_def intro: gr0I)
    have "((?s + 1) * ?G - 1) * ((?s + 1) * ?G - 1) \<le> n * (?G * ?G)"
      using mult_le_mono [OF le(1) le(1)] q(2) [OF le(2)] by linarith
    also have "\<dots> \<le> ((?s + 1) * (?s + 1) - 1) * (?G * ?G)" using s(2) by (intro mult_le_mono1) simp
    finally have "((?s + 1) * ?G - 1) * ((?s + 1) * ?G - 1) \<le> ((?s + 1) * (?s + 1) - 1) * (?G * ?G)" .
    moreover obtain a where a: "(?s + 1) * ?G = Suc a" by (metis G h_def add_gr_0 nat_0_less_mult_iff gr0_implies_Suc zero_less_one zero_less_numeral zero_less_power)
    moreover have "((?s + 1) * (?s + 1) - 1) * (?G * ?G) + ?G * ?G = ((?s + 1) * ?G) * ((?s + 1) * ?G)"
      by (simp add: algebra_simps)
    ultimately have "a * a + ?G * ?G \<le> Suc a * Suc a" by simp
    then have "?G * ?G \<le> 2 * a + 1" by simp
    moreover have "(2 * (?s + 1)) * ?G \<le> ?G * ?G" using assms(2) by (intro mult_le_mono1) simp
    then have "2 * ((?s + 1) * ?G) \<le> ?G * ?G" by (simp only: mult.assoc)
    ultimately show False using a by linarith
  qed
  show "q = ?s * h \<longleftrightarrow> n = ?s * ?s"
  proof
    assume "n = ?s * ?s"
    then have M: "n * (?G * ?G) = (?s * ?G) * (?s * ?G)" by (metis mult.assoc mult.left_commute)
    show "q = ?s * h"
    proof (rule ccontr)
      assume "q \<noteq> ?s * h"
      then have "Suc (?s * ?G) \<le> 2 * q - 1" "0 < q" using low G by auto
      from mult_le_mono [OF this(1) this(1)] q(2) [OF this(2)] show False unfolding M by simp
    qed
  next
    assume e: "q = ?s * h"
    show "n = ?s * ?s"
    proof (rule ccontr)
      assume "n \<noteq> ?s * ?s"
      then have "(?s * ?s + 1) * (?G * ?G) \<le> n * (?G * ?G)" using s(1) by (intro mult_le_mono1) simp
      also have "\<dots> \<le> (?s * ?G + 1) * (?s * ?G + 1)" using q(1) by (simp add: e G algebra_simps)
      finally have "?G * ?G \<le> 2 * (?s * ?G) + 1" by (simp add: algebra_simps)
      moreover have "(2 * ?s + 2) * ?G \<le> ?G * ?G" using assms(2) by (intro mult_le_mono1) simp
      then have "2 * (?s * ?G) + 2 * ?G \<le> ?G * ?G" by (simp add: algebra_simps)
      moreover have "1 \<le> ?G" by simp
      ultimately show False by linarith
    qed
  qed
qed

lemma floor_ceil_shift:
  assumes "1 \<le> g"
  shows "floor_of (int q) (1 - int g) = int (q div 2 ^ (g - 1))"
    and "ceil_of (int q) (1 - int g) = int ((q + (2 ^ (g - 1) - 1)) div 2 ^ (g - 1))"
proof -
  have g: "nat (- (1 - int g)) = g - 1" using assms by simp
  have f: "floor_of m (1 - int g) = m div 2 ^ (g - 1)" for m
  proof (cases "g = 1")
    case False
    then show ?thesis using assms g by (simp add: floor_of_def)
  qed (simp add: floor_of_def)
  show "floor_of (int q) (1 - int g) = int (q div 2 ^ (g - 1))" unfolding f by (simp add: zdiv_int)
  define d where "d = (2 :: int) ^ (g - 1)"
  have d: "0 < d" by (simp add: d_def)
  have "(int q + (d - 1)) div d = - (- int q div d)"
  proof (rule int_div_pos_eq)
    show "int q + (d - 1) = d * - (- int q div d) + (d - 1 - - int q mod d)"
      using mult_div_mod_eq [of d "- int q"] by (simp add: algebra_simps)
  qed (use d pos_mod_bound [OF d, of "- int q"] pos_mod_sign [OF d, of "- int q"] in linarith)+
  moreover have "int (2 ^ (g - 1) - 1) = d - 1" by (simp add: d_def of_nat_diff)
  then have "int (q + (2 ^ (g - 1) - 1)) = int q + (d - 1)" by (simp only: of_nat_add)
  then have "int ((q + (2 ^ (g - 1) - 1)) div 2 ^ (g - 1)) = (int q + (d - 1)) div d" by (simp add: zdiv_int d_def)
  ultimately show "ceil_of (int q) (1 - int g) = int ((q + (2 ^ (g - 1) - 1)) div 2 ^ (g - 1))"
    by (simp add: ceil_of_def f d_def)
qed

text \<open>Both functions through the half root.\<close>

lemma sqrt_calls:
  fixes n :: u64
  assumes "0 < unat n" "unat n < 2 ^ 53"
  defines "g \<equiv> (108 - floorlog 2 (unat n)) div 2"
  defines "q \<equiv> nearest_half_root (unat n * 4 ^ g)"
  shows "FloorSqrt n = u64_of_int (int (q div 2 ^ (g - 1)))" and "CeilSqrt n = u64_of_int (int ((q + (2 ^ (g - 1) - 1)) div 2 ^ (g - 1)))"
proof -
  have "double_sqrt (round_ratio 53 (uint n) 1 0) = Finite (int q) (1 - int g)"
    using root_shape(2) [OF assms(1,2)] unfolding q_def g_def uint_nat .
  then show "FloorSqrt n = u64_of_int (int (q div 2 ^ (g - 1)))" "CeilSqrt n = u64_of_int (int ((q + (2 ^ (g - 1) - 1)) div 2 ^ (g - 1)))"
    using root_shape(1) [OF assms(1,2)] by (simp_all only: FloorSqrt_def CeilSqrt_def double.case floor_ceil_shift g_def)
qed

lemma half_root_at:
  assumes "k * k \<le> m" "m < (k + 1) * (k + 1)" "M = 4 * m"
  shows "nearest_half_root M = (if (2 * k + 1) * (2 * k + 1) < M then k + 1 else k)"
proof -
  have "M div 4 = m" using assms(3) by simp
  moreover have "odd ((2 * k + 1) * (2 * k + 1))" by simp
  then have "(2 * k + 1) * (2 * k + 1) \<noteq> M" using assms(3) by (metis dvd_mult2 even_numeral)
  ultimately show ?thesis using isqrt_eqI [OF assms(1,2)] by (simp add: nearest_half_root_def Let_def)
qed

text \<open>The first numbers at which the roots are wrong.\<close>

lemma roots_beyond:
  "FloorSqrt (2 ^ 52 + 2 ^ 27) = Inr (2 ^ 26 + 1)" "CeilSqrt (2 ^ 52 + 1) = Inr (2 ^ 26)"
proof -
  have l: "floorlog 2 (2 ^ 52 + 2 ^ 27) = 53" "floorlog 2 (2 ^ 52 + 1) = 53"
    by (rule antisym; (rule floorlog_leI floorlog_geI); simp)+
  have u: "unat (2 ^ 52 + 2 ^ 27 :: u64) = 2 ^ 52 + 2 ^ 27" "unat (2 ^ 52 + 1 :: u64) = 2 ^ 52 + 1" by simp_all
  have "nearest_half_root ((2 ^ 52 + 2 ^ 27) * 4 ^ 27) = (2 ^ 26 + 1) * 2 ^ 26"
    by (subst half_root_at [of "(2 ^ 26 + 1) * 2 ^ 26 - 1" "(2 ^ 52 + 2 ^ 27) * 4 ^ 26"]) simp_all
  then show "FloorSqrt (2 ^ 52 + 2 ^ 27) = Inr (2 ^ 26 + 1)"
    using sqrt_calls(1) [of "2 ^ 52 + 2 ^ 27"] unfolding u l by (simp add: u64_of_int_def)
  have "nearest_half_root ((2 ^ 52 + 1) * 4 ^ 27) = 2 ^ 26 * 2 ^ 26"
    by (subst half_root_at [of "2 ^ 26 * 2 ^ 26" "(2 ^ 52 + 1) * 4 ^ 26"]) simp_all
  then show "CeilSqrt (2 ^ 52 + 1) = Inr (2 ^ 26)"
    using sqrt_calls(2) [of "2 ^ 52 + 1"] unfolding u l by (simp add: u64_of_int_def)
qed

lemma roots_within:
  fixes n :: u64
  assumes "unat n < 2 ^ 52"
  shows "FloorSqrt n = Inr (of_nat (isqrt (unat n)))"
    and "CeilSqrt n = Inr (of_nat (if unat n = isqrt (unat n) * isqrt (unat n) then isqrt (unat n) else isqrt (unat n) + 1))"
proof -
  have "FloorSqrt n = Inr (of_nat (isqrt (unat n))) \<and>
    CeilSqrt n = Inr (of_nat (if unat n = isqrt (unat n) * isqrt (unat n) then isqrt (unat n) else isqrt (unat n) + 1))"
  proof (cases "n = 0")
    case True
    then show ?thesis
      by (simp add: FloorSqrt_def CeilSqrt_def round_ratio_def floor_of_def ceil_of_def u64_of_int_def isqrt.simps)
  next
    case False
    then have pos: "0 < unat n" "unat n < 2 ^ 53" using assms by (simp_all add: unat_gt_0)
    define g where "g = (108 - floorlog 2 (unat n)) div 2"
    define q where "q = nearest_half_root (unat n * 4 ^ g)"
    define h where "h = (2 :: nat) ^ (g - 1)"
    let ?s = "isqrt (unat n)"
    have room: "2 * (?s + 1) \<le> 2 ^ g" using root_room [OF pos(1) assms] by (simp add: g_def)
    have g: "1 \<le> g" using root_shape(1) [OF pos] by (simp add: g_def)
    have w: "?s * h \<le> q" "q < (?s + 1) * h" "q = ?s * h \<longleftrightarrow> unat n = ?s * ?s"
      using half_root_window [OF g room] by (simp_all add: q_def h_def)
    have small: "?s + 1 < 2 ^ 64" using isqrt_less [OF assms] by simp
    have "q div h = ?s" using w(1,2) by (intro div_nat_eqI) (simp_all add: mult.commute)
    moreover have "(q + (h - 1)) div h = (if unat n = ?s * ?s then ?s else ?s + 1)"
    proof (cases "unat n = ?s * ?s")
      case True
      then have "q = ?s * h" using w(3) by simp
      moreover have "0 < h" by (simp add: h_def)
      ultimately have "(q + (h - 1)) div h = ?s" by (intro div_nat_eqI) (simp_all add: mult.commute)
      then show ?thesis using True by simp
    next
      case False
      then have "?s * h < q" using w by simp
      then have "(q + (h - 1)) div h = ?s + 1" using w(2) by (intro div_nat_eqI) (simp_all add: algebra_simps)
      then show ?thesis using False by simp
    qed
    ultimately show ?thesis
      using sqrt_calls [OF pos] small by (simp add: u64_of_int_def g_def q_def h_def)
  qed
  then show "FloorSqrt n = Inr (of_nat (isqrt (unat n)))"
    "CeilSqrt n = Inr (of_nat (if unat n = isqrt (unat n) * isqrt (unat n) then isqrt (unat n) else isqrt (unat n) + 1))" by simp_all
qed

text \<open>
  C37. The integer roots are exact below \<open>2 ^ 52\<close> although they go through floating-point numbers: \<open>FloorSqrt\<close> is the
  largest number whose square is at most \<open>n\<close>, \<open>CeilSqrt\<close> the smallest whose square is at least \<open>n\<close>. Above they are
  not: at \<open>(2 ^ 26 + 1) ^ 2 - 1\<close> the result of \<open>FloorSqrt\<close> is one too large, at \<open>2 ^ 52 + 1\<close> that of \<open>CeilSqrt\<close> one too
  small.
\<close>

theorem integer_roots:
  assumes "unat (n :: u64) < 2 ^ 52"
  shows "(\<exists>r c. FloorSqrt n = Inr r \<and> unat r * unat r \<le> unat n \<and> unat n < (unat r + 1) * (unat r + 1) \<and>
      CeilSqrt n = Inr c \<and> unat n \<le> unat c * unat c \<and> (c = 0 \<or> (unat c - 1) * (unat c - 1) < unat n)) \<and>
    FloorSqrt (2 ^ 52 + 2 ^ 27) = Inr (2 ^ 26 + 1) \<and> CeilSqrt (2 ^ 52 + 1) = Inr (2 ^ 26)"
proof -
  let ?s = "isqrt (unat n)"
  have s: "?s * ?s \<le> unat n" "unat n < (?s + 1) * (?s + 1)" using isqrt_bounds [of "unat n"] by simp_all
  have small: "?s + 1 < 2 ^ 64" using isqrt_less [OF assms] by simp
  have u: "unat (of_nat x :: u64) = x" if "x < 2 ^ 64" for x using that by (simp add: unat_of_nat)
  have w: "unat (of_nat ?s :: u64) = ?s" "unat (of_nat (?s + 1) :: u64) = ?s + 1"
    by (rule u, use small in linarith)+
  define c where "c = (if unat n = ?s * ?s then ?s else ?s + 1)"
  have "c < 2 ^ 64" using small by (simp add: c_def)
  then have wc: "unat (of_nat c :: u64) = c" by (rule u)
  then have "of_nat c = (0 :: u64) \<or> 0 < c" by (cases c) simp_all
  moreover have "unat n \<le> c * c" using s(2) by (simp add: c_def)
  moreover have "(c - 1) * (c - 1) < unat n" if "0 < c"
  proof (cases "unat n = ?s * ?s")
    case True
    have "(?s - 1) * (?s - 1) < ?s * ?s" using that True by (intro mult_strict_mono') (simp_all add: c_def)
    then show ?thesis using True by (simp add: c_def)
  qed (use s(1) in \<open>simp add: c_def\<close>)
  ultimately have "\<exists>r c. FloorSqrt n = Inr r \<and> unat r * unat r \<le> unat n \<and> unat n < (unat r + 1) * (unat r + 1) \<and>
      CeilSqrt n = Inr c \<and> unat n \<le> unat c * unat c \<and> (c = 0 \<or> (unat c - 1) * (unat c - 1) < unat n)"
    unfolding roots_within [OF assms] c_def [symmetric]
    by (intro exI [of _ "of_nat ?s"] exI [of _ "of_nat c"]) (use s in \<open>simp only: w(1) wc, blast\<close>)
  then show ?thesis using roots_beyond by (simp only: simp_thms)
qed

theorem integer_roots_witness:
  "\<exists>r c. FloorSqrt 4503599493152768 = Inr r \<and> unat r * unat r \<le> 4503599493152768 \<and>
    4503599493152768 < (unat r + 1) * (unat r + 1) \<and> CeilSqrt 4503599493152768 = Inr c \<and> 4503599493152768 \<le> unat c * unat c"
  using integer_roots [of 4503599493152768] by auto

text \<open>Rounding to an integer is off by at most one half.\<close>

lemma RInt_nearest:
  assumes "RInt (Finite m e) = Inr v"
  shows "2 * \<bar>value_of m e - of_int (sint v)\<bar> \<le> 1"
proof -
  define x where "x = (if 0 \<le> e then m * 2 ^ nat e else round_even m (2 ^ nat (- e)))"
  have "RInt (Finite m e) = (if - (2 ^ 63) \<le> x \<and> x < 2 ^ 63 then Inr (word_of_int x) else Inl (Undefined ''std::llrint''))"
    unfolding RInt.simps Let_def x_def by (rule refl)
  then have "- (2 ^ 63) \<le> x" "x < 2 ^ 63" "v = word_of_int x"
    using assms by (auto split: if_splits)
  then have v: "sint v = x" by (simp add: sint_sbintrunc' signed_take_bit_int_eq_self)
  show ?thesis
  proof (cases "0 \<le> e")
    case True
    then show ?thesis by (simp add: v x_def value_of_def power_int_def)
  next
    case False
    define d where "d = (2 :: int) ^ nat (- e)"
    define r where "r = round_even m d"
    have d: "0 < d" "2 powi e = (1 / of_int d :: real)" using False by (simp_all add: d_def power_int_def power_one_over inverse_eq_divide)
    have "2 * \<bar>m - d * r\<bar> \<le> d" unfolding r_def using d(1) by (rule round_even_error)
    then have "real_of_int (2 * \<bar>m - d * r\<bar>) \<le> real_of_int d" by (simp only: of_int_le_iff)
    then have r: "2 * \<bar>real_of_int m - of_int d * of_int r\<bar> \<le> of_int d" by simp
    have "value_of m e - of_int (sint v) = (of_int m - of_int d * of_int r) / of_int d"
      using False d by (simp add: v x_def value_of_def diff_divide_distrib flip: d_def r_def)
    then have "2 * \<bar>value_of m e - of_int (sint v)\<bar> = 2 * \<bar>of_int m - of_int d * of_int r\<bar> / of_int d"
      using d(1) by (simp add: abs_divide)
    also have "\<dots> \<le> 1" using r d(1) by (simp add: divide_le_eq)
    finally show ?thesis .
  qed
qed

end
