(* ===== verification/NetIO.thy ===== *)
theory NetIO
  imports KeyFile
begin

text \<open>
  The network of the two-party demo (\<open>LocalLoopIO\<close> in \<open>src/mvp_sdk/api_examples/demo_common.h\<close>): a program that sends
  and receives is a resumption, two of them run side by side, each with a buffered stream to the other. The sockets
  connect and deliver every byte that leaves a buffer; opening them is not modelled.
\<close>

section \<open>Programs and streams\<close>

text \<open>
  A program: it has left with a result or by an exception nobody catches, or it is about to send bytes, to flush, or
  to receive a number of bytes. A short read at the end of the stream counts as success in the loop of \<open>recv_data\<close>,
  which then tries again for ever: such a program stays in \<open>Recv\<close>.
\<close>

datatype 'r io = Exit 'r | Abort failure | Send string "'r io" | Flush "'r io" | Recv nat "string \<Rightarrow> 'r io"

text \<open>One end: the program, the flag \<open>has_sent\<close>, and the bytes that wait in the buffer of \<open>stream\<close>.\<close>

record 'r peer =
  pe_prog :: "'r io"
  pe_has_sent :: bool
  pe_stream :: string

definition LocalLoopIO_new :: "'r io \<Rightarrow> 'r peer" where
  "LocalLoopIO_new p = \<lparr>pe_prog = p, pe_has_sent = False, pe_stream = []\<rparr>"

text \<open>
  The steps of one end: what arrives is consumed from the front of \<open>inp\<close>, what leaves is \<open>out\<close>. A program that exits
  flushes its streams, one that is aborted does not.
\<close>

inductive peer_step :: "'r peer \<Rightarrow> string \<Rightarrow> 'r peer \<Rightarrow> string \<Rightarrow> string \<Rightarrow> bool" where
  send_data: "pe_prog p = Send bs k \<Longrightarrow>
    peer_step p inp (p\<lparr>pe_prog := k, pe_has_sent := True, pe_stream := pe_stream p @ bs\<rparr>) [] inp"
| flush: "pe_prog p = Flush k \<Longrightarrow> peer_step p inp (p\<lparr>pe_prog := k, pe_stream := []\<rparr>) (pe_stream p) inp"
| recv_flush: "pe_prog p = Recv n k \<Longrightarrow> pe_has_sent p \<Longrightarrow>
    peer_step p inp (p\<lparr>pe_has_sent := False, pe_stream := []\<rparr>) (pe_stream p) inp"
| recv_data: "pe_prog p = Recv n k \<Longrightarrow> \<not> pe_has_sent p \<Longrightarrow> n \<le> length inp \<Longrightarrow>
    peer_step p inp (p\<lparr>pe_prog := k (take n inp)\<rparr>) [] (drop n inp)"
| close: "pe_prog p = Exit r \<Longrightarrow> pe_stream p \<noteq> [] \<Longrightarrow> peer_step p inp (p\<lparr>pe_stream := []\<rparr>) (pe_stream p) inp"

text \<open>The two ends with the bytes on the way from the first to the second and back.\<close>

type_synonym ('a, 'b) net = "'a peer \<times> string \<times> 'b peer \<times> string"

text \<open>A buffer that is full hands over some of its bytes on its own.\<close>

definition spill :: "nat \<Rightarrow> 'r peer \<Rightarrow> 'r peer \<times> string" where
  "spill n p = (p\<lparr>pe_stream := drop n (pe_stream p)\<rparr>, take n (pe_stream p))"

definition can_spill :: "nat \<Rightarrow> 'r peer \<Rightarrow> bool" where
  "can_spill n p \<longleftrightarrow> 0 < n \<and> n \<le> length (pe_stream p) \<and> (\<forall>e. pe_prog p \<noteq> Abort e)"

inductive net_step :: "('a, 'b) net \<Rightarrow> ('a, 'b) net \<Rightarrow> bool" where
  first: "peer_step a ba a' out ba' \<Longrightarrow> net_step (a, ab, b, ba) (a', ab @ out, b, ba')"
| second: "peer_step b ab b' out ab' \<Longrightarrow> net_step (a, ab, b, ba) (a, ab', b', ba @ out)"
| spill_first: "can_spill n a \<Longrightarrow> spill n a = (a', out) \<Longrightarrow> net_step (a, ab, b, ba) (a', ab @ out, b, ba)"
| spill_second: "can_spill n b \<Longrightarrow> spill n b = (b', out) \<Longrightarrow> net_step (a, ab, b, ba) (a, ab, b', ba @ out)"

inductive_cases peer_stepE: "peer_step p inp p' out inp'"
inductive_cases net_stepE: "net_step c c'"

definition net_start :: "'a io \<Rightarrow> 'b io \<Rightarrow> ('a, 'b) net" where
  "net_start p q = (LocalLoopIO_new p, [], LocalLoopIO_new q, [])"

text \<open>Neither program can go on, without the help of a full buffer.\<close>

definition at_rest :: "('a, 'b) net \<Rightarrow> bool" where
  "at_rest c = (case c of (a, ab, b, ba) \<Rightarrow>
     (\<nexists>a' out inp. peer_step a ba a' out inp) \<and> (\<nexists>b' out inp. peer_step b ab b' out inp))"

text \<open>Every run is finite, and the programs are as \<open>P\<close> says when neither can go on.\<close>

definition always_ends :: "'a io \<Rightarrow> 'b io \<Rightarrow> ('a io \<Rightarrow> 'b io \<Rightarrow> bool) \<Rightarrow> bool" where
  "always_ends p q P \<longleftrightarrow>
     (\<nexists>f. f 0 = net_start p q \<and> (\<forall>i. net_step (f i) (f (Suc i)))) \<and>
     (\<forall>a ab b ba. net_step\<^sup>*\<^sup>* (net_start p q) (a, ab, b, ba) \<longrightarrow> at_rest (a, ab, b, ba) \<longrightarrow> P (pe_prog a) (pe_prog b))"

section \<open>Messages\<close>

text \<open>\<open>send_strings\<close> and \<open>recv_strings\<close>, with what the program does next; lengths are sent as \<open>uint32_t\<close>.\<close>

fun send_each :: "string list \<Rightarrow> 'r io \<Rightarrow> 'r io" where
  "send_each [] k = k"
| "send_each (s # ss) k = (let len = length s mod 2 ^ 32 in Send (le32 len) (Send (take len s) (send_each ss k)))"

definition send_strings :: "string list \<Rightarrow> 'r io \<Rightarrow> 'r io" where
  "send_strings strs k =
     (let num_str = length strs mod 2 ^ 32
      in Send (le32 num_str) (if 0 < num_str then send_each strs k else k))"

fun recv_each :: "nat \<Rightarrow> string list \<Rightarrow> (string list \<Rightarrow> 'r io) \<Rightarrow> 'r io" where
  "recv_each 0 out k = k out"
| "recv_each (Suc n) out k = Recv 4 (\<lambda>bytes. let len = le32_value bytes
     in if 1024 * 1024 * 10 < len then Abort (Throws (Runtime_error ''recv_strings: len out-of-bound''))
        else Recv len (\<lambda>s. recv_each n (out @ [s]) k))"

definition recv_strings :: "string list \<Rightarrow> (string list \<Rightarrow> 'r io) \<Rightarrow> 'r io" where
  "recv_strings out k = Recv 4 (\<lambda>bytes. let num_str = le32_value bytes
     in if 128 < num_str then Abort (Throws (Runtime_error ''recv_strings: num_str out-of-bound''))
        else if 0 < num_str then recv_each num_str [] k else k out)"

section \<open>Running two programs against each other\<close>

text \<open>
  One order in which both run to their end, with the number of actions. The bytes sent and not yet received are \<open>x\<close>
  towards the second and \<open>y\<close> towards the first program; \<open>d\<close> is set while bytes of the program may be in its buffer.
\<close>

fun ended :: "'r io \<Rightarrow> bool \<Rightarrow> string \<Rightarrow> bool" where
  "ended (Exit r) d y = True"
| "ended (Abort e) d y = (\<not> d)"
| "ended (Recv n k) d y = (length y < n)"
| "ended _ d y = False"

inductive meet :: "nat \<Rightarrow> 'a io \<Rightarrow> bool \<Rightarrow> 'b io \<Rightarrow> bool \<Rightarrow> string \<Rightarrow> string \<Rightarrow> 'a io \<Rightarrow> 'b io \<Rightarrow> bool" where
  End: "ended p d y \<Longrightarrow> ended q e x \<Longrightarrow> meet 0 p d q e x y p q"
| Send1: "meet n p True q e (x @ bs) y p' q' \<Longrightarrow> meet (Suc n) (Send bs p) d q e x y p' q'"
| Send2: "meet n p d q True x (y @ bs) p' q' \<Longrightarrow> meet (Suc n) p d (Send bs q) e x y p' q'"
| Flush1: "meet n p False q e x y p' q' \<Longrightarrow> meet (Suc n) (Flush p) d q e x y p' q'"
| Flush2: "meet n p d q False x y p' q' \<Longrightarrow> meet (Suc n) p d (Flush q) e x y p' q'"
| Recv1: "m \<le> length y \<Longrightarrow> meet n (k (take m y)) False q e x (drop m y) p' q' \<Longrightarrow> meet (Suc n) (Recv m k) d q e x y p' q'"
| Recv2: "m \<le> length x \<Longrightarrow> meet n p d (k (take m x)) False (drop m x) y p' q' \<Longrightarrow> meet (Suc n) p d (Recv m k) e x y p' q'"

inductive_cases meet_0E: "meet 0 p d q e x y p' q'"

lemma meet_swap: "meet n p d q e x y p' q' \<Longrightarrow> meet n q e p d y x q' p'"
  by (induction rule: meet.induct) (auto intro: meet.intros)

text \<open>An action of the first program can be taken at once.\<close>

lemma meet_Send:
  assumes "meet n (Send bs p) d q e x y p' q'"
  shows "\<exists>m. n = Suc m \<and> meet m p True q e (x @ bs) y p' q'"
  using assms
proof (induction n "Send bs p" d q e x y p' q' rule: meet.induct)
  case (Recv2 m x n d k y p' q' e)
  then show ?case by (auto intro!: meet.Recv2)
qed (auto intro: meet.intros)

lemma meet_Flush:
  assumes "meet n (Flush p) d q e x y p' q'"
  shows "\<exists>m. n = Suc m \<and> meet m p False q e x y p' q'"
  using assms by (induction n "Flush p" d q e x y p' q' rule: meet.induct) (auto intro: meet.intros)

lemma meet_Recv:
  assumes "meet n (Recv l k) d q e x y p' q'" "l \<le> length y"
  shows "\<exists>m. n = Suc m \<and> meet m (k (take l y)) False q e x (drop l y) p' q'"
  using assms
proof (induction n "Recv l k" d q e x y p' q' rule: meet.induct)
  case (Send2 n d q x y bs p' q' e)
  then obtain m where "n = Suc m" "meet m (k (take l y)) False q True x (drop l y @ bs) p' q'" by auto
  then show ?case by (auto intro: meet.Send2)
qed (auto intro: meet.intros)

lemma meet_Abort: "meet n p d q e x y p' q' \<Longrightarrow> q = Abort f \<Longrightarrow> \<not> e"
  by (induction rule: meet.induct) auto

section \<open>Every run takes the same course\<close>

text \<open>A state that \<open>n\<close> more actions can bring to its end.\<close>

definition on_course :: "'a io \<Rightarrow> 'b io \<Rightarrow> nat \<Rightarrow> ('a, 'b) net \<Rightarrow> bool" where
  "on_course p' q' n c = (case c of (a, ab, b, ba) \<Rightarrow>
     \<exists>d e. meet n (pe_prog a) d (pe_prog b) e (ab @ pe_stream a) (ba @ pe_stream b) p' q' \<and>
       (pe_stream a \<noteq> [] \<longrightarrow> d \<and> pe_has_sent a) \<and> (pe_stream b \<noteq> [] \<longrightarrow> e \<and> pe_has_sent b))"

text \<open>What is left to do: actions first, then flags to be cleared and bytes to be handed over.\<close>

definition to_clear :: "'r peer \<Rightarrow> nat" where
  "to_clear p = of_bool (pe_has_sent p) + length (pe_stream p)"

definition net_clear :: "('a, 'b) net \<Rightarrow> nat" where
  "net_clear c = (case c of (a, ab, b, ba) \<Rightarrow> to_clear a + to_clear b)"

definition net_swap :: "('a, 'b) net \<Rightarrow> ('b, 'a) net" where
  "net_swap c = (case c of (a, ab, b, ba) \<Rightarrow> (b, ba, a, ab))"

lemma on_course_swap: "on_course q' p' n (net_swap c) = on_course p' q' n c"
  unfolding on_course_def net_swap_def by (cases c) (auto dest: meet_swap)

lemma net_clear_swap [simp]: "net_clear (net_swap c) = net_clear c"
  by (cases c) (simp add: net_clear_def net_swap_def)

lemma peer_on_course:
  assumes course: "on_course p' q' n (a, ab, b, ba)" and step: "peer_step a ba a' out ba'"
  shows "\<exists>m. on_course p' q' m (a', ab @ out, b, ba') \<and> (m < n \<or> m = n \<and> to_clear a' < to_clear a)"
proof -
  obtain d e where m: "meet n (pe_prog a) d (pe_prog b) e (ab @ pe_stream a) (ba @ pe_stream b) p' q'"
    and f: "pe_stream a \<noteq> [] \<longrightarrow> d \<and> pe_has_sent a" "pe_stream b \<noteq> [] \<longrightarrow> e \<and> pe_has_sent b"
    using course by (auto simp: on_course_def)
  from step show ?thesis
  proof (cases rule: peer_step.cases)
    case (send_data bs k)
    then show ?thesis using meet_Send [OF m [unfolded send_data]] f by (fastforce simp: on_course_def)
  next
    case (flush k)
    then show ?thesis using meet_Flush [OF m [unfolded flush(4)]] f by (fastforce simp: on_course_def)
  next
    case (recv_flush l k)
    then show ?thesis using m f by (intro exI [of _ n]) (auto simp: on_course_def to_clear_def)
  next
    case (recv_data l k)
    then have "l \<le> length (ba @ pe_stream b)" "pe_stream a = []" using f by auto
    then show ?thesis using meet_Recv [OF m [unfolded recv_data(4)]] recv_data f by (fastforce simp: on_course_def)
  next
    case (close r)
    then show ?thesis using m f by (intro exI [of _ n]) (auto simp: on_course_def to_clear_def)
  qed
qed

lemma spill_on_course:
  assumes "on_course p' q' n (a, ab, b, ba)" "can_spill l a" "spill l a = (a', out)"
  shows "on_course p' q' n (a', ab @ out, b, ba) \<and> to_clear a' < to_clear a"
proof -
  obtain d e where "meet n (pe_prog a) d (pe_prog b) e (ab @ pe_stream a) (ba @ pe_stream b) p' q'"
    "pe_stream a \<noteq> [] \<longrightarrow> d \<and> pe_has_sent a" "pe_stream b \<noteq> [] \<longrightarrow> e \<and> pe_has_sent b"
    using assms(1) by (auto simp: on_course_def)
  then have "on_course p' q' n (a', ab @ out, b, ba)"
    unfolding on_course_def prod.case by (intro exI [of _ d] exI [of _ e]) (use assms(2,3) in \<open>auto simp: spill_def can_spill_def\<close>)
  then show ?thesis using assms(2,3) by (auto simp: spill_def can_spill_def to_clear_def)
qed

lemma net_on_course:
  assumes "on_course p' q' n c" "net_step c c'"
  shows "\<exists>m. on_course p' q' m c' \<and> (m < n \<or> m = n \<and> net_clear c' < net_clear c)"
  using assms(2)
proof (cases rule: net_step.cases)
  case (first a ba a' out ba' ab b)
  then show ?thesis using peer_on_course assms(1) by (fastforce simp: net_clear_def)
next
  case (second b ab b' out ab' a ba)
  then have "on_course q' p' n (b, ba, a, ab)" using assms(1) on_course_swap [of q' p' n c] by (simp add: net_swap_def)
  from peer_on_course [OF this second(3)] obtain m where
    "on_course q' p' m (b', ba @ out, a, ab')" "m < n \<or> m = n \<and> to_clear b' < to_clear b" by blast
  then show ?thesis using second(1,2) on_course_swap [of q' p' m "(a, ab', b', ba @ out)"]
    by (intro exI [of _ m]) (auto simp: net_swap_def net_clear_def)
next
  case (spill_first l a a' out ab b ba)
  then show ?thesis using spill_on_course [of p' q' n a ab b ba] assms(1) by (intro exI [of _ n]) (simp add: net_clear_def)
next
  case (spill_second l b b' out a ab ba)
  then have "on_course q' p' n (b, ba, a, ab)" using assms(1) on_course_swap [of q' p' n c] by (simp add: net_swap_def)
  from spill_on_course [OF this spill_second(3,4)] show ?thesis
    using spill_second(1,2) on_course_swap [of q' p' n "(a, ab, b', ba @ out)"]
    by (intro exI [of _ n]) (simp add: net_swap_def net_clear_def)
qed

interpretation net_course: invariant_system "\<lambda>c. on_course p' q' n c" net_step "\<lambda>c. \<exists>m. on_course p' q' m c" for p' q' n
  by unfold_locales (blast, metis net_on_course)

text \<open>A state on course in which neither program can go on is the end.\<close>

lemma flushes_at_rest:
  assumes "\<nexists>b' out inp. peer_step b ab b' out inp" "meet n p d (pe_prog b) e x y p' q'" "pe_stream b \<noteq> [] \<longrightarrow> e \<and> pe_has_sent b"
  shows "pe_stream b = []"
proof (cases "pe_prog b")
  case (Abort f)
  then show ?thesis using meet_Abort [OF assms(2)] assms(3) by blast
qed (use assms(1,3) in \<open>blast intro: peer_step.intros\<close>)+

lemma at_rest_end:
  assumes "on_course p' q' n (a, ab, b, ba)" "at_rest (a, ab, b, ba)"
  shows "pe_prog a = p' \<and> pe_prog b = q'"
proof -
  have rest: "\<nexists>a' out inp. peer_step a ba a' out inp" "\<nexists>b' out inp. peer_step b ab b' out inp"
    using assms(2) by (simp_all add: at_rest_def)
  obtain d e where m: "meet n (pe_prog a) d (pe_prog b) e (ab @ pe_stream a) (ba @ pe_stream b) p' q'"
    and f: "pe_stream a \<noteq> [] \<longrightarrow> d \<and> pe_has_sent a" "pe_stream b \<noteq> [] \<longrightarrow> e \<and> pe_has_sent b"
    using assms(1) by (auto simp: on_course_def)
  have empty: "pe_stream a = []" "pe_stream b = []"
    using flushes_at_rest [OF rest(1) meet_swap [OF m] f(1)] flushes_at_rest [OF rest(2) m f(2)] by simp_all
  have m: "meet n (pe_prog a) d (pe_prog b) e ab ba p' q'" using m empty by simp
  then show ?thesis
  proof (cases rule: meet.cases)
    case End
    then show ?thesis by simp
  qed (use rest in \<open>cases "pe_has_sent a"; cases "pe_has_sent b"; blast intro: peer_step.intros\<close>)+
qed

text \<open>So one order in which both run to their end stands for all.\<close>

lemma meet_always_ends:
  assumes "meet n p False q False [] [] p' q'" "P p' q'"
  shows "always_ends p q P"
proof -
  have start: "on_course p' q' n (net_start p q)"
    using assms(1) by (auto simp: on_course_def net_start_def LocalLoopIO_new_def)
  have "\<nexists>f. f 0 = net_start p q \<and> (\<forall>i. net_step (f i) (f (Suc i)))"
  proof
    assume "\<exists>f. f 0 = net_start p q \<and> (\<forall>i. net_step (f i) (f (Suc i)))"
    then obtain f where f: "f 0 = net_start p q" "\<And>i. net_step (f i) (f (Suc i))" by blast
    have "on_course p' q' m (f i) \<Longrightarrow> False" for m i
    proof (induction "(m, net_clear (f i))" arbitrary: m i rule: wf_induct_rule [OF wf_lex_prod [OF wf_less_than wf_less_than]])
      case (1 m i)
      from net_on_course [OF 1(2) f(2)] obtain m' where
        "on_course p' q' m' (f (Suc i))" "m' < m \<or> m' = m \<and> net_clear (f (Suc i)) < net_clear (f i)" by blast
      then show False using 1(1) [of m' "Suc i"] by auto
    qed
    then show False using start f(1) by metis
  qed
  moreover have "P (pe_prog a) (pe_prog b)"
    if "net_step\<^sup>*\<^sup>* (net_start p q) (a, ab, b, ba)" "at_rest (a, ab, b, ba)" for a ab b ba
    using net_course.inv_reachable [OF start that(1)] at_rest_end that(2) assms(2) by blast
  ultimately show ?thesis by (simp add: always_ends_def)
qed

section \<open>Running to a given end\<close>

definition leads :: "'a io \<Rightarrow> bool \<Rightarrow> 'b io \<Rightarrow> bool \<Rightarrow> string \<Rightarrow> string \<Rightarrow> ('a io \<Rightarrow> 'b io \<Rightarrow> bool) \<Rightarrow> bool" where
  "leads p d q e x y P \<longleftrightarrow> (\<exists>n p' q'. meet n p d q e x y p' q' \<and> P p' q')"

lemma leads_always_ends: "leads p False q False [] [] P \<Longrightarrow> always_ends p q P"
  unfolding leads_def by (blast intro: meet_always_ends)

lemma leads_swap: "leads q e p d y x (\<lambda>a b. P b a) = leads p d q e x y P"
  unfolding leads_def by (blast dest: meet_swap)

lemma leads_rules:
  "ended p d y \<Longrightarrow> ended q e x \<Longrightarrow> P p q \<Longrightarrow> leads p d q e x y P"
  "leads p True q e (x @ bs) y P \<Longrightarrow> leads (Send bs p) d q e x y P"
  "leads p d q True x (y @ bs) P \<Longrightarrow> leads p d (Send bs q) e x y P"
  "leads p False q e x y P \<Longrightarrow> leads (Flush p) d q e x y P"
  "leads p d q False x y P \<Longrightarrow> leads p d (Flush q) e x y P"
  unfolding leads_def by (blast intro: meet.intros)+

lemma leads_Recv1: "leads (k bs) False q e x y P \<Longrightarrow> length bs = m \<Longrightarrow> leads (Recv m k) d q e x (bs @ y) P"
  unfolding leads_def by (force intro: meet.Recv1)

lemma leads_Recv2: "leads p d (k bs) False x y P \<Longrightarrow> length bs = m \<Longrightarrow> leads p d (Recv m k) e (bs @ x) y P"
  unfolding leads_def by (force intro: meet.Recv2)

lemma leads_message:
  assumes "leads k True (kq bs) False [] y P" "length bs = m"
  shows "leads (Send bs k) d (Recv m kq) e [] y P"
  using leads_Recv2 [where k = kq and x = "[]", OF assms] by (intro leads_rules(2)) simp

section \<open>Sending strings\<close>

text \<open>What the other side makes of a string: the length is cut to 32 bits.\<close>

definition sent_as :: "string \<Rightarrow> string" where
  "sent_as s = take (length s mod 2 ^ 32) s"

definition receivable :: "string list \<Rightarrow> bool" where
  "receivable strs \<longleftrightarrow> length strs \<le> 128 \<and> (\<forall>s \<in> set strs. length (sent_as s) \<le> 1024 * 1024 * 10)"

lemma length_sent_as: "length (sent_as s) = length s mod 2 ^ 32"
  by (simp add: sent_as_def min_absorb1 mod_less_eq_dividend)

lemma sent_as_same: "length s < 2 ^ 32 \<Longrightarrow> sent_as s = s"
  by (simp add: sent_as_def)

lemma send_each_step:
  "send_each (s # ss) k = Send (le32 (length (sent_as s))) (Send (sent_as s) (send_each ss k))"
  by (simp add: Let_def length_sent_as) (simp add: sent_as_def)

lemma le32_value_sent: "le32_value (le32 (length (sent_as s))) = length (sent_as s)"
  by (rule le32_value_le32) (simp add: length_sent_as)

lemma leads_send_each: "(\<And>x. leads k True q e x y P) \<Longrightarrow> leads (send_each ss k) True q e x y P"
  by (induction ss arbitrary: x) (simp_all add: send_each_step leads_rules del: send_each.simps(2))

lemma leads_each:
  assumes "(\<forall>s \<in> set ss. length (sent_as s) \<le> 1024 * 1024 * 10) \<Longrightarrow> leads k True (kq (out @ map sent_as ss)) False [] y P"
    and "\<And>f x. \<not> (\<forall>s \<in> set ss. length (sent_as s) \<le> 1024 * 1024 * 10) \<Longrightarrow> leads k True (Abort f) False x y P"
  shows "leads (send_each ss k) True (recv_each (length ss) out kq) False [] y P"
  using assms
proof (induction ss arbitrary: out)
  case (Cons s ss)
  let ?l = "length (sent_as s)"
  show ?case
  proof (cases "?l \<le> 1024 * 1024 * 10")
    case True
    have "leads (send_each ss k) True (recv_each (length ss) (out @ [sent_as s]) kq) False [] y P"
      by (rule Cons.IH) (use True Cons.prems in auto)
    then show ?thesis using True
      unfolding send_each_step length_Cons recv_each.simps
      by (intro leads_message) (simp_all add: le32_value_sent leads_message)
  next
    case False
    then show ?thesis
      using Cons.prems(2) unfolding send_each_step length_Cons recv_each.simps
      by (intro leads_message) (auto simp: le32_value_sent intro!: leads_rules(2) leads_send_each)
  qed
qed simp

lemma leads_strings:
  assumes "length strs < 2 ^ 32"
    and "receivable strs \<Longrightarrow> leads k True (kq (map sent_as strs)) False [] y P"
    and "\<And>f x. \<not> receivable strs \<Longrightarrow> leads k True (Abort f) False x y P"
  shows "leads (send_strings strs k) d (recv_strings [] kq) e [] y P"
proof -
  have len: "length strs mod 2 ^ 32 = length strs" "le32_value (le32 (length strs)) = length strs"
    using assms(1) by (simp_all add: le32_value_le32)
  show ?thesis
    unfolding send_strings_def recv_strings_def Let_def len
  proof (rule leads_message)
    show "leads (if 0 < length strs then send_each strs k else k) True
        (if 128 < le32_value (le32 (length strs)) then Abort (Throws (Runtime_error ''recv_strings: num_str out-of-bound''))
         else if 0 < le32_value (le32 (length strs)) then recv_each (le32_value (le32 (length strs))) [] kq else kq []) False [] y P"
    proof (cases "strs = []")
      case False
      then show ?thesis
      proof (cases "128 < length strs")
        case True
        then show ?thesis using False assms(3) by (auto simp: receivable_def len intro!: leads_send_each)
      next
        case few: False
        have "leads (send_each strs k) True (recv_each (length strs) [] kq) False [] y P"
          by (rule leads_each) (use assms(2,3) few in \<open>auto simp: receivable_def\<close>)
        then show ?thesis using False few by (simp add: len)
      qed
    qed (use assms(2) len(2) in \<open>simp add: receivable_def\<close>)
  qed simp
qed

lemma leads_strings_back:
  assumes "length strs < 2 ^ 32"
    and "receivable strs \<Longrightarrow> leads (kp (map sent_as strs)) False k True x [] P"
    and "\<And>f y. \<not> receivable strs \<Longrightarrow> leads (Abort f) False k True x y P"
  shows "leads (recv_strings [] kp) d (send_strings strs k) e x [] P"
proof (rule leads_swap [THEN iffD1], rule leads_strings [OF assms(1)])
  show "leads k True (kp (map sent_as strs)) False [] x (\<lambda>a b. P b a)" if "receivable strs"
    by (rule leads_swap [THEN iffD2]) (rule assms(2) [OF that])
  show "leads k True (Abort f) False y x (\<lambda>a b. P b a)" if "\<not> receivable strs" for f y
    by (rule leads_swap [THEN iffD2]) (rule assms(3) [OF that])
qed

text \<open>
  C15. Strings sent over the network arrive: whatever the order in which sender and receiver act and buffers are handed
  over, every run ends, the sender has left, and the receiver holds exactly the strings sent when there are at most 128
  of at most 10 MB each; otherwise it is aborted by the exception that \<open>recv_strings\<close> throws.
\<close>

theorem strings_arrive:
  assumes "length strs < 2 ^ 32" "\<forall>s \<in> set strs. length s < 2 ^ 32"
  shows "always_ends (send_strings strs (Exit ())) (recv_strings [] Exit) (\<lambda>p q. p = Exit () \<and>
    (if length strs \<le> 128 \<and> (\<forall>s \<in> set strs. length s \<le> 10485760) then q = Exit strs else (\<exists>e. q = Abort e)))"
proof (rule leads_always_ends, rule leads_strings [OF assms(1)])
  have same: "map sent_as strs = strs" "\<forall>s \<in> set strs. sent_as s = s" using assms(2) by (simp_all add: map_idI sent_as_same)
  let ?P = "\<lambda>p q. p = Exit () \<and>
    (if length strs \<le> 128 \<and> (\<forall>s \<in> set strs. length s \<le> 10485760) then q = Exit strs else (\<exists>e. q = Abort e))"
  have ok: "receivable strs = (length strs \<le> 128 \<and> (\<forall>s \<in> set strs. length s \<le> 10485760))"
    using same(2) by (auto simp: receivable_def)
  show "leads (Exit ()) True (Exit (map sent_as strs)) False [] [] ?P" if "receivable strs"
    using that ok same(1) by (intro leads_rules(1)) simp_all
  show "leads (Exit ()) True (Abort f) False x [] ?P" if "\<not> receivable strs" for f x
    using that ok by (intro leads_rules(1)) simp_all
qed

theorem strings_arrive_witness:
  "always_ends (send_strings [''ab'', ''''] (Exit ())) (recv_strings [] Exit) (\<lambda>p q. p = Exit () \<and> q = Exit [''ab'', ''''])"
  using strings_arrive [of "[''ab'', '''']"] by simp

end
