(* ===== verification/TwoParty.thy ===== *)
theory TwoParty
  imports NetIO Keys MatVec Doubles
begin

text \<open>
  The two-party demo (\<open>src/mvp_sdk/api_examples/demo_end_to_end.cc\<close>, with the helpers of \<open>demo_common.h\<close>): the holder of
  the matrix and the holder of the vector run the protocol over the network, each with a share of the vector, and the
  holder of the vector checks the sum of the shares of the product. Not modelled: opening the sockets, clocks, and the
  text on the console beyond the largest error.
\<close>

section \<open>Numbers and shares\<close>

definition RealToU64 :: "double \<Rightarrow> int \<Rightarrow> u64 outcome" where
  "RealToU64 r precision =
     (if 0 \<le> precision \<and> precision < 64 then RealTo2k r (Finite (2 ^ nat precision) 0) else Inl (Undefined ''1ULL << precision''))"

definition U64ToReal :: "u64 \<Rightarrow> int \<Rightarrow> double" where
  "U64ToReal r precision = U2kToReal r (Finite 1 precision)"

text \<open>
  What the demo runs in: SEAL's contexts, the card with its slot, the number of the key SEAL makes, the draws of the
  two generators with fixed seeds, and the byte that is sent without a value.
\<close>

record demo_env =
  de_seal_new :: "scheme_type \<Rightarrow> nat \<Rightarrow> u64 list \<Rightarrow> seal_lib outcome"
  de_fpga :: fpga_env
  de_slot :: nat
  de_key :: nat
  de_words :: "nat \<Rightarrow> u64"
  de_reals :: "double \<Rightarrow> nat \<Rightarrow> double"
  de_sync :: char

definition ShareToU64 :: "demo_env \<Rightarrow> double list \<Rightarrow> int \<Rightarrow> u64 list \<Rightarrow> u64 list \<Rightarrow> (u64 list \<times> u64 list) outcome" where
  "ShareToU64 E reals precision share0 share1 =
     (if reals = [] then Inr (share0, share1)
      else let share1 = map (de_words E) [0..<length reals]
           in obind (omap (\<lambda>(r, s). obind (RealToU64 r precision) (\<lambda>x. Inr (x - s))) (zip reals share1)) (\<lambda>share0.
              Inr (share0, share1)))"

fun double_abs :: "double \<Rightarrow> double" where
  "double_abs (Finite m e) = Finite \<bar>m\<bar> e"
| "double_abs Nonfinite = Nonfinite"

definition RandomReal :: "demo_env \<Rightarrow> nat \<Rightarrow> double \<Rightarrow> double list" where
  "RandomReal E n upper = map (de_reals E (double_abs upper)) [0..<n]"

section \<open>The two programs\<close>

text \<open>What \<open>api_demo_netio\<close> returns, with the error the holder of the vector prints.\<close>

type_synonym demo_end = "int \<times> int option"

definition or_abort :: "'a outcome \<Rightarrow> ('a \<Rightarrow> demo_end io) \<Rightarrow> demo_end io" where
  "or_abort r k = (case r of Inl e \<Rightarrow> Abort e | Inr x \<Rightarrow> k x)"

text \<open>A call of the api: an error status ends the program, an exception is not caught.\<close>

definition api_status :: "'a outcome \<Rightarrow> ('a \<Rightarrow> demo_end io) \<Rightarrow> demo_end io" where
  "api_status r k = (case r of Inl (Failed c m) \<Rightarrow> Exit (- 1, None) | Inl e \<Rightarrow> Abort e | Inr x \<Rightarrow> k x)"

record demo_inputs =
  di_mat :: "u64 list"
  di_v0 :: "u64 list"
  di_v1 :: "u64 list"
  di_gnd :: "u64 list"

definition ground_truth_row :: "nat \<Rightarrow> u64 list \<Rightarrow> u64 list \<Rightarrow> u64 list \<Rightarrow> nat \<Rightarrow> u64" where
  "ground_truth_row ncols mat v0 v1 r = fold (\<lambda>c acc. acc + (v0 ! c + v1 ! c) * mat ! (r * ncols + c)) [0..<ncols] 0"

definition prepare :: "demo_env \<Rightarrow> nat \<Rightarrow> nat \<Rightarrow> demo_inputs outcome" where
  "prepare E nrows ncols =
     (let real_mat = RandomReal E (nrows * ncols) (Finite 1 0); real_vec = RandomReal E ncols (Finite 1 0) in
      obind (ShareToU64 E real_vec 15 (replicate ncols 0) (replicate ncols 0)) (\<lambda>(v0, v1).
      obind (omap (\<lambda>u. RealToU64 u 20) real_mat) (\<lambda>mat_2k.
      Inr \<lparr>di_mat = mat_2k, di_v0 = v0, di_v1 = v1, di_gnd = map (ground_truth_row ncols mat_2k v0 v1) [0..<nrows]\<rparr>)))"

definition demo_meta :: "nat \<Rightarrow> nat \<Rightarrow> MVPMetaInfo" where
  "demo_meta nrows ncols = \<lparr>mi_is_transposed = False, mi_base_mod_nbits = 64, mi_nrows = nrows, mi_ncols = ncols\<rparr>"

text \<open>The holder of the matrix, from the last message to the first.\<close>

definition matrix_answer :: "demo_env \<Rightarrow> nat \<Rightarrow> nat \<Rightarrow> demo_inputs \<Rightarrow> MVPContext option \<Rightarrow> string list \<Rightarrow> demo_end io" where
  "matrix_answer E nrows ncols D rt query =
     or_abort (MatView_new (Some (di_mat D)) nrows ncols) (\<lambda>matview.
       case api_MatVec_masked (de_fpga E) (de_slot E) rt matview (di_v1 D) query (demo_meta nrows ncols) (VecBuffer_new nrows)
              \<lparr>cp_prng = None, cp_bytes_gen = 0, cp_created = 0\<rparr> of
         (status, output, _) \<Rightarrow> api_status status (\<lambda>response.
           send_strings response (Flush (
           Send (concat (map le64 (take nrows (vb_data (the output))))) (Flush (Exit (0, None)))))))"

definition matrix_setup :: "demo_env \<Rightarrow> nat \<Rightarrow> nat \<Rightarrow> demo_inputs \<Rightarrow> MVPContext \<Rightarrow> string list \<Rightarrow> demo_end io" where
  "matrix_setup E nrows ncols D rt evk =
     (case SetupEvalKey (de_fpga E) (Some rt) evk of
        (status, rt) \<Rightarrow> api_status status (\<lambda>_.
          Send [de_sync E] (Flush (recv_strings [] (matrix_answer E nrows ncols D rt)))))"

definition matrix_holder :: "demo_env \<Rightarrow> nat \<Rightarrow> nat \<Rightarrow> demo_end io" where
  "matrix_holder E nrows ncols =
     or_abort (prepare E nrows ncols) (\<lambda>D.
     or_abort (MVPContext_Create (de_seal_new E) 6) (\<lambda>rt.
       recv_strings [] (matrix_setup E nrows ncols D rt)))"

text \<open>The largest error; the absolute value of the least \<open>int64_t\<close> is undefined.\<close>

fun share_error :: "(u64 \<times> u64) list \<Rightarrow> int \<Rightarrow> int outcome" where
  "share_error [] max_err = Inr max_err"
| "share_error ((computed, gnd) # rest) max_err =
     (let e = sint (computed - gnd)
      in if e = - (2 ^ 63) then Inl (Undefined ''std::abs'') else share_error rest (max \<bar>e\<bar> max_err))"

text \<open>The holder of the vector.\<close>

definition vector_answer :: "nat \<Rightarrow> nat \<Rightarrow> demo_inputs \<Rightarrow> MVPContext \<Rightarrow> secret_key \<Rightarrow> string list \<Rightarrow> demo_end io" where
  "vector_answer nrows ncols D rt sk response =
     api_status (api_DecryptMatVec (Some rt) response (demo_meta nrows ncols) sk nrows) (\<lambda>output.
       Recv (8 * nrows) (\<lambda>bytes.
         or_abort (share_error (zip (map2 (+) output (words_of_string nrows bytes)) (di_gnd D)) 0) (\<lambda>err. Exit (0, Some err))))"

definition vector_query :: "nat \<Rightarrow> nat \<Rightarrow> demo_inputs \<Rightarrow> MVPContext \<Rightarrow> secret_key \<Rightarrow> string \<Rightarrow> demo_end io" where
  "vector_query nrows ncols D rt sk sync =
     api_status (api_Encrypt_sk (Some rt) (di_v0 D) (demo_meta nrows ncols) sk) (\<lambda>query.
       send_strings query (Flush (recv_strings [] (vector_answer nrows ncols D rt sk))))"

definition vector_holder :: "demo_env \<Rightarrow> nat \<Rightarrow> nat \<Rightarrow> demo_end io" where
  "vector_holder E nrows ncols =
     or_abort (prepare E nrows ncols) (\<lambda>D.
     or_abort (MVPContext_Create (de_seal_new E) 1) (\<lambda>rt.
     api_status (GenerateKey (Some rt) (de_key E)) (\<lambda>sk.
     api_status (DeriveEvalKey (Some rt) sk (de_key E)) (\<lambda>evk.
       send_strings evk (Flush (Recv 1 (vector_query nrows ncols D rt sk)))))))"

text \<open>
  \<open>main\<close>, with the numbers \<open>std::atoi\<close> makes of the arguments. It drops what \<open>api_demo_netio\<close> returns and returns 0
  itself; the model keeps that value, to tell how the run ended.
\<close>

definition clamped :: "int \<Rightarrow> nat" where
  "clamped n = min (max 1 (nat (n mod 2 ^ 64))) kPolyDegree"

definition demo_main :: "demo_env \<Rightarrow> int list \<Rightarrow> demo_end io" where
  "demo_main E args =
     (case args of
        [nrows, ncols, is_server] \<Rightarrow>
          if is_server \<noteq> 0 then matrix_holder E (clamped nrows) (clamped ncols) else vector_holder E (clamped nrows) (clamped ncols)
      | _ \<Rightarrow> Exit (1, None))"

section \<open>Lengths of what the api returns\<close>

lemma DeriveEvalKey_one: "DeriveEvalKey rt sk i = Inr evk \<Longrightarrow> length evk = 1"
  by (auto simp: DeriveEvalKey_def no_context_def EncodeEvalKey_def Let_def outcome_simps split: option.splits)

lemma CeilDiv_le: "0 < a \<Longrightarrow> CeilDiv a b \<le> a"
proof (cases "b = 0")
  case False
  assume a: "0 < a"
  have "(a + b + (2 ^ 64 - 1)) mod 2 ^ 64 = (a + b - 1 + 2 ^ 64) mod 2 ^ 64" using a by (intro arg_cong [where f = "\<lambda>x. x mod 2 ^ 64"]) simp
  then have "CeilDiv a b = (a + b - 1) mod 2 ^ 64 div b" by (simp add: CeilDiv_def)
  also have "\<dots> \<le> (a + b - 1) div b" by (intro div_le_mono) simp
  also have "\<dots> \<le> a"
  proof -
    have "a + b - 1 < Suc a * b" using a False by (cases a; cases b) simp_all
    then show ?thesis using False by (simp add: less_mult_imp_div_less flip: less_Suc_eq_le)
  qed
  finally show ?thesis .
qed (simp add: CeilDiv_def)

lemma api_Encrypt_length:
  assumes "api_Encrypt_sk rt v meta sk = Inr query"
  shows "length query \<le> length v"
proof -
  obtain I where I: "EncryptVector I v (Enc_secret sk) = Inr query"
    using assms by (auto simp: api_Encrypt_sk_def null_context_def outcome_simps split: option.splits)
  then obtain polys where v: "v \<noteq> []" and polys: "pub_EncodeVector I v (MVP_VERSION \<noteq> ''1.2.0'') (IsUseExtraPrime I) = Inr polys"
    and out: "omap (\<lambda>(idx, pt). EncryptPoly I (Enc_secret sk) idx pt (MVP_VERSION \<noteq> ''1.2.0'')) (enumerate 0 polys) = Inr query"
    by (auto simp: EncryptVector_def Let_def outcome_simps split: if_splits)
  obtain w f where "omap f (subvectors w v) = Inr polys"
    using polys by (auto simp: pub_EncodeVector_def outcome_simps split: if_splits)
  then show ?thesis using omap_length [OF out] omap_length [of f "subvectors w v" polys] CeilDiv_le [of "length v" w] v
    by (simp add: subvectors_length)
qed

text \<open>The buffer of the share keeps its length, whatever happens.\<close>

lemma RandomVector_wf: "vb_wf b \<Longrightarrow> RandomVector I m b s = (r, m', b', s') \<Longrightarrow> vb_wf b' \<and> vb_len b' = vb_len b"
  by (auto simp: RandomVector_def Let_def vb_wf_def ModulusDownRNS_def outcome_simps split: if_splits sum.splits prod.splits)

lemma sample_mask_wf:
  assumes "vb_wf b" "sample_mask_program I (Some b) s = (r, m, out, s')"
  shows "\<exists>b'. out = Some b' \<and> vb_wf b' \<and> vb_len b' = vb_len b"
  using assms
  by (auto simp: sample_mask_program_def Let_def split: if_splits prod.splits sum.splits dest: RandomVector_wf)
     (auto simp: vb_wf_def)

lemma masked_output_wf:
  assumes "vb_wf b" "api_MatVec_masked E i rt mat v query meta b s = (r, out, s')"
  shows "\<exists>b'. out = Some b' \<and> vb_wf b' \<and> vb_len b' = vb_len b"
  using assms
  by (auto simp: api_MatVec_masked_def with_impl_def priv_MatVec_def matvec_with_def
      split: option.splits if_splits sum.splits prod.splits dest: sample_mask_wf)

lemma masked_response_one:
  assumes "api_MatVec_masked E i rt mat v query meta b s = (Inr response, out, s')"
  shows "length response = 1"
proof -
  have "\<exists>I m p ct. finish_product I m p ct = Inr response"
    using assms by (auto simp: api_MatVec_masked_def with_impl_def priv_MatVec_def matvec_with_def outcome_simps
      split: option.splits if_splits sum.splits prod.splits)
  then show ?thesis by (auto simp: finish_product_def outcome_simps)
qed

section \<open>How the demo ends\<close>

definition returned :: "int \<Rightarrow> demo_end io \<Rightarrow> bool" where
  "returned v p \<longleftrightarrow> (\<exists>e. p = Exit (v, e))"

definition broken :: "demo_end io \<Rightarrow> bool" where
  "broken p \<longleftrightarrow> returned (- 1) p \<or> (\<exists>f. p = Abort f)"

definition waits :: "demo_end io \<Rightarrow> bool" where
  "waits p \<longleftrightarrow> (\<exists>n k. p = Recv n k)"

text \<open>What the number is that the holder of the vector prints.\<close>

definition error_of_shares :: "demo_env \<Rightarrow> nat \<Rightarrow> nat \<Rightarrow> int \<Rightarrow> bool" where
  "error_of_shares E nrows ncols err \<longleftrightarrow> (\<exists>D rt sk evk query query' ctx mat response kept output s'.
     prepare E nrows ncols = Inr D \<and> MVPContext_Create (de_seal_new E) 1 = Inr rt \<and>
     GenerateKey (Some rt) (de_key E) = Inr sk \<and> DeriveEvalKey (Some rt) sk (de_key E) = Inr evk \<and>
     api_Encrypt_sk (Some rt) (di_v0 D) (demo_meta nrows ncols) sk = Inr query \<and> query' = map sent_as query \<and>
     MatView_new (Some (di_mat D)) nrows ncols = Inr mat \<and>
     api_MatVec_masked (de_fpga E) (de_slot E) ctx mat (di_v1 D) query' (demo_meta nrows ncols) (VecBuffer_new nrows)
       \<lparr>cp_prng = None, cp_bytes_gen = 0, cp_created = 0\<rparr> = (Inr response, Some kept, s') \<and>
     api_DecryptMatVec (Some rt) (map sent_as response) (demo_meta nrows ncols) sk nrows = Inr output \<and>
     share_error (zip (map2 (+) output (vb_data kept)) (di_gnd D)) 0 = Inr err)"

text \<open>The holder of the matrix has answered: the product was computed.\<close>

definition answered :: "demo_env \<Rightarrow> nat \<Rightarrow> nat \<Rightarrow> demo_end io \<Rightarrow> bool" where
  "answered E nrows ncols matrix \<longleftrightarrow> matrix = Exit (0, None) \<and> (\<exists>D ctx mat query response kept s'.
     prepare E nrows ncols = Inr D \<and> MatView_new (Some (di_mat D)) nrows ncols = Inr mat \<and>
     api_MatVec_masked (de_fpga E) (de_slot E) ctx mat (di_v1 D) query (demo_meta nrows ncols) (VecBuffer_new nrows)
       \<lparr>cp_prng = None, cp_bytes_gen = 0, cp_created = 0\<rparr> = (Inr response, kept, s'))"

definition demo_ends_well :: "demo_env \<Rightarrow> nat \<Rightarrow> nat \<Rightarrow> demo_end io \<Rightarrow> demo_end io \<Rightarrow> bool" where
  "demo_ends_well E nrows ncols vector matrix \<longleftrightarrow>
     (\<exists>err. vector = Exit (0, Some err) \<and> error_of_shares E nrows ncols err) \<and> answered E nrows ncols matrix \<or>
     broken vector \<and> (answered E nrows ncols matrix \<or> broken matrix \<or> waits matrix) \<or>
     broken matrix \<and> waits vector"

text \<open>A program that has failed is at its end. The two ways of a call, for a property of the program that makes it.\<close>

definition dead :: "demo_end io \<Rightarrow> bool" where
  "dead p \<longleftrightarrow> broken p \<and> (\<forall>y. ended p False y)"

lemma api_status_split:
  assumes "\<And>x. r = Inr x \<Longrightarrow> Q (k x)" "\<And>p. dead p \<Longrightarrow> Q p"
  shows "Q (api_status r k)"
proof (cases r)
  case (Inl e)
  then have "dead (api_status r k)" by (cases e) (auto simp: api_status_def dead_def broken_def returned_def)
  then show ?thesis by (rule assms(2))
qed (simp add: assms(1) api_status_def)

lemma or_abort_split:
  assumes "\<And>x. r = Inr x \<Longrightarrow> Q (k x)" "\<And>p. dead p \<Longrightarrow> Q p"
  shows "Q (or_abort r k)"
  using assms by (cases r) (auto simp: or_abort_def dead_def broken_def)

lemma dead_Abort [simp]: "dead (Abort f)"
  by (simp add: dead_def broken_def)

lemma recv_waits: "waits (recv_strings out k)" "ended (recv_strings out k) d []"
  by (simp_all add: waits_def recv_strings_def)

lemma ends_well_dead:
  "dead v \<Longrightarrow> answered E nrows ncols m \<or> broken m \<or> waits m \<Longrightarrow> demo_ends_well E nrows ncols v m"
  "dead m \<Longrightarrow> waits v \<or> broken v \<Longrightarrow> demo_ends_well E nrows ncols v m"
  by (auto simp: demo_ends_well_def dead_def)

lemma leads_dead:
  "dead m \<Longrightarrow> waits v \<Longrightarrow> ended v d [] \<Longrightarrow> leads v d m False x [] (demo_ends_well E nrows ncols)"
  "dead v \<Longrightarrow> waits m \<Longrightarrow> ended m d [] \<Longrightarrow> leads v False m d [] y (demo_ends_well E nrows ncols)"
  "dead v \<Longrightarrow> dead m \<Longrightarrow> leads v False m False x y (demo_ends_well E nrows ncols)"
  by (intro leads_rules(1) ends_well_dead; simp add: dead_def)+

text \<open>The last part, from the answer of the matrix side on.\<close>

lemma leads_answer:
  assumes "prepare E nrows ncols = Inr D" "MVPContext_Create (de_seal_new E) 1 = Inr rt"
    "GenerateKey (Some rt) (de_key E) = Inr sk" "DeriveEvalKey (Some rt) sk (de_key E) = Inr evk"
    "api_Encrypt_sk (Some rt) (di_v0 D) (demo_meta nrows ncols) sk = Inr query"
  shows "leads (recv_strings [] (vector_answer nrows ncols D rt sk)) False
    (matrix_answer E nrows ncols D ctx (map sent_as query)) False [] [] (demo_ends_well E nrows ncols)"
    (is "leads ?v False ?m False [] [] ?P")
  unfolding matrix_answer_def
proof (rule or_abort_split)
  let ?s0 = "\<lparr>cp_prng = None, cp_bytes_gen = 0, cp_created = 0\<rparr>"
  fix mat
  assume mat: "MatView_new (Some (di_mat D)) nrows ncols = Inr mat"
  obtain status out s' where run: "api_MatVec_masked (de_fpga E) (de_slot E) ctx mat (di_v1 D) (map sent_as query) (demo_meta nrows ncols)
      (VecBuffer_new nrows) ?s0 = (status, out, s')" by (metis prod_cases3)
  obtain kept where kept: "out = Some kept" "vb_wf kept" "vb_len kept = nrows"
    using masked_output_wf [OF _ run] VecBuffer_new_wf [of nrows] by auto
  define W where "W = concat (map le64 (vb_data kept))"
  have W: "concat (map le64 (take nrows (vb_data (the out)))) = W" "length W = 8 * nrows" "words_of_string nrows W = vb_data kept"
    using kept by (simp_all add: W_def length_words vb_wf_def words_return)
  let ?rest = "Flush (Send W (Flush (Exit (0, None) :: demo_end io)))"
  show "leads ?v False (case api_MatVec_masked (de_fpga E) (de_slot E) ctx mat (di_v1 D) (map sent_as query) (demo_meta nrows ncols)
      (VecBuffer_new nrows) ?s0 of (status, output, _) \<Rightarrow> api_status status (\<lambda>response.
        send_strings response (Flush (Send (concat (map le64 (take nrows (vb_data (the output))))) (Flush (Exit (0, None))))))) False [] [] ?P"
    unfolding run prod.case W(1)
  proof (rule api_status_split)
    fix response
    assume ok: "status = Inr response"
    have finished: "answered E nrows ncols (Exit (0, None))"
      unfolding answered_def using assms(1) mat run [unfolded ok] by blast
    have sends_on: "leads p False ?rest True x y ?P" if "dead p" for p x y
      using that finished by (intro leads_rules(5,3,1) ends_well_dead(1)) (auto simp: dead_def)
    show "leads ?v False (send_strings response ?rest) False [] [] ?P"
    proof (rule leads_strings_back)
      show "length response < 2 ^ 32" using masked_response_one run ok by fastforce
      show "leads (vector_answer nrows ncols D rt sk (map sent_as response)) False ?rest True [] [] ?P"
        unfolding vector_answer_def
      proof (rule api_status_split)
        fix out0
        assume dec: "api_DecryptMatVec (Some rt) (map sent_as response) (demo_meta nrows ncols) sk nrows = Inr out0"
        let ?check = "\<lambda>bytes. or_abort (share_error (zip (map2 (+) out0 (words_of_string nrows bytes)) (di_gnd D)) 0) (\<lambda>err. Exit (0, Some err))"
        have "leads (?check W) False (Flush (Exit (0, None))) True [] [] ?P"
        proof (rule or_abort_split)
          fix err
          assume "share_error (zip (map2 (+) out0 (words_of_string nrows W)) (di_gnd D)) 0 = Inr err"
          then have "error_of_shares E nrows ncols err"
            unfolding error_of_shares_def W(3) using assms mat run [unfolded ok kept(1)] dec by blast
          then show "leads (Exit (0, Some err)) False (Flush (Exit (0, None))) True [] [] ?P"
            using finished by (intro leads_rules(5,1)) (auto simp: demo_ends_well_def)
        qed (intro leads_rules(5,1) ends_well_dead(1); simp add: finished dead_def)
        then have "leads (Recv (8 * nrows) ?check) False (Flush (Exit (0, None))) True [] ([] @ W) ?P"
          using leads_Recv1 [of ?check W "Flush (Exit (0, None))" True "[]" "[]" ?P "8 * nrows" False] W(2)
          by simp
        then show "leads (Recv (8 * nrows) ?check) False ?rest True [] [] ?P" by (rule leads_rules(5) [OF leads_rules(3)])
      qed (rule sends_on)
    qed (rule sends_on, simp)
  qed (rule leads_dead(1), simp_all add: recv_waits)
qed (rule leads_dead(1), simp_all add: recv_waits)

lemma leads_query:
  assumes "prepare E nrows ncols = Inr D" "MVPContext_Create (de_seal_new E) 1 = Inr rt" "0 < ncols" "ncols \<le> 4096"
    "GenerateKey (Some rt) (de_key E) = Inr sk" "DeriveEvalKey (Some rt) sk (de_key E) = Inr evk"
  shows "leads (vector_query nrows ncols D rt sk sync) False
    (recv_strings [] (matrix_answer E nrows ncols D ctx)) False [] [] (demo_ends_well E nrows ncols)"
  unfolding vector_query_def
proof (rule api_status_split)
  fix query
  assume q: "api_Encrypt_sk (Some rt) (di_v0 D) (demo_meta nrows ncols) sk = Inr query"
  have "length (di_v0 D) = ncols"
    using assms(1,3) by (auto simp: prepare_def ShareToU64_def RandomReal_def Let_def outcome_simps dest: omap_length)
  then have "length query < 2 ^ 32" using api_Encrypt_length [OF q] assms(4) by simp
  then show "leads (send_strings query (Flush (recv_strings [] (vector_answer nrows ncols D rt sk)))) False
      (recv_strings [] (matrix_answer E nrows ncols D ctx)) False [] [] (demo_ends_well E nrows ncols)"
  proof (rule leads_strings)
    show "leads (Flush (recv_strings [] (vector_answer nrows ncols D rt sk))) True
        (matrix_answer E nrows ncols D ctx (map sent_as query)) False [] [] (demo_ends_well E nrows ncols)"
      by (intro leads_rules(4) leads_answer [OF assms(1,2,5,6) q])
    show "leads (Flush (recv_strings [] (vector_answer nrows ncols D rt sk))) True (Abort f) False x [] (demo_ends_well E nrows ncols)" for f x
      by (intro leads_rules(4) leads_dead(1)) (simp_all add: recv_waits)
  qed
qed (rule leads_dead(2), simp_all add: recv_waits)

lemma leads_setup:
  assumes "prepare E nrows ncols = Inr D" "MVPContext_Create (de_seal_new E) 1 = Inr rt" "0 < ncols" "ncols \<le> 4096"
    "GenerateKey (Some rt) (de_key E) = Inr sk" "DeriveEvalKey (Some rt) sk (de_key E) = Inr evk"
  shows "leads (Flush (Recv 1 (vector_query nrows ncols D rt sk))) True
    (matrix_setup E nrows ncols D ctx evk') False [] [] (demo_ends_well E nrows ncols)"
proof -
  obtain status ctx' where up: "SetupEvalKey (de_fpga E) (Some ctx) evk' = (status, ctx')" by fastforce
  show ?thesis
    unfolding matrix_setup_def up prod.case
  proof (rule api_status_split)
    let ?query = "vector_query nrows ncols D rt sk" and ?answer = "recv_strings [] (matrix_answer E nrows ncols D ctx')"
    have "leads (?query [de_sync E]) False ?answer False [] [] (demo_ends_well E nrows ncols)"
      by (rule leads_query) (fact assms)+
    then have "leads (Recv 1 ?query) False ?answer False [] [de_sync E] (demo_ends_well E nrows ncols)"
      using leads_Recv1 [of ?query "[de_sync E]" ?answer False "[]" "[]" _ 1] by simp
    then show "leads (Flush (Recv 1 ?query)) True (Send [de_sync E] (Flush ?answer)) False [] [] (demo_ends_well E nrows ncols)"
      by (intro leads_rules(4,3,5)) simp
  qed (intro leads_rules(4) leads_dead(1); simp add: waits_def)
qed

lemma leads_send_strings:
  assumes "\<And>x. leads k True q e x y P"
  shows "leads (send_strings strs k) d q e x y P"
  unfolding send_strings_def Let_def using assms by (intro leads_rules(2)) (simp add: leads_send_each)

lemma leads_demo:
  assumes "0 < ncols" "ncols \<le> 4096"
  shows "leads (vector_holder E nrows ncols) False (matrix_holder E nrows ncols) False [] [] (demo_ends_well E nrows ncols)"
proof (cases "prepare E nrows ncols")
  case (Inl f)
  then show ?thesis by (simp add: vector_holder_def matrix_holder_def or_abort_def leads_dead(3))
next
  case D: (Inr D)
  let ?P = "demo_ends_well E nrows ncols"
  have v: "vector_holder E nrows ncols = or_abort (MVPContext_Create (de_seal_new E) 1) (\<lambda>rt.
       api_status (GenerateKey (Some rt) (de_key E)) (\<lambda>sk. api_status (DeriveEvalKey (Some rt) sk (de_key E)) (\<lambda>evk.
       send_strings evk (Flush (Recv 1 (vector_query nrows ncols D rt sk))))))"
    by (simp add: vector_holder_def or_abort_def D)
  have m: "matrix_holder E nrows ncols = or_abort (MVPContext_Create (de_seal_new E) 6) (\<lambda>ctx. recv_strings [] (matrix_setup E nrows ncols D ctx))"
    by (simp add: matrix_holder_def or_abort_def D)
  show ?thesis
    unfolding m
  proof (rule or_abort_split)
    fix ctx
    show "leads (vector_holder E nrows ncols) False (recv_strings [] (matrix_setup E nrows ncols D ctx)) False [] [] ?P"
      unfolding v
    proof (rule or_abort_split, rule api_status_split, rule api_status_split)
      fix rt sk evk
      assume keys: "MVPContext_Create (de_seal_new E) 1 = Inr rt" "GenerateKey (Some rt) (de_key E) = Inr sk"
        "DeriveEvalKey (Some rt) sk (de_key E) = Inr evk"
      show "leads (send_strings evk (Flush (Recv 1 (vector_query nrows ncols D rt sk)))) False
          (recv_strings [] (matrix_setup E nrows ncols D ctx)) False [] [] ?P"
      proof (rule leads_strings)
        show "length evk < 2 ^ 32" using DeriveEvalKey_one [OF keys(3)] by simp
        show "leads (Flush (Recv 1 (vector_query nrows ncols D rt sk))) True (matrix_setup E nrows ncols D ctx (map sent_as evk)) False [] [] ?P"
          by (rule leads_setup) (fact D assms keys)+
        show "leads (Flush (Recv 1 (vector_query nrows ncols D rt sk))) True (Abort f) False x [] ?P" for f x
          by (intro leads_rules(4) leads_dead(1)) (simp_all add: waits_def)
      qed
    qed (rule leads_dead(2); simp add: recv_waits)+
  next
    fix q
    assume q: "dead q"
    show "leads (vector_holder E nrows ncols) False q False [] [] ?P"
      unfolding v
    proof (rule or_abort_split, rule api_status_split, rule api_status_split)
      fix rt sk evk
      show "leads (send_strings evk (Flush (Recv 1 (vector_query nrows ncols D rt sk)))) False q False [] [] ?P"
        by (intro leads_send_strings leads_rules(4) leads_dead(1)) (simp_all add: waits_def q)
    qed (rule leads_dead(3); simp add: q)+
  qed
qed

text \<open>
  C14. The two-party demo never deadlocks: for every card, SEAL library and shape of the matrix, in whatever order the two
  programs act and buffers are handed over, every run ends, and then either both have returned 0, or one of them has failed
  (it returned -1 or was aborted by an exception); only the other one of a program that has failed waits for ever. When the
  holder of the vector prints an error, it is the largest deviation of the sum of the two shares of the product, its own
  decrypted one and the one the holder of the matrix has kept, from the product computed in the clear.
\<close>

theorem demo_never_deadlocks:
  "always_ends (demo_main E [n, m, 0]) (demo_main E [n, m, 1]) (demo_ends_well E (clamped n) (clamped m))"
proof -
  have "0 < clamped m" "clamped m \<le> 4096" by (simp_all add: clamped_def kPolyDegree_def)
  then show ?thesis by (simp add: demo_main_def leads_demo leads_always_ends)
qed

lemma always_ends_mono: "always_ends p q P \<Longrightarrow> (\<And>v m. P v m \<Longrightarrow> Q v m) \<Longrightarrow> always_ends p q Q"
  by (auto simp: always_ends_def)

lemma one_row_no_answer: "api_MatVec_masked E i rt mat v query (demo_meta 1 ncols) b s \<noteq> (Inr response, kept, s')"
proof -
  have "MVPPrivImpl_new (demo_meta 1 ncols) h L \<noteq> Inr I" for h L I
    by (simp add: MVPPrivImpl_new_def priv_check_config_def demo_meta_def Let_def)
  then show ?thesis by (auto simp: api_MatVec_masked_def with_impl_def split: option.splits if_splits sum.splits)
qed

lemma one_row_fails: "\<not> answered E 1 ncols matrix"
  unfolding answered_def using one_row_no_answer by simp

text \<open>
  C28. One row is accepted by the demo and cannot be multiplied: \<open>main\<close> lets every number of rows below two pass as one row,
  the class of the matrix side refuses it with an exception, and so in no run does the holder of the matrix return 0;
  in every one it is aborted or has failed while the holder of the vector waits for ever or has failed, or it waits for
  ever for a holder of the vector that has failed.
\<close>

theorem demo_one_row:
  assumes "n \<in> {0, 1}"
  shows "always_ends (demo_main E [n, m, 0]) (demo_main E [n, m, 1])
    (\<lambda>vector matrix. \<not> returned 0 matrix \<and> (broken matrix \<and> (waits vector \<or> broken vector) \<or> broken vector \<and> waits matrix))"
proof (rule always_ends_mono)
  have "0 < clamped m" "clamped m \<le> 4096" by (simp_all add: clamped_def kPolyDegree_def)
  then show "always_ends (demo_main E [n, m, 0]) (demo_main E [n, m, 1]) (demo_ends_well E (clamped n) (clamped m))"
    by (simp add: demo_main_def leads_demo leads_always_ends)
  have one: "clamped n = 1" using assms by (auto simp: clamped_def kPolyDegree_def)
  fix v q
  assume "demo_ends_well E (clamped n) (clamped m) v q"
  then show "\<not> returned 0 q \<and> (broken q \<and> (waits v \<or> broken v) \<or> broken v \<and> waits q)"
    using one_row_fails unfolding one demo_ends_well_def by (auto simp: broken_def returned_def waits_def)
qed

definition demo_ref :: demo_env where
  "demo_ref = \<lparr>de_seal_new = (\<lambda>_ _ _. Inr (lib_keys gk_ones)), de_fpga = env_ref 1 3, de_slot = 0, de_key = 0,
     de_words = (\<lambda>i. of_nat i), de_reals = (\<lambda>upper i. Finite (int i) (- 10)), de_sync = CHR 0x00\<rparr>"

theorem demo_one_row_witness:
  "always_ends (demo_main demo_ref [1, 5, 0]) (demo_main demo_ref [1, 5, 1])
    (\<lambda>vector matrix. \<not> returned 0 matrix \<and> (broken matrix \<and> (waits vector \<or> broken vector) \<or> broken vector \<and> waits matrix))"
  by (rule demo_one_row) simp

end
