(* ===== verification/Spec2Isabelle.thy ===== *)
theory Spec2Isabelle
  imports MaskCorrect Keys Pool Semaphores Jobs SlotfulTransforms WrapperJoin SwitchKeyPhase HandOver CliCorrect RootMath TwoParty
begin

text \<open>
  A verification development for the matrix-vector product SDK of CHAM (\<open>src/mvp_sdk\<close>), a two-party protocol
  over an FPGA: one party encrypts a vector of 64-bit shares, the other multiplies it by its matrix on the card,
  masks the product, and both keep additive shares of the result modulo \<open>2 ^ 64\<close>.

  \<^bold>\<open>The program and its theories.\<close> All paths are below \<open>src/mvp_sdk/include/mvp_public\<close> unless they start with \<open>src\<close>.

  \<^item> \<open>Prelude\<close>: machine words, lists, blocks of a list, and the type \<open>outcome\<close> in which every fallible operation
    answers: a value, or a failure that is a status (\<open>GM_REQUIRES\<close>), an exception, or an access C++ leaves undefined.
    \<open>Status\<close>: \<open>status.h\<close>, \<open>status.cc\<close>, \<open>errors.h\<close>.
  \<^item> \<open>MathUtil\<close> and \<open>RootMath\<close> (\<open>util/math.h\<close>: integers, and roots through floating-point numbers), \<open>Shapes\<close> (\<open>util/common.cc\<close>, \<open>util/defines.h\<close>: submatrix shapes), \<open>Views\<close> (\<open>types.h\<close>).
  \<^item> \<open>SealApi\<close>: the arithmetic and the contexts of Microsoft SEAL, which is not part of the repository. Its functions
    are fields of records (\<open>seal_arith\<close>, \<open>seal_context\<close>, \<open>seal_runtime\<close>, \<open>seal_lib\<close>), their documented contracts the
    predicates \<open>seal_arith_ok\<close>, \<open>seal_context_ok\<close>, \<open>ntt_ok\<close>, \<open>lib_ok\<close>; \<open>seal_ref\<close>, \<open>rt_ref\<close>, \<open>lib_ref\<close> are instances
    on which every witness is evaluated.
  \<^item> \<open>Scaling\<close> and \<open>ModSwitch\<close> (\<open>mod_switch.h\<close>, \<open>mod_switch.cc\<close>): shares modulo \<open>2 ^ k\<close> scaled up to residues modulo the
    coefficient moduli and back. The locale \<open>share_scaling\<close> states rounding once for integers.
  \<^item> \<open>Ring\<close> (\<open>internal.cc\<close>, \<open>util/slotful_ntt.h\<close>): transforms, addition of ciphertexts and plaintexts, decryption.
  \<^item> \<open>Fpga\<close> (\<open>F3/mvp_fpga_lib.h\<close>, \<open>F3/mvp_fpga_reg.h\<close>, \<open>fpga_handler.cc\<close>): the driver as the list of its DMA and register
    operations; what the device answers is the environment \<open>fpga_env\<close>. \<open>Semaphores\<close>: the POSIX semaphores of the
    driver as a step relation on any number of processes.
  \<^item> \<open>Stream\<close> (\<open>util/istringviewstream.h\<close>), \<open>Context\<close> (\<open>mvp_context.h\<close>, \<open>mvp_context.cc\<close>), \<open>Keys\<close> (\<open>api_impl.cc\<close>).
  \<^item> \<open>Public\<close>, with \<open>PublicCorrect\<close> and \<open>DecryptCorrect\<close> (\<open>mvp_impl.cc\<close>): the vector side: encrypt, add, update, decrypt.
  \<^item> \<open>Transpose\<close>, \<open>Layout\<close>, \<open>Private\<close>, \<open>MatVec\<close>, with \<open>PrivateCorrect\<close>, \<open>MaskCorrect\<close>, \<open>Jobs\<close>, \<open>EncodeCorrect\<close> and \<open>HandOver\<close>
    (\<open>mvp_priv_impl.cc\<close>): the matrix side: packing, encoding with and without worker threads, the call of the card, masking, clearing.
  \<^item> \<open>Pool\<close> (\<open>util/ThreadPool.h\<close>): workers, queue and condition variable as a step relation.
  \<^item> \<open>SlotfulNtt\<close>, with \<open>SlotfulCorrect\<close>, \<open>SlotfulRoots\<close> and \<open>SlotfulTransforms\<close> (\<open>util/slotful_ntt.cc\<close>): the negacyclic
    transforms with lazy reduction, pointer loops and unrolling included, and what they compute on words and modulo the prime.
  \<^item> \<open>Doubles\<close>, \<open>Framing\<close>, \<open>Wrapper\<close>, with \<open>WrapperCorrect\<close> and \<open>WrapperJoin\<close> (\<open>src/mvp_sdk/python/wrapper.cc\<close>, \<open>wrapper.h\<close>):
    the Python module: fixed-point conversion, the string format of a product, the client class that cuts vectors and
    matrices into blocks, and pickling.
  \<^item> \<open>SwitchKey\<close>, with \<open>SwitchKeyCorrect\<close> and \<open>SwitchKeyPhase\<close> (\<open>util/seal.cc\<close>): the SDK's own Galois automorphism,
    key switch and division by the special prime, with 128-bit lazy accumulation.
  \<^item> \<open>KeyFile\<close>, \<open>Cli\<close>, with \<open>CliCorrect\<close> (\<open>src/mvp_sdk/cli/mvp_cli.cc\<close>): the command line tool: the file of the
    evaluation keys, the commands that make keys and check a random product, printing in the default format of streams.
  \<^item> \<open>NetIO\<close>, \<open>TwoParty\<close> (\<open>src/mvp_sdk/api_examples/demo_common.h\<close>, \<open>demo_end_to_end.cc\<close>): the two-party demo: both
    programs as resumptions that send and receive, their network as a step relation with buffers, and how every run ends.

  \<^bold>\<open>State and operations.\<close> A class is a record of its fields (\<open>MVPContext\<close>, \<open>MVPPublicImpl\<close>, \<open>MVPPrivImpl\<close>,
  \<open>ModulusSwitchHelper\<close>, \<open>VecBuffer\<close>), a method a definition of its name that returns the new object beside its
  outcome where it writes to it; two methods of one name carry the prefix \<open>pub_\<close> or \<open>priv_\<close>, functions of
  \<open>namespace api\<close> the prefix \<open>api_\<close> where a method has the name. \<open>std::vector\<close> and spans are lists, \<open>uint64_t\<close> is
  \<open>64 word\<close>, \<open>size_t\<close> a natural number with the wrap-around written where the code relies on it. \<open>Undefined\<close> marks the end
  of what the model says of a run: an access or operation that C++ leaves undefined, a call that ends the process, a
  stack unwound while tasks still use it. No property draws a guarantee for the program from it. The conversion of
  a double that does not fit to an unsigned word, which the command line tool does for half of its random numbers, is a
  parameter of its environment instead (\<open>ce_cast\<close>).

  \<^bold>\<open>What the lemmas show.\<close> Rounding and noise bounds of the modulus switch, its round trip, and that it splits
  masked values; what ciphertexts decrypt to after each operation, and for the seed-compressed ciphertexts of the
  key level, which the checked decryption refuses, the phase of what the loader makes of them; the placement of the rows and the order in
  which the card receives the blocks; that what
  \<open>MatVec\<close> hands to the card computes dot products modulo every prime; register values and memory areas
  of the driver, whose slots are those of the constants in \<open>F3/mvp_fpga_reg.h\<close> (512 MiB from base to base; a comment in
  \<open>KernelRun\<close> gives other bases and 1.75 GB); mutual exclusion and its failures; the order of tasks in the thread pool and that it does not matter for
  the results, with the failure that unwinds a function whose tasks still run; what fails and what it
  leaves behind; that the tool reads back the keys it has stored; that the two parties
  never deadlock. Behaviour that looks unintended is proved as the code has it.

  \<^bold>\<open>Loops and bounds.\<close> Loops over ranges are structural recursion or folds; the cycles of \<open>TransposeInplace\<close> and the
  polls of the driver carry fuel (the number of positions left, and the bound of the loop itself), with lemmas that
  it is enough; the rejection loop of \<open>RandomVector\<close> is a partial function, whose return is a theorem.

  \<^bold>\<open>Not modelled.\<close> The arithmetic of the card (the RTL is in other languages), SEAL itself and its stream formats, logging, timers, the vendored argument parser
  (\<open>src/mvp_sdk/cli/argparse.hpp\<close>), the other examples and the tests, the sockets of the demo, the declarations that bind the Python module.
\<close>

end
